(* ===== verification/Ffrt_Prelude.thy ===== *)
theory Ffrt_Prelude
  imports Main "HOL-Library.Word" "HOL-Library.Multiset"
begin

text \<open>
  Shared vocabulary of the development: the Rust types the crate uses everywhere
  (\<open>Poll\<close>, \<open>Waker\<close>, \<open>u64\<close>, \<open>usize\<close>), the standard-library operations on them, and the
  facts about lists and words that the component theories need.

  \<^item> A waker is a natural number naming the task it wakes; \<open>Waker::will_wake\<close> is equality.
  \<^item> \<open>u64\<close> counters that the code wraps explicitly are 64-bit words.
  \<^item> \<open>usize\<close> quantities are natural numbers; a subtraction or addition that the code checks
    (or that Rust checks for it) is written with its failure branch.
  \<^item> A panic is \<open>Inl\<close> of its message.
  \<^item> An operation that may call \<open>Waker::wake\<close> returns the list of wakers it woke, in order.
\<close>

section \<open>Types\<close>

type_synonym waker = nat
type_synonym u64 = "64 word"
type_synonym u32 = "32 word"
type_synonym 'a panicky = "string + 'a"

datatype 'a poll = Pending | Ready 'a

text \<open>Definitions unfolded by the component proofs are collected here.\<close>

named_theorems ops

section \<open>Standard library operations\<close>

definition will_wake :: "waker \<Rightarrow> waker \<Rightarrow> bool" where
  [ops]: "will_wake a b \<longleftrightarrow> a = b"

definition usize_max :: nat where
  "usize_max = 18446744073709551615"

definition usize_checked_add :: "nat \<Rightarrow> nat \<Rightarrow> nat option" where
  "usize_checked_add a b = (if a + b \<le> usize_max then Some (a + b) else None)"

definition usize_sub :: "nat \<Rightarrow> nat \<Rightarrow> nat panicky" where
  "usize_sub a b = (if b \<le> a then Inr (a - b) else Inl ''attempt to subtract with overflow'')"

definition usize_add :: "nat \<Rightarrow> nat \<Rightarrow> nat panicky" where
  "usize_add a b = (if a + b \<le> usize_max then Inr (a + b) else Inl ''attempt to add with overflow'')"

text \<open>The slice \<open>&xs[start..stop]\<close>.\<close>

definition slice_range :: "'a list \<Rightarrow> nat \<Rightarrow> nat \<Rightarrow> 'a list panicky" where
  "slice_range xs start stop =
     (if start \<le> stop \<and> stop \<le> length xs then Inr (take (stop - start) (drop start xs))
      else Inl ''range index out of range for slice'')"

text \<open>\<open>Iterator::position\<close> and \<open>VecDeque::remove\<close>.\<close>

fun position :: "('a \<Rightarrow> bool) \<Rightarrow> 'a list \<Rightarrow> nat option" where
  "position P [] = None"
| "position P (x # xs) = (if P x then Some 0 else map_option Suc (position P xs))"

definition remove_at :: "nat \<Rightarrow> 'a list \<Rightarrow> 'a list" where
  "remove_at i xs = take i xs @ drop (Suc i) xs"

text \<open>An \<open>Option\<close> seen as the list of its elements.\<close>

fun olist :: "'a option \<Rightarrow> 'a list" where
  "olist None = []"
| "olist (Some x) = [x]"

text \<open>\<open>counter.wrapping_add(1).max(1)\<close>: the successor that skips zero.\<close>

definition next_id :: "u64 \<Rightarrow> u64" where
  "next_id n = max (n + 1) 1"

section \<open>Facts about them\<close>

lemma position_None [simp]: "position P xs = None \<longleftrightarrow> (\<forall>x\<in>set xs. \<not> P x)"
  by (induction xs) auto

lemma position_SomeD:
  "position P xs = Some i \<Longrightarrow> i < length xs \<and> P (xs ! i) \<and> (\<forall>j<i. \<not> P (xs ! j))"
proof (induction xs arbitrary: i)
  case Nil
  then show ?case by simp
next
  case (Cons x xs)
  then show ?case
    by (cases i) (auto split: if_splits simp: less_Suc_eq_0_disj)
qed

lemma position_Some_length: "position P xs = Some i \<Longrightarrow> i < length xs"
  by (drule position_SomeD) simp

lemma position_Some_0 [simp]: "position P xs = Some 0 \<longleftrightarrow> xs \<noteq> [] \<and> P (hd xs)"
  by (cases xs) auto

lemma position_Some_iff:
  "position P xs = Some i \<longleftrightarrow> i < length xs \<and> P (xs ! i) \<and> (\<forall>j<i. \<not> P (xs ! j))"
proof
  assume *: "i < length xs \<and> P (xs ! i) \<and> (\<forall>j<i. \<not> P (xs ! j))"
  then have "\<not> (\<forall>x\<in>set xs. \<not> P x)" using nth_mem by blast
  then obtain k where k: "position P xs = Some k"
    by (cases "position P xs") auto
  with position_SomeD [OF k] * have "k = i" by (metis linorder_neqE_nat)
  with k show "position P xs = Some i" by simp
qed (rule position_SomeD)

lemma length_remove_at: "i < length xs \<Longrightarrow> length (remove_at i xs) = length xs - 1"
  by (simp add: remove_at_def)

lemma set_remove_at_subset: "set (remove_at i xs) \<subseteq> set xs"
  unfolding remove_at_def by (auto dest: in_set_takeD in_set_dropD)

lemma map_remove_at: "map f (remove_at i xs) = remove_at i (map f xs)"
  by (simp add: remove_at_def take_map drop_map)

lemma remove_at_0 [simp]: "remove_at 0 xs = tl xs"
  by (simp add: remove_at_def drop_Suc)

lemma remove_position_filter:
  "distinct (map f xs) \<Longrightarrow>
     (case position (\<lambda>x. f x = i) xs of None \<Rightarrow> xs | Some p \<Rightarrow> remove_at p xs) = filter (\<lambda>x. f x \<noteq> i) xs"
proof (induction xs)
  case (Cons x xs)
  show ?case
  proof (cases "f x = i")
    case True
    with Cons.prems have "\<forall>y\<in>set xs. f y \<noteq> i" by (auto simp: image_iff)
    with True show ?thesis by (simp add: filter_id_conv eq_commute [of xs])
  next
    case False
    with Cons show ?thesis
      by (cases "position (\<lambda>x. f x = i) xs") (simp_all add: remove_at_def del: position_None)
  qed
qed simp

text \<open>Replacing the waker of one entry.\<close>

lemma map_update_same: "i < length xs \<Longrightarrow> f v = f (xs ! i) \<Longrightarrow> map f (xs[i := v]) = map f xs"
  by (metis list_update_id map_update)

lemma not_image_neq: "x \<notin> f ` A \<Longrightarrow> d \<in> A \<Longrightarrow> f d \<noteq> x"
  by blast

lemma set_olist [simp]: "set (olist x) = set_option x"
  by (cases x) auto

lemma olist_eq_Nil [simp]: "olist x = [] \<longleftrightarrow> x = None"
  by (cases x) auto

lemma unat_of_nat_u64: "n < 2 ^ 64 \<Longrightarrow> unat (of_nat n :: u64) = n"
  by (simp add: unat_of_nat)

lemma map_poll_Pending [simp]: "map_poll f r = Pending \<longleftrightarrow> r = Pending"
  by (cases r) auto

lemma poll_not_ok: "res \<noteq> Ready (Inr ()) \<Longrightarrow> res = Pending \<or> (\<exists>e. res = Ready (Inl e))"
  by (cases res) (auto, metis old.unit.exhaust sumE)

lemma usize_sub_Inr [simp]: "b \<le> a \<Longrightarrow> usize_sub a b = Inr (a - b)"
  by (simp add: usize_sub_def)

lemma unat_sub_of_nat: "n \<le> unat x \<Longrightarrow> unat (x - of_nat n) = unat x - n" for x :: u64
  by (simp add: unat_sub word_le_nat_alt le_unat_uoi)

text \<open>The parked tasks that are left when some wakers have been called.\<close>

definition unpark :: "(nat \<rightharpoonup> waker) \<Rightarrow> waker list \<Rightarrow> nat \<rightharpoonup> waker" where
  "unpark m ws = (\<lambda>r. case m r of None \<Rightarrow> None | Some w \<Rightarrow> if w \<in> set ws then None else Some w)"

lemma unpark_empty [simp]: "unpark Map.empty ws = Map.empty"
  by (simp add: unpark_def)

lemma unpark_Some: "unpark m ws r = Some w \<longleftrightarrow> m r = Some w \<and> w \<notin> set ws"
  by (auto simp: unpark_def split: option.splits)

end
