(* ===== verification/Waiter_Queue.thy ===== *)
theory Waiter_Queue
  imports Ffrt_Prelude "HOL-Library.Sublist"
begin

text \<open>
  The waiter protocol shared by \<open>sync/mutex.rs\<close>, \<open>sync/semaphore.rs\<close> and \<open>sync/rwlock.rs\<close>.
  Each of them keeps a FIFO of waiters with \<open>u64\<close> identifiers under an FFRT mutex, a future
  holds the identifier of its entry in a slot, polling it acquires, re-registers or enqueues, and
  dropping it removes the entry. What differs is the resource that is waited for.

  \<open>waiter_ops\<close> collects the operations of one such primitive, \<open>wq_step\<close> is one step of any
  number of tasks using it (every operation runs under the mutex, so the steps are atomic and
  their interleavings are the runs), and the locales state what a primitive promises and prove
  once what follows for all runs: the slots of the live futures and the entries of the queue
  agree, the queue is served in order, and no wakeup is lost.
\<close>

section \<open>Clients of a waiter queue\<close>

record ('s, 'w, 'k, 'o, 'g) waiter_ops =
  wq_queue :: "'s \<Rightarrow> 'w list"
  wq_id :: "'w \<Rightarrow> u64"
  wq_kind :: "'w \<Rightarrow> 'k"
  wq_waker :: "'w \<Rightarrow> waker"
  wq_next :: "'s \<Rightarrow> u64"
  wq_closed :: "'s \<Rightarrow> bool"
  wq_poll :: "'s \<Rightarrow> u64 option \<Rightarrow> 'k \<Rightarrow> waker \<Rightarrow> 's \<times> u64 option \<times> 'o poll \<times> waker list"
  wq_cancel :: "'s \<Rightarrow> u64 option \<Rightarrow> 's \<times> waker list"
  wq_grant :: "'k \<Rightarrow> 'o \<Rightarrow> 'g \<Rightarrow> 'g"
  wq_oper :: "'s \<Rightarrow> 'g \<Rightarrow> 's \<Rightarrow> 'g \<Rightarrow> waker list \<Rightarrow> bool"

text \<open>
  A system: the primitive's state, what its clients hold (guards, permits), the live futures
  with the kind of access they wait for and their slot, the futures whose task has been woken
  since they were last polled, and the number of polls so far.
\<close>

record ('s, 'k, 'g) wq_sys =
  res :: 's
  held :: 'g
  futs :: "nat \<rightharpoonup> 'k \<times> u64 option"
  woken :: "nat set"
  polls :: nat

text \<open>The futures registered with a waker of \<open>ws\<close> in the queue before or after a step.\<close>

definition wq_flagged ::
  "('s, 'w, 'k, 'o, 'g) waiter_ops \<Rightarrow> 's \<Rightarrow> 's \<Rightarrow> (nat \<rightharpoonup> 'k \<times> u64 option) \<Rightarrow> waker list \<Rightarrow> nat set" where
  "wq_flagged Q s s' fs ws =
     {f. \<exists>k i e. fs f = Some (k, Some i) \<and> e \<in> set (wq_queue Q s) \<union> set (wq_queue Q s')
               \<and> wq_id Q e = i \<and> wq_waker Q e \<in> set ws}"

inductive wq_step ::
  "('s, 'w, 'k, 'o, 'g) waiter_ops \<Rightarrow> ('s, 'k, 'g) wq_sys \<Rightarrow> ('s, 'k, 'g) wq_sys \<Rightarrow> bool"
  for Q where
  create: "futs y f = None \<Longrightarrow> wq_step Q y (y\<lparr>futs := (futs y)(f \<mapsto> (k, None))\<rparr>)"
| poll_pending: "futs y f = Some (k, slot) \<Longrightarrow>
     wq_poll Q (res y) slot k w = (s', slot', Pending, ws) \<Longrightarrow>
     fs' = (futs y)(f \<mapsto> (k, slot')) \<Longrightarrow>
     wq_step Q y (y\<lparr>res := s', futs := fs',
       woken := woken y - {f} \<union> wq_flagged Q (res y) s' fs' ws, polls := Suc (polls y)\<rparr>)"
| poll_ready: "futs y f = Some (k, slot) \<Longrightarrow>
     wq_poll Q (res y) slot k w = (s', slot', Ready v, ws) \<Longrightarrow>
     fs' = (futs y)(f := None) \<Longrightarrow>
     wq_step Q y (y\<lparr>res := s', held := wq_grant Q k v (held y), futs := fs',
       woken := woken y - {f} \<union> wq_flagged Q (res y) s' fs' ws, polls := Suc (polls y)\<rparr>)"
| drop_future: "futs y f = Some (k, slot) \<Longrightarrow>
     wq_cancel Q (res y) slot = (s', ws) \<Longrightarrow>
     fs' = (futs y)(f := None) \<Longrightarrow>
     wq_step Q y (y\<lparr>res := s', futs := fs',
       woken := woken y - {f} \<union> wq_flagged Q (res y) s' fs' ws\<rparr>)"
| other: "wq_oper Q (res y) (held y) s' g' ws \<Longrightarrow>
     wq_step Q y (y\<lparr>res := s', held := g',
       woken := woken y \<union> wq_flagged Q (res y) s' (futs y) ws\<rparr>)"

definition wq_start :: "'s \<Rightarrow> 'g \<Rightarrow> ('s, 'k, 'g) wq_sys" where
  "wq_start s g = \<lparr>res = s, held = g, futs = Map.empty, woken = {}, polls = 0\<rparr>"

inductive wq_reach ::
  "('s, 'w, 'k, 'o, 'g) waiter_ops \<Rightarrow> 's \<Rightarrow> 'g \<Rightarrow> ('s, 'k, 'g) wq_sys \<Rightarrow> bool"
  for Q s0 g0 where
  start: "wq_reach Q s0 g0 (wq_start s0 g0)"
| step: "wq_reach Q s0 g0 y \<Longrightarrow> wq_step Q y z \<Longrightarrow> wq_reach Q s0 g0 z"

text \<open>The number of polls below which \<open>u64\<close> waiter identifiers cannot have wrapped around.\<close>

abbreviation id_space :: nat where
  "id_space \<equiv> 2 ^ 64 - 1"

lemma wq_step_polls: "wq_step Q y z \<Longrightarrow> polls y \<le> polls z"
  by (induction rule: wq_step.induct) auto

text \<open>A relation between the state and what is held, kept by every operation, holds in every run.\<close>

lemma wq_reach_rel:
  assumes "wq_reach Q s0 g0 y" "R s0 g0"
    and "\<And>s g slot k w s' slot' ws. R s g \<Longrightarrow> wq_poll Q s slot k w = (s', slot', Pending, ws) \<Longrightarrow> R s' g"
    and "\<And>s g slot k w s' slot' v ws.
      R s g \<Longrightarrow> wq_poll Q s slot k w = (s', slot', Ready v, ws) \<Longrightarrow> R s' (wq_grant Q k v g)"
    and "\<And>s g slot s' ws. R s g \<Longrightarrow> wq_cancel Q s slot = (s', ws) \<Longrightarrow> R s' g"
    and "\<And>s g s' g' ws. R s g \<Longrightarrow> wq_oper Q s g s' g' ws \<Longrightarrow> R s' g'"
  shows "R (res y) (held y)"
  using assms(1)
proof (induction rule: wq_reach.induct)
  case start
  with assms(2) show ?case by (simp add: wq_start_def)
next
  case (step y z)
  from step(2,3) show ?case
    by (induction rule: wq_step.induct) (auto dest: assms(3-))
qed

text \<open>Concrete runs, built one action at a time.\<close>

definition wq_at ::
  "('s, 'w, 'k, 'o, 'g) waiter_ops \<Rightarrow> 's \<Rightarrow> 'g \<Rightarrow> 's \<Rightarrow> 'g \<Rightarrow> (nat \<rightharpoonup> 'k \<times> u64 option) \<Rightarrow> nat \<Rightarrow> bool" where
  "wq_at Q s0 g0 s g fs n \<longleftrightarrow>
     (\<exists>y. wq_reach Q s0 g0 y \<and> res y = s \<and> held y = g \<and> futs y = fs \<and> polls y = n)"

lemma wq_at_start: "wq_at Q s g s g Map.empty 0"
  unfolding wq_at_def using wq_reach.start [of Q s g] by (auto simp: wq_start_def)

lemma wq_at_step:
  assumes "wq_at Q s0 g0 s g fs n"
    and "\<And>y. res y = s \<Longrightarrow> held y = g \<Longrightarrow> futs y = fs \<Longrightarrow> polls y = n \<Longrightarrow>
      \<exists>z. wq_step Q y z \<and> res z = s' \<and> held z = g' \<and> futs z = fs' \<and> polls z = n'"
  shows "wq_at Q s0 g0 s' g' fs' n'"
proof -
  from assms(1) obtain y where y: "wq_reach Q s0 g0 y" "res y = s" "held y = g" "futs y = fs" "polls y = n"
    unfolding wq_at_def by blast
  from assms(2) [OF y(2-)] wq_reach.step [OF y(1)] show ?thesis
    unfolding wq_at_def by blast
qed

lemma wq_at_create:
  "wq_at Q s0 g0 s g fs n \<Longrightarrow> fs f = None \<Longrightarrow> wq_at Q s0 g0 s g (fs(f \<mapsto> (k, None))) n"
  by (erule wq_at_step, rule exI, rule conjI, rule wq_step.create) auto

lemma wq_at_pending:
  "wq_at Q s0 g0 s g fs n \<Longrightarrow> fs f = Some (k, slot) \<Longrightarrow>
   wq_poll Q s slot k w = (s', slot', Pending, ws) \<Longrightarrow>
   wq_at Q s0 g0 s' g (fs(f \<mapsto> (k, slot'))) (Suc n)"
  by (erule wq_at_step, rule exI, rule conjI, rule wq_step.poll_pending) auto

lemma wq_at_ready:
  "wq_at Q s0 g0 s g fs n \<Longrightarrow> fs f = Some (k, slot) \<Longrightarrow>
   wq_poll Q s slot k w = (s', slot', Ready v, ws) \<Longrightarrow>
   wq_at Q s0 g0 s' (wq_grant Q k v g) (fs(f := None)) (Suc n)"
  by (erule wq_at_step, rule exI, rule conjI, rule wq_step.poll_ready) auto

lemma wq_at_oper:
  "wq_at Q s0 g0 s g fs n \<Longrightarrow> wq_oper Q s g s' g' ws \<Longrightarrow> wq_at Q s0 g0 s' g' fs n"
  by (erule wq_at_step, rule exI, rule conjI, rule wq_step.other) auto

section \<open>Entries and slots\<close>

definition wq_ids :: "('s, 'w, 'k, 'o, 'g) waiter_ops \<Rightarrow> 's \<Rightarrow> u64 list" where
  "wq_ids Q s = map (wq_id Q) (wq_queue Q s)"

text \<open>
  The two ways of staying \<open>Pending\<close>: the entry of the future stays where it is, or the future had
  no entry and gets one at the end, under the next identifier.
\<close>

definition wq_requeued ::
  "('s, 'w, 'k, 'o, 'g) waiter_ops \<Rightarrow> 's \<Rightarrow> u64 option \<Rightarrow> 's \<Rightarrow> u64 option \<Rightarrow> bool" where
  "wq_requeued Q s slot s' slot' \<longleftrightarrow> (\<exists>i. slot = Some i \<and> slot' = Some i \<and> i \<in> set (wq_ids Q s)) \<and>
     map (wq_id Q) (wq_queue Q s') = map (wq_id Q) (wq_queue Q s) \<and>
     map (wq_kind Q) (wq_queue Q s') = map (wq_kind Q) (wq_queue Q s) \<and>
     wq_next Q s' = wq_next Q s"

definition wq_enqueued ::
  "('s, 'w, 'k, 'o, 'g) waiter_ops \<Rightarrow> 's \<Rightarrow> u64 option \<Rightarrow> 'k \<Rightarrow> 's \<Rightarrow> u64 option \<Rightarrow> bool" where
  "wq_enqueued Q s slot k s' slot' \<longleftrightarrow> (\<forall>i. slot = Some i \<longrightarrow> i \<notin> set (wq_ids Q s)) \<and>
     slot' = Some (wq_next Q s) \<and>
     (\<exists>e. wq_queue Q s' = wq_queue Q s @ [e] \<and> wq_id Q e = wq_next Q s \<and> wq_kind Q e = k) \<and>
     wq_next Q s' = next_id (wq_next Q s)"

text \<open>
  The agreement of queue and futures. Identifiers handed out so far are \<open>1, \<dots>, n\<close> and
  none of them is in use twice; the entries of the queue belong to live futures; a live future
  with a slot is queued unless the primitive has been closed.
\<close>

definition wq_slots_ok ::
  "('s, 'w, 'k, 'o, 'g) waiter_ops \<Rightarrow> nat \<Rightarrow> 's \<Rightarrow> (nat \<rightharpoonup> 'k \<times> u64 option) \<Rightarrow> bool" where
  "wq_slots_ok Q n s fs \<longleftrightarrow>
     wq_next Q s = of_nat (Suc n) \<and>
     distinct (wq_ids Q s) \<and>
     (\<forall>f k i. fs f = Some (k, Some i) \<longrightarrow> unat i \<le> n) \<and>
     (\<forall>f f' k k' i. fs f = Some (k, Some i) \<longrightarrow> fs f' = Some (k', Some i) \<longrightarrow> f = f') \<and>
     (\<forall>e\<in>set (wq_queue Q s). \<exists>f. fs f = Some (wq_kind Q e, Some (wq_id Q e))) \<and>
     (\<forall>f k i. fs f = Some (k, Some i) \<longrightarrow> \<not> wq_closed Q s \<longrightarrow> i \<in> set (wq_ids Q s))"

lemma next_id_of_nat: "Suc n < id_space \<Longrightarrow> next_id (of_nat (Suc n)) = of_nat (Suc (Suc n))"
proof -
  assume "Suc n < id_space"
  then have "unat (of_nat (Suc (Suc n)) :: u64) = Suc (Suc n)"
    by (intro unat_of_nat_u64) simp
  then have "(of_nat (Suc (Suc n)) :: u64) \<ge> 1"
    by (simp add: word_le_nat_alt)
  then show ?thesis
    by (simp add: next_id_def max_def add.commute)
qed

lemma map2_memE:
  assumes "map f xs = map f ys" "map g xs = map g ys" "x \<in> set xs"
  obtains y where "y \<in> set ys" "f y = f x" "g y = g x"
proof -
  from assms(3) obtain j where j: "j < length xs" "x = xs ! j"
    by (auto simp: in_set_conv_nth)
  from assms(1) have len: "length xs = length ys"
    by (rule map_eq_imp_length_eq)
  have "f (ys ! j) = f x" "g (ys ! j) = g x"
    using assms(1,2) j len by (metis nth_map)+
  then show thesis
    using that [of "ys ! j"] j len by simp
qed

lemma wq_idsI: "e \<in> set (wq_queue Q s) \<Longrightarrow> wq_id Q e \<in> set (wq_ids Q s)"
  by (simp add: wq_ids_def)

lemma slots_okD:
  assumes "wq_slots_ok Q n s fs"
  shows slots_next: "wq_next Q s = of_nat (Suc n)"
    and slots_distinct: "distinct (wq_ids Q s)"
    and slots_le: "fs f = Some (k, Some i) \<Longrightarrow> unat i \<le> n"
    and slots_inj: "fs f = Some (k, Some i) \<Longrightarrow> fs f' = Some (k', Some i) \<Longrightarrow> f = f'"
    and slots_entry: "e \<in> set (wq_queue Q s) \<Longrightarrow> \<exists>f. fs f = Some (wq_kind Q e, Some (wq_id Q e))"
    and slots_queued: "fs f = Some (k, Some i) \<Longrightarrow> \<not> wq_closed Q s \<Longrightarrow> i \<in> set (wq_ids Q s)"
  using assms unfolding wq_slots_ok_def by blast+

lemma slots_okI:
  assumes "wq_next Q s = of_nat (Suc n)" "distinct (wq_ids Q s)"
    and "\<And>f k i. fs f = Some (k, Some i) \<Longrightarrow> unat i \<le> n"
    and "\<And>f f' k k' i. fs f = Some (k, Some i) \<Longrightarrow> fs f' = Some (k', Some i) \<Longrightarrow> f = f'"
    and "\<And>e. e \<in> set (wq_queue Q s) \<Longrightarrow> \<exists>f. fs f = Some (wq_kind Q e, Some (wq_id Q e))"
    and "\<And>f k i. fs f = Some (k, Some i) \<Longrightarrow> \<not> wq_closed Q s \<Longrightarrow> i \<in> set (wq_ids Q s)"
  shows "wq_slots_ok Q n s fs"
  using assms unfolding wq_slots_ok_def by blast

lemma slots_owner:
  assumes "wq_slots_ok Q n s fs" "e \<in> set (wq_queue Q s)" "fs f = Some (k, Some (wq_id Q e))"
  shows "k = wq_kind Q e"
proof -
  from slots_entry [OF assms(1,2)] obtain f' where f': "fs f' = Some (wq_kind Q e, Some (wq_id Q e))"
    by blast
  with slots_inj [OF assms(1,3)] have "f' = f" by blast
  with f' assms(3) show ?thesis by simp
qed

lemma slots_create:
  assumes ok: "wq_slots_ok Q n s fs" and f: "fs f = None"
  shows "wq_slots_ok Q n s (fs(f \<mapsto> (k, None)))"
proof (rule slots_okI)
  show "\<exists>f'. (fs(f \<mapsto> (k, None))) f' = Some (wq_kind Q e, Some (wq_id Q e))"
    if "e \<in> set (wq_queue Q s)" for e
    using slots_entry [OF ok that] f by (metis fun_upd_other option.distinct(1))
qed (use ok in \<open>auto split: if_splits dest: slots_okD\<close>)

lemma slots_requeue:
  assumes ok: "wq_slots_ok Q n s fs"
    and ids: "map (wq_id Q) (wq_queue Q s') = map (wq_id Q) (wq_queue Q s)"
    and kinds: "map (wq_kind Q) (wq_queue Q s') = map (wq_kind Q) (wq_queue Q s)"
    and eqs: "wq_next Q s' = wq_next Q s" "wq_closed Q s' = wq_closed Q s"
  shows "wq_slots_ok Q n s' fs"
proof -
  have "wq_ids Q s' = wq_ids Q s"
    using ids by (simp add: wq_ids_def)
  moreover have "\<exists>f. fs f = Some (wq_kind Q e, Some (wq_id Q e))" if "e \<in> set (wq_queue Q s')" for e
    using map2_memE [OF ids kinds that] slots_entry [OF ok] by metis
  ultimately show ?thesis
    using eqs slots_next [OF ok] slots_distinct [OF ok]
    by (intro slots_okI) (auto intro: slots_le [OF ok] slots_inj [OF ok] slots_queued [OF ok])
qed

lemma slots_ids_le:
  "wq_slots_ok Q n s fs \<Longrightarrow> i \<in> set (wq_ids Q s) \<Longrightarrow> unat i \<le> n"
  unfolding wq_ids_def using slots_entry slots_le by fastforce

lemma slots_next_fresh:
  assumes "wq_slots_ok Q n s fs" "n < id_space"
  shows "wq_next Q s \<notin> set (wq_ids Q s)"
proof
  assume "wq_next Q s \<in> set (wq_ids Q s)"
  then have "unat (of_nat (Suc n) :: u64) \<le> n"
    using slots_ids_le [OF assms(1)] slots_next [OF assms(1)] by fastforce
  moreover have "unat (of_nat (Suc n) :: u64) = Suc n"
    using assms(2) by (intro unat_of_nat_u64) simp
  ultimately show False by simp
qed

lemma slots_owner_kind:
  "wq_slots_ok Q n s fs \<Longrightarrow> fs f = Some (k, slot) \<Longrightarrow>
     \<forall>d\<in>set (wq_queue Q s). slot = Some (wq_id Q d) \<longrightarrow> wq_kind Q d = k"
  using slots_owner by fastforce

lemma slots_enqueue:
  assumes ok: "wq_slots_ok Q n s fs" and f: "fs f = Some (k, slot)"
    and fresh: "\<forall>i. slot = Some i \<longrightarrow> i \<notin> set (wq_ids Q s)"
    and q: "wq_queue Q s' = wq_queue Q s @ [e]" "wq_id Q e = wq_next Q s" "wq_kind Q e = k"
    and nxt: "wq_next Q s' = next_id (wq_next Q s)"
    and open_s: "\<not> wq_closed Q s"
    and n: "Suc n < id_space"
  shows "wq_slots_ok Q (Suc n) s' (fs(f \<mapsto> (k, Some (wq_next Q s))))" (is "wq_slots_ok _ _ _ ?fs'")
proof -
  have un: "unat (wq_next Q s) = Suc n"
    using slots_next [OF ok] n unat_of_nat_u64 [of "Suc n"] by simp
  have ids: "wq_ids Q s' = wq_ids Q s @ [wq_next Q s]"
    using q by (simp add: wq_ids_def)
  have new: "wq_next Q s \<notin> set (wq_ids Q s)"
    using slots_ids_le [OF ok] un by (metis Suc_n_not_le_n)
  have new': "fs f' \<noteq> Some (k', Some (wq_next Q s))" for f' k'
    using slots_le [OF ok] un by (metis Suc_n_not_le_n)
  show ?thesis
  proof (rule slots_okI)
    show "wq_next Q s' = of_nat (Suc (Suc n))"
      using nxt slots_next [OF ok] next_id_of_nat [OF n] by simp
    show "distinct (wq_ids Q s')"
      using slots_distinct [OF ok] ids new by simp
    show "unat i \<le> Suc n" if "?fs' f' = Some (k', Some i)" for f' k' i
      using that un slots_le [OF ok] by (auto split: if_splits intro: le_SucI)
    show "f1 = f2" if "?fs' f1 = Some (k1, Some i)" "?fs' f2 = Some (k2, Some i)" for f1 f2 k1 k2 i
      using that new' slots_inj [OF ok] by (auto split: if_splits)
    show "i \<in> set (wq_ids Q s')" if "?fs' f' = Some (k', Some i)" for f' k' i
      using that slots_queued [OF ok _ open_s] ids by (auto split: if_splits)
    show "\<exists>f'. ?fs' f' = Some (wq_kind Q e', Some (wq_id Q e'))" if "e' \<in> set (wq_queue Q s')" for e'
    proof (cases "e' \<in> set (wq_queue Q s)")
      case True
      from slots_entry [OF ok True] obtain f' where f': "fs f' = Some (wq_kind Q e', Some (wq_id Q e'))"
        by blast
      with f fresh wq_idsI [OF True] have "f' \<noteq> f" by auto
      with f' show ?thesis by (intro exI [of _ f']) simp
    next
      case False
      with that q have "e' = e" by simp
      with q show ?thesis by (intro exI [of _ f]) simp
    qed
  qed
qed

lemma slots_remove:
  assumes ok: "wq_slots_ok Q n s fs" and f: "fs f = Some (k, slot)"
    and q: "wq_queue Q s' = filter (\<lambda>e. slot \<noteq> Some (wq_id Q e)) (wq_queue Q s)"
    and eqs: "wq_next Q s' = wq_next Q s" "wq_closed Q s' = wq_closed Q s"
  shows "wq_slots_ok Q n s' (fs(f := None))"
proof (rule slots_okI)
  have ids: "wq_ids Q s' = filter (\<lambda>i. slot \<noteq> Some i) (wq_ids Q s)"
    using q by (simp add: wq_ids_def filter_map comp_def)
  then show "distinct (wq_ids Q s')"
    using slots_distinct [OF ok] by simp
  show "\<exists>f'. (fs(f := None)) f' = Some (wq_kind Q e, Some (wq_id Q e))"
    if "e \<in> set (wq_queue Q s')" for e
  proof -
    from that q have e: "e \<in> set (wq_queue Q s)" "slot \<noteq> Some (wq_id Q e)" by auto
    from slots_entry [OF ok e(1)] obtain f' where f': "fs f' = Some (wq_kind Q e, Some (wq_id Q e))"
      by blast
    with e f have "f' \<noteq> f" by auto
    with f' show ?thesis by (intro exI [of _ f']) simp
  qed
  show "i \<in> set (wq_ids Q s')"
    if "(fs(f := None)) f' = Some (k', Some i)" "\<not> wq_closed Q s'" for f' k' i
  proof -
    from that have f': "f' \<noteq> f" "fs f' = Some (k', Some i)" by (auto split: if_splits)
    with f slots_inj [OF ok] have "slot \<noteq> Some i" by blast
    with slots_queued [OF ok f'(2)] that eqs ids show ?thesis by simp
  qed
qed (use eqs slots_next [OF ok] in
  \<open>auto split: if_splits intro: slots_le [OF ok] slots_inj [OF ok]\<close>)

lemma slots_drain:
  "wq_slots_ok Q n s fs \<Longrightarrow> wq_next Q s' = wq_next Q s \<Longrightarrow> wq_queue Q s' = [] \<Longrightarrow> wq_closed Q s' \<Longrightarrow>
     wq_slots_ok Q n s' fs"
  by (rule slots_okI) (auto simp: wq_ids_def dest: slots_okD)

section \<open>What a waiter queue promises\<close>

locale waiter_queue =
  fixes Q :: "('s, 'w, 'k, 'o, 'g) waiter_ops"
    and wf :: "'s \<Rightarrow> bool"
  assumes wf_poll: "wf s \<Longrightarrow> wq_poll Q s slot k w = (s', slot', out, ws) \<Longrightarrow> wf s'"
    and wf_cancel: "wf s \<Longrightarrow> wq_cancel Q s slot = (s', ws) \<Longrightarrow> wf s'"
    and wf_oper: "wf s \<Longrightarrow> wq_oper Q s g s' g' ws \<Longrightarrow> wf s'"
    and pending_law: "wf s \<Longrightarrow> wq_poll Q s slot k w = (s', slot', Pending, ws) \<Longrightarrow>
      \<not> wq_closed Q s \<and> \<not> wq_closed Q s' \<and> (wq_requeued Q s slot s' slot' \<or> wq_enqueued Q s slot k s' slot')"
    and ready_law: "wf s \<Longrightarrow> wq_poll Q s slot k w = (s', slot', Ready v, ws) \<Longrightarrow>
      wq_next Q s' = wq_next Q s \<and> wq_closed Q s' = wq_closed Q s \<and>
      ((wq_queue Q s' = wq_queue Q s \<and> wq_queue Q s = []) \<or>
       (\<exists>e. slot = Some (wq_id Q e) \<and> wq_queue Q s = e # wq_queue Q s'))"
    and cancel_law: "wf s \<Longrightarrow> distinct (wq_ids Q s) \<Longrightarrow> wq_cancel Q s slot = (s', ws) \<Longrightarrow>
      wq_next Q s' = wq_next Q s \<and> wq_closed Q s' = wq_closed Q s \<and>
      wq_queue Q s' = filter (\<lambda>e. slot \<noteq> Some (wq_id Q e)) (wq_queue Q s)"
    and oper_law: "wf s \<Longrightarrow> wq_oper Q s g s' g' ws \<Longrightarrow>
      wq_next Q s' = wq_next Q s \<and>
      ((wq_queue Q s' = wq_queue Q s \<and> wq_closed Q s' = wq_closed Q s) \<or>
       (wq_queue Q s' = [] \<and> wq_closed Q s' \<and> wq_waker Q ` set (wq_queue Q s) \<subseteq> set ws))"
begin

definition inv_at :: "nat \<Rightarrow> ('s, 'k, 'g) wq_sys \<Rightarrow> bool" where
  "inv_at n y \<longleftrightarrow> n \<le> polls y \<and> wf (res y) \<and> wq_slots_ok Q n (res y) (futs y) \<and>
     woken y \<subseteq> dom (futs y)"

lemma flagged_dom: "wq_flagged Q s s' fs ws \<subseteq> dom fs"
  by (auto simp: wq_flagged_def)

lemma ready_queue:
  assumes "wf s" "distinct (wq_ids Q s)" "wq_poll Q s slot k w = (s', slot', Ready v, ws)"
  shows "wq_queue Q s' = filter (\<lambda>e. slot \<noteq> Some (wq_id Q e)) (wq_queue Q s)"
  using ready_law [OF assms(1,3)]
proof (elim conjE disjE exE)
  fix e
  assume e: "slot = Some (wq_id Q e)" "wq_queue Q s = e # wq_queue Q s'"
  with assms(2) have "\<forall>x\<in>set (wq_queue Q s'). wq_id Q x \<noteq> wq_id Q e"
    by (auto simp: wq_ids_def dest: sym intro: rev_image_eqI)
  then have "filter (\<lambda>x. slot \<noteq> Some (wq_id Q x)) (wq_queue Q s') = wq_queue Q s'"
    unfolding filter_id_conv using e(1) by (metis option.inject)
  then show ?thesis using e by simp
qed simp

lemma step_inv:
  assumes "wq_step Q y z" "inv_at n y" "polls z < id_space"
  shows "\<exists>m. inv_at m z"
  using assms
proof (induction rule: wq_step.induct)
  case (create y f k)
  then have "inv_at n (y\<lparr>futs := (futs y)(f \<mapsto> (k, None))\<rparr>)"
    by (auto simp: inv_at_def intro: slots_create)
  then show ?case ..
next
  case (poll_pending y f k slot w s' slot' ws fs')
  then have wf: "wf (res y)" and ok: "wq_slots_ok Q n (res y) (futs y)"
    and n: "n \<le> polls y" "Suc n < id_space" and wo: "woken y \<subseteq> dom (futs y)"
    by (auto simp: inv_at_def)
  have wf': "wf s'"
    by (rule wf_poll [OF wf poll_pending(2)])
  have "\<exists>m\<le>Suc n. wq_slots_ok Q m s' fs'"
    using pending_law [OF wf poll_pending(2)]
  proof (elim conjE disjE)
    assume "\<not> wq_closed Q (res y)" "\<not> wq_closed Q s'" and re: "wq_requeued Q (res y) slot s' slot'"
    moreover have "fs' = futs y"
      using re poll_pending(1,3) by (auto simp: wq_requeued_def)
    ultimately have "wq_slots_ok Q n s' fs'"
      using slots_requeue [OF ok] by (simp add: wq_requeued_def)
    then show ?thesis by (intro exI [of _ n]) simp
  next
    assume "wq_enqueued Q (res y) slot k s' slot'" "\<not> wq_closed Q (res y)"
    then have "wq_slots_ok Q (Suc n) s' fs'"
      using slots_enqueue [OF ok poll_pending(1)] n poll_pending(3) by (auto simp: wq_enqueued_def)
    then show ?thesis by blast
  qed
  then obtain m where "m \<le> Suc n" "wq_slots_ok Q m s' fs'"
    by blast
  then show ?case
    using wf' n(1) wo flagged_dom [of "res y" s' fs' ws] poll_pending(3)
    by (intro exI [of _ m]) (auto simp: inv_at_def)
next
  case (poll_ready y f k slot w s' slot' v ws fs')
  then have wf: "wf (res y)" and ok: "wq_slots_ok Q n (res y) (futs y)"
    by (auto simp: inv_at_def)
  have "wq_slots_ok Q n s' fs'"
    unfolding poll_ready(3)
    using ready_queue [OF wf slots_distinct [OF ok] poll_ready(2)] ready_law [OF wf poll_ready(2)]
    by (intro slots_remove [OF ok poll_ready(1)]) auto
  then show ?case
    using wf_poll [OF wf poll_ready(2)] poll_ready(3-) flagged_dom [of "res y" s' fs' ws]
    by (intro exI [of _ n]) (auto simp: inv_at_def)
next
  case (drop_future y f k slot s' ws fs')
  then have wf: "wf (res y)" and ok: "wq_slots_ok Q n (res y) (futs y)"
    by (auto simp: inv_at_def)
  have "wq_slots_ok Q n s' fs'"
    unfolding drop_future(3)
    using cancel_law [OF wf slots_distinct [OF ok] drop_future(2)]
    by (intro slots_remove [OF ok drop_future(1)]) auto
  then show ?case
    using wf_cancel [OF wf drop_future(2)] drop_future(3-) flagged_dom [of "res y" s' fs' ws]
    by (intro exI [of _ n]) (auto simp: inv_at_def)
next
  case (other y s' g' ws)
  then have wf: "wf (res y)" and ok: "wq_slots_ok Q n (res y) (futs y)"
    by (auto simp: inv_at_def)
  have "wq_slots_ok Q n s' (futs y)"
    using oper_law [OF wf other(1)] slots_drain [OF ok] slots_requeue [OF ok] by auto
  then show ?case
    using wf_oper [OF wf other(1)] other(2-) flagged_dom [of "res y" s' "futs y" ws]
    by (intro exI [of _ n]) (auto simp: inv_at_def)
qed

definition start_ok :: "'s \<Rightarrow> bool" where
  "start_ok s \<longleftrightarrow> wf s \<and> wq_queue Q s = [] \<and> wq_next Q s = 1"

lemma reach_inv:
  assumes "wq_reach Q s0 g0 y" "start_ok s0" "polls y < id_space"
  shows "\<exists>n. inv_at n y"
  using assms
proof (induction rule: wq_reach.induct)
  case start
  then have "inv_at 0 (wq_start s0 g0)"
    by (simp add: inv_at_def wq_slots_ok_def wq_ids_def start_ok_def wq_start_def)
  then show ?case ..
next
  case (step y z)
  then show ?case
    using wq_step_polls [OF step(2)] step_inv [OF step(2)] by fastforce
qed

text \<open>Grants are made in queue order: whoever is served while others wait was at the front.\<close>

lemma served_at_front:
  "wf s \<Longrightarrow> wq_poll Q s slot k w = (s', slot', Ready v, ws) \<Longrightarrow> wq_queue Q s = e # es \<Longrightarrow>
     slot = Some (wq_id Q e)"
  using ready_law by fastforce

text \<open>A step only removes entries or appends one: waiting futures never change places.\<close>

lemma order_kept:
  assumes "wq_step Q y z" "inv_at n y"
  shows "subseq (wq_ids Q (res z)) (wq_ids Q (res y)) \<or>
     wq_ids Q (res z) = wq_ids Q (res y) @ [wq_next Q (res y)]"
  using assms
proof (induction rule: wq_step.induct)
  case (poll_pending y f k slot w s' slot' ws fs')
  then have "wf (res y)" by (simp add: inv_at_def)
  from pending_law [OF this poll_pending(2)] show ?case
    by (auto simp: wq_ids_def wq_requeued_def wq_enqueued_def)
next
  case (poll_ready y f k slot w s' slot' v ws fs')
  then have "wf (res y)" "distinct (wq_ids Q (res y))" by (auto simp: inv_at_def slots_distinct)
  from ready_queue [OF this poll_ready(2)] show ?case
    by (simp add: wq_ids_def subseq_map)
next
  case (drop_future y f k slot s' ws fs')
  then have "wf (res y)" "distinct (wq_ids Q (res y))" by (auto simp: inv_at_def slots_distinct)
  from cancel_law [OF this drop_future(2)] show ?case
    by (simp add: wq_ids_def subseq_map)
next
  case (other y s' g' ws)
  then have "wf (res y)" by (simp add: inv_at_def)
  from oper_law [OF this other(1)] show ?case
    by (auto simp: wq_ids_def)
qed (simp_all add: wq_ids_def)

end

section \<open>No lost wakeup\<close>

text \<open>
  \<open>avail s k\<close>: access of kind \<open>k\<close> could be granted to the front of the queue. A primitive is
  fair when no operation leaves an available resource to a front waiter it has not just woken,
  unless that waiter was at the front of an available resource already.
\<close>

locale fair_waiter_queue = waiter_queue Q wf
  for Q :: "('s, 'w, 'k, 'o, 'g) waiter_ops" and wf :: "'s \<Rightarrow> bool" +
  fixes avail :: "'s \<Rightarrow> 'k \<Rightarrow> bool"
  assumes pending_fair: "wf s \<Longrightarrow> distinct (wq_ids Q s) \<Longrightarrow> wq_next Q s \<notin> set (wq_ids Q s) \<Longrightarrow>
      (\<forall>d\<in>set (wq_queue Q s). slot = Some (wq_id Q d) \<longrightarrow> wq_kind Q d = k) \<Longrightarrow>
      wq_poll Q s slot k w = (s', slot', Pending, ws) \<Longrightarrow>
      wq_queue Q s' = e # es \<Longrightarrow> avail s' (wq_kind Q e) \<Longrightarrow>
      slot' \<noteq> Some (wq_id Q e) \<and>
      (\<exists>d ds. wq_queue Q s = d # ds \<and> wq_id Q d = wq_id Q e \<and> wq_kind Q d = wq_kind Q e \<and>
         avail s (wq_kind Q e))"
    and ready_fair: "wf s \<Longrightarrow> wq_poll Q s slot k w = (s', slot', Ready v, ws) \<Longrightarrow>
      wq_queue Q s' = e # es \<Longrightarrow> avail s' (wq_kind Q e) \<Longrightarrow> wq_waker Q e \<in> set ws"
    and cancel_fair: "wf s \<Longrightarrow> distinct (wq_ids Q s) \<Longrightarrow> wq_cancel Q s slot = (s', ws) \<Longrightarrow>
      wq_queue Q s' = e # es \<Longrightarrow> avail s' (wq_kind Q e) \<Longrightarrow>
      wq_waker Q e \<in> set ws \<or> (\<exists>ds. wq_queue Q s = e # ds \<and> avail s (wq_kind Q e))"
    and oper_fair: "wf s \<Longrightarrow> wq_oper Q s g s' g' ws \<Longrightarrow>
      wq_queue Q s' = e # es \<Longrightarrow> avail s' (wq_kind Q e) \<Longrightarrow>
      wq_waker Q e \<in> set ws \<or> (\<exists>ds. wq_queue Q s = e # ds \<and> avail s (wq_kind Q e))"
begin

definition front_woken :: "('s, 'k, 'g) wq_sys \<Rightarrow> bool" where
  "front_woken y \<longleftrightarrow> (\<forall>e es f. wq_queue Q (res y) = e # es \<longrightarrow> avail (res y) (wq_kind Q e) \<longrightarrow>
     futs y f = Some (wq_kind Q e, Some (wq_id Q e)) \<longrightarrow> f \<in> woken y)"

lemma flaggedI:
  "fs f = Some (k, Some (wq_id Q e)) \<Longrightarrow> e \<in> set (wq_queue Q s') \<Longrightarrow> wq_waker Q e \<in> set ws \<Longrightarrow>
     f \<in> wq_flagged Q s s' fs ws"
  by (auto simp: wq_flagged_def)

lemma step_front_woken:
  assumes "wq_step Q y z" "inv_at n y" "polls y < id_space" "front_woken y"
  shows "front_woken z"
  using assms
proof (induction rule: wq_step.induct)
  case (create y f k)
  then show ?case by (auto simp: front_woken_def)
next
  case (poll_pending y f k slot w s' slot' ws fs')
  then have ok: "wq_slots_ok Q n (res y) (futs y)" and "wf (res y)" and "n < id_space"
    by (auto simp: inv_at_def)
  note fair = pending_fair [OF \<open>wf (res y)\<close> slots_distinct [OF ok] slots_next_fresh [OF ok \<open>n < id_space\<close>]
      slots_owner_kind [OF ok poll_pending(1)] poll_pending(2)]
  show ?case
    unfolding front_woken_def
  proof (intro allI impI; simp)
    fix e es h
    assume *: "wq_queue Q s' = e # es" "avail s' (wq_kind Q e)"
      and h: "fs' h = Some (wq_kind Q e, Some (wq_id Q e))"
    from fair [OF *] h poll_pending(3) have "h \<noteq> f" "futs y h = fs' h"
      by (auto split: if_splits)
    then show "h \<in> woken y \<and> h \<noteq> f \<or> h \<in> wq_flagged Q (res y) s' fs' ws"
      using fair [OF *] h poll_pending(6) by (auto simp: front_woken_def)
  qed
next
  case (poll_ready y f k slot w s' slot' v ws fs')
  then have "wf (res y)" by (simp add: inv_at_def)
  from ready_fair [OF this poll_ready(2)] show ?case
    by (auto simp: front_woken_def intro: flaggedI)
next
  case (drop_future y f k slot s' ws fs')
  then have "wf (res y)" "distinct (wq_ids Q (res y))"
    by (auto simp: inv_at_def slots_distinct)
  from cancel_fair [OF this drop_future(2)] show ?case
    using drop_future(3,6) by (fastforce simp: front_woken_def intro: flaggedI split: if_splits)
next
  case (other y s' g' ws)
  then have "wf (res y)" by (simp add: inv_at_def)
  from oper_fair [OF this other(1)] show ?case
    using other(4) by (fastforce simp: front_woken_def intro: flaggedI)
qed

lemma reach_front_woken:
  assumes "wq_reach Q s0 g0 y" "start_ok s0" "polls y < id_space"
  shows "front_woken y"
  using assms
proof (induction rule: wq_reach.induct)
  case start
  then show ?case by (simp add: front_woken_def start_ok_def wq_start_def)
next
  case (step y z)
  then have "polls y < id_space" using wq_step_polls [OF step(2)] by simp
  moreover obtain n where "inv_at n y"
    using reach_inv [OF step(1)] step.prems \<open>polls y < id_space\<close> by blast
  ultimately show ?case
    using step_front_woken [OF step(2)] step.IH step.prems(1) by blast
qed

text \<open>
  The form clients use: the future at the front of an available resource exists and its task has
  been woken since it last returned \<open>Pending\<close>.
\<close>

lemma no_lost_wakeup:
  assumes reach: "wq_reach Q s0 g0 y" "start_ok s0" "polls y < id_space"
    and front: "wq_queue Q (res y) = e # es" "avail (res y) (wq_kind Q e)"
  shows "\<exists>f. futs y f = Some (wq_kind Q e, Some (wq_id Q e)) \<and> f \<in> woken y"
proof -
  obtain n where "wq_slots_ok Q n (res y) (futs y)"
    using reach_inv [OF reach] by (auto simp: inv_at_def)
  from slots_entry [OF this, of e] front(1)
  obtain f where f: "futs y f = Some (wq_kind Q e, Some (wq_id Q e))" by auto
  with reach_front_woken [OF reach] front show ?thesis
    unfolding front_woken_def by blast
qed

end

end
