(* ===== verification/Semaphore.thy ===== *)
theory Semaphore
  imports Waiter_Queue
begin

text \<open>
  The counting semaphore of \<open>sync/semaphore.rs\<close>: its state, the operations that run under its
  FFRT mutex, the permits it hands out and the \<open>Acquire\<close> future. The semaphore is shown to be
  a fair waiter queue, and permits are shown to be conserved in every run.
\<close>

section \<open>State\<close>

record semaphore_waiter =
  sw_id :: u64
  sw_permits :: nat
  sw_waker :: waker

record semaphore_state =
  sem_permits :: nat
  sem_closed :: bool
  sem_next_waiter :: u64
  sem_waiters :: "semaphore_waiter list"

datatype acquire_error = AcquireError
datatype try_acquire_error = TryAcquireClosed | NoPermits

definition MAX_PERMITS :: nat where
  "MAX_PERMITS = usize_max div 8"

definition sem_const_new :: "nat \<Rightarrow> semaphore_state panicky" where
  "sem_const_new permits =
     (if permits \<le> MAX_PERMITS
      then Inr \<lparr>sem_permits = permits, sem_closed = False, sem_next_waiter = 1, sem_waiters = []\<rparr>
      else Inl ''permits exceeds Semaphore::MAX_PERMITS'')"

section \<open>Operations\<close>

definition sem_next_waker :: "semaphore_state \<Rightarrow> waker option" where
  "sem_next_waker s = (case sem_waiters s of
     [] \<Rightarrow> None
   | waiter # _ \<Rightarrow> if sem_permits s \<ge> sw_permits waiter then Some (sw_waker waiter) else None)"

definition add_permits :: "semaphore_state \<Rightarrow> nat \<Rightarrow> (semaphore_state \<times> waker list) panicky" where
  "add_permits s n = (case usize_checked_add (sem_permits s) n of
     None \<Rightarrow> Inl ''permits exceeds Semaphore::MAX_PERMITS''
   | Some permits \<Rightarrow>
       if permits \<le> MAX_PERMITS
       then (let s' = s\<lparr>sem_permits := permits\<rparr> in Inr (s', olist (sem_next_waker s')))
       else Inl ''permits exceeds Semaphore::MAX_PERMITS'')"

definition forget_permits :: "semaphore_state \<Rightarrow> nat \<Rightarrow> semaphore_state \<times> nat" where
  "forget_permits s n =
     (let reduced = min (sem_permits s) n
      in (s\<lparr>sem_permits := sem_permits s - reduced\<rparr>, reduced))"

definition sem_close :: "semaphore_state \<Rightarrow> semaphore_state \<times> waker list" where
  "sem_close s = (s\<lparr>sem_closed := True, sem_waiters := []\<rparr>, map sw_waker (sem_waiters s))"

definition try_take :: "semaphore_state \<Rightarrow> nat \<Rightarrow> semaphore_state \<times> (try_acquire_error + unit)" where
  "try_take s permits =
     (if sem_closed s then (s, Inl TryAcquireClosed)
      else if sem_waiters s \<noteq> [] \<or> sem_permits s < permits then (s, Inl NoPermits)
      else (s\<lparr>sem_permits := sem_permits s - permits\<rparr>, Inr ()))"

text \<open>The part of \<open>poll_acquire\<close> for a future that is not queued.\<close>

definition poll_acquire_fresh ::
  "semaphore_state \<Rightarrow> nat \<Rightarrow> waker \<Rightarrow>
   semaphore_state \<times> u64 option \<times> (acquire_error + unit) poll \<times> waker list" where
  "poll_acquire_fresh s permits cx =
     (if sem_waiters s = [] \<and> sem_permits s \<ge> permits
      then (s\<lparr>sem_permits := sem_permits s - permits\<rparr>, None, Ready (Inr ()), [])
      else (s\<lparr>sem_next_waiter := next_id (sem_next_waiter s),
              sem_waiters := sem_waiters s @
                [\<lparr>sw_id = sem_next_waiter s, sw_permits = permits, sw_waker = cx\<rparr>]\<rparr>,
            Some (sem_next_waiter s), Pending, []))"

definition poll_acquire ::
  "semaphore_state \<Rightarrow> u64 option \<Rightarrow> nat \<Rightarrow> waker \<Rightarrow>
   semaphore_state \<times> u64 option \<times> (acquire_error + unit) poll \<times> waker list" where
  "poll_acquire s waiter_id permits cx =
     (if sem_closed s then (s, None, Ready (Inl AcquireError), [])
      else (case waiter_id of
        None \<Rightarrow> poll_acquire_fresh s permits cx
      | Some wid \<Rightarrow>
          (let pos = position (\<lambda>waiter. sw_id waiter = wid) (sem_waiters s) in
           if pos = Some 0 \<and> sem_permits s \<ge> permits
           then (let s' = s\<lparr>sem_waiters := tl (sem_waiters s), sem_permits := sem_permits s - permits\<rparr>
                 in (s', None, Ready (Inr ()), olist (sem_next_waker s')))
           else (case pos of
             Some p \<Rightarrow>
               (let queued = sem_waiters s ! p in
                (if will_wake (sw_waker queued) cx then s
                 else s\<lparr>sem_waiters := (sem_waiters s)[p := queued\<lparr>sw_waker := cx\<rparr>]\<rparr>,
                 waiter_id, Pending, []))
           | None \<Rightarrow> poll_acquire_fresh s permits cx))))"

definition sem_cancel_waiter :: "semaphore_state \<Rightarrow> u64 option \<Rightarrow> semaphore_state \<times> waker list" where
  "sem_cancel_waiter s waiter_id = (case waiter_id of
     None \<Rightarrow> (s, [])
   | Some wid \<Rightarrow>
       (let s' = (case position (\<lambda>waiter. sw_id waiter = wid) (sem_waiters s) of
                    None \<Rightarrow> s
                  | Some p \<Rightarrow> s\<lparr>sem_waiters := remove_at p (sem_waiters s)\<rparr>)
        in (s', olist (sem_next_waker s'))))"

section \<open>Permits\<close>

text \<open>
  A permit remembers the semaphore that issued it (by address), the number of permits it stands
  for and whether it has been forgotten. The borrowed and the owned permit have the same fields.
\<close>

record sem_permit =
  sp_semaphore :: nat
  sp_permits :: nat
  sp_forgotten :: bool

definition try_acquire_many ::
  "nat \<Rightarrow> semaphore_state \<Rightarrow> u32 \<Rightarrow> semaphore_state \<times> (try_acquire_error + sem_permit)" where
  "try_acquire_many addr s n =
     (let permits = unat n in
      case try_take s permits of
        (s', Inl e) \<Rightarrow> (s', Inl e)
      | (s', Inr _) \<Rightarrow> (s', Inr \<lparr>sp_semaphore = addr, sp_permits = permits, sp_forgotten = False\<rparr>))"

definition try_acquire ::
  "nat \<Rightarrow> semaphore_state \<Rightarrow> semaphore_state \<times> (try_acquire_error + sem_permit)" where
  "try_acquire addr s = try_acquire_many addr s 1"

definition permit_drop ::
  "semaphore_state \<Rightarrow> sem_permit \<Rightarrow> (semaphore_state \<times> waker list) panicky" where
  "permit_drop s p = (if \<not> sp_forgotten p then add_permits s (sp_permits p) else Inr (s, []))"

text \<open>\<open>forget\<close> consumes the permit, so it is dropped with the flag set.\<close>

definition permit_forget ::
  "semaphore_state \<Rightarrow> sem_permit \<Rightarrow> (semaphore_state \<times> waker list) panicky" where
  "permit_forget s p = permit_drop s (p\<lparr>sp_forgotten := True\<rparr>)"

text \<open>\<open>merge\<close> consumes \<open>other\<close>, which is dropped with no permits left in it.\<close>

definition permit_merge ::
  "semaphore_state \<Rightarrow> sem_permit \<Rightarrow> sem_permit \<Rightarrow> (semaphore_state \<times> sem_permit \<times> waker list) panicky" where
  "permit_merge s self other =
     (if sp_semaphore self \<noteq> sp_semaphore other
      then Inl ''cannot merge permits from different semaphores''
      else (case usize_checked_add (sp_permits self) (sp_permits other) of
        None \<Rightarrow> Inl ''semaphore permit count overflow''
      | Some n \<Rightarrow> (case permit_drop s (other\<lparr>sp_permits := 0\<rparr>) of
          Inl e \<Rightarrow> Inl e
        | Inr (s', ws) \<Rightarrow> Inr (s', self\<lparr>sp_permits := n\<rparr>, ws))))"

definition permit_split :: "sem_permit \<Rightarrow> nat \<Rightarrow> (sem_permit \<times> sem_permit) option" where
  "permit_split self n =
     (if n > sp_permits self then None
      else Some (self\<lparr>sp_permits := sp_permits self - n\<rparr>,
                 \<lparr>sp_semaphore = sp_semaphore self, sp_permits = n, sp_forgotten = False\<rparr>))"

section \<open>The Acquire future\<close>

definition acquire_poll ::
  "nat \<Rightarrow> semaphore_state \<Rightarrow> u64 option \<Rightarrow> nat \<Rightarrow> waker \<Rightarrow>
   semaphore_state \<times> u64 option \<times> (acquire_error + sem_permit) poll \<times> waker list" where
  "acquire_poll addr s waiter permits cx = (case poll_acquire s waiter permits cx of
     (s', waiter', Ready (Inr _), ws) \<Rightarrow>
       (s', waiter', Ready (Inr \<lparr>sp_semaphore = addr, sp_permits = permits, sp_forgotten = False\<rparr>), ws)
   | (s', waiter', Ready (Inl e), ws) \<Rightarrow> (s', waiter', Ready (Inl e), ws)
   | (s', waiter', Pending, ws) \<Rightarrow> (s', waiter', Pending, ws))"

definition acquire_drop :: "semaphore_state \<Rightarrow> u64 option \<Rightarrow> semaphore_state \<times> waker list" where
  "acquire_drop s waiter = sem_cancel_waiter s waiter"

lemmas sem_ops = sem_next_waker_def add_permits_def forget_permits_def sem_close_def try_take_def
  poll_acquire_fresh_def poll_acquire_def sem_cancel_waiter_def try_acquire_many_def
  permit_drop_def permit_forget_def permit_merge_def permit_split_def acquire_poll_def
  acquire_drop_def will_wake_def

section \<open>The outcomes of a poll\<close>

lemma poll_acquire_freshE:
  assumes "poll_acquire_fresh s k w = (s', slot', out, ws)"
  obtains
    (taken) "sem_waiters s = []" "k \<le> sem_permits s" "s' = s\<lparr>sem_permits := sem_permits s - k\<rparr>"
      "slot' = None" "out = Ready (Inr ())" "ws = []"
  | (queued) "sem_waiters s \<noteq> [] \<or> sem_permits s < k"
      "s' = s\<lparr>sem_next_waiter := next_id (sem_next_waiter s), sem_waiters := sem_waiters s @
         [\<lparr>sw_id = sem_next_waiter s, sw_permits = k, sw_waker = w\<rparr>]\<rparr>"
      "slot' = Some (sem_next_waiter s)" "out = Pending" "ws = []"
  using assms by (auto simp: poll_acquire_fresh_def split: if_splits)

lemma poll_acquireE:
  assumes "poll_acquire s slot k w = (s', slot', out, ws)"
  obtains
    (closed) "sem_closed s" "s' = s" "slot' = None" "out = Ready (Inl AcquireError)" "ws = []"
  | (now) "\<not> sem_closed s" "sem_waiters s = []" "k \<le> sem_permits s"
      "s' = s\<lparr>sem_permits := sem_permits s - k\<rparr>" "slot' = None" "out = Ready (Inr ())" "ws = []"
  | (front) e es where "\<not> sem_closed s" "slot = Some (sw_id e)" "sem_waiters s = e # es"
      "k \<le> sem_permits s" "s' = s\<lparr>sem_waiters := es, sem_permits := sem_permits s - k\<rparr>"
      "slot' = None" "out = Ready (Inr ())" "ws = olist (sem_next_waker s')"
  | (requeue) p e where "\<not> sem_closed s" "slot = Some (sw_id e)" "p < length (sem_waiters s)"
      "e = sem_waiters s ! p" "sw_id (hd (sem_waiters s)) = sw_id e \<Longrightarrow> sem_permits s < k"
      "s' = s\<lparr>sem_waiters := (sem_waiters s)[p := e\<lparr>sw_waker := w\<rparr>]\<rparr>" "slot' = slot"
      "out = Pending" "ws = []"
  | (enqueue) "\<not> sem_closed s" "\<forall>e\<in>set (sem_waiters s). slot \<noteq> Some (sw_id e)"
      "sem_waiters s \<noteq> [] \<or> sem_permits s < k"
      "s' = s\<lparr>sem_next_waiter := next_id (sem_next_waiter s), sem_waiters := sem_waiters s @
         [\<lparr>sw_id = sem_next_waiter s, sw_permits = k, sw_waker = w\<rparr>]\<rparr>"
      "slot' = Some (sem_next_waiter s)" "out = Pending" "ws = []"
proof (cases "sem_closed s")
  case True
  with assms show ?thesis by (intro closed) (simp_all add: poll_acquire_def)
next
  case opn: False
  have fresh: thesis if fr: "poll_acquire_fresh s k w = (s', slot', out, ws)"
    and sl: "\<forall>e\<in>set (sem_waiters s). slot \<noteq> Some (sw_id e)"
    using fr
  proof (cases rule: poll_acquire_freshE)
    case taken
    with opn show ?thesis by (intro now)
  next
    case queued
    with opn sl show ?thesis by (intro enqueue)
  qed
  show ?thesis
  proof (cases slot)
    case None
    with assms opn show ?thesis by (intro fresh) (simp_all add: poll_acquire_def)
  next
    case (Some wid)
    show ?thesis
    proof (cases "position (\<lambda>e. sw_id e = wid) (sem_waiters s)")
      case None
      with assms Some opn show ?thesis by (intro fresh) (auto simp: poll_acquire_def)
    next
      case pos: (Some p)
      from position_SomeD [OF this] have p: "p < length (sem_waiters s)" "sw_id (sem_waiters s ! p) = wid"
        by auto
      show ?thesis
      proof (cases "p = 0 \<and> k \<le> sem_permits s")
        case True
        then obtain e es where "sem_waiters s = e # es" using p by (cases "sem_waiters s") auto
        with assms Some opn pos p True show ?thesis
          by (intro front [of e es]) (auto simp: poll_acquire_def Let_def)
      next
        case False
        moreover have "p = 0" if "sw_id (hd (sem_waiters s)) = wid"
          using pos p that by (cases "sem_waiters s") auto
        ultimately show ?thesis
          using assms Some opn pos p by (intro requeue [of "sem_waiters s ! p" p])
            (auto simp: poll_acquire_def Let_def will_wake_def simp del: position_Some_0
              split: if_splits)
      qed
    qed
  qed
qed

lemma acquire_pollD:
  "acquire_poll addr s slot k w = (s', slot', out, ws) \<Longrightarrow>
     \<exists>r. poll_acquire s slot k w = (s', slot', r, ws) \<and>
       out = map_poll (map_sum id (\<lambda>_. \<lparr>sp_semaphore = addr, sp_permits = k, sp_forgotten = False\<rparr>)) r"
  by (auto simp: acquire_poll_def split: poll.splits sum.splits prod.splits)

section \<open>Clients\<close>

text \<open>
  What the clients of a semaphore hold: the live permits, and the number of permits in
  circulation (the initial ones and those added, less those forgotten or reduced).
\<close>

record sem_held =
  live :: "sem_permit multiset"
  total :: nat

inductive sem_oper ::
  "semaphore_state \<Rightarrow> sem_held \<Rightarrow> semaphore_state \<Rightarrow> sem_held \<Rightarrow> waker list \<Rightarrow> bool" where
  try_ok: "try_acquire_many addr s n = (s', Inr p) \<Longrightarrow>
     sem_oper s g s' (g\<lparr>live := add_mset p (live g)\<rparr>) []"
| try_err: "try_acquire_many addr s n = (s', Inl e) \<Longrightarrow> sem_oper s g s' g []"
| add: "add_permits s n = Inr (s', ws) \<Longrightarrow> sem_oper s g s' (g\<lparr>total := total g + n\<rparr>) ws"
| reduce: "forget_permits s n = (s', m) \<Longrightarrow> sem_oper s g s' (g\<lparr>total := total g - m\<rparr>) []"
| close: "sem_close s = (s', ws) \<Longrightarrow> sem_oper s g s' g ws"
| drop: "p \<in># live g \<Longrightarrow> permit_drop s p = Inr (s', ws) \<Longrightarrow>
     sem_oper s g s' (g\<lparr>live := live g - {#p#}\<rparr>) ws"
| drop_panic: "p \<in># live g \<Longrightarrow> permit_drop s p = Inl e \<Longrightarrow>
     sem_oper s g s (g\<lparr>live := live g - {#p#}, total := total g - sp_permits p\<rparr>) []"
| forget: "p \<in># live g \<Longrightarrow> permit_forget s p = Inr (s', ws) \<Longrightarrow>
     sem_oper s g s' (g\<lparr>live := live g - {#p#}, total := total g - sp_permits p\<rparr>) ws"
| merge: "{#p, q#} \<subseteq># live g \<Longrightarrow> permit_merge s p q = Inr (s', r, ws) \<Longrightarrow>
     sem_oper s g s' (g\<lparr>live := add_mset r (live g - {#p, q#})\<rparr>) ws"
| split: "p \<in># live g \<Longrightarrow> permit_split p n = Some (p', q) \<Longrightarrow>
     sem_oper s g s (g\<lparr>live := add_mset p' (add_mset q (live g - {#p#}))\<rparr>) []"

definition sem_grant :: "nat \<Rightarrow> acquire_error + sem_permit \<Rightarrow> sem_held \<Rightarrow> sem_held" where
  "sem_grant k r g = (case r of Inl _ \<Rightarrow> g | Inr p \<Rightarrow> g\<lparr>live := add_mset p (live g)\<rparr>)"

definition semaphore_ops ::
  "nat \<Rightarrow> (semaphore_state, semaphore_waiter, nat, acquire_error + sem_permit, sem_held) waiter_ops" where
  "semaphore_ops addr = \<lparr>wq_queue = sem_waiters, wq_id = sw_id, wq_kind = sw_permits,
     wq_waker = sw_waker, wq_next = sem_next_waiter, wq_closed = sem_closed,
     wq_poll = acquire_poll addr, wq_cancel = acquire_drop, wq_grant = sem_grant,
     wq_oper = sem_oper\<rparr>"

definition sem_wf :: "semaphore_state \<Rightarrow> bool" where
  "sem_wf s \<longleftrightarrow> (sem_closed s \<longrightarrow> sem_waiters s = [])"

definition sem_avail :: "semaphore_state \<Rightarrow> nat \<Rightarrow> bool" where
  "sem_avail s k \<longleftrightarrow> k \<le> sem_permits s"

lemma semaphore_ops_simps [simp]:
  "wq_queue (semaphore_ops a) = sem_waiters" "wq_id (semaphore_ops a) = sw_id"
  "wq_kind (semaphore_ops a) = sw_permits" "wq_waker (semaphore_ops a) = sw_waker"
  "wq_next (semaphore_ops a) = sem_next_waiter" "wq_closed (semaphore_ops a) = sem_closed"
  "wq_poll (semaphore_ops a) = acquire_poll a" "wq_cancel (semaphore_ops a) = acquire_drop"
  "wq_grant (semaphore_ops a) = sem_grant" "wq_oper (semaphore_ops a) = sem_oper"
  by (simp_all add: semaphore_ops_def)

lemma sem_ids [simp]: "wq_ids (semaphore_ops a) s = map sw_id (sem_waiters s)"
  by (simp add: wq_ids_def)

text \<open>The effect of an operation other than a poll or a cancellation on queue and permits.\<close>

lemma add_permitsD:
  "add_permits s n = Inr (s', ws) \<Longrightarrow>
     s' = s\<lparr>sem_permits := sem_permits s + n\<rparr> \<and> sem_permits s + n \<le> MAX_PERMITS \<and>
     ws = olist (sem_next_waker s')"
  by (auto simp: add_permits_def Let_def usize_checked_add_def split: option.splits if_splits)

lemma try_acquire_manyD:
  "try_acquire_many a s n = (s', r) \<Longrightarrow> (case r of
     Inl _ \<Rightarrow> s' = s
   | Inr p \<Rightarrow> s' = s\<lparr>sem_permits := sem_permits s - sp_permits p\<rparr> \<and> sp_permits p \<le> sem_permits s \<and>
       sem_waiters s = [] \<and> \<not> sp_forgotten p)"
  by (auto simp: try_acquire_many_def try_take_def Let_def split: if_splits)

lemma permit_dropD:
  "permit_drop s p = Inr (s', ws) \<Longrightarrow> (if sp_forgotten p then s' = s \<and> ws = []
     else s' = s\<lparr>sem_permits := sem_permits s + sp_permits p\<rparr> \<and> ws = olist (sem_next_waker s'))"
  by (auto simp: permit_drop_def dest: add_permitsD split: if_splits)

lemma permit_forgetD: "permit_forget s p = Inr (s', ws) \<Longrightarrow> s' = s \<and> ws = []"
  by (simp add: permit_forget_def permit_drop_def)

lemma permit_mergeD:
  assumes "permit_merge s p q = Inr (s', r, ws)"
  shows "s' = s \<and> sp_permits r = sp_permits p + sp_permits q \<and> sp_forgotten r = sp_forgotten p"
  using assms
  by (auto simp: permit_merge_def usize_checked_add_def dest!: permit_dropD
      split: if_splits option.splits sum.splits)

lemma permit_splitD:
  "permit_split p n = Some (p', q) \<Longrightarrow> sp_permits p' + sp_permits q = sp_permits p \<and>
     sp_forgotten p' = sp_forgotten p \<and> \<not> sp_forgotten q"
  by (auto simp: permit_split_def split: if_splits)

lemmas sem_dests = add_permitsD try_acquire_manyD permit_dropD permit_forgetD permit_mergeD permit_splitD

lemma sem_operD:
  assumes "sem_oper s g s' g' ws"
  shows "(sem_waiters s' = sem_waiters s \<and> sem_next_waiter s' = sem_next_waiter s \<and>
      sem_closed s' = sem_closed s \<and>
      (sem_permits s' \<le> sem_permits s \<or> ws = olist (sem_next_waker s'))) \<or> sem_close s = (s', ws)"
  using assms
  by (induction rule: sem_oper.induct)
    (auto simp: forget_permits_def Let_def dest!: sem_dests split: if_splits)

lemma sem_oper_queue:
  "sem_oper s g s' g' ws \<Longrightarrow> sem_next_waiter s' = sem_next_waiter s \<and>
     (sem_waiters s' = sem_waiters s \<and> sem_closed s' = sem_closed s \<or>
      sem_waiters s' = [] \<and> sem_closed s' \<and> sw_waker ` set (sem_waiters s) \<subseteq> set ws)"
  by (drule sem_operD) (auto simp: sem_close_def)

lemma next_waker_front:
  "sem_waiters s = e # es \<Longrightarrow> sw_permits e \<le> sem_permits s \<Longrightarrow> sw_waker e \<in> set (olist (sem_next_waker s))"
  by (simp add: sem_next_waker_def)

lemma acquire_dropD:
  assumes "distinct (map sw_id (sem_waiters s))" "acquire_drop s slot = (s', ws)"
  shows "s' = s\<lparr>sem_waiters := filter (\<lambda>e. slot \<noteq> Some (sw_id e)) (sem_waiters s)\<rparr> \<and>
     (slot \<noteq> None \<longrightarrow> ws = olist (sem_next_waker s'))"
proof (cases slot)
  case (Some i)
  have "filter (\<lambda>e. slot \<noteq> Some (sw_id e)) (sem_waiters s) = filter (\<lambda>e. sw_id e \<noteq> i) (sem_waiters s)"
    using Some by (intro filter_cong) auto
  then show ?thesis
    using assms(2) Some remove_position_filter [OF assms(1), of i]
    by (auto simp: acquire_drop_def sem_cancel_waiter_def Let_def simp del: position_None
        split: option.splits)
qed (use assms in \<open>auto simp: acquire_drop_def sem_cancel_waiter_def\<close>)

section \<open>The semaphore is a fair waiter queue\<close>

lemma acquire_poll_cases:
  assumes "acquire_poll addr s slot k w = (s', slot', out, ws)"
  obtains out' where "poll_acquire s slot k w = (s', slot', out', ws)" "out = Pending \<longleftrightarrow> out' = Pending"
  using acquire_pollD [OF assms] by (elim exE conjE, intro that) simp_all

lemma sem_wf_poll: "sem_wf s \<Longrightarrow> acquire_poll a s slot k w = (s', slot', out, ws) \<Longrightarrow> sem_wf s'"
  by (erule acquire_poll_cases, erule poll_acquireE) (auto simp: sem_wf_def)

lemma sem_wf_cancel: "sem_wf s \<Longrightarrow> acquire_drop s slot = (s', ws) \<Longrightarrow> sem_wf s'"
  by (auto simp: sem_wf_def acquire_drop_def sem_cancel_waiter_def remove_at_def Let_def
      split: option.splits)

lemma sem_wf_oper: "sem_wf s \<Longrightarrow> sem_oper s g s' g' ws \<Longrightarrow> sem_wf s'"
  by (drule sem_operD) (auto simp: sem_wf_def sem_close_def)

lemma acquire_pending:
  assumes "acquire_poll a s slot k w = (s', slot', Pending, ws)"
  shows "\<not> sem_closed s \<and> \<not> sem_closed s' \<and> sem_permits s' = sem_permits s \<and>
    ((\<exists>i. slot = Some i \<and> slot' = Some i \<and> i \<in> sw_id ` set (sem_waiters s) \<and>
       map sw_id (sem_waiters s') = map sw_id (sem_waiters s) \<and>
       map sw_permits (sem_waiters s') = map sw_permits (sem_waiters s) \<and>
       sem_next_waiter s' = sem_next_waiter s \<and>
       (i = sw_id (hd (sem_waiters s)) \<longrightarrow> sem_permits s < k)) \<or>
     (\<forall>i. slot = Some i \<longrightarrow> i \<notin> sw_id ` set (sem_waiters s)) \<and> slot' = Some (sem_next_waiter s) \<and>
       (\<exists>e. sem_waiters s' = sem_waiters s @ [e] \<and> sw_id e = sem_next_waiter s \<and> sw_permits e = k) \<and>
       sem_next_waiter s' = next_id (sem_next_waiter s) \<and> (sem_waiters s = [] \<longrightarrow> sem_permits s < k))"
proof -
  obtain out' where "poll_acquire s slot k w = (s', slot', Pending, ws)"
    using assms by (auto elim: acquire_poll_cases)
  then show ?thesis
  proof (cases rule: poll_acquireE)
    case (requeue p e)
    then show ?thesis by (auto simp: map_update_same)
  qed auto
qed

lemma acquire_ready:
  assumes "acquire_poll a s slot k w = (s', slot', Ready v, ws)" "sem_wf s"
  shows "sem_next_waiter s' = sem_next_waiter s \<and> sem_closed s' = sem_closed s \<and>
    (sem_waiters s' = sem_waiters s \<and> sem_waiters s = [] \<or>
     (\<exists>e. slot = Some (sw_id e) \<and> sem_waiters s = e # sem_waiters s' \<and> ws = olist (sem_next_waker s')))"
proof -
  obtain out' where "poll_acquire s slot k w = (s', slot', out', ws)" "out' \<noteq> Pending"
    using assms(1) by (auto elim: acquire_poll_cases)
  then show ?thesis
    using assms(2) by (cases rule: poll_acquireE) (auto simp: sem_wf_def)
qed

interpretation sem: fair_waiter_queue "semaphore_ops addr" sem_wf sem_avail for addr
proof (unfold_locales; unfold semaphore_ops_simps sem_ids)
  fix s slot k w s' slot' ws e es
  assume "sem_next_waiter s \<notin> set (map sw_id (sem_waiters s))"
    and "\<forall>d\<in>set (sem_waiters s). slot = Some (sw_id d) \<longrightarrow> sw_permits d = k"
    and "acquire_poll addr s slot k w = (s', slot', Pending, ws)"
    and "sem_waiters s' = e # es" "sem_avail s' (sw_permits e)"
  then show "slot' \<noteq> Some (sw_id e) \<and> (\<exists>d ds. sem_waiters s = d # ds \<and> sw_id d = sw_id e \<and>
      sw_permits d = sw_permits e \<and> sem_avail s (sw_permits e))"
    by (cases "sem_waiters s") (auto simp: sem_avail_def dest!: acquire_pending)
next
  fix s slot k w s' slot' ws
  assume "acquire_poll addr s slot k w = (s', slot', Pending, ws)"
  from acquire_pending [OF this]
  show "\<not> sem_closed s \<and> \<not> sem_closed s' \<and> (wq_requeued (semaphore_ops addr) s slot s' slot' \<or>
      wq_enqueued (semaphore_ops addr) s slot k s' slot')"
    by (auto simp: wq_requeued_def wq_enqueued_def)
next
  fix s slot s' ws e es
  assume "distinct (map sw_id (sem_waiters s))" "acquire_drop s slot = (s', ws)"
    and "sem_waiters s' = e # es" "sem_avail s' (sw_permits e)"
  then show "sw_waker e \<in> set ws \<or> (\<exists>ds. sem_waiters s = e # ds \<and> sem_avail s (sw_permits e))"
    using next_waker_front [of s' e es] by (cases slot) (auto simp: sem_avail_def dest!: acquire_dropD)
next
  fix s g s' g' ws e es
  assume "sem_oper s g s' g' ws" "sem_waiters s' = e # es" "sem_avail s' (sw_permits e)"
  then show "sw_waker e \<in> set ws \<or> (\<exists>ds. sem_waiters s = e # ds \<and> sem_avail s (sw_permits e))"
    using next_waker_front [of s' e es] by (auto simp: sem_avail_def sem_close_def dest!: sem_operD)
next
  fix s slot k w s' slot' v ws e es
  assume "sem_wf s" "acquire_poll addr s slot k w = (s', slot', Ready v, ws)"
    and "sem_waiters s' = e # es" "sem_avail s' (sw_permits e)"
  then show "sw_waker e \<in> set ws"
    using next_waker_front [of s' e es] by (auto simp: sem_avail_def dest!: acquire_ready)
qed (auto dest: sem_wf_poll sem_wf_cancel sem_wf_oper acquire_ready acquire_dropD sem_oper_queue)

section \<open>Permits are conserved\<close>

abbreviation live_permits :: "sem_held \<Rightarrow> nat" where
  "live_permits g \<equiv> \<Sum>\<^sub># (image_mset sp_permits (live g))"

definition sem_conserved :: "semaphore_state \<Rightarrow> sem_held \<Rightarrow> bool" where
  "sem_conserved s g \<longleftrightarrow> sem_permits s + live_permits g = total g \<and> (\<forall>p\<in>#live g. \<not> sp_forgotten p)"

lemma live_removeD: "p \<in># live g \<Longrightarrow> live_permits g = sp_permits p + \<Sum>\<^sub># (image_mset sp_permits (live g - {#p#}))"
  by (metis image_mset_add_mset insert_DiffM sum_mset.add_mset)

lemma conserved_poll:
  assumes "sem_conserved s g" "acquire_poll a s slot k w = (s', slot', out, ws)"
  shows "sem_conserved s' (case out of Pending \<Rightarrow> g | Ready v \<Rightarrow> sem_grant k v g)"
proof -
  from acquire_pollD [OF assms(2)] obtain r where r: "poll_acquire s slot k w = (s', slot', r, ws)"
    "out = map_poll (map_sum id (\<lambda>_. \<lparr>sp_semaphore = a, sp_permits = k, sp_forgotten = False\<rparr>)) r"
    by blast
  from r(1) show ?thesis
    using assms(1) r(2) by (cases rule: poll_acquireE) (auto simp: sem_conserved_def sem_grant_def)
qed

lemma conserved_oper:
  assumes "sem_oper s g s' g' ws" "sem_conserved s g"
  shows "sem_conserved s' g'"
  using assms
proof (induction rule: sem_oper.induct)
  case (drop p g s s' ws)
  then show ?case
    using live_removeD [of p g] by (auto simp: sem_conserved_def dest!: permit_dropD in_diffD)
next
  case (drop_panic p g s e)
  then show ?case
    using live_removeD [of p g] by (auto simp: sem_conserved_def dest!: in_diffD)
next
  case (forget p g s s' ws)
  then show ?case
    using live_removeD [of p g] by (auto simp: sem_conserved_def dest!: permit_forgetD in_diffD)
next
  case (merge p q g s s' r ws)
  then obtain M where "live g = {#p, q#} + M"
    by (auto simp: subset_mset.le_iff_add)
  with merge show ?case by (auto simp: sem_conserved_def dest!: permit_mergeD)
next
  case (split p g n p' q s)
  then show ?case
    using live_removeD [of p g] by (auto simp: sem_conserved_def dest!: permit_splitD in_diffD)
qed (auto simp: sem_conserved_def forget_permits_def sem_close_def Let_def
    dest!: add_permitsD try_acquire_manyD)

lemma conserved_reach:
  assumes "sem_const_new n = Inr s0" "wq_reach (semaphore_ops a) s0 \<lparr>live = {#}, total = n\<rparr> y"
  shows "sem_conserved (res y) (held y)"
  using assms(2)
proof (rule wq_reach_rel)
  show "sem_conserved s0 \<lparr>live = {#}, total = n\<rparr>"
    using assms(1) by (auto simp: sem_conserved_def sem_const_new_def split: if_splits)
next
  fix s g slot s' ws
  assume "sem_conserved s g" "wq_cancel (semaphore_ops a) s slot = (s', ws)"
  then show "sem_conserved s' g"
    by (auto simp: sem_conserved_def acquire_drop_def sem_cancel_waiter_def Let_def split: option.splits)
qed (auto dest: conserved_poll conserved_oper)

lemma permit_drop_ok:
  assumes "sem_conserved s g" "total g \<le> MAX_PERMITS" "p \<in># live g"
  shows "\<exists>s' ws. permit_drop s p = Inr (s', ws)"
  using assms live_removeD [OF assms(3)]
  by (auto simp: sem_conserved_def permit_drop_def add_permits_def usize_checked_add_def Let_def
      MAX_PERMITS_def)

lemma sem_start_ok: "sem_const_new n = Inr s0 \<Longrightarrow> sem.start_ok a s0"
  by (auto simp: sem.start_ok_def sem_const_new_def sem_wf_def split: if_splits)

lemma acquire_poll_front:
  assumes "sem_wf s" "sem_waiters s = e # es" "sw_permits e \<le> sem_permits s"
  shows "\<exists>s' ws. acquire_poll a s (Some (sw_id e)) (sw_permits e) w = (s', None,
     Ready (Inr \<lparr>sp_semaphore = a, sp_permits = sw_permits e, sp_forgotten = False\<rparr>), ws)"
  using assms by (auto simp: acquire_poll_def poll_acquire_def sem_wf_def Let_def)

section \<open>Properties\<close>

text \<open>C1: in every run of any number of tasks, the permits available and the permits held by
  live permit objects add up to the permits in circulation; and as long as no more than
  \<open>MAX_PERMITS\<close> are in circulation, dropping a live permit does not panic.\<close>

theorem semaphore_conservation:
  assumes "sem_const_new n = Inr s0"
    and "wq_reach (semaphore_ops a) s0 \<lparr>live = {#}, total = n\<rparr> y"
  shows "sem_permits (res y) + live_permits (held y) = total (held y) \<and>
    (total (held y) \<le> MAX_PERMITS \<longrightarrow>
      (\<forall>p\<in>#live (held y). \<exists>s' ws. permit_drop (res y) p = Inr (s', ws)))"
  using conserved_reach [OF assms] permit_drop_ok by (auto simp: sem_conserved_def)

text \<open>C2: no wakeup is lost. Whenever the permits available suffice for the request at the front
  of the queue, that request belongs to a live future which has been woken since it was last
  polled, and polling it yields the permit.\<close>

theorem semaphore_no_lost_wakeup:
  assumes "sem_const_new n = Inr s0"
    and "wq_reach (semaphore_ops a) s0 \<lparr>live = {#}, total = n\<rparr> y" "polls y < id_space"
    and "sem_waiters (res y) = e # es" "sw_permits e \<le> sem_permits (res y)"
  shows "\<exists>f. futs y f = Some (sw_permits e, Some (sw_id e)) \<and> f \<in> woken y \<and>
    (\<forall>w. \<exists>s' p ws. acquire_poll a (res y) (Some (sw_id e)) (sw_permits e) w =
       (s', None, Ready (Inr p), ws))"
proof -
  have "sem_wf (res y)"
    using sem.reach_inv [OF assms(2) sem_start_ok [OF assms(1)] assms(3)] by (auto simp: sem.inv_at_def)
  with sem.no_lost_wakeup [OF assms(2) sem_start_ok [OF assms(1)] assms(3)] assms(4,5)
    acquire_poll_front show ?thesis
    by (fastforce simp: sem_avail_def)
qed

text \<open>C3: requests are served first come, first served. A step keeps the order of the waiting
  requests (it removes some or appends one), a permit is granted to a queued future only when it
  is at the front, and nobody else is granted one while the queue is not empty.\<close>

theorem semaphore_fifo:
  assumes "sem_const_new n = Inr s0"
    and "wq_reach (semaphore_ops a) s0 \<lparr>live = {#}, total = n\<rparr> y" "polls y < id_space"
  shows "(\<forall>z. wq_step (semaphore_ops a) y z \<longrightarrow>
      subseq (map sw_id (sem_waiters (res z))) (map sw_id (sem_waiters (res y))) \<or>
      map sw_id (sem_waiters (res z)) = map sw_id (sem_waiters (res y)) @ [sem_next_waiter (res y)]) \<and>
    (\<forall>e es. sem_waiters (res y) = e # es \<longrightarrow>
      (\<forall>slot k w s' slot' r ws. acquire_poll a (res y) slot k w = (s', slot', Ready r, ws) \<longrightarrow>
         slot = Some (sw_id e)) \<and>
      (\<forall>m. \<exists>err. try_acquire_many a (res y) m = (res y, Inl err)))"
proof -
  obtain i where i: "sem.inv_at a i y"
    using sem.reach_inv [OF assms(2) sem_start_ok [OF assms(1)] assms(3)] by blast
  then have wf: "sem_wf (res y)" by (simp add: sem.inv_at_def)
  have "\<exists>err. try_acquire_many a (res y) m = (res y, Inl err)" if "sem_waiters (res y) = e # es" for m e es
    using that by (auto simp: try_acquire_many_def try_take_def Let_def)
  moreover have "slot = Some (sw_id e)" if "acquire_poll a (res y) slot k w = (s', slot', Ready r, ws)"
    "sem_waiters (res y) = e # es" for slot k w s' slot' r ws e es
    using sem.served_at_front [OF wf, of a] that by simp
  ultimately show ?thesis
    using sem.order_kept [OF _ i] by simp
qed

section \<open>A concrete run\<close>

text \<open>
  No permits at first; a task asks for two and waits; a second task asks for one and waits behind
  it; two permits are added.
\<close>

definition sem_demo :: semaphore_state where
  "sem_demo = \<lparr>sem_permits = 2, sem_closed = False, sem_next_waiter = 3,
     sem_waiters = [\<lparr>sw_id = 1, sw_permits = 2, sw_waker = 7\<rparr>, \<lparr>sw_id = 2, sw_permits = 1, sw_waker = 8\<rparr>]\<rparr>"

definition sem_demo0 :: semaphore_state where
  "sem_demo0 = \<lparr>sem_permits = 0, sem_closed = False, sem_next_waiter = 1, sem_waiters = []\<rparr>"

lemma sem_demo0_new: "sem_const_new 0 = Inr sem_demo0"
  by (simp add: sem_const_new_def sem_demo0_def)

lemma sem_demo_at:
  "wq_at (semaphore_ops 0) sem_demo0 \<lparr>live = {#}, total = 0\<rparr> sem_demo \<lparr>live = {#}, total = 2\<rparr>
     ((Map.empty(0 \<mapsto> (2, None)))(0 \<mapsto> (2, Some 1), 1 \<mapsto> (1, None), 1 \<mapsto> (1, Some 2))) 2"
proof -
  let ?Q = "semaphore_ops 0" and ?g = "\<lparr>live = {#}, total = 0\<rparr>"
  let ?e1 = "\<lparr>sw_id = 1, sw_permits = 2, sw_waker = 7\<rparr>" and ?e2 = "\<lparr>sw_id = 2, sw_permits = 1, sw_waker = 8\<rparr>"
  have "wq_at ?Q sem_demo0 ?g sem_demo0 ?g (Map.empty(0 \<mapsto> (2, None))) 0"
    by (rule wq_at_create [OF wq_at_start]) simp
  then have "wq_at ?Q sem_demo0 ?g (sem_demo0\<lparr>sem_next_waiter := 2, sem_waiters := [?e1]\<rparr>) ?g
      ((Map.empty(0 \<mapsto> (2, None)))(0 \<mapsto> (2, Some 1))) (Suc 0)"
    by (rule wq_at_pending [where f = 0 and slot = None and w = 7 and ws = "[]"])
      (simp_all add: acquire_poll_def poll_acquire_def poll_acquire_fresh_def sem_demo0_def next_id_def)
  then have "wq_at ?Q sem_demo0 ?g (sem_demo0\<lparr>sem_next_waiter := 2, sem_waiters := [?e1]\<rparr>) ?g
      ((Map.empty(0 \<mapsto> (2, None)))(0 \<mapsto> (2, Some 1), 1 \<mapsto> (1, None))) (Suc 0)"
    by (rule wq_at_create) simp
  then have "wq_at ?Q sem_demo0 ?g (sem_demo0\<lparr>sem_next_waiter := 3, sem_waiters := [?e1, ?e2]\<rparr>) ?g
      ((Map.empty(0 \<mapsto> (2, None)))(0 \<mapsto> (2, Some 1), 1 \<mapsto> (1, None), 1 \<mapsto> (1, Some 2))) (Suc (Suc 0))"
    by (rule wq_at_pending [where f = 1 and slot = None and w = 8 and ws = "[]"])
      (simp_all add: acquire_poll_def poll_acquire_def poll_acquire_fresh_def sem_demo0_def next_id_def)
  then have "wq_at ?Q sem_demo0 ?g sem_demo (?g\<lparr>total := total ?g + 2\<rparr>)
      ((Map.empty(0 \<mapsto> (2, None)))(0 \<mapsto> (2, Some 1), 1 \<mapsto> (1, None), 1 \<mapsto> (1, Some 2))) (Suc (Suc 0))"
  proof (rule wq_at_oper)
    show "wq_oper ?Q (sem_demo0\<lparr>sem_next_waiter := 3, sem_waiters := [?e1, ?e2]\<rparr>) ?g
       sem_demo (?g\<lparr>total := total ?g + 2\<rparr>) [7]"
      unfolding semaphore_ops_simps
      by (rule sem_oper.add) (simp add: add_permits_def usize_checked_add_def usize_max_def MAX_PERMITS_def
          sem_demo0_def sem_demo_def sem_next_waker_def)
  qed
  then show ?thesis by (simp add: numeral_2_eq_2)
qed

theorem semaphore_conservation_witness:
  "\<exists>y. wq_reach (semaphore_ops 0) sem_demo0 \<lparr>live = {#}, total = 0\<rparr> y \<and> sem_permits (res y) = 2 \<and>
     sem_permits (res y) + live_permits (held y) = total (held y)"
proof -
  obtain y where y: "wq_reach (semaphore_ops 0) sem_demo0 \<lparr>live = {#}, total = 0\<rparr> y" "res y = sem_demo"
    using sem_demo_at unfolding wq_at_def by blast
  then show ?thesis
    using semaphore_conservation [OF sem_demo0_new y(1)]
    by (intro exI [of _ y]) (auto simp: sem_demo_def)
qed

theorem semaphore_no_lost_wakeup_witness:
  "\<exists>y f. wq_reach (semaphore_ops 0) sem_demo0 \<lparr>live = {#}, total = 0\<rparr> y \<and>
     futs y f = Some (2, Some 1) \<and> f \<in> woken y"
proof -
  obtain y where y: "wq_reach (semaphore_ops 0) sem_demo0 \<lparr>live = {#}, total = 0\<rparr> y" "res y = sem_demo" "polls y = 2"
    using sem_demo_at unfolding wq_at_def by blast
  then show ?thesis
    using semaphore_no_lost_wakeup [OF sem_demo0_new y(1), of "\<lparr>sw_id = 1, sw_permits = 2, sw_waker = 7\<rparr>"
        "[\<lparr>sw_id = 2, sw_permits = 1, sw_waker = 8\<rparr>]"]
    by (auto simp: sem_demo_def)
qed

theorem semaphore_fifo_witness:
  "\<exists>y. wq_reach (semaphore_ops 0) sem_demo0 \<lparr>live = {#}, total = 0\<rparr> y \<and>
     (\<exists>err. try_acquire_many 0 (res y) 1 = (res y, Inl err))"
proof -
  obtain y where y: "wq_reach (semaphore_ops 0) sem_demo0 \<lparr>live = {#}, total = 0\<rparr> y" "res y = sem_demo" "polls y = 2"
    using sem_demo_at unfolding wq_at_def by blast
  then have "polls y < id_space" by simp
  with semaphore_fifo [OF sem_demo0_new y(1)] y show ?thesis
    by (intro exI [of _ y]) (simp add: sem_demo_def)
qed

end
