(* ===== verification/Async_Mutex.thy ===== *)
theory Async_Mutex
  imports Waiter_Queue
begin

text \<open>
  The asynchronous mutex of \<open>sync/mutex.rs\<close>: lock state and protected value, the operations, the
  lock futures, and the guards with their mapped variants. The mutex is shown to be a fair waiter
  queue whose guards exclude one another, and mapped guards are shown to write through to the
  protected value.
\<close>

section \<open>State\<close>

record mutex_waiter =
  mw_id :: u64
  mw_waker :: waker

record mutex_state =
  mx_locked :: bool
  mx_next_waiter :: u64
  mx_waiters :: "mutex_waiter list"

record 't mutex =
  mx_state :: mutex_state
  mx_value :: 't

datatype try_lock_error = TryLockError

definition mutex_const_new :: "'t \<Rightarrow> 't mutex" where
  "mutex_const_new v =
     \<lparr>mx_state = \<lparr>mx_locked = False, mx_next_waiter = 1, mx_waiters = []\<rparr>, mx_value = v\<rparr>"

section \<open>Operations\<close>

text \<open>
  \<open>ok\<close> is the outcome of locking the FFRT mutex around the state; \<open>try_lock\<close> is the only
  operation that reports a failure of it, the others unwrap it. The returned guard carries no
  data of its own.
\<close>

definition try_lock :: "bool \<Rightarrow> mutex_state \<Rightarrow> mutex_state \<times> (try_lock_error + unit)" where
  "try_lock ok s =
     (if \<not> ok then (s, Inl TryLockError)
      else if mx_locked s \<or> mx_waiters s \<noteq> [] then (s, Inl TryLockError)
      else (s\<lparr>mx_locked := True\<rparr>, Inr ()))"

definition try_lock_owned :: "bool \<Rightarrow> mutex_state \<Rightarrow> mutex_state \<times> (try_lock_error + unit)" where
  "try_lock_owned ok s =
     (if \<not> ok then (s, Inl TryLockError)
      else if mx_locked s \<or> mx_waiters s \<noteq> [] then (s, Inl TryLockError)
      else (s\<lparr>mx_locked := True\<rparr>, Inr ()))"

text \<open>
  \<open>blocking_lock\<close> retries after every yield. What the other threads do to the state during the
  yields is the list \<open>envs\<close>; \<open>None\<close> means that the loop is still running after them.
\<close>

fun blocking_lock :: "mutex_state \<Rightarrow> (bool \<times> (mutex_state \<Rightarrow> mutex_state)) list \<Rightarrow> mutex_state option" where
  "blocking_lock s [] = None"
| "blocking_lock s ((ok, env) # envs) = (case try_lock ok s of
     (s', Inr _) \<Rightarrow> Some s'
   | (s', Inl TryLockError) \<Rightarrow> blocking_lock (env s') envs)"

definition poll_lock_fresh :: "mutex_state \<Rightarrow> waker \<Rightarrow> mutex_state \<times> u64 option \<times> unit poll" where
  "poll_lock_fresh s cx =
     (if \<not> mx_locked s \<and> mx_waiters s = [] then (s\<lparr>mx_locked := True\<rparr>, None, Ready ())
      else (s\<lparr>mx_next_waiter := next_id (mx_next_waiter s),
              mx_waiters := mx_waiters s @ [\<lparr>mw_id = mx_next_waiter s, mw_waker = cx\<rparr>]\<rparr>,
            Some (mx_next_waiter s), Pending))"

definition poll_lock :: "mutex_state \<Rightarrow> u64 option \<Rightarrow> waker \<Rightarrow> mutex_state \<times> u64 option \<times> unit poll" where
  "poll_lock s waiter_id cx = (case waiter_id of
     None \<Rightarrow> poll_lock_fresh s cx
   | Some wid \<Rightarrow>
       (let pos = position (\<lambda>waiter. mw_id waiter = wid) (mx_waiters s) in
        if pos = Some 0 \<and> \<not> mx_locked s
        then (s\<lparr>mx_waiters := tl (mx_waiters s), mx_locked := True\<rparr>, None, Ready ())
        else (case pos of
          Some p \<Rightarrow>
            (let waiter = mx_waiters s ! p in
             (if will_wake (mw_waker waiter) cx then s
              else s\<lparr>mx_waiters := (mx_waiters s)[p := waiter\<lparr>mw_waker := cx\<rparr>]\<rparr>,
              waiter_id, Pending))
        | None \<Rightarrow> poll_lock_fresh s cx)))"

definition front_waker :: "mutex_state \<Rightarrow> waker option" where
  "front_waker s = (case mx_waiters s of [] \<Rightarrow> None | waiter # _ \<Rightarrow> Some (mw_waker waiter))"

definition mx_cancel_waiter :: "mutex_state \<Rightarrow> u64 option \<Rightarrow> mutex_state \<times> waker list" where
  "mx_cancel_waiter s waiter_id = (case waiter_id of
     None \<Rightarrow> (s, [])
   | Some wid \<Rightarrow>
       (let was_front = (case mx_waiters s of [] \<Rightarrow> False | waiter # _ \<Rightarrow> mw_id waiter = wid);
            s' = (case position (\<lambda>waiter. mw_id waiter = wid) (mx_waiters s) of
                    None \<Rightarrow> s
                  | Some p \<Rightarrow> s\<lparr>mx_waiters := remove_at p (mx_waiters s)\<rparr>)
        in (s', if was_front \<and> \<not> mx_locked s' then olist (front_waker s') else [])))"

definition unlock :: "mutex_state \<Rightarrow> mutex_state \<times> waker list" where
  "unlock s = (let s' = s\<lparr>mx_locked := False\<rparr> in (s', olist (front_waker s')))"

text \<open>The futures returned by \<open>lock\<close> and \<open>lock_owned\<close>; the guard they return is the unit value.\<close>

definition lock_future_poll ::
  "'t mutex \<Rightarrow> u64 option \<Rightarrow> unit \<Rightarrow> waker \<Rightarrow> 't mutex \<times> u64 option \<times> unit poll \<times> waker list" where
  "lock_future_poll m waiter _ cx = (case poll_lock (mx_state m) waiter cx of
     (s', waiter', r) \<Rightarrow> (m\<lparr>mx_state := s'\<rparr>, waiter', map_poll (\<lambda>_. ()) r, []))"

definition lock_future_drop :: "'t mutex \<Rightarrow> u64 option \<Rightarrow> 't mutex \<times> waker list" where
  "lock_future_drop m waiter =
     (case mx_cancel_waiter (mx_state m) waiter of (s', ws) \<Rightarrow> (m\<lparr>mx_state := s'\<rparr>, ws))"

section \<open>Guards\<close>

text \<open>
  A reference \<open>&mut U\<close> into a value of type \<open>T\<close> is a view: how to read and how to replace
  the \<open>U\<close> inside the \<open>T\<close>. A closure \<open>FnOnce(&mut T) -> &mut U\<close> may change the value and
  returns such a reference.
\<close>

record ('t, 'u) view =
  vget :: "'t \<Rightarrow> 'u"
  vput :: "'u \<Rightarrow> 't \<Rightarrow> 't"

definition view_comp :: "('t, 'u) view \<Rightarrow> ('u, 'v) view \<Rightarrow> ('t, 'v) view" where
  "view_comp v w = \<lparr>vget = vget w \<circ> vget v, vput = (\<lambda>x t. vput v (vput w x (vget v t)) t)\<rparr>"

definition guard_deref :: "'t mutex \<Rightarrow> 't" where
  "guard_deref m = mx_value m"

definition guard_deref_mut :: "'t mutex \<Rightarrow> ('t \<Rightarrow> 't) \<Rightarrow> 't mutex" where
  "guard_deref_mut m f = m\<lparr>mx_value := f (mx_value m)\<rparr>"

definition guard_drop :: "'t mutex \<Rightarrow> 't mutex \<times> waker list" where
  "guard_drop m = (case unlock (mx_state m) of (s', ws) \<Rightarrow> (m\<lparr>mx_state := s'\<rparr>, ws))"

text \<open>\<open>map\<close> and \<open>try_map\<close> do not run the destructor of the guard they consume.\<close>

definition guard_map :: "'t mutex \<Rightarrow> ('t \<Rightarrow> 't \<times> ('t, 'u) view) \<Rightarrow> 't mutex \<times> ('t, 'u) view" where
  "guard_map m f = (case f (mx_value m) of (t', v) \<Rightarrow> (m\<lparr>mx_value := t'\<rparr>, v))"

definition guard_try_map ::
  "'t mutex \<Rightarrow> ('t \<Rightarrow> 't \<times> ('t, 'u) view option) \<Rightarrow> 't mutex \<times> (unit + ('t, 'u) view)" where
  "guard_try_map m f = (case f (mx_value m) of
     (t', None) \<Rightarrow> (m\<lparr>mx_value := t'\<rparr>, Inl ())
   | (t', Some v) \<Rightarrow> (m\<lparr>mx_value := t'\<rparr>, Inr v))"

definition mapped_deref :: "'t mutex \<Rightarrow> ('t, 'u) view \<Rightarrow> 'u" where
  "mapped_deref m v = vget v (mx_value m)"

definition mapped_deref_mut :: "'t mutex \<Rightarrow> ('t, 'u) view \<Rightarrow> ('u \<Rightarrow> 'u) \<Rightarrow> 't mutex" where
  "mapped_deref_mut m v f = m\<lparr>mx_value := vput v (f (vget v (mx_value m))) (mx_value m)\<rparr>"

definition mapped_map ::
  "'t mutex \<Rightarrow> ('t, 'u) view \<Rightarrow> ('u \<Rightarrow> 'u \<times> ('u, 'v) view) \<Rightarrow> 't mutex \<times> ('t, 'v) view" where
  "mapped_map m v f = (case f (vget v (mx_value m)) of
     (u', w) \<Rightarrow> (m\<lparr>mx_value := vput v u' (mx_value m)\<rparr>, view_comp v w))"

definition mapped_try_map ::
  "'t mutex \<Rightarrow> ('t, 'u) view \<Rightarrow> ('u \<Rightarrow> 'u \<times> ('u, 'v) view option) \<Rightarrow>
   't mutex \<times> (('t, 'u) view + ('t, 'v) view)" where
  "mapped_try_map m v f = (case f (vget v (mx_value m)) of
     (u', None) \<Rightarrow> (m\<lparr>mx_value := vput v u' (mx_value m)\<rparr>, Inl v)
   | (u', Some w) \<Rightarrow> (m\<lparr>mx_value := vput v u' (mx_value m)\<rparr>, Inr (view_comp v w)))"

definition mapped_drop :: "'t mutex \<Rightarrow> 't mutex \<times> waker list" where
  "mapped_drop m = (case unlock (mx_state m) of (s', ws) \<Rightarrow> (m\<lparr>mx_state := s'\<rparr>, ws))"

section \<open>The outcomes of a poll\<close>

lemma poll_lockE:
  assumes "poll_lock s slot w = (s', slot', out)"
  obtains
    (now) "mx_waiters s = []" "\<not> mx_locked s" "s' = s\<lparr>mx_locked := True\<rparr>" "slot' = None" "out = Ready ()"
  | (front) e es where "slot = Some (mw_id e)" "mx_waiters s = e # es" "\<not> mx_locked s"
      "s' = s\<lparr>mx_waiters := es, mx_locked := True\<rparr>" "slot' = None" "out = Ready ()"
  | (requeue) p e where "slot = Some (mw_id e)" "p < length (mx_waiters s)" "e = mx_waiters s ! p"
      "mw_id (hd (mx_waiters s)) = mw_id e \<Longrightarrow> mx_locked s"
      "s' = s\<lparr>mx_waiters := (mx_waiters s)[p := e\<lparr>mw_waker := w\<rparr>]\<rparr>" "slot' = slot" "out = Pending"
  | (enqueue) "\<forall>e\<in>set (mx_waiters s). slot \<noteq> Some (mw_id e)" "mx_waiters s \<noteq> [] \<or> mx_locked s"
      "s' = s\<lparr>mx_next_waiter := next_id (mx_next_waiter s),
         mx_waiters := mx_waiters s @ [\<lparr>mw_id = mx_next_waiter s, mw_waker = w\<rparr>]\<rparr>"
      "slot' = Some (mx_next_waiter s)" "out = Pending"
proof -
  have fresh: thesis if fr: "poll_lock_fresh s w = (s', slot', out)"
    and sl: "\<forall>e\<in>set (mx_waiters s). slot \<noteq> Some (mw_id e)"
  proof (cases "\<not> mx_locked s \<and> mx_waiters s = []")
    case True
    with fr show ?thesis by (intro now) (auto simp: poll_lock_fresh_def)
  next
    case False
    with fr sl show ?thesis by (intro enqueue) (auto simp: poll_lock_fresh_def)
  qed
  show ?thesis
  proof (cases slot)
    case None
    with assms show ?thesis by (intro fresh) (simp_all add: poll_lock_def)
  next
    case (Some wid)
    show ?thesis
    proof (cases "position (\<lambda>e. mw_id e = wid) (mx_waiters s)")
      case None
      with assms Some show ?thesis by (intro fresh) (auto simp: poll_lock_def)
    next
      case pos: (Some p)
      from position_SomeD [OF this] have p: "p < length (mx_waiters s)" "mw_id (mx_waiters s ! p) = wid"
        by auto
      show ?thesis
      proof (cases "p = 0 \<and> \<not> mx_locked s")
        case True
        then obtain e es where "mx_waiters s = e # es" using p by (cases "mx_waiters s") auto
        with assms Some pos p True show ?thesis
          by (intro front [of e es]) (auto simp: poll_lock_def Let_def)
      next
        case False
        moreover have "p = 0" if "mw_id (hd (mx_waiters s)) = wid"
          using pos p that by (cases "mx_waiters s") auto
        ultimately show ?thesis
          using assms Some pos p by (intro requeue [of "mx_waiters s ! p" p])
            (auto simp: poll_lock_def Let_def will_wake_def simp del: position_Some_0 split: if_splits)
      qed
    qed
  qed
qed

section \<open>Clients\<close>

text \<open>
  What the clients of a mutex hold is the number of live guards, plain or mapped. Mapping a guard
  changes the protected value at most, as writing through the guard does.
\<close>

inductive mutex_oper :: "'t mutex \<Rightarrow> nat \<Rightarrow> 't mutex \<Rightarrow> nat \<Rightarrow> waker list \<Rightarrow> bool" where
  try_ok: "try_lock ok (mx_state m) = (s', Inr g) \<Longrightarrow> mutex_oper m h (m\<lparr>mx_state := s'\<rparr>) (Suc h) []"
| try_err: "try_lock ok (mx_state m) = (s', Inl e) \<Longrightarrow> mutex_oper m h (m\<lparr>mx_state := s'\<rparr>) h []"
| try_owned_ok: "try_lock_owned ok (mx_state m) = (s', Inr g) \<Longrightarrow>
     mutex_oper m h (m\<lparr>mx_state := s'\<rparr>) (Suc h) []"
| try_owned_err: "try_lock_owned ok (mx_state m) = (s', Inl e) \<Longrightarrow> mutex_oper m h (m\<lparr>mx_state := s'\<rparr>) h []"
| deref_mut: "0 < h \<Longrightarrow> mutex_oper m h (guard_deref_mut m f) h []"
| drop: "0 < h \<Longrightarrow> guard_drop m = (m', ws) \<Longrightarrow> mutex_oper m h m' (h - 1) ws"
| drop_mapped: "0 < h \<Longrightarrow> mapped_drop m = (m', ws) \<Longrightarrow> mutex_oper m h m' (h - 1) ws"

definition mutex_ops :: "('t mutex, mutex_waiter, unit, unit, nat) waiter_ops" where
  "mutex_ops = \<lparr>wq_queue = mx_waiters \<circ> mx_state, wq_id = mw_id, wq_kind = (\<lambda>_. ()),
     wq_waker = mw_waker, wq_next = mx_next_waiter \<circ> mx_state, wq_closed = (\<lambda>_. False),
     wq_poll = lock_future_poll, wq_cancel = lock_future_drop, wq_grant = (\<lambda>_ _ h. Suc h),
     wq_oper = mutex_oper\<rparr>"

definition mutex_avail :: "'t mutex \<Rightarrow> unit \<Rightarrow> bool" where
  "mutex_avail m _ \<longleftrightarrow> \<not> mx_locked (mx_state m)"

lemma mutex_ops_simps [simp]:
  "wq_queue mutex_ops m = mx_waiters (mx_state m)" "wq_id mutex_ops = mw_id"
  "wq_kind mutex_ops e = ()" "wq_waker mutex_ops = mw_waker"
  "wq_next mutex_ops m = mx_next_waiter (mx_state m)" "wq_closed mutex_ops m = False"
  "wq_poll mutex_ops = lock_future_poll" "wq_cancel mutex_ops = lock_future_drop"
  "wq_grant mutex_ops k v h = Suc h" "wq_oper mutex_ops = mutex_oper"
  by (simp_all add: mutex_ops_def)

lemma mutex_ids [simp]: "wq_ids mutex_ops m = map mw_id (mx_waiters (mx_state m))"
  by (simp add: wq_ids_def)

lemma map_kind_mutex:
  "map mw_id xs = map mw_id ys \<Longrightarrow> map (wq_kind mutex_ops) xs = map (wq_kind mutex_ops) ys"
  by (rule nth_equalityI) (auto dest: map_eq_imp_length_eq)

lemma map_poll_unit [simp]: "map_poll (\<lambda>_. ()) r = r"
  by (cases r) auto

lemma lock_future_pollD:
  "lock_future_poll m slot k w = (m', slot', out, ws) \<Longrightarrow>
     \<exists>s'. poll_lock (mx_state m) slot w = (s', slot', out) \<and> m' = m\<lparr>mx_state := s'\<rparr> \<and> ws = []"
  by (auto simp: lock_future_poll_def split: prod.splits)

lemma lock_future_dropD:
  assumes "distinct (map mw_id (mx_waiters (mx_state m)))" "lock_future_drop m slot = (m', ws)"
  shows "m' = m\<lparr>mx_state := (mx_state m)\<lparr>mx_waiters :=
      filter (\<lambda>e. slot \<noteq> Some (mw_id e)) (mx_waiters (mx_state m))\<rparr>\<rparr> \<and>
    (mx_waiters (mx_state m) \<noteq> [] \<and> slot = Some (mw_id (hd (mx_waiters (mx_state m)))) \<and>
      \<not> mx_locked (mx_state m) \<longrightarrow> ws = olist (front_waker (mx_state m')))"
proof (cases slot)
  case (Some i)
  have "filter (\<lambda>e. slot \<noteq> Some (mw_id e)) (mx_waiters (mx_state m)) =
      filter (\<lambda>e. mw_id e \<noteq> i) (mx_waiters (mx_state m))"
    using Some by (intro filter_cong) auto
  then show ?thesis
    using assms(2) Some remove_position_filter [OF assms(1), of i]
    by (auto simp: lock_future_drop_def mx_cancel_waiter_def Let_def simp del: position_None
        split: option.splits list.splits if_splits)
qed (use assms in \<open>auto simp: lock_future_drop_def mx_cancel_waiter_def\<close>)

lemma mutex_operD:
  assumes "mutex_oper m h m' h' ws"
  shows "mx_waiters (mx_state m') = mx_waiters (mx_state m) \<and>
    mx_next_waiter (mx_state m') = mx_next_waiter (mx_state m) \<and>
    (mx_locked (mx_state m') \<or> mx_locked (mx_state m') = mx_locked (mx_state m) \<or>
     ws = olist (front_waker (mx_state m')))"
  using assms
  by (induction rule: mutex_oper.induct)
    (auto simp: try_lock_def try_lock_owned_def guard_deref_mut_def guard_drop_def mapped_drop_def
      unlock_def Let_def split: if_splits)

lemma lock_pending:
  assumes "lock_future_poll m slot k w = (m', slot', Pending, ws)"
  defines "s \<equiv> mx_state m" and "s' \<equiv> mx_state m'"
  shows "mx_locked s' = mx_locked s \<and>
    ((\<exists>i. slot = Some i \<and> slot' = Some i \<and> i \<in> mw_id ` set (mx_waiters s) \<and>
       map mw_id (mx_waiters s') = map mw_id (mx_waiters s) \<and> mx_next_waiter s' = mx_next_waiter s \<and>
       (i = mw_id (hd (mx_waiters s)) \<longrightarrow> mx_locked s)) \<or>
     (\<forall>i. slot = Some i \<longrightarrow> i \<notin> mw_id ` set (mx_waiters s)) \<and> slot' = Some (mx_next_waiter s) \<and>
       (\<exists>e. mx_waiters s' = mx_waiters s @ [e] \<and> mw_id e = mx_next_waiter s) \<and>
       mx_next_waiter s' = next_id (mx_next_waiter s) \<and> (mx_waiters s = [] \<longrightarrow> mx_locked s))"
proof -
  obtain t where t: "poll_lock s slot w = (t, slot', Pending)" "s' = t"
    using lock_future_pollD [OF assms(1)] unfolding s_def s'_def by auto
  from t(1) show ?thesis
  proof (cases rule: poll_lockE)
    case (requeue p e)
    with t(2) show ?thesis by (auto simp: map_update_same)
  qed (use t(2) in auto)
qed

lemma lock_ready:
  assumes "lock_future_poll m slot k w = (m', slot', Ready v, ws)"
  defines "s \<equiv> mx_state m" and "s' \<equiv> mx_state m'"
  shows "mx_next_waiter s' = mx_next_waiter s \<and> \<not> mx_locked s \<and> mx_locked s' \<and>
    (mx_waiters s' = mx_waiters s \<and> mx_waiters s = [] \<or>
     (\<exists>e. slot = Some (mw_id e) \<and> mx_waiters s = e # mx_waiters s'))"
proof -
  obtain t where t: "poll_lock s slot w = (t, slot', Ready v)" "s' = t"
    using lock_future_pollD [OF assms(1)] unfolding s_def s'_def by auto
  from t(1) show ?thesis
    by (cases rule: poll_lockE) (use t(2) in auto)
qed

lemma front_waker_front: "mx_waiters s = e # es \<Longrightarrow> mw_waker e \<in> set (olist (front_waker s))"
  by (simp add: front_waker_def)

section \<open>The mutex is a fair waiter queue\<close>

interpretation mx: fair_waiter_queue mutex_ops "\<lambda>_. True" mutex_avail
proof (unfold_locales; (unfold mutex_ops_simps mutex_ids)?)
  fix m slot k w m' slot' ws and e :: mutex_waiter and es
  assume "mx_next_waiter (mx_state m) \<notin> set (map mw_id (mx_waiters (mx_state m)))"
    and "lock_future_poll m slot k w = (m', slot', Pending, ws)"
    and "mx_waiters (mx_state m') = e # es" "mutex_avail m' ()"
  then show "slot' \<noteq> Some (mw_id e) \<and> (\<exists>d ds. mx_waiters (mx_state m) = d # ds \<and> mw_id d = mw_id e \<and>
      () = () \<and> mutex_avail m ())"
    by (cases "mx_waiters (mx_state m)") (auto simp: mutex_avail_def dest!: lock_pending)
next
  fix m slot k w m' slot' ws
  assume "lock_future_poll m slot k w = (m', slot', Pending, ws)"
  from lock_pending [OF this]
  show "\<not> False \<and> \<not> False \<and> (wq_requeued mutex_ops m slot m' slot' \<or> wq_enqueued mutex_ops m slot k m' slot')"
    by (elim conjE disjE exE) (auto simp: wq_requeued_def wq_enqueued_def intro: map_kind_mutex)
next
  fix m slot m' ws and e :: mutex_waiter and es
  assume d: "distinct (map mw_id (mx_waiters (mx_state m)))" "lock_future_drop m slot = (m', ws)"
    and "mx_waiters (mx_state m') = e # es" "mutex_avail m' ()"
  then show "mw_waker e \<in> set ws \<or> (\<exists>ds. mx_waiters (mx_state m) = e # ds \<and> mutex_avail m ())"
    using front_waker_front [of "mx_state m'" e es] lock_future_dropD [OF d]
    by (cases "mx_waiters (mx_state m)") (auto simp: mutex_avail_def split: if_splits)
next
  fix m h m' h' ws and e :: mutex_waiter and es
  assume "mutex_oper m h m' h' ws" "mx_waiters (mx_state m') = e # es" "mutex_avail m' ()"
  then show "mw_waker e \<in> set ws \<or> (\<exists>ds. mx_waiters (mx_state m) = e # ds \<and> mutex_avail m ())"
    using front_waker_front [of "mx_state m'" e es] by (auto simp: mutex_avail_def dest!: mutex_operD)
qed (auto simp: mutex_avail_def dest: lock_ready lock_pending lock_future_dropD mutex_operD)

section \<open>Mutual exclusion\<close>

definition guards_ok :: "'t mutex \<Rightarrow> nat \<Rightarrow> bool" where
  "guards_ok m h \<longleftrightarrow> h = (if mx_locked (mx_state m) then 1 else 0)"

lemma guards_ok_oper: "mutex_oper m h m' h' ws \<Longrightarrow> guards_ok m h \<Longrightarrow> guards_ok m' h'"
  by (induction rule: mutex_oper.induct)
    (auto simp: guards_ok_def try_lock_def try_lock_owned_def guard_deref_mut_def guard_drop_def
      mapped_drop_def unlock_def Let_def split: if_splits)

lemma mutex_cancel_locked: "lock_future_drop m slot = (m', ws) \<Longrightarrow> mx_locked (mx_state m') = mx_locked (mx_state m)"
  by (auto simp: lock_future_drop_def mx_cancel_waiter_def Let_def split: option.splits)

lemma guards_ok_reach:
  assumes "wq_reach mutex_ops (mutex_const_new v) 0 y"
  shows "guards_ok (res y) (held y)"
  using assms
proof (rule wq_reach_rel)
  show "guards_ok (mutex_const_new v) 0"
    by (simp add: guards_ok_def mutex_const_new_def)
qed (auto simp: guards_ok_def dest: guards_ok_oper mutex_cancel_locked lock_pending lock_ready)

section \<open>Views\<close>

definition view_ok :: "('t, 'u) view \<Rightarrow> bool" where
  "view_ok v \<longleftrightarrow> (\<forall>x t. vget v (vput v x t) = x) \<and> (\<forall>t. vput v (vget v t) t = t) \<and>
     (\<forall>x y t. vput v x (vput v y t) = vput v x t)"

lemma mutex_start_ok: "mx.start_ok (mutex_const_new v)"
  by (simp add: mx.start_ok_def mutex_const_new_def)

lemma lock_poll_front:
  assumes "mx_waiters (mx_state m) = e # es" "\<not> mx_locked (mx_state m)"
  shows "\<exists>m'. lock_future_poll m (Some (mw_id e)) () w = (m', None, Ready (), [])"
  using assms by (simp add: lock_future_poll_def poll_lock_def)

section \<open>Properties\<close>

text \<open>C4: mutual exclusion. In every run of any number of tasks, with futures being created,
  polled and dropped and guards being obtained, mapped, written through and dropped in any order,
  there is exactly one live guard when the mutex is locked and none when it is not.\<close>

theorem mutex_mutual_exclusion:
  assumes "wq_reach mutex_ops (mutex_const_new v) 0 y"
  shows "held y = (if mx_locked (mx_state (res y)) then 1 else 0)"
  using guards_ok_reach [OF assms] by (simp add: guards_ok_def)

text \<open>C5: the lock is handed over fairly and no wakeup is lost. When the mutex is unlocked and
  tasks wait for it, the one at the front of the queue has been woken since it was last polled and
  gets the lock when it is polled; nobody else, whether polling or calling \<open>try_lock\<close>, gets it
  before that one.\<close>

theorem mutex_fair_handoff:
  assumes "wq_reach mutex_ops (mutex_const_new v) 0 y" "polls y < id_space"
    and "mx_waiters (mx_state (res y)) = e # es" "\<not> mx_locked (mx_state (res y))"
  shows "(\<exists>f. futs y f = Some ((), Some (mw_id e)) \<and> f \<in> woken y \<and>
      (\<forall>w. \<exists>m'. lock_future_poll (res y) (Some (mw_id e)) () w = (m', None, Ready (), []))) \<and>
    (\<forall>slot w m' slot' ws. lock_future_poll (res y) slot () w = (m', slot', Ready (), ws) \<longrightarrow>
       slot = Some (mw_id e)) \<and>
    (\<forall>ok. try_lock ok (mx_state (res y)) = (mx_state (res y), Inl TryLockError))"
proof -
  have "\<exists>f. futs y f = Some ((), Some (mw_id e)) \<and> f \<in> woken y"
    using mx.no_lost_wakeup [OF assms(1) mutex_start_ok assms(2)] assms(3,4) by (simp add: mutex_avail_def)
  moreover have "slot = Some (mw_id e)"
    if "lock_future_poll (res y) slot () w = (m', slot', Ready (), ws)" for slot w m' slot' ws
    using mx.served_at_front [of "res y"] that assms(3) by simp
  ultimately show ?thesis
    using lock_poll_front [OF assms(3,4)] assms(3) by (auto simp: try_lock_def)
qed

text \<open>Writing through a mapped guard, however deeply mapped, changes the part of the
  protected value it refers to and nothing else, and mapping keeps the mutex locked until the
  mapped guard is dropped.\<close>

lemma mapped_guard_writes_through:
  assumes "view_ok v" "\<forall>u. view_ok (snd (f u))"
    and "mapped_map m v f = (m1, w)" "mapped_deref_mut m1 w g = m2"
  shows "mapped_deref m2 w = g (mapped_deref m1 w) \<and>
    vput w (mapped_deref m1 w) (mx_value m2) = mx_value m1 \<and>
    (\<exists>u. mx_value m2 = vput v u (mx_value m)) \<and> mx_state m2 = mx_state m \<and>
    \<not> mx_locked (mx_state (fst (mapped_drop m2)))"
proof -
  obtain u' w' where w': "f (vget v (mx_value m)) = (u', w')" "w = view_comp v w'"
    "m1 = m\<lparr>mx_value := vput v u' (mx_value m)\<rparr>"
    using assms(3) by (auto simp: mapped_map_def split: prod.splits)
  from assms(2) have "view_ok (snd (f (vget v (mx_value m))))" ..
  then have "view_ok w'" using w'(1) by simp
  then show ?thesis
    using w' assms(1,4)
    by (auto simp: view_ok_def mapped_deref_mut_def mapped_deref_def mapped_drop_def unlock_def Let_def
        view_comp_def)
qed

section \<open>A concrete run\<close>

text \<open>One task holds the lock by \<open>try_lock\<close>, another waits, and the first one drops its guard.\<close>

definition mutex_demo :: "nat mutex" where
  "mutex_demo = \<lparr>mx_state = \<lparr>mx_locked = False, mx_next_waiter = 2,
     mx_waiters = [\<lparr>mw_id = 1, mw_waker = 7\<rparr>]\<rparr>, mx_value = 5\<rparr>"

lemma mutex_demo_at:
  "wq_at mutex_ops (mutex_const_new 5) 0 mutex_demo 0
     ((Map.empty(0 \<mapsto> ((), None)))(0 \<mapsto> ((), Some 1))) 1"
proof -
  let ?l = "\<lambda>l. \<lparr>mx_state = l, mx_value = 5::nat\<rparr>" and ?e = "\<lparr>mw_id = 1, mw_waker = 7\<rparr>"
  have "wq_at mutex_ops (mutex_const_new 5) 0 (mutex_const_new 5) 0 (Map.empty(0 \<mapsto> ((), None))) 0"
    by (rule wq_at_create [OF wq_at_start]) simp
  then have "wq_at mutex_ops (mutex_const_new 5) 0
      (?l \<lparr>mx_locked = True, mx_next_waiter = 1, mx_waiters = []\<rparr>) (Suc 0) (Map.empty(0 \<mapsto> ((), None))) 0"
  proof (rule wq_at_oper)
    show "wq_oper mutex_ops (mutex_const_new 5) 0
        (?l \<lparr>mx_locked = True, mx_next_waiter = 1, mx_waiters = []\<rparr>) (Suc 0) []"
      using mutex_oper.try_ok [of True "mutex_const_new (5::nat)"]
      by (simp add: try_lock_def mutex_const_new_def)
  qed
  then have "wq_at mutex_ops (mutex_const_new 5) 0
      (?l \<lparr>mx_locked = True, mx_next_waiter = 2, mx_waiters = [?e]\<rparr>) (Suc 0)
      ((Map.empty(0 \<mapsto> ((), None)))(0 \<mapsto> ((), Some 1))) (Suc 0)"
    by (rule wq_at_pending [where f = 0 and slot = None and w = 7 and ws = "[]"])
      (simp_all add: lock_future_poll_def poll_lock_def poll_lock_fresh_def next_id_def)
  then have "wq_at mutex_ops (mutex_const_new 5) 0 mutex_demo 0
      ((Map.empty(0 \<mapsto> ((), None)))(0 \<mapsto> ((), Some 1))) (Suc 0)"
  proof (rule wq_at_oper)
    show "wq_oper mutex_ops (?l \<lparr>mx_locked = True, mx_next_waiter = 2, mx_waiters = [?e]\<rparr>) (Suc 0)
        mutex_demo 0 [7]"
      using mutex_oper.drop [of "Suc 0" "?l \<lparr>mx_locked = True, mx_next_waiter = 2, mx_waiters = [?e]\<rparr>"]
      by (simp add: guard_drop_def unlock_def front_waker_def mutex_demo_def)
  qed
  then show ?thesis by simp
qed

theorem mutex_mutual_exclusion_witness:
  "\<exists>y. wq_reach mutex_ops (mutex_const_new (5::nat)) 0 y \<and> res y = mutex_demo \<and> held y = 0"
proof -
  obtain y where y: "wq_reach mutex_ops (mutex_const_new (5::nat)) 0 y" "res y = mutex_demo"
    using mutex_demo_at unfolding wq_at_def by blast
  then show ?thesis
    using mutex_mutual_exclusion [OF y(1)] by (intro exI [of _ y]) (simp add: mutex_demo_def)
qed

theorem mutex_fair_handoff_witness:
  "\<exists>y f. wq_reach mutex_ops (mutex_const_new (5::nat)) 0 y \<and> futs y f = Some ((), Some 1) \<and> f \<in> woken y"
proof -
  obtain y where y: "wq_reach mutex_ops (mutex_const_new (5::nat)) 0 y" "res y = mutex_demo" "polls y = 1"
    using mutex_demo_at unfolding wq_at_def by blast
  then show ?thesis
    using mutex_fair_handoff [OF y(1), of "\<lparr>mw_id = 1, mw_waker = 7\<rparr>" "[]"]
    by (auto simp: mutex_demo_def)
qed

end
