(* ===== verification/Async_RwLock.thy ===== *)
theory Async_RwLock
  imports Async_Mutex
begin

text \<open>
  The asynchronous read-write lock of \<open>sync/rwlock.rs\<close>. Readers and writers wait in one queue;
  the lock is shown to be a fair waiter queue, its guards to exclude one another the way a
  read-write lock promises, and the protected value to be stable while it is being read. The
  reader limit is shown not to bind \<open>try_read\<close>, and the release of a read lock not to wake
  a reader that the limit had kept waiting.
\<close>

section \<open>State\<close>

datatype rw_kind = Read | Write

record rwlock_waiter =
  rww_id :: u64
  rww_kind :: rw_kind
  rww_waker :: waker

record rwlock_state =
  rw_readers :: nat
  rw_max_readers :: nat
  rw_writer :: bool
  rw_next_waiter :: u64
  rw_waiters :: "rwlock_waiter list"

record 't rwlock =
  rw_state :: rwlock_state
  rw_value :: 't

definition MAX_READERS :: u32 where
  "MAX_READERS = drop_bit 3 (- 1)"

definition const_with_max_readers :: "'t \<Rightarrow> u32 \<Rightarrow> 't rwlock panicky" where
  "const_with_max_readers v max_reads =
     (if \<not> max_reads > 0 then Inl ''max_reads must be greater than zero''
      else if \<not> max_reads \<le> MAX_READERS then Inl ''max_reads exceeds the supported limit''
      else Inr \<lparr>rw_state = \<lparr>rw_readers = 0, rw_max_readers = unat max_reads, rw_writer = False,
                             rw_next_waiter = 1, rw_waiters = []\<rparr>, rw_value = v\<rparr>)"

definition rwlock_const_new :: "'t \<Rightarrow> 't rwlock panicky" where
  "rwlock_const_new v = const_with_max_readers v MAX_READERS"

section \<open>Operations\<close>

definition try_read :: "bool \<Rightarrow> rwlock_state \<Rightarrow> (rwlock_state \<times> (try_lock_error + unit)) panicky" where
  "try_read ok s =
     (if \<not> ok then Inr (s, Inl TryLockError)
      else if rw_writer s \<or> rw_waiters s \<noteq> [] then Inr (s, Inl TryLockError)
      else (case usize_add (rw_readers s) 1 of Inl e \<Rightarrow> Inl e | Inr n \<Rightarrow> Inr (s\<lparr>rw_readers := n\<rparr>, Inr ())))"

definition try_write :: "bool \<Rightarrow> rwlock_state \<Rightarrow> rwlock_state \<times> (try_lock_error + unit)" where
  "try_write ok s =
     (if \<not> ok then (s, Inl TryLockError)
      else if rw_writer s \<or> rw_readers s \<noteq> 0 \<or> rw_waiters s \<noteq> [] then (s, Inl TryLockError)
      else (s\<lparr>rw_writer := True\<rparr>, Inr ()))"

text \<open>The loops of \<open>blocking_read\<close> and \<open>blocking_write\<close>, one list element for each attempt.\<close>

fun blocking_read :: "rwlock_state \<Rightarrow> (bool \<times> (rwlock_state \<Rightarrow> rwlock_state)) list \<Rightarrow> rwlock_state panicky option" where
  "blocking_read s [] = None"
| "blocking_read s ((ok, env) # envs) = (case try_read ok s of
     Inl e \<Rightarrow> Some (Inl e)
   | Inr (s', Inr _) \<Rightarrow> Some (Inr s')
   | Inr (s', Inl TryLockError) \<Rightarrow> blocking_read (env s') envs)"

fun blocking_write :: "rwlock_state \<Rightarrow> (bool \<times> (rwlock_state \<Rightarrow> rwlock_state)) list \<Rightarrow> rwlock_state option" where
  "blocking_write s [] = None"
| "blocking_write s ((ok, env) # envs) = (case try_write ok s of
     (s', Inr _) \<Rightarrow> Some s'
   | (s', Inl TryLockError) \<Rightarrow> blocking_write (env s') envs)"

fun can_acquire :: "rwlock_state \<Rightarrow> rw_kind \<Rightarrow> bool" where
  "can_acquire s Read \<longleftrightarrow> \<not> rw_writer s \<and> rw_readers s < rw_max_readers s"
| "can_acquire s Write \<longleftrightarrow> \<not> rw_writer s \<and> rw_readers s = 0"

definition rw_next_waker :: "rwlock_state \<Rightarrow> waker option" where
  "rw_next_waker s = (case rw_waiters s of
     [] \<Rightarrow> None
   | waiter # _ \<Rightarrow> if can_acquire s (rww_kind waiter) then Some (rww_waker waiter) else None)"

text \<open>
  The \<open>match kind\<close> with which both branches of \<open>poll_lock\<close> take the lock, after \<open>can_acquire\<close>: the number of readers is then less than
  \<open>max_readers\<close>, so that the addition stays in range (lemma \<open>rw_take_in_range\<close>).
\<close>

fun rw_take :: "rwlock_state \<Rightarrow> rw_kind \<Rightarrow> rwlock_state" where
  "rw_take s Read = s\<lparr>rw_readers := rw_readers s + 1\<rparr>"
| "rw_take s Write = s\<lparr>rw_writer := True\<rparr>"

lemma rw_take_in_range:
  "const_with_max_readers v n = Inr l \<Longrightarrow> rw_max_readers s = rw_max_readers (rw_state l) \<Longrightarrow> can_acquire s Read \<Longrightarrow>
     usize_add (rw_readers s) 1 = Inr (rw_readers (rw_take s Read))"
  using unsigned_less [of n, where ?'a = nat] by (auto simp: const_with_max_readers_def usize_add_def usize_max_def split: if_splits)

definition rw_poll_lock_fresh ::
  "rwlock_state \<Rightarrow> rw_kind \<Rightarrow> waker \<Rightarrow> rwlock_state \<times> u64 option \<times> unit poll \<times> waker list" where
  "rw_poll_lock_fresh s kind cx =
     (if rw_waiters s = [] \<and> can_acquire s kind then (rw_take s kind, None, Ready (), [])
      else (s\<lparr>rw_next_waiter := next_id (rw_next_waiter s),
              rw_waiters := rw_waiters s @
                [\<lparr>rww_id = rw_next_waiter s, rww_kind = kind, rww_waker = cx\<rparr>]\<rparr>,
            Some (rw_next_waiter s), Pending, []))"

definition rw_poll_lock ::
  "rwlock_state \<Rightarrow> u64 option \<Rightarrow> rw_kind \<Rightarrow> waker \<Rightarrow> rwlock_state \<times> u64 option \<times> unit poll \<times> waker list" where
  "rw_poll_lock s waiter_id kind cx = (case waiter_id of
     None \<Rightarrow> rw_poll_lock_fresh s kind cx
   | Some wid \<Rightarrow>
       (let pos = position (\<lambda>waiter. rww_id waiter = wid) (rw_waiters s) in
        if pos = Some 0 \<and> can_acquire s kind
        then (let s' = rw_take (s\<lparr>rw_waiters := tl (rw_waiters s)\<rparr>) kind;
                  next = (if kind = Read then rw_next_waker s' else None)
              in (s', None, Ready (), olist next))
        else (case pos of
          Some p \<Rightarrow>
            (let waiter = rw_waiters s ! p in
             (if will_wake (rww_waker waiter) cx then s
              else s\<lparr>rw_waiters := (rw_waiters s)[p := waiter\<lparr>rww_waker := cx\<rparr>]\<rparr>,
              waiter_id, Pending, []))
        | None \<Rightarrow> rw_poll_lock_fresh s kind cx)))"

definition rw_cancel_waiter :: "rwlock_state \<Rightarrow> u64 option \<Rightarrow> rwlock_state \<times> waker list" where
  "rw_cancel_waiter s waiter_id = (case waiter_id of
     None \<Rightarrow> (s, [])
   | Some wid \<Rightarrow>
       (let s' = (case position (\<lambda>waiter. rww_id waiter = wid) (rw_waiters s) of
                    None \<Rightarrow> s
                  | Some p \<Rightarrow> s\<lparr>rw_waiters := remove_at p (rw_waiters s)\<rparr>)
        in (s', olist (rw_next_waker s'))))"

definition release_read :: "rwlock_state \<Rightarrow> (rwlock_state \<times> waker list) panicky" where
  "release_read s = (case usize_sub (rw_readers s) 1 of
     Inl e \<Rightarrow> Inl e
   | Inr n \<Rightarrow>
       (let s' = s\<lparr>rw_readers := n\<rparr>
        in Inr (s', if rw_readers s' = 0 then olist (rw_next_waker s') else [])))"

definition release_write :: "rwlock_state \<Rightarrow> rwlock_state \<times> waker list" where
  "release_write s = (let s' = s\<lparr>rw_writer := False\<rparr> in (s', olist (rw_next_waker s')))"

definition downgrade_write :: "rwlock_state \<Rightarrow> (rwlock_state \<times> waker list) panicky" where
  "downgrade_write s =
     (if \<not> rw_writer s then Inl ''assertion failed: state.writer''
      else (case usize_add (rw_readers s) 1 of
        Inl e \<Rightarrow> Inl e
      | Inr n \<Rightarrow> (let s' = s\<lparr>rw_writer := False, rw_readers := n\<rparr> in Inr (s', olist (rw_next_waker s')))))"

text \<open>The four lock futures: borrowed and owned ones differ in the pointer they keep only.\<close>

definition read_future_poll ::
  "'t rwlock \<Rightarrow> u64 option \<Rightarrow> waker \<Rightarrow> 't rwlock \<times> u64 option \<times> unit poll \<times> waker list" where
  "read_future_poll l waiter cx = (case rw_poll_lock (rw_state l) waiter Read cx of
     (s', waiter', r, ws) \<Rightarrow> (l\<lparr>rw_state := s'\<rparr>, waiter', map_poll (\<lambda>_. ()) r, ws))"

definition write_future_poll ::
  "'t rwlock \<Rightarrow> u64 option \<Rightarrow> waker \<Rightarrow> 't rwlock \<times> u64 option \<times> unit poll \<times> waker list" where
  "write_future_poll l waiter cx = (case rw_poll_lock (rw_state l) waiter Write cx of
     (s', waiter', r, ws) \<Rightarrow> (l\<lparr>rw_state := s'\<rparr>, waiter', map_poll (\<lambda>_. ()) r, ws))"

definition rw_future_drop :: "'t rwlock \<Rightarrow> u64 option \<Rightarrow> 't rwlock \<times> waker list" where
  "rw_future_drop l waiter =
     (case rw_cancel_waiter (rw_state l) waiter of (s', ws) \<Rightarrow> (l\<lparr>rw_state := s'\<rparr>, ws))"

section \<open>Guards\<close>

text \<open>A read guard refers to a part of the value by a projection, a write guard by a view.\<close>

definition read_guard_new :: "'t \<Rightarrow> 't" where
  "read_guard_new = id"

definition read_guard_deref :: "'t rwlock \<Rightarrow> ('t \<Rightarrow> 'u) \<Rightarrow> 'u" where
  "read_guard_deref l p = p (rw_value l)"

definition read_guard_map :: "('t \<Rightarrow> 'u) \<Rightarrow> ('u \<Rightarrow> 'v) \<Rightarrow> 't \<Rightarrow> 'v" where
  "read_guard_map p f = f \<circ> p"

definition read_guard_try_map ::
  "'t rwlock \<Rightarrow> ('t \<Rightarrow> 'u) \<Rightarrow> ('u \<Rightarrow> ('u \<Rightarrow> 'v) option) \<Rightarrow> ('t \<Rightarrow> 'u) + ('t \<Rightarrow> 'v)" where
  "read_guard_try_map l p f = (case f (p (rw_value l)) of None \<Rightarrow> Inl p | Some q \<Rightarrow> Inr (q \<circ> p))"

definition lift_read :: "'t rwlock \<Rightarrow> (rwlock_state \<times> waker list) panicky \<Rightarrow> ('t rwlock \<times> waker list) panicky" where
  "lift_read l r = (case r of Inl e \<Rightarrow> Inl e | Inr (s', ws) \<Rightarrow> Inr (l\<lparr>rw_state := s'\<rparr>, ws))"

definition read_guard_drop :: "'t rwlock \<Rightarrow> ('t rwlock \<times> waker list) panicky" where
  "read_guard_drop l = lift_read l (release_read (rw_state l))"

definition write_guard_deref_mut :: "'t rwlock \<Rightarrow> ('t \<Rightarrow> 't) \<Rightarrow> 't rwlock" where
  "write_guard_deref_mut l f = l\<lparr>rw_value := f (rw_value l)\<rparr>"

definition write_guard_map ::
  "'t rwlock \<Rightarrow> ('t \<Rightarrow> 't \<times> ('t, 'u) view) \<Rightarrow> 't rwlock \<times> ('t, 'u) view" where
  "write_guard_map l f = (case f (rw_value l) of (t', v) \<Rightarrow> (l\<lparr>rw_value := t'\<rparr>, v))"

definition write_guard_try_map ::
  "'t rwlock \<Rightarrow> ('t \<Rightarrow> 't \<times> ('t, 'u) view option) \<Rightarrow> 't rwlock \<times> (unit + ('t, 'u) view)" where
  "write_guard_try_map l f = (case f (rw_value l) of
     (t', None) \<Rightarrow> (l\<lparr>rw_value := t'\<rparr>, Inl ())
   | (t', Some v) \<Rightarrow> (l\<lparr>rw_value := t'\<rparr>, Inr v))"

definition downgrade_map ::
  "'t rwlock \<Rightarrow> ('t \<Rightarrow> 'u) \<Rightarrow> ('t rwlock \<times> waker list) panicky \<times> ('t \<Rightarrow> 'u)" where
  "downgrade_map l f = (lift_read l (downgrade_write (rw_state l)), f)"

definition downgrade :: "'t rwlock \<Rightarrow> ('t rwlock \<times> waker list) panicky \<times> ('t \<Rightarrow> 't)" where
  "downgrade l = downgrade_map l (\<lambda>v. v)"

definition try_downgrade_map ::
  "'t rwlock \<Rightarrow> ('t \<Rightarrow> ('t \<Rightarrow> 'u) option) \<Rightarrow> unit + (('t rwlock \<times> waker list) panicky \<times> ('t \<Rightarrow> 'u))" where
  "try_downgrade_map l f = (case f (rw_value l) of
     None \<Rightarrow> Inl ()
   | Some q \<Rightarrow> Inr (lift_read l (downgrade_write (rw_state l)), q))"

definition write_guard_drop :: "'t rwlock \<Rightarrow> 't rwlock \<times> waker list" where
  "write_guard_drop l = (case release_write (rw_state l) of (s', ws) \<Rightarrow> (l\<lparr>rw_state := s'\<rparr>, ws))"

section \<open>The outcomes of a poll\<close>

lemma rw_take_simps [simp]:
  "rw_waiters (rw_take s k) = rw_waiters s" "rw_next_waiter (rw_take s k) = rw_next_waiter s"
  "rw_max_readers (rw_take s k) = rw_max_readers s"
  by (cases k; simp)+

lemma rw_poll_lockE:
  assumes "rw_poll_lock s slot k w = (s', slot', out, ws)"
  obtains
    (now) "rw_waiters s = []" "can_acquire s k" "s' = rw_take s k" "slot' = None" "out = Ready ()" "ws = []"
  | (front) e es where "slot = Some (rww_id e)" "rw_waiters s = e # es" "can_acquire s k"
      "s' = rw_take (s\<lparr>rw_waiters := es\<rparr>) k" "slot' = None" "out = Ready ()"
      "ws = (if k = Read then olist (rw_next_waker s') else [])"
  | (requeue) p e where "slot = Some (rww_id e)" "p < length (rw_waiters s)" "e = rw_waiters s ! p"
      "rww_id (hd (rw_waiters s)) = rww_id e \<Longrightarrow> \<not> can_acquire s k"
      "s' = s\<lparr>rw_waiters := (rw_waiters s)[p := e\<lparr>rww_waker := w\<rparr>]\<rparr>" "slot' = slot" "out = Pending" "ws = []"
  | (enqueue) "\<forall>e\<in>set (rw_waiters s). slot \<noteq> Some (rww_id e)" "rw_waiters s \<noteq> [] \<or> \<not> can_acquire s k"
      "s' = s\<lparr>rw_next_waiter := next_id (rw_next_waiter s),
         rw_waiters := rw_waiters s @ [\<lparr>rww_id = rw_next_waiter s, rww_kind = k, rww_waker = w\<rparr>]\<rparr>"
      "slot' = Some (rw_next_waiter s)" "out = Pending" "ws = []"
proof -
  have fresh: thesis if fr: "rw_poll_lock_fresh s k w = (s', slot', out, ws)"
    and sl: "\<forall>e\<in>set (rw_waiters s). slot \<noteq> Some (rww_id e)"
  proof (cases "rw_waiters s = [] \<and> can_acquire s k")
    case True
    with fr show ?thesis by (intro now) (auto simp: rw_poll_lock_fresh_def)
  next
    case False
    with fr sl show ?thesis by (intro enqueue) (auto simp: rw_poll_lock_fresh_def)
  qed
  show ?thesis
  proof (cases slot)
    case None
    with assms show ?thesis by (intro fresh) (simp_all add: rw_poll_lock_def)
  next
    case (Some wid)
    show ?thesis
    proof (cases "position (\<lambda>e. rww_id e = wid) (rw_waiters s)")
      case None
      with assms Some show ?thesis by (intro fresh) (auto simp: rw_poll_lock_def)
    next
      case pos: (Some p)
      from position_SomeD [OF this] have p: "p < length (rw_waiters s)" "rww_id (rw_waiters s ! p) = wid"
        by auto
      show ?thesis
      proof (cases "p = 0 \<and> can_acquire s k")
        case True
        then obtain e es where "rw_waiters s = e # es" using p by (cases "rw_waiters s") auto
        with assms Some pos p True show ?thesis
          by (intro front [of e es]) (auto simp: rw_poll_lock_def Let_def)
      next
        case False
        moreover have "p = 0" if "rww_id (hd (rw_waiters s)) = wid"
          using pos p that by (cases "rw_waiters s") auto
        ultimately show ?thesis
          using assms Some pos p by (intro requeue [of "rw_waiters s ! p" p])
            (auto simp: rw_poll_lock_def Let_def will_wake_def simp del: position_Some_0 split: if_splits)
      qed
    qed
  qed
qed

section \<open>Clients\<close>

text \<open>The clients hold read guards and write guards, plain or mapped; the pair counts them.\<close>

inductive rwlock_oper :: "'t rwlock \<Rightarrow> nat \<times> nat \<Rightarrow> 't rwlock \<Rightarrow> nat \<times> nat \<Rightarrow> waker list \<Rightarrow> bool" where
  read_ok: "try_read ok (rw_state l) = Inr (s', Inr g) \<Longrightarrow> rwlock_oper l (r, w) (l\<lparr>rw_state := s'\<rparr>) (Suc r, w) []"
| read_err: "try_read ok (rw_state l) = Inr (s', Inl e) \<Longrightarrow> rwlock_oper l h (l\<lparr>rw_state := s'\<rparr>) h []"
| write_ok: "try_write ok (rw_state l) = (s', Inr g) \<Longrightarrow> rwlock_oper l (r, w) (l\<lparr>rw_state := s'\<rparr>) (r, Suc w) []"
| write_err: "try_write ok (rw_state l) = (s', Inl e) \<Longrightarrow> rwlock_oper l h (l\<lparr>rw_state := s'\<rparr>) h []"
| deref_mut: "0 < w \<Longrightarrow> rwlock_oper l (r, w) (write_guard_deref_mut l f) (r, w) []"
| drop_read: "0 < r \<Longrightarrow> read_guard_drop l = Inr (l', ws) \<Longrightarrow> rwlock_oper l (r, w) l' (r - 1, w) ws"
| drop_write: "0 < w \<Longrightarrow> write_guard_drop l = (l', ws) \<Longrightarrow> rwlock_oper l (r, w) l' (r, w - 1) ws"
| to_read: "0 < w \<Longrightarrow> downgrade l = (Inr (l', ws), p) \<Longrightarrow> rwlock_oper l (r, w) l' (Suc r, w - 1) ws"

definition rw_poll :: "'t rwlock \<Rightarrow> u64 option \<Rightarrow> rw_kind \<Rightarrow> waker \<Rightarrow> 't rwlock \<times> u64 option \<times> unit poll \<times> waker list" where
  "rw_poll l slot k cx = (case k of Read \<Rightarrow> read_future_poll l slot cx | Write \<Rightarrow> write_future_poll l slot cx)"

definition rw_grant :: "rw_kind \<Rightarrow> unit \<Rightarrow> nat \<times> nat \<Rightarrow> nat \<times> nat" where
  "rw_grant k _ h = (case k of Read \<Rightarrow> (Suc (fst h), snd h) | Write \<Rightarrow> (fst h, Suc (snd h)))"

definition rwlock_ops :: "('t rwlock, rwlock_waiter, rw_kind, unit, nat \<times> nat) waiter_ops" where
  "rwlock_ops = \<lparr>wq_queue = rw_waiters \<circ> rw_state, wq_id = rww_id, wq_kind = rww_kind,
     wq_waker = rww_waker, wq_next = rw_next_waiter \<circ> rw_state, wq_closed = (\<lambda>_. False),
     wq_poll = rw_poll, wq_cancel = rw_future_drop, wq_grant = rw_grant, wq_oper = rwlock_oper\<rparr>"

text \<open>
  Readers and writers are counted faithfully and exclude each other. The lock is available to the
  front of the queue when nobody holds it.
\<close>

definition rw_wf :: "'t rwlock \<Rightarrow> bool" where
  "rw_wf l \<longleftrightarrow> 0 < rw_max_readers (rw_state l) \<and> (rw_writer (rw_state l) \<longrightarrow> rw_readers (rw_state l) = 0)"

definition rw_avail :: "'t rwlock \<Rightarrow> rw_kind \<Rightarrow> bool" where
  "rw_avail l k \<longleftrightarrow> \<not> rw_writer (rw_state l) \<and> rw_readers (rw_state l) = 0"

lemma rwlock_ops_simps [simp]:
  "wq_queue rwlock_ops l = rw_waiters (rw_state l)" "wq_id rwlock_ops = rww_id"
  "wq_kind rwlock_ops = rww_kind" "wq_waker rwlock_ops = rww_waker"
  "wq_next rwlock_ops l = rw_next_waiter (rw_state l)" "wq_closed rwlock_ops l = False"
  "wq_poll rwlock_ops = rw_poll" "wq_cancel rwlock_ops = rw_future_drop"
  "wq_grant rwlock_ops = rw_grant" "wq_oper rwlock_ops = rwlock_oper"
  by (simp_all add: rwlock_ops_def)

lemma rwlock_ids [simp]: "wq_ids rwlock_ops l = map rww_id (rw_waiters (rw_state l))"
  by (simp add: wq_ids_def)

lemma rw_pollD:
  "rw_poll l slot k w = (l', slot', out, ws) \<Longrightarrow>
     \<exists>s'. rw_poll_lock (rw_state l) slot k w = (s', slot', out, ws) \<and> l' = l\<lparr>rw_state := s'\<rparr>"
  by (cases k) (auto simp: rw_poll_def read_future_poll_def write_future_poll_def split: prod.splits)

lemma rw_future_dropD:
  assumes "distinct (map rww_id (rw_waiters (rw_state l)))" "rw_future_drop l slot = (l', ws)"
  shows "l' = l\<lparr>rw_state := (rw_state l)\<lparr>rw_waiters :=
      filter (\<lambda>e. slot \<noteq> Some (rww_id e)) (rw_waiters (rw_state l))\<rparr>\<rparr> \<and>
    (slot \<noteq> None \<longrightarrow> ws = olist (rw_next_waker (rw_state l')))"
proof (cases slot)
  case (Some i)
  have "filter (\<lambda>e. slot \<noteq> Some (rww_id e)) (rw_waiters (rw_state l)) =
      filter (\<lambda>e. rww_id e \<noteq> i) (rw_waiters (rw_state l))"
    using Some by (intro filter_cong) auto
  then show ?thesis
    using assms(2) Some remove_position_filter [OF assms(1), of i]
    by (auto simp: rw_future_drop_def rw_cancel_waiter_def Let_def simp del: position_None
        split: option.splits)
qed (use assms in \<open>auto simp: rw_future_drop_def rw_cancel_waiter_def\<close>)

lemma release_readD:
  "release_read s = Inr (s', ws) \<Longrightarrow> 0 < rw_readers s \<and> s' = s\<lparr>rw_readers := rw_readers s - 1\<rparr> \<and>
     ws = (if rw_readers s' = 0 then olist (rw_next_waker s') else [])"
  by (auto simp: release_read_def usize_sub_def Let_def split: if_splits)

lemmas rw_guard_defs = try_read_def try_write_def write_guard_deref_mut_def read_guard_drop_def
  write_guard_drop_def downgrade_def downgrade_map_def lift_read_def release_write_def
  downgrade_write_def usize_add_def Let_def

lemma rw_operD:
  assumes "rwlock_oper l h l' h' ws"
  shows "rw_waiters (rw_state l') = rw_waiters (rw_state l) \<and>
    rw_next_waiter (rw_state l') = rw_next_waiter (rw_state l) \<and>
    rw_max_readers (rw_state l') = rw_max_readers (rw_state l) \<and>
    (rw_avail l' k \<longrightarrow> rw_avail l k \<or> ws = olist (rw_next_waker (rw_state l')))"
  using assms
  by (induction rule: rwlock_oper.induct)
    (auto simp: rw_guard_defs rw_avail_def dest!: release_readD split: if_splits sum.splits)

lemma rw_wf_oper: "rwlock_oper l h l' h' ws \<Longrightarrow> rw_wf l \<Longrightarrow> rw_wf l'"
  by (induction rule: rwlock_oper.induct)
    (auto simp: rw_guard_defs rw_wf_def dest!: release_readD split: if_splits sum.splits)

lemma rw_wf_poll:
  assumes "rw_wf l" "rw_poll l slot k w = (l', slot', out, ws)"
  shows "rw_wf l'"
proof -
  obtain s' where s': "rw_poll_lock (rw_state l) slot k w = (s', slot', out, ws)" "l' = l\<lparr>rw_state := s'\<rparr>"
    using rw_pollD [OF assms(2)] by blast
  from s'(1) show ?thesis
    using assms(1) s'(2) by (cases rule: rw_poll_lockE; cases k) (auto simp: rw_wf_def)
qed

lemma rw_wf_cancel: "rw_wf l \<Longrightarrow> rw_future_drop l slot = (l', ws) \<Longrightarrow> rw_wf l'"
  by (auto simp: rw_wf_def rw_future_drop_def rw_cancel_waiter_def Let_def split: option.splits)

lemma rw_pending:
  assumes "rw_poll l slot k w = (l', slot', Pending, ws)"
  defines "s \<equiv> rw_state l" and "s' \<equiv> rw_state l'"
  shows "(\<forall>j. rw_avail l' j = rw_avail l j) \<and>
    ((\<exists>i. slot = Some i \<and> slot' = Some i \<and> i \<in> rww_id ` set (rw_waiters s) \<and>
       map rww_id (rw_waiters s') = map rww_id (rw_waiters s) \<and>
       map rww_kind (rw_waiters s') = map rww_kind (rw_waiters s) \<and> rw_next_waiter s' = rw_next_waiter s \<and>
       (i = rww_id (hd (rw_waiters s)) \<longrightarrow> \<not> can_acquire s k)) \<or>
     (\<forall>i. slot = Some i \<longrightarrow> i \<notin> rww_id ` set (rw_waiters s)) \<and> slot' = Some (rw_next_waiter s) \<and>
       (\<exists>e. rw_waiters s' = rw_waiters s @ [e] \<and> rww_id e = rw_next_waiter s \<and> rww_kind e = k) \<and>
       rw_next_waiter s' = next_id (rw_next_waiter s) \<and> (rw_waiters s = [] \<longrightarrow> \<not> can_acquire s k))"
proof -
  obtain t where t: "rw_poll_lock s slot k w = (t, slot', Pending, ws)" "s' = t"
    using rw_pollD [OF assms(1)] unfolding s_def s'_def by auto
  from t(1) show ?thesis
  proof (cases rule: rw_poll_lockE)
    case (requeue p e)
    with t(2) show ?thesis by (auto simp: map_update_same rw_avail_def s_def s'_def)
  qed (use t(2) in \<open>auto simp: rw_avail_def s_def s'_def\<close>)
qed

lemma rw_ready:
  assumes "rw_poll l slot k w = (l', slot', Ready v, ws)"
  shows "rw_next_waiter (rw_state l') = rw_next_waiter (rw_state l) \<and> can_acquire (rw_state l) k \<and>
    \<not> rw_avail l' j \<and>
    (rw_waiters (rw_state l') = rw_waiters (rw_state l) \<and> rw_waiters (rw_state l) = [] \<or>
     (\<exists>e. slot = Some (rww_id e) \<and> rw_waiters (rw_state l) = e # rw_waiters (rw_state l')) \<and>
      (k = Read \<longrightarrow> ws = olist (rw_next_waker (rw_state l'))))"
proof -
  obtain t where t: "rw_poll_lock (rw_state l) slot k w = (t, slot', Ready v, ws)" "l' = l\<lparr>rw_state := t\<rparr>"
    using rw_pollD [OF assms(1)] by auto
  from t(1) show ?thesis
    by (cases rule: rw_poll_lockE; cases k) (auto simp: rw_avail_def t(2))
qed

lemma rw_avail_can_acquire: "rw_wf l \<Longrightarrow> rw_avail l k \<Longrightarrow> can_acquire (rw_state l) k"
  by (cases k) (auto simp: rw_avail_def rw_wf_def)

lemma rw_next_waker_front:
  "can_acquire s (rww_kind e) \<Longrightarrow> rw_waiters s = e # es \<Longrightarrow> rww_waker e \<in> set (olist (rw_next_waker s))"
  by (simp add: rw_next_waker_def)

section \<open>The read-write lock is a fair waiter queue\<close>

interpretation rw: fair_waiter_queue rwlock_ops rw_wf rw_avail
proof (unfold_locales; (unfold rwlock_ops_simps rwlock_ids)?)
  fix l slot k w l' slot' ws and e :: rwlock_waiter and es
  assume a: "rw_wf l" "rw_next_waiter (rw_state l) \<notin> set (map rww_id (rw_waiters (rw_state l)))"
    "\<forall>d\<in>set (rw_waiters (rw_state l)). slot = Some (rww_id d) \<longrightarrow> rww_kind d = k"
    "rw_poll l slot k w = (l', slot', Pending, ws)"
    "rw_waiters (rw_state l') = e # es" "rw_avail l' (rww_kind e)"
  have av: "rw_avail l (rww_kind e)" using rw_pending [OF a(4)] a(6) by blast
  note ca = rw_avail_can_acquire [OF a(1) this]
  from conjunct2 [OF rw_pending [OF a(4)]]
  show "slot' \<noteq> Some (rww_id e) \<and> (\<exists>d ds. rw_waiters (rw_state l) = d # ds \<and> rww_id d = rww_id e \<and>
      rww_kind d = rww_kind e \<and> rw_avail l (rww_kind e))"
  proof (elim disjE conjE exE)
    fix i
    assume *: "slot' = Some i" "slot = Some i" "i \<in> rww_id ` set (rw_waiters (rw_state l))"
      "map rww_id (rw_waiters (rw_state l')) = map rww_id (rw_waiters (rw_state l))"
      "map rww_kind (rw_waiters (rw_state l')) = map rww_kind (rw_waiters (rw_state l))"
      "i = rww_id (hd (rw_waiters (rw_state l))) \<longrightarrow> \<not> can_acquire (rw_state l) k"
    from *(4,5) a(5) obtain d ds where d: "rw_waiters (rw_state l) = d # ds" "rww_id d = rww_id e"
      "rww_kind d = rww_kind e" by (auto simp: Cons_eq_map_conv)
    have "i \<noteq> rww_id e" using *(2,6) a(3) ca d by (metis list.sel(1) list.set_intros(1))
    with d av *(1) show ?thesis by simp
  next
    fix d
    assume *: "slot' = Some (rw_next_waiter (rw_state l))" "rw_waiters (rw_state l') = rw_waiters (rw_state l) @ [d]"
      "rww_kind d = k" "rw_waiters (rw_state l) = [] \<longrightarrow> \<not> can_acquire (rw_state l) k"
    with a(5) ca have "rw_waiters (rw_state l) \<noteq> []" by auto
    with * a(2,5) av show ?thesis by (cases "rw_waiters (rw_state l)") auto
  qed
next
  fix l slot k w l' slot' ws
  assume "rw_poll l slot k w = (l', slot', Pending, ws)"
  from rw_pending [OF this]
  show "\<not> False \<and> \<not> False \<and> (wq_requeued rwlock_ops l slot l' slot' \<or> wq_enqueued rwlock_ops l slot k l' slot')"
    by (elim conjE disjE exE) (auto simp: wq_requeued_def wq_enqueued_def)
next
  fix l slot l' ws and e :: rwlock_waiter and es
  assume d: "distinct (map rww_id (rw_waiters (rw_state l)))" "rw_future_drop l slot = (l', ws)"
    and wf: "rw_wf l" and e: "rw_waiters (rw_state l') = e # es" "rw_avail l' (rww_kind e)"
  have "rww_waker e \<in> set (olist (rw_next_waker (rw_state l')))"
    using e rw_avail_can_acquire [OF rw_wf_cancel [OF wf d(2)] e(2)] by (intro rw_next_waker_front)
  then show "rww_waker e \<in> set ws \<or> (\<exists>ds. rw_waiters (rw_state l) = e # ds \<and> rw_avail l (rww_kind e))"
    using rw_future_dropD [OF d] e by (cases slot) (auto simp: rw_avail_def)
next
  fix l h l' h' ws and e :: rwlock_waiter and es
  assume o: "rwlock_oper l h l' h' ws" and wf: "rw_wf l"
    and e: "rw_waiters (rw_state l') = e # es" "rw_avail l' (rww_kind e)"
  have "rww_waker e \<in> set (olist (rw_next_waker (rw_state l')))"
    using e rw_avail_can_acquire [OF rw_wf_oper [OF o wf] e(2)] by (intro rw_next_waker_front)
  then show "rww_waker e \<in> set ws \<or> (\<exists>ds. rw_waiters (rw_state l) = e # ds \<and> rw_avail l (rww_kind e))"
    using rw_operD [OF o, of "rww_kind e"] e by metis
next
  fix l slot k w l' slot' v ws and e :: rwlock_waiter
  assume r: "rw_poll l slot k w = (l', slot', Ready v, ws)"
  show "rw_next_waiter (rw_state l') = rw_next_waiter (rw_state l) \<and> False = False \<and>
    (rw_waiters (rw_state l') = rw_waiters (rw_state l) \<and> rw_waiters (rw_state l) = [] \<or>
     (\<exists>e. slot = Some (rww_id e) \<and> rw_waiters (rw_state l) = e # rw_waiters (rw_state l')))"
    using rw_ready [OF r] by blast
  assume "rw_avail l' (rww_kind e)"
  with rw_ready [OF r] show "rww_waker e \<in> set ws" by blast
qed (auto intro: rw_wf_poll rw_wf_cancel rw_wf_oper dest: rw_operD rw_future_dropD)

section \<open>Exclusion\<close>

definition rw_guards_ok :: "'t rwlock \<Rightarrow> nat \<times> nat \<Rightarrow> bool" where
  "rw_guards_ok l h \<longleftrightarrow> fst h = rw_readers (rw_state l) \<and> snd h = (if rw_writer (rw_state l) then 1 else 0) \<and>
     (0 < snd h \<longrightarrow> fst h = 0) \<and> 0 < rw_max_readers (rw_state l)"

lemma rw_guards_oper: "rwlock_oper l h l' h' ws \<Longrightarrow> rw_guards_ok l h \<Longrightarrow> rw_guards_ok l' h'"
  by (induction rule: rwlock_oper.induct)
    (auto simp: rw_guard_defs rw_guards_ok_def dest!: release_readD split: if_splits sum.splits)

lemma rw_guards_poll:
  assumes "rw_guards_ok l h" "rw_poll l slot k w = (l', slot', out, ws)"
  shows "rw_guards_ok l' (case out of Pending \<Rightarrow> h | Ready v \<Rightarrow> rw_grant k v h)"
proof -
  obtain s' where s': "rw_poll_lock (rw_state l) slot k w = (s', slot', out, ws)" "l' = l\<lparr>rw_state := s'\<rparr>"
    using rw_pollD [OF assms(2)] by blast
  from s'(1) show ?thesis
    using assms(1) s'(2)
    by (cases rule: rw_poll_lockE; cases k) (auto simp: rw_guards_ok_def rw_grant_def split: if_splits)
qed

lemma rw_guards_cancel: "rw_guards_ok l h \<Longrightarrow> rw_future_drop l slot = (l', ws) \<Longrightarrow> rw_guards_ok l' h"
  by (auto simp: rw_guards_ok_def rw_future_drop_def rw_cancel_waiter_def Let_def split: option.splits)

lemma rw_guards_reach:
  assumes "const_with_max_readers v n = Inr l0" "wq_reach rwlock_ops l0 (0, 0) y"
  shows "rw_guards_ok (res y) (held y)"
  using assms(2)
proof (rule wq_reach_rel)
  show "rw_guards_ok l0 (0, 0)"
    using assms(1) by (auto simp: rw_guards_ok_def const_with_max_readers_def word_less_nat_alt split: if_splits)
qed (auto dest: rw_guards_oper rw_guards_cancel rw_guards_poll)

lemma rw_start_ok: "const_with_max_readers v n = Inr l0 \<Longrightarrow> rw.start_ok l0"
  by (auto simp: rw.start_ok_def rw_wf_def const_with_max_readers_def word_less_nat_alt split: if_splits)

lemma rw_poll_value: "rw_poll l slot k w = (l', slot', out, ws) \<Longrightarrow> rw_value l' = rw_value l"
  by (auto dest: rw_pollD)

lemma rw_drop_value: "rw_future_drop l slot = (l', ws) \<Longrightarrow> rw_value l' = rw_value l"
  by (auto simp: rw_future_drop_def split: prod.splits)

lemma rw_oper_value: "rwlock_oper l h l' h' ws \<Longrightarrow> snd h = 0 \<Longrightarrow> rw_value l' = rw_value l"
  by (induction rule: rwlock_oper.induct)
    (auto simp: rw_guard_defs dest!: release_readD split: if_splits sum.splits)

lemma rw_step_value:
  assumes "wq_step rwlock_ops y z" "snd (held y) = 0"
  shows "rw_value (res z) = rw_value (res y)"
  using assms
  by (induction rule: wq_step.induct) (auto dest: rw_poll_value rw_drop_value rw_oper_value)

section \<open>Properties\<close>

text \<open>C6: many readers or one writer. In every run the reader count is the number of live read
  guards, there is at most one live write guard and none beside a read guard, and releasing or
  downgrading a live guard never hits the underflow or the assertion in the code.\<close>

theorem rwlock_exclusion:
  assumes "const_with_max_readers v n = Inr l0" "wq_reach rwlock_ops l0 (0, 0) y"
  shows "fst (held y) = rw_readers (rw_state (res y)) \<and>
    snd (held y) = (if rw_writer (rw_state (res y)) then 1 else 0) \<and>
    (fst (held y) = 0 \<or> snd (held y) = 0) \<and>
    (0 < fst (held y) \<longrightarrow> (\<exists>r. read_guard_drop (res y) = Inr r)) \<and>
    (0 < snd (held y) \<longrightarrow> (\<exists>r. fst (downgrade (res y)) = Inr r))"
  using rw_guards_reach [OF assms]
  by (auto simp: rw_guards_ok_def rw_guard_defs release_read_def usize_max_def split: if_splits)

text \<open>Reads are stable: while a read guard is live, no step of any task changes the
  protected value.\<close>

lemma rwlock_value_stable_under_read:
  assumes "const_with_max_readers v n = Inr l0" "wq_reach rwlock_ops l0 (0, 0) y"
    and "0 < fst (held y)" "wq_step rwlock_ops y z"
  shows "rw_value (res z) = rw_value (res y)"
  using rw_guards_reach [OF assms(1,2)] assms(3) rw_step_value [OF assms(4)]
  by (auto simp: rw_guards_ok_def split: if_splits)

text \<open>C7: when nobody holds the lock and tasks wait for it, the one at the front has been woken
  since it was last polled, whether it waits to read or to write; polling it grants the lock, and if it
  is a reader, the reader behind it is woken in the same step unless the limit is reached.\<close>

theorem rwlock_no_lost_wakeup:
  assumes "const_with_max_readers v n = Inr l0" "wq_reach rwlock_ops l0 (0, 0) y" "polls y < id_space"
    and "rw_waiters (rw_state (res y)) = e # es" "held y = (0, 0)"
  shows "\<exists>f. futs y f = Some (rww_kind e, Some (rww_id e)) \<and> f \<in> woken y \<and>
    (\<forall>w. \<exists>l' ws. rw_poll (res y) (Some (rww_id e)) (rww_kind e) w = (l', None, Ready (), ws) \<and>
       (\<forall>d ds. rww_kind e = Read \<and> es = d # ds \<and> rww_kind d = Read \<and>
          1 < rw_max_readers (rw_state (res y)) \<longrightarrow> rww_waker d \<in> set ws))"
proof -
  let ?s = "rw_state (res y)"
  have ok: "rw_readers ?s = 0" "\<not> rw_writer ?s" "0 < rw_max_readers ?s"
    using rw_guards_reach [OF assms(1,2)] assms(5) by (auto simp: rw_guards_ok_def split: if_splits)
  then have "rw_avail (res y) (rww_kind e)" by (simp add: rw_avail_def)
  with rw.no_lost_wakeup [OF assms(2) rw_start_ok [OF assms(1)] assms(3)] assms(4)
  obtain f where "futs y f = Some (rww_kind e, Some (rww_id e))" "f \<in> woken y" by auto
  moreover have "\<exists>l' ws. rw_poll (res y) (Some (rww_id e)) (rww_kind e) w = (l', None, Ready (), ws) \<and>
     (\<forall>d ds. rww_kind e = Read \<and> es = d # ds \<and> rww_kind d = Read \<and>
        1 < rw_max_readers ?s \<longrightarrow> rww_waker d \<in> set ws)" for w
    using ok assms(4)
    by (cases "rww_kind e") (auto simp: rw_poll_def read_future_poll_def write_future_poll_def
        rw_poll_lock_def rw_next_waker_def Let_def)
  ultimately show ?thesis by blast
qed

section \<open>Concrete runs\<close>

text \<open>
  A writer holds the lock while two readers start to wait, then releases it; and, with at most
  two readers allowed, two readers hold the lock while a third one starts to wait.
\<close>

definition rw_demo0 :: "nat rwlock" where
  "rw_demo0 = \<lparr>rw_state = \<lparr>rw_readers = 0, rw_max_readers = 2, rw_writer = False, rw_next_waiter = 1,
     rw_waiters = []\<rparr>, rw_value = 5\<rparr>"

definition rw_demo_wait :: "nat rwlock" where
  "rw_demo_wait = \<lparr>rw_state = \<lparr>rw_readers = 0, rw_max_readers = 2, rw_writer = False, rw_next_waiter = 3,
     rw_waiters = [\<lparr>rww_id = 1, rww_kind = Read, rww_waker = 7\<rparr>, \<lparr>rww_id = 2, rww_kind = Read, rww_waker = 8\<rparr>]\<rparr>,
     rw_value = 5\<rparr>"

definition rw_demo_full :: "nat rwlock" where
  "rw_demo_full = \<lparr>rw_state = \<lparr>rw_readers = 2, rw_max_readers = 2, rw_writer = False, rw_next_waiter = 2,
     rw_waiters = [\<lparr>rww_id = 1, rww_kind = Read, rww_waker = 7\<rparr>]\<rparr>, rw_value = 5\<rparr>"

lemma rw_demo0_new: "const_with_max_readers 5 2 = Inr rw_demo0"
proof -
  have "(2::u32) \<le> MAX_READERS" unfolding MAX_READERS_def by code_simp
  moreover have "(0::u32) < 2" by code_simp
  ultimately show ?thesis by (simp add: const_with_max_readers_def rw_demo0_def)
qed

lemmas rw_demo_defs = rw_demo0_def rw_demo_wait_def rw_demo_full_def rw_poll_def read_future_poll_def
  write_future_poll_def rw_poll_lock_def rw_poll_lock_fresh_def next_id_def rw_guard_defs release_read_def
  rw_next_waker_def usize_max_def

lemma rw_demo_wait_at:
  "\<exists>fs. wq_at rwlock_ops rw_demo0 (0, 0) rw_demo_wait (0, 0) fs 2"
proof -
  let ?l = "\<lambda>n ws. rw_demo0\<lparr>rw_state := (rw_state rw_demo0)\<lparr>rw_writer := True, rw_next_waiter := n, rw_waiters := ws\<rparr>\<rparr>"
  let ?e1 = "\<lparr>rww_id = 1, rww_kind = Read, rww_waker = 7\<rparr>" and ?e2 = "\<lparr>rww_id = 2, rww_kind = Read, rww_waker = 8\<rparr>"
  have "wq_oper rwlock_ops rw_demo0 (0, 0) (?l 1 []) (0, Suc 0) []"
    using rwlock_oper.write_ok [of True rw_demo0] by (simp add: rw_demo_defs)
  from wq_at_oper [OF wq_at_start this]
  have "wq_at rwlock_ops rw_demo0 (0, 0) (?l 1 []) (0, Suc 0) (Map.empty(0 \<mapsto> (Read, None))) 0"
    by (rule wq_at_create) simp
  then have "wq_at rwlock_ops rw_demo0 (0, 0) (?l 2 [?e1]) (0, Suc 0)
      ((Map.empty(0 \<mapsto> (Read, None)))(0 \<mapsto> (Read, Some 1))) (Suc 0)"
    by (rule wq_at_pending [where f = 0 and slot = None and w = 7 and ws = "[]"])
      (simp_all add: rw_demo_defs)
  then have "wq_at rwlock_ops rw_demo0 (0, 0) (?l 2 [?e1]) (0, Suc 0)
      ((Map.empty(0 \<mapsto> (Read, None)))(0 \<mapsto> (Read, Some 1), 1 \<mapsto> (Read, None))) (Suc 0)"
    by (rule wq_at_create) simp
  then have "wq_at rwlock_ops rw_demo0 (0, 0) (?l 3 [?e1, ?e2]) (0, Suc 0)
      ((Map.empty(0 \<mapsto> (Read, None)))(0 \<mapsto> (Read, Some 1), 1 \<mapsto> (Read, None), 1 \<mapsto> (Read, Some 2))) (Suc (Suc 0))"
    by (rule wq_at_pending [where f = 1 and slot = None and w = 8 and ws = "[]"])
      (simp_all add: rw_demo_defs)
  moreover have "wq_oper rwlock_ops (?l 3 [?e1, ?e2]) (0, Suc 0) rw_demo_wait (0, 0) [7]"
    using rwlock_oper.drop_write [of "Suc 0" "?l 3 [?e1, ?e2]" rw_demo_wait "[7]" 0] by (simp add: rw_demo_defs)
  ultimately show ?thesis
    using wq_at_oper by (fastforce simp: numeral_2_eq_2)
qed

lemma rw_demo_full_at:
  "\<exists>fs. wq_at rwlock_ops rw_demo0 (0, 0) rw_demo_full (2, 0) fs 1"
proof -
  let ?l = "\<lambda>r n ws. rw_demo0\<lparr>rw_state := (rw_state rw_demo0)\<lparr>rw_readers := r, rw_next_waiter := n, rw_waiters := ws\<rparr>\<rparr>"
  have "wq_oper rwlock_ops rw_demo0 (0, 0) (?l 1 1 []) (Suc 0, 0) []"
    using rwlock_oper.read_ok [of True rw_demo0] by (simp add: rw_demo_defs)
  note one = wq_at_oper [OF wq_at_start this]
  have "wq_oper rwlock_ops (?l 1 1 []) (Suc 0, 0) (?l 2 1 []) (2, 0) []"
    using rwlock_oper.read_ok [of True "?l 1 1 []"] by (simp add: rw_demo_defs numeral_2_eq_2)
  from wq_at_oper [OF one this]
  have "wq_at rwlock_ops rw_demo0 (0, 0) (?l 2 1 []) (2, 0) (Map.empty(0 \<mapsto> (Read, None))) 0"
    by (rule wq_at_create) simp
  then have "wq_at rwlock_ops rw_demo0 (0, 0) rw_demo_full (2, 0)
      ((Map.empty(0 \<mapsto> (Read, None)))(0 \<mapsto> (Read, Some 1))) (Suc 0)"
    by (rule wq_at_pending [where f = 0 and slot = None and w = 7 and ws = "[]"])
      (simp_all add: rw_demo_defs)
  then show ?thesis by auto
qed

text \<open>At the reader limit a release loses the wakeup. There is a run with two readers in and
  a third one queued because of the limit of two, in which dropping one of the read guards makes
  room for the queued reader and wakes nobody.\<close>

lemma rwlock_release_at_limit_wakes_nobody:
  "\<exists>y l'. wq_reach rwlock_ops rw_demo0 (0, 0) y \<and> fst (held y) = 2 \<and>
     map rww_kind (rw_waiters (rw_state (res y))) = [Read] \<and> \<not> can_acquire (rw_state (res y)) Read \<and>
     read_guard_drop (res y) = Inr (l', []) \<and> can_acquire (rw_state l') Read"
proof -
  obtain y where y: "wq_reach rwlock_ops rw_demo0 (0, 0) y" "res y = rw_demo_full" "held y = (2, 0)"
    using rw_demo_full_at unfolding wq_at_def by blast
  show ?thesis
    by (rule exI [of _ y], rule exI [of _ "rw_demo_full\<lparr>rw_state := (rw_state rw_demo_full)\<lparr>rw_readers := 1\<rparr>\<rparr>"])
      (intro conjI y(1); simp add: y rw_demo_defs)
qed

text \<open>The reader limit does not bind \<open>try_read\<close>: whatever limit a lock was created with,
  any number of read guards that \<open>usize\<close> can count can be live at the same time.\<close>

lemma rwlock_reader_limit_not_enforced:
  assumes "const_with_max_readers v n = Inr l0" "k \<le> usize_max"
  shows "\<exists>y. wq_reach rwlock_ops l0 (0, 0) y \<and> fst (held y) = k"
proof -
  have "\<exists>l. wq_at rwlock_ops l0 (0, 0) l (k, 0) Map.empty 0 \<and> \<not> rw_writer (rw_state l) \<and> rw_waiters (rw_state l) = [] \<and> rw_readers (rw_state l) = k"
    using assms(2)
  proof (induction k)
    case 0
    then show ?case
      using assms(1) wq_at_start by (fastforce simp: const_with_max_readers_def split: if_splits)
  next
    case (Suc k)
    then obtain l where l: "wq_at rwlock_ops l0 (0, 0) l (k, 0) Map.empty 0"
      "\<not> rw_writer (rw_state l)" "rw_waiters (rw_state l) = []" "rw_readers (rw_state l) = k" by auto
    let ?l = "l\<lparr>rw_state := (rw_state l)\<lparr>rw_readers := rw_readers (rw_state l) + 1\<rparr>\<rparr>"
    have "wq_oper rwlock_ops l (k, 0) ?l (Suc k, 0) []"
      using rwlock_oper.read_ok [of True l _ "()" k 0] l Suc.prems by (simp add: try_read_def usize_add_def)
    from wq_at_oper [OF l(1) this] l show ?case by (intro exI [of _ ?l]) simp
  qed
  then show ?thesis unfolding wq_at_def by fastforce
qed

theorem rwlock_exclusion_witness:
  "\<exists>y. wq_reach rwlock_ops rw_demo0 (0, 0) y \<and> fst (held y) = 2 \<and> snd (held y) = 0 \<and>
     (\<exists>r. read_guard_drop (res y) = Inr r)"
proof -
  obtain y where y: "wq_reach rwlock_ops rw_demo0 (0, 0) y" "held y = (2, 0)"
    using rw_demo_full_at unfolding wq_at_def by blast
  then show ?thesis using rwlock_exclusion [OF rw_demo0_new y(1)] by auto
qed

theorem rwlock_no_lost_wakeup_witness:
  "\<exists>y f. wq_reach rwlock_ops rw_demo0 (0, 0) y \<and> futs y f = Some (Read, Some 1) \<and> f \<in> woken y"
proof -
  obtain y where y: "wq_reach rwlock_ops rw_demo0 (0, 0) y" "res y = rw_demo_wait" "held y = (0, 0)" "polls y = 2"
    using rw_demo_wait_at unfolding wq_at_def by blast
  then show ?thesis
    using rwlock_no_lost_wakeup [OF rw_demo0_new y(1), of "\<lparr>rww_id = 1, rww_kind = Read, rww_waker = 7\<rparr>"
        "[\<lparr>rww_id = 2, rww_kind = Read, rww_waker = 8\<rparr>]"]
    by (auto simp: rw_demo_wait_def)
qed

end
