(* ===== verification/Notify.thy ===== *)
theory Notify
  imports Ffrt_Prelude
begin

text \<open>
  The notification primitive of \<open>sync/notify.rs\<close>. A future owns an atomic cell through an
  \<open>Arc\<close>; the queue refers to the cell through a \<open>Weak\<close>. Cells live in a store from addresses to
  values, an address without a value being a cell whose \<open>Arc\<close> is gone, so that \<open>upgrade\<close> is
  the lookup. All accesses to cells that are shared happen under the lock of the state, so each
  operation is one atomic step.
\<close>

section \<open>State\<close>

type_synonym u8 = "8 word"

definition WAITING :: u8 where "WAITING = 0"
definition ONE :: u8 where "ONE = 1"
definition NOTIFY_ALL :: u8 where "NOTIFY_ALL = 2"
definition CONSUMED :: u8 where "CONSUMED = 3"

record notify_waiter =
  nw_notified :: nat
  nw_waker :: waker

record notify_state =
  nt_permit :: bool
  nt_generation :: u64
  nt_waiters :: "notify_waiter list"
  nt_cells :: "nat \<rightharpoonup> u8"

record future_state =
  fs_notified :: nat
  fs_generation :: u64

definition notify_const_new :: notify_state where
  "notify_const_new = \<lparr>nt_permit = False, nt_generation = 0, nt_waiters = [], nt_cells = Map.empty\<rparr>"

section \<open>Operations\<close>

definition nt_store :: "notify_state \<Rightarrow> nat \<Rightarrow> u8 \<Rightarrow> notify_state" where
  "nt_store n a v = n\<lparr>nt_cells := (nt_cells n)(a \<mapsto> v)\<rparr>"

definition remove_waiter :: "notify_state \<Rightarrow> nat \<Rightarrow> notify_state" where
  "remove_waiter n a = n\<lparr>nt_waiters := filter (\<lambda>waiter. nw_notified waiter \<noteq> a) (nt_waiters n)\<rparr>"

text \<open>
  The loop of \<open>notify_locked\<close>: pop from the chosen end until a waiter is found whose cell is
  still there. Popping from the back is popping from the front of the reversed queue.
\<close>

fun pop_live :: "(nat \<rightharpoonup> u8) \<Rightarrow> notify_waiter list \<Rightarrow> (notify_waiter \<times> notify_waiter list) option" where
  "pop_live cells [] = None"
| "pop_live cells (waiter # rest) =
     (if cells (nw_notified waiter) \<noteq> None then Some (waiter, rest) else pop_live cells rest)"

definition notify_locked :: "notify_state \<Rightarrow> bool \<Rightarrow> notify_state \<times> waker option" where
  "notify_locked n from_back =
     (case pop_live (nt_cells n) (if from_back then rev (nt_waiters n) else nt_waiters n) of
        Some (waiter, rest) \<Rightarrow>
          (nt_store (n\<lparr>nt_waiters := if from_back then rev rest else rest\<rparr>) (nw_notified waiter) ONE,
           Some (nw_waker waiter))
      | None \<Rightarrow> (n\<lparr>nt_waiters := [], nt_permit := True\<rparr>, None))"

definition notify :: "notify_state \<Rightarrow> bool \<Rightarrow> notify_state \<times> waker list" where
  "notify n from_back = (case notify_locked n from_back of (n', waker) \<Rightarrow> (n', olist waker))"

definition notify_one :: "notify_state \<Rightarrow> notify_state \<times> waker list" where
  "notify_one n = notify n False"

definition notify_last :: "notify_state \<Rightarrow> notify_state \<times> waker list" where
  "notify_last n = notify n True"

text \<open>The drain of \<open>notify_waiters\<close>: store \<open>ALL\<close> (\<open>NOTIFY_ALL\<close> here) in the cells that are still there.\<close>

fun drain_waiters :: "(nat \<rightharpoonup> u8) \<Rightarrow> notify_waiter list \<Rightarrow> (nat \<rightharpoonup> u8) \<times> waker list" where
  "drain_waiters cells [] = (cells, [])"
| "drain_waiters cells (waiter # rest) = (case cells (nw_notified waiter) of
     None \<Rightarrow> drain_waiters cells rest
   | Some _ \<Rightarrow>
       (case drain_waiters (cells(nw_notified waiter \<mapsto> NOTIFY_ALL)) rest of
          (cells', wakers) \<Rightarrow> (cells', nw_waker waiter # wakers)))"

definition notify_waiters :: "notify_state \<Rightarrow> notify_state \<times> waker list" where
  "notify_waiters n = (case drain_waiters (nt_cells n) (nt_waiters n) of
     (cells', wakers) \<Rightarrow>
       (n\<lparr>nt_generation := nt_generation n + 1, nt_waiters := [], nt_cells := cells'\<rparr>, wakers))"

text \<open>\<open>FutureState::new\<close> with the address the allocator returns for the new cell.\<close>

definition future_state_new :: "notify_state \<Rightarrow> nat \<Rightarrow> notify_state \<times> future_state" where
  "future_state_new n a =
     (nt_store n a WAITING, \<lparr>fs_notified = a, fs_generation = nt_generation n\<rparr>)"

definition noop_waker :: waker where
  "noop_waker = 0"

definition poll_notified :: "notify_state \<Rightarrow> future_state \<Rightarrow> waker option \<Rightarrow> notify_state \<times> unit poll" where
  "poll_notified n future waker =
     (let a = fs_notified future in
      if nt_cells n a \<noteq> Some WAITING \<or> fs_generation future \<noteq> nt_generation n
      then (nt_store (remove_waiter n a) a CONSUMED, Ready ())
      else if nt_permit n
      then (nt_store (remove_waiter (n\<lparr>nt_permit := False\<rparr>) a) a CONSUMED, Ready ())
      else (case position (\<lambda>waiter. nw_notified waiter = a) (nt_waiters n) of
        Some p \<Rightarrow>
          (case waker of
             Some w \<Rightarrow> (n\<lparr>nt_waiters := (nt_waiters n)[p := (nt_waiters n ! p)\<lparr>nw_waker := w\<rparr>]\<rparr>, Pending)
           | None \<Rightarrow> (n, Pending))
      | None \<Rightarrow>
          (n\<lparr>nt_waiters := nt_waiters n @
               [\<lparr>nw_notified = a, nw_waker = (case waker of Some w \<Rightarrow> w | None \<Rightarrow> noop_waker)\<rparr>]\<rparr>,
           Pending)))"

definition notified_poll :: "notify_state \<Rightarrow> future_state \<Rightarrow> waker \<Rightarrow> notify_state \<times> unit poll" where
  "notified_poll n future cx = poll_notified n future (Some cx)"

definition enable :: "notify_state \<Rightarrow> future_state \<Rightarrow> notify_state \<times> bool" where
  "enable n future = (case poll_notified n future None of (n', r) \<Rightarrow> (n', r \<noteq> Pending))"

definition cancel :: "notify_state \<Rightarrow> future_state \<Rightarrow> notify_state \<times> waker list" where
  "cancel n future =
     (let n' = remove_waiter n (fs_notified future) in
      if nt_cells n' (fs_notified future) = Some ONE
      then (case notify_locked n' False of (n'', waker) \<Rightarrow> (n'', olist waker))
      else (n', []))"

text \<open>Dropping the future cancels it and then drops its \<open>Arc\<close>.\<close>

definition notified_drop :: "notify_state \<Rightarrow> future_state \<Rightarrow> notify_state \<times> waker list" where
  "notified_drop n future = (case cancel n future of
     (n', ws) \<Rightarrow> (n'\<lparr>nt_cells := (nt_cells n')(fs_notified future := None)\<rparr>, ws))"

section \<open>Clients\<close>

text \<open>
  A system: the primitive, its live futures, by the address of their cell, and the number of
  calls of \<open>notify_waiters\<close> so far.
\<close>

record notify_sys =
  nsys :: notify_state
  nfuts :: "nat \<rightharpoonup> u64"
  nalls :: nat

definition fut_at :: "nat \<Rightarrow> u64 \<Rightarrow> future_state" where
  "fut_at a g = \<lparr>fs_notified = a, fs_generation = g\<rparr>"

inductive notify_step :: "notify_sys \<Rightarrow> notify_sys \<Rightarrow> bool" where
  new: "nfuts y a = None \<Longrightarrow> future_state_new (nsys y) a = (n', fut) \<Longrightarrow>
     notify_step y (y\<lparr>nsys := n', nfuts := (nfuts y)(a \<mapsto> fs_generation fut)\<rparr>)"
| poll: "nfuts y a = Some g \<Longrightarrow> notified_poll (nsys y) (fut_at a g) w = (n', r) \<Longrightarrow>
     notify_step y (y\<lparr>nsys := n'\<rparr>)"
| enable: "nfuts y a = Some g \<Longrightarrow> enable (nsys y) (fut_at a g) = (n', b) \<Longrightarrow> notify_step y (y\<lparr>nsys := n'\<rparr>)"
| drop: "nfuts y a = Some g \<Longrightarrow> notified_drop (nsys y) (fut_at a g) = (n', ws) \<Longrightarrow>
     notify_step y (y\<lparr>nsys := n', nfuts := (nfuts y)(a := None)\<rparr>)"
| one: "notify_one (nsys y) = (n', ws) \<Longrightarrow> notify_step y (y\<lparr>nsys := n'\<rparr>)"
| last: "notify_last (nsys y) = (n', ws) \<Longrightarrow> notify_step y (y\<lparr>nsys := n'\<rparr>)"
| all: "notify_waiters (nsys y) = (n', ws) \<Longrightarrow> notify_step y (y\<lparr>nsys := n', nalls := Suc (nalls y)\<rparr>)"

inductive notify_reach :: "notify_sys \<Rightarrow> bool" where
  start: "notify_reach \<lparr>nsys = notify_const_new, nfuts = Map.empty, nalls = 0\<rparr>"
| step: "notify_reach y \<Longrightarrow> notify_step y z \<Longrightarrow> notify_reach z"

text \<open>
  The invariant: cells are the cells of the live futures; the queue has at most one entry for a
  future, for a cell that waits; and while a permit is stored nobody is queued.
\<close>

definition nt_inv :: "notify_state \<Rightarrow> (nat \<rightharpoonup> u64) \<Rightarrow> bool" where
  "nt_inv n fs \<longleftrightarrow> finite (dom fs) \<and> dom (nt_cells n) = dom fs \<and>
     distinct (map nw_notified (nt_waiters n)) \<and>
     (\<forall>e\<in>set (nt_waiters n). nt_cells n (nw_notified e) = Some WAITING \<and>
        fs (nw_notified e) = Some (nt_generation n)) \<and>
     (nt_permit n \<longrightarrow> nt_waiters n = [])"

lemma cell_values [simp]:
  "WAITING \<noteq> ONE" "ONE \<noteq> WAITING" "WAITING \<noteq> NOTIFY_ALL" "NOTIFY_ALL \<noteq> WAITING" "WAITING \<noteq> CONSUMED"
  "CONSUMED \<noteq> WAITING" "ONE \<noteq> NOTIFY_ALL" "NOTIFY_ALL \<noteq> ONE" "ONE \<noteq> CONSUMED" "CONSUMED \<noteq> ONE"
  by (simp_all add: WAITING_def ONE_def NOTIFY_ALL_def CONSUMED_def)

lemma pop_live_all:
  "\<forall>e\<in>set ws. cells (nw_notified e) \<noteq> None \<Longrightarrow>
     pop_live cells ws = (case ws of [] \<Rightarrow> None | e # es \<Rightarrow> Some (e, es))"
  by (cases ws) auto

lemma drain_waiters_live:
  "distinct (map nw_notified ws) \<Longrightarrow> \<forall>e\<in>set ws. cells (nw_notified e) \<noteq> None \<Longrightarrow>
     drain_waiters cells ws =
       ((\<lambda>a. if a \<in> nw_notified ` set ws then Some NOTIFY_ALL else cells a), map nw_waker ws)"
proof (induction ws arbitrary: cells)
  case (Cons e es)
  then have "drain_waiters (cells(nw_notified e \<mapsto> NOTIFY_ALL)) es =
      ((\<lambda>a. if a \<in> nw_notified ` set es then Some NOTIFY_ALL else (cells(nw_notified e \<mapsto> NOTIFY_ALL)) a),
       map nw_waker es)"
    by (intro Cons.IH) auto
  with Cons.prems show ?case by (auto simp: fun_eq_iff)
qed simp

text \<open>What \<open>notify_locked\<close> does when all entries are live: it takes the first or the last one.\<close>

lemma notify_locked_cases:
  assumes "nt_inv n fs" "notify_locked n b = (n', w)"
  shows "nt_waiters n = [] \<and> n' = n\<lparr>nt_permit := True\<rparr> \<and> w = None \<or>
    (\<exists>e ws. nt_waiters n = (if b then ws @ [e] else e # ws) \<and>
       n' = n\<lparr>nt_waiters := ws, nt_cells := (nt_cells n)(nw_notified e \<mapsto> ONE)\<rparr> \<and> w = Some (nw_waker e))"
proof -
  have "\<forall>e\<in>set (if b then rev (nt_waiters n) else nt_waiters n). nt_cells n (nw_notified e) \<noteq> None"
    using assms(1) by (auto simp: nt_inv_def)
  note pop = pop_live_all [OF this]
  show ?thesis
  proof (cases b)
    case True
    show ?thesis
      using assms(2) pop True
      by (cases "nt_waiters n" rule: rev_cases) (auto simp: notify_locked_def nt_store_def)
  next
    case False
    then show ?thesis
      using assms(2) pop by (cases "nt_waiters n") (auto simp: notify_locked_def nt_store_def)
  qed
qed

lemma inv_take:
  assumes "nt_inv n fs" "distinct (map nw_notified (e # ws))" "set (nt_waiters n) = insert e (set ws)"
  shows "nt_inv (n\<lparr>nt_waiters := ws, nt_cells := (nt_cells n)(nw_notified e \<mapsto> v)\<rparr>) fs"
proof -
  have e: "nw_notified e \<in> dom fs" and "\<not> nt_permit n"
    using assms(1,3) by (auto simp: nt_inv_def)
  have "nw_notified d \<noteq> nw_notified e" if "d \<in> set ws" for d
    using assms(2) that not_image_neq [of "nw_notified e" nw_notified "set ws" d] by simp
  with assms \<open>\<not> nt_permit n\<close> show ?thesis
    by (simp add: nt_inv_def insert_absorb [OF e])
qed

lemma inv_notify_locked:
  assumes inv: "nt_inv n fs" and step: "notify_locked n b = (n', w)"
  shows "nt_inv n' fs"
  using notify_locked_cases [OF inv step]
proof (elim disjE exE conjE)
  fix e ws
  assume "nt_waiters n = (if b then ws @ [e] else e # ws)"
    and n': "n' = n\<lparr>nt_waiters := ws, nt_cells := (nt_cells n)(nw_notified e \<mapsto> ONE)\<rparr>"
  with inv have "distinct (map nw_notified (e # ws))" "set (nt_waiters n) = insert e (set ws)"
    by (auto simp: nt_inv_def split: if_splits)
  with inv_take [OF inv] n' show ?thesis by simp
qed (use inv in \<open>simp add: nt_inv_def\<close>)

lemma inv_remove: "nt_inv n fs \<Longrightarrow> nt_inv (remove_waiter n a) fs"
  by (auto simp: nt_inv_def remove_waiter_def distinct_map inj_on_def)

lemma inv_store:
  "nt_inv n fs \<Longrightarrow> a \<in> dom fs \<Longrightarrow> a \<notin> nw_notified ` set (nt_waiters n) \<Longrightarrow> nt_inv (nt_store n a v) fs"
  by (auto simp: nt_inv_def nt_store_def)

lemma inv_rewake:
  assumes "nt_inv n fs" "map nw_notified ws = map nw_notified (nt_waiters n)"
  shows "nt_inv (n\<lparr>nt_waiters := ws\<rparr>) fs"
proof -
  have im: "nw_notified ` set ws = nw_notified ` set (nt_waiters n)"
    using assms(2) by (metis set_map)
  have "\<forall>a\<in>nw_notified ` set (nt_waiters n). nt_cells n a = Some WAITING \<and> fs a = Some (nt_generation n)"
    using assms(1) by (auto simp: nt_inv_def)
  then have "\<forall>e\<in>set ws. nt_cells n (nw_notified e) = Some WAITING \<and> fs (nw_notified e) = Some (nt_generation n)"
    unfolding im [symmetric] by blast
  moreover have "nt_permit n \<longrightarrow> ws = []" using assms by (auto simp: nt_inv_def)
  ultimately show ?thesis using assms by (simp add: nt_inv_def)
qed

lemma inv_enqueue:
  assumes "nt_inv n fs" "a \<notin> nw_notified ` set (nt_waiters n)" "nt_cells n a = Some WAITING"
    "fs a = Some (nt_generation n)" "\<not> nt_permit n"
  shows "nt_inv (n\<lparr>nt_waiters := nt_waiters n @ [\<lparr>nw_notified = a, nw_waker = w\<rparr>]\<rparr>) fs"
  using assms by (simp add: nt_inv_def)

lemma not_queued: "a \<notin> nw_notified ` set (nt_waiters (remove_waiter n a))"
  by (auto simp: remove_waiter_def)

lemma inv_new: "nt_inv n fs \<Longrightarrow> fs a = None \<Longrightarrow> nt_inv (nt_store n a WAITING) (fs(a \<mapsto> g))"
  by (auto simp: nt_inv_def nt_store_def)

lemma inv_poll:
  assumes inv: "nt_inv n fs" and a: "fs (fs_notified fut) = Some (fs_generation fut)"
    and step: "poll_notified n fut w = (n', r)"
  shows "nt_inv n' fs"
proof -
  let ?a = "fs_notified fut"
  have dom: "?a \<in> dom fs" using a by blast
  have consumed: "nt_inv (nt_store (remove_waiter m ?a) ?a CONSUMED) fs" if "nt_inv m fs" for m
    by (rule inv_store [OF inv_remove [OF that] dom not_queued])
  have off: "nt_inv (n\<lparr>nt_permit := False\<rparr>) fs" using inv by (simp add: nt_inv_def)
  show ?thesis
  proof (cases "nt_cells n ?a \<noteq> Some WAITING \<or> fs_generation fut \<noteq> nt_generation n \<or> nt_permit n")
    case True
    then show ?thesis
      using step consumed [OF inv] consumed [OF off] by (auto simp: poll_notified_def Let_def split: if_splits)
  next
    case wait: False
    show ?thesis
    proof (cases "position (\<lambda>e. nw_notified e = ?a) (nt_waiters n)")
      case None
      then have "?a \<notin> nw_notified ` set (nt_waiters n)" by auto
      from inv_enqueue [OF inv this] wait a step None show ?thesis
        by (auto simp: poll_notified_def Let_def)
    next
      case (Some p)
      then have "p < length (nt_waiters n)" by (rule position_Some_length)
      then have "nt_inv (n\<lparr>nt_waiters := (nt_waiters n)[p := (nt_waiters n ! p)\<lparr>nw_waker := x\<rparr>]\<rparr>) fs" for x
        by (intro inv_rewake [OF inv] map_update_same) simp_all
      with wait step inv Some show ?thesis
        by (auto simp: poll_notified_def Let_def split: option.splits)
    qed
  qed
qed

lemma inv_drop:
  assumes inv: "nt_inv n fs" and a: "fs (fs_notified fut) = Some g"
    and step: "notified_drop n fut = (n', ws)"
  shows "nt_inv n' (fs(fs_notified fut := None))"
proof -
  let ?a = "fs_notified fut"
  let ?m = "remove_waiter n ?a"
  have m: "nt_inv ?m fs" "?a \<notin> nw_notified ` set (nt_waiters ?m)"
    using inv_remove [OF inv] not_queued by blast+
  have del: "nt_inv (k\<lparr>nt_cells := (nt_cells k)(?a := None)\<rparr>) (fs(?a := None))"
    if "nt_inv k fs" "?a \<notin> nw_notified ` set (nt_waiters k)" for k
    using that not_image_neq [OF that(2)] by (simp add: nt_inv_def)
  obtain k w where k: "notify_locked ?m False = (k, w)" by fastforce
  have "?a \<notin> nw_notified ` set (nt_waiters k)"
    using notify_locked_cases [OF m(1) k] m(2) by auto
  with del [OF inv_notify_locked [OF m(1) k]] del [OF m] step k show ?thesis
    by (auto simp: notified_drop_def cancel_def Let_def split: if_splits)
qed

lemma inv_drop_at:
  "nt_inv n fs \<Longrightarrow> fs a = Some g \<Longrightarrow> notified_drop n (fut_at a g) = (n', ws) \<Longrightarrow> nt_inv n' (fs(a := None))"
  using inv_drop [of n fs "fut_at a g"] by (simp add: fut_at_def)

lemma fut_at_simps [simp]: "fs_notified (fut_at a g) = a" "fs_generation (fut_at a g) = g"
  by (simp_all add: fut_at_def)

lemma inv_poll_at:
  "nt_inv n fs \<Longrightarrow> fs a = Some g \<Longrightarrow> poll_notified n (fut_at a g) w = (n', r) \<Longrightarrow> nt_inv n' fs"
  using inv_poll [of n fs "fut_at a g"] by simp

lemma notify_waiters_live:
  assumes "nt_inv n fs" "notify_waiters n = (n', ws)"
  shows "n' = n\<lparr>nt_generation := nt_generation n + 1, nt_waiters := [],
      nt_cells := (\<lambda>a. if a \<in> nw_notified ` set (nt_waiters n) then Some NOTIFY_ALL else nt_cells n a)\<rparr> \<and>
    ws = map nw_waker (nt_waiters n)"
proof -
  have "drain_waiters (nt_cells n) (nt_waiters n) =
      ((\<lambda>a. if a \<in> nw_notified ` set (nt_waiters n) then Some NOTIFY_ALL else nt_cells n a), map nw_waker (nt_waiters n))"
    using assms(1) by (intro drain_waiters_live) (auto simp: nt_inv_def)
  with assms(2) show ?thesis by (simp add: notify_waiters_def)
qed

lemma inv_notify_waiters:
  assumes inv: "nt_inv n fs" and step: "notify_waiters n = (n', ws)"
  shows "nt_inv n' fs"
proof -
  let ?A = "nw_notified ` set (nt_waiters n)"
  have "?A \<subseteq> dom (nt_cells n)" using inv by (auto simp: nt_inv_def)
  then have "dom (\<lambda>a. if a \<in> ?A then Some NOTIFY_ALL else nt_cells n a) = dom (nt_cells n)"
    by (auto simp: dom_def)
  with notify_waiters_live [OF inv step] inv show ?thesis
    by (simp add: nt_inv_def)
qed

lemma notify_reach_inv: "notify_reach y \<Longrightarrow> nt_inv (nsys y) (nfuts y)"
proof (induction rule: notify_reach.induct)
  case start
  then show ?case by (simp add: nt_inv_def notify_const_new_def)
next
  case (step y z)
  from step(2,3) show ?case
    by (induction rule: notify_step.induct)
      (auto simp: future_state_new_def notified_poll_def enable_def notify_one_def notify_last_def
        notify_def split: prod.splits
        intro: inv_new inv_poll_at inv_drop_at inv_notify_waiters inv_notify_locked)
qed

section \<open>Notifications as tokens\<close>

text \<open>
  A call of \<open>notify_one\<close> or \<open>notify_last\<close> issues a token: it is the stored permit, or it has been
  handed to a future whose cell says \<open>ONE\<close> and that has not consumed it yet.
\<close>

definition ones :: "(nat \<rightharpoonup> u8) \<Rightarrow> nat set" where
  "ones cells = {a. cells a = Some ONE}"

definition nt_tokens :: "notify_state \<Rightarrow> nat" where
  "nt_tokens n = (if nt_permit n then 1 else 0) + card (ones (nt_cells n))"

lemma ones_upd [simp]:
  "ones (cells(a \<mapsto> v)) = (if v = ONE then insert a (ones cells) else ones cells - {a})"
  "ones (cells(a := None)) = ones cells - {a}"
  by (auto simp: ones_def)

lemma inv_finite_ones: "nt_inv n fs \<Longrightarrow> finite (ones (nt_cells n))"
  by (rule finite_subset [of _ "dom (nt_cells n)"]) (auto simp: ones_def nt_inv_def)

lemma remove_waiter_simps [simp]:
  "nt_cells (remove_waiter n a) = nt_cells n" "nt_permit (remove_waiter n a) = nt_permit n"
  "nt_generation (remove_waiter n a) = nt_generation n"
  by (simp_all add: remove_waiter_def)

lemma nt_store_simps [simp]:
  "nt_cells (nt_store n a v) = (nt_cells n)(a \<mapsto> v)" "nt_permit (nt_store n a v) = nt_permit n"
  by (simp_all add: nt_store_def)

lemma tokens_locked:
  assumes "nt_inv n fs" "notify_locked n b = (n', w)"
  shows "nt_tokens n' = nt_tokens n + 1 \<or> nt_permit n \<and> nt_waiters n = [] \<and> n' = n"
  using notify_locked_cases [OF assms]
proof (elim disjE exE conjE)
  fix e ws
  assume *: "nt_waiters n = (if b then ws @ [e] else e # ws)"
    "n' = n\<lparr>nt_waiters := ws, nt_cells := (nt_cells n)(nw_notified e \<mapsto> ONE)\<rparr>"
  then have "e \<in> set (nt_waiters n)" by (simp split: if_splits)
  then have "nw_notified e \<notin> ones (nt_cells n)"
    using assms(1) by (auto simp: nt_inv_def ones_def)
  then show ?thesis
    using *(2) inv_finite_ones [OF assms(1)] by (simp add: nt_tokens_def)
qed (auto simp: nt_tokens_def)

lemma tokens_waiters:
  assumes "nt_inv n fs" "notify_waiters n = (n', ws)"
  shows "nt_tokens n' = nt_tokens n"
proof -
  have "ones (nt_cells n') = ones (nt_cells n)"
    using notify_waiters_live [OF assms] assms(1) by (auto simp: ones_def nt_inv_def)
  then show ?thesis
    using notify_waiters_live [OF assms] by (simp add: nt_tokens_def)
qed

lemma tokens_poll:
  assumes inv: "nt_inv n fs" and step: "poll_notified n fut w = (n', r)"
  shows "nt_tokens n = nt_tokens n' +
    (if nt_cells n (fs_notified fut) = Some ONE \<or>
        nt_cells n (fs_notified fut) = Some WAITING \<and> fs_generation fut = nt_generation n \<and> nt_permit n
     then 1 else 0)"
proof -
  have fin: "finite (ones (nt_cells n))" by (rule inv_finite_ones [OF inv])
  have mem: "fs_notified fut \<in> ones (nt_cells n) \<longleftrightarrow> nt_cells n (fs_notified fut) = Some ONE"
    by (simp add: ones_def)
  then have "0 < card (ones (nt_cells n))" if "nt_cells n (fs_notified fut) = Some ONE"
    using fin that by (auto simp: card_gt_0_iff)
  with step mem fin show ?thesis
    by (auto simp: poll_notified_def Let_def nt_tokens_def card_Diff_singleton_if split: if_splits option.splits)
qed

lemma tokens_drop:
  assumes inv: "nt_inv n fs" and step: "notified_drop n fut = (n', ws)"
    and a: "fs (fs_notified fut) = Some g"
  shows "nt_tokens n' = nt_tokens n \<or>
    nt_permit n \<and> nt_cells n (fs_notified fut) = Some ONE \<and> nt_tokens n = nt_tokens n' + 1"
proof (cases "nt_cells n (fs_notified fut) = Some ONE")
  case False
  then have "ones (nt_cells n) - {fs_notified fut} = ones (nt_cells n)" by (auto simp: ones_def)
  moreover have "n' = (remove_waiter n (fs_notified fut))\<lparr>nt_cells := (nt_cells n)(fs_notified fut := None)\<rparr>"
    using False step by (simp add: notified_drop_def cancel_def Let_def)
  ultimately show ?thesis by (simp add: nt_tokens_def)
next
  case True
  let ?m = "remove_waiter n (fs_notified fut)"
  obtain k w where k: "notify_locked ?m False = (k, w)" by fastforce
  have m: "nt_inv ?m fs" "nt_inv k fs"
    using inv_remove [OF inv] inv_notify_locked k by blast+
  have "fs_notified fut \<in> ones (nt_cells k)"
    using notify_locked_cases [OF m(1) k] True by (auto simp: ones_def)
  then have c: "card (ones (nt_cells k)) = card (ones (nt_cells k) - {fs_notified fut}) + 1"
    using card_Suc_Diff1 [OF inv_finite_ones [OF m(2)]] by simp
  have "n' = k\<lparr>nt_cells := (nt_cells k)(fs_notified fut := None)\<rparr>"
    using step k True by (simp add: notified_drop_def cancel_def Let_def)
  then have "nt_tokens k = nt_tokens n' + 1"
    using c by (simp add: nt_tokens_def)
  moreover have "nt_tokens ?m = nt_tokens n" by (simp add: nt_tokens_def)
  moreover note tokens_locked [OF m(1) k]
  ultimately show ?thesis using True by auto
qed

text \<open>Generations count the calls of \<open>notify_waiters\<close>, up to wrap-around.\<close>

definition gens_ok :: "notify_sys \<Rightarrow> bool" where
  "gens_ok y \<longleftrightarrow> nt_generation (nsys y) = of_nat (nalls y) \<and>
     (\<forall>a g. nfuts y a = Some g \<longrightarrow> (\<exists>j\<le>nalls y. g = of_nat j))"

lemma poll_generation: "poll_notified n fut w = (n', r) \<Longrightarrow> nt_generation n' = nt_generation n"
  by (auto simp: poll_notified_def Let_def nt_store_def split: if_splits option.splits)

lemma locked_generation: "notify_locked n b = (n', w) \<Longrightarrow> nt_generation n' = nt_generation n"
  by (auto simp: notify_locked_def nt_store_def split: option.splits)

lemma drop_generation: "notified_drop n fut = (n', ws) \<Longrightarrow> nt_generation n' = nt_generation n"
  by (auto simp: notified_drop_def cancel_def Let_def dest: locked_generation split: if_splits prod.splits)

lemma gens_reach: "notify_reach y \<Longrightarrow> gens_ok y"
proof (induction rule: notify_reach.induct)
  case start
  then show ?case by (simp add: gens_ok_def notify_const_new_def)
next
  case (step y z)
  from step(2,3) show ?case
  proof (induction rule: notify_step.induct)
    case (all y n' ws)
    have "\<exists>j\<le>Suc (nalls y). g = of_nat j" if "nfuts y a = Some g" for a g
      using all that unfolding gens_ok_def by (meson le_SucI)
    with all show ?case
      by (auto simp: gens_ok_def notify_waiters_def split: prod.splits)
  qed (auto simp: gens_ok_def future_state_new_def nt_store_def notified_poll_def enable_def notify_one_def
      notify_last_def notify_def dest: poll_generation locked_generation drop_generation split: prod.splits if_splits)
qed

lemma gen_fresh:
  assumes "j \<le> k" "Suc k < 2 ^ 64"
  shows "(of_nat j :: u64) \<noteq> of_nat k + 1"
proof
  assume "(of_nat j :: u64) = of_nat k + 1"
  then have "unat (of_nat j :: u64) = unat (of_nat (Suc k) :: u64)" by (simp add: add.commute)
  moreover have "unat (of_nat j :: u64) = j" "unat (of_nat (Suc k) :: u64) = Suc k"
    using assms by (intro unat_of_nat_u64; simp)+
  ultimately show False using assms(1) by simp
qed

section \<open>Properties\<close>

text \<open>A notification goes to a waiting task whenever there is one. In every run, a permit is
  stored only while nobody is queued, and all queued futures are alive and waiting; so
  \<open>notify_one\<close> takes the task that has waited longest, \<open>notify_last\<close> the one that has waited
  shortest, wakes exactly this task, and its future is ready at the next poll.\<close>

lemma notify_takes_waiter:
  assumes "notify_reach y"
  shows "(nt_permit (nsys y) \<longrightarrow> nt_waiters (nsys y) = []) \<and>
    (\<forall>e es. nt_waiters (nsys y) = e # es \<longrightarrow> (\<exists>n'. notify_one (nsys y) = (n', [nw_waker e]) \<and>
       nt_waiters n' = es \<and>
       (\<exists>g. nfuts y (nw_notified e) = Some g \<and> (\<forall>w. snd (notified_poll n' (fut_at (nw_notified e) g) w) = Ready ())))) \<and>
    (\<forall>e es. nt_waiters (nsys y) = es @ [e] \<longrightarrow> (\<exists>n'. notify_last (nsys y) = (n', [nw_waker e]) \<and>
       nt_waiters n' = es \<and>
       (\<exists>g. nfuts y (nw_notified e) = Some g \<and> (\<forall>w. snd (notified_poll n' (fut_at (nw_notified e) g) w) = Ready ()))))"
proof -
  have inv: "nt_inv (nsys y) (nfuts y)" by (rule notify_reach_inv [OF assms])
  have "\<exists>n'. notify (nsys y) b = (n', [nw_waker e]) \<and> nt_waiters n' = es \<and>
       (\<exists>g. nfuts y (nw_notified e) = Some g \<and> (\<forall>w. snd (notified_poll n' (fut_at (nw_notified e) g) w) = Ready ()))"
    if e: "nt_waiters (nsys y) = (if b then es @ [e] else e # es)" for b e es
  proof -
    obtain n' w where n': "notify_locked (nsys y) b = (n', w)" by fastforce
    from notify_locked_cases [OF inv n'] e
    have "nt_waiters n' = es" "w = Some (nw_waker e)" "nt_cells n' (nw_notified e) = Some ONE"
      by (auto split: if_splits)
    moreover have "nfuts y (nw_notified e) = Some (nt_generation (nsys y))"
      using inv e by (auto simp: nt_inv_def split: if_splits)
    ultimately show ?thesis
      using n' by (simp add: notify_def notified_poll_def poll_notified_def Let_def)
  qed
  from this [of False] this [of True] show ?thesis
    using inv by (simp add: notify_one_def notify_last_def nt_inv_def)
qed

text \<open>Notifications are neither lost nor duplicated. A call of \<open>notify_one\<close> adds exactly
  one token, except that it coalesces with a permit already stored; a poll that completes because of
  a token takes exactly one; \<open>notify_waiters\<close> leaves the tokens alone; and a future dropped with an
  unconsumed token passes it on, to the next task or to the stored permit.\<close>

lemma notify_tokens:
  assumes "notify_reach y"
  shows "(\<forall>b n' ws. notify (nsys y) b = (n', ws) \<longrightarrow>
       nt_tokens n' = nt_tokens (nsys y) + 1 \<or> nt_permit (nsys y) \<and> nt_waiters (nsys y) = [] \<and> n' = nsys y) \<and>
    (\<forall>n' ws. notify_waiters (nsys y) = (n', ws) \<longrightarrow> nt_tokens n' = nt_tokens (nsys y)) \<and>
    (\<forall>a g w n' r. nfuts y a = Some g \<longrightarrow> poll_notified (nsys y) (fut_at a g) w = (n', r) \<longrightarrow>
       (r = Pending \<longrightarrow> \<not> nt_permit n' \<and> nt_tokens n' = nt_tokens (nsys y)) \<and>
       nt_tokens (nsys y) = nt_tokens n' +
         (if nt_cells (nsys y) a = Some ONE \<or>
             nt_cells (nsys y) a = Some WAITING \<and> g = nt_generation (nsys y) \<and> nt_permit (nsys y)
          then 1 else 0)) \<and>
    (\<forall>a g n' ws. nfuts y a = Some g \<longrightarrow> notified_drop (nsys y) (fut_at a g) = (n', ws) \<longrightarrow>
       nt_tokens n' = nt_tokens (nsys y) \<or>
       nt_permit (nsys y) \<and> nt_cells (nsys y) a = Some ONE \<and> nt_tokens (nsys y) = nt_tokens n' + 1)"
proof -
  have inv: "nt_inv (nsys y) (nfuts y)" by (rule notify_reach_inv [OF assms])
  have pending: "\<not> nt_permit n' \<and> nt_tokens n' = nt_tokens (nsys y)"
    if "poll_notified (nsys y) (fut_at a g) w = (n', Pending)" for a g w n'
    using that by (auto simp: poll_notified_def Let_def nt_tokens_def split: if_splits option.splits)
  show ?thesis
    using tokens_locked [OF inv] tokens_waiters [OF inv] tokens_poll [OF inv, of "fut_at _ _"]
      tokens_drop [OF inv, of "fut_at _ _"] pending
    by (intro conjI allI impI) (auto simp: notify_def split: prod.splits)
qed

text \<open>C8: a notification goes to a waiting task whenever there is one, and none is lost or duplicated. In every run, a permit is stored only while
  nobody is queued, and all queued futures are alive and waiting; so \<open>notify_one\<close> takes the task that has waited longest, \<open>notify_last\<close> the
  one that has waited shortest, wakes exactly this task, and its future is ready at the next poll. A call of \<open>notify_one\<close> adds exactly one
  token, except that it coalesces with a permit already stored; a poll that completes because of a token takes exactly one; \<open>notify_waiters\<close>
  leaves the tokens alone; and a future dropped with an unconsumed token passes it on, to the next task or to the stored permit.\<close>

theorem notify_reaches_waiter:
  assumes "notify_reach y"
  shows "((nt_permit (nsys y) \<longrightarrow> nt_waiters (nsys y) = []) \<and>
    (\<forall>e es. nt_waiters (nsys y) = e # es \<longrightarrow> (\<exists>n'. notify_one (nsys y) = (n', [nw_waker e]) \<and>
       nt_waiters n' = es \<and>
       (\<exists>g. nfuts y (nw_notified e) = Some g \<and> (\<forall>w. snd (notified_poll n' (fut_at (nw_notified e) g) w) = Ready ())))) \<and>
    (\<forall>e es. nt_waiters (nsys y) = es @ [e] \<longrightarrow> (\<exists>n'. notify_last (nsys y) = (n', [nw_waker e]) \<and>
       nt_waiters n' = es \<and>
       (\<exists>g. nfuts y (nw_notified e) = Some g \<and> (\<forall>w. snd (notified_poll n' (fut_at (nw_notified e) g) w) = Ready ()))))) \<and>
    (\<forall>b n' ws. notify (nsys y) b = (n', ws) \<longrightarrow>
       nt_tokens n' = nt_tokens (nsys y) + 1 \<or> nt_permit (nsys y) \<and> nt_waiters (nsys y) = [] \<and> n' = nsys y) \<and>
    (\<forall>n' ws. notify_waiters (nsys y) = (n', ws) \<longrightarrow> nt_tokens n' = nt_tokens (nsys y)) \<and>
    (\<forall>a g w n' r. nfuts y a = Some g \<longrightarrow> poll_notified (nsys y) (fut_at a g) w = (n', r) \<longrightarrow>
       (r = Pending \<longrightarrow> \<not> nt_permit n' \<and> nt_tokens n' = nt_tokens (nsys y)) \<and>
       nt_tokens (nsys y) = nt_tokens n' +
         (if nt_cells (nsys y) a = Some ONE \<or>
             nt_cells (nsys y) a = Some WAITING \<and> g = nt_generation (nsys y) \<and> nt_permit (nsys y)
          then 1 else 0)) \<and>
    (\<forall>a g n' ws. nfuts y a = Some g \<longrightarrow> notified_drop (nsys y) (fut_at a g) = (n', ws) \<longrightarrow>
       nt_tokens n' = nt_tokens (nsys y) \<or>
       nt_permit (nsys y) \<and> nt_cells (nsys y) a = Some ONE \<and> nt_tokens (nsys y) = nt_tokens n' + 1)"
  using notify_takes_waiter [OF assms] notify_tokens [OF assms] by (rule conjI)

text \<open>C9: \<open>notify_waiters\<close> completes every future that exists when it is called, polled before or
  not: all registered wakers are woken, and the next poll of each future is ready. (The generation
  counter is a \<open>u64\<close>, so this holds for the first \<open>2^64 - 2\<close> calls.)\<close>

theorem notify_waiters_completes_all:
  assumes "notify_reach y" "Suc (nalls y) < 2 ^ 64" "notify_waiters (nsys y) = (n', ws)"
    and "nfuts y a = Some g"
  shows "ws = map nw_waker (nt_waiters (nsys y)) \<and> snd (notified_poll n' (fut_at a g) w) = Ready ()"
proof -
  have inv: "nt_inv (nsys y) (nfuts y)" by (rule notify_reach_inv [OF assms(1)])
  obtain j where j: "j \<le> nalls y" "g = of_nat j" and gen: "nt_generation (nsys y) = of_nat (nalls y)"
    using gens_reach [OF assms(1)] assms(4) by (auto simp: gens_ok_def)
  have "g \<noteq> nt_generation n'"
    using gen_fresh [OF j(1) assms(2)] notify_waiters_live [OF inv assms(3)] j(2) gen by simp
  then show ?thesis
    using notify_waiters_live [OF inv assms(3)] by (simp add: notified_poll_def poll_notified_def Let_def)
qed

section \<open>A concrete run\<close>

text \<open>One future is created and polled once.\<close>

definition notify_demo :: notify_sys where
  "notify_demo = \<lparr>nsys = \<lparr>nt_permit = False, nt_generation = 0,
       nt_waiters = [\<lparr>nw_notified = 4, nw_waker = 7\<rparr>], nt_cells = Map.empty(4 \<mapsto> WAITING)\<rparr>,
     nfuts = Map.empty(4 \<mapsto> 0), nalls = 0\<rparr>"

lemma notify_demo_reach: "notify_reach notify_demo"
proof -
  let ?y0 = "\<lparr>nsys = notify_const_new, nfuts = Map.empty, nalls = 0\<rparr>"
  let ?y1 = "?y0\<lparr>nsys := nt_store notify_const_new 4 WAITING, nfuts := (nfuts ?y0)(4 \<mapsto> 0)\<rparr>"
  have "notify_step ?y0 ?y1"
    using notify_step.new [of ?y0 4 "nt_store notify_const_new 4 WAITING" "fut_at 4 0"]
    by (simp add: future_state_new_def fut_at_def notify_const_new_def)
  then have "notify_reach ?y1" by (rule notify_reach.step [OF notify_reach.start])
  moreover have "notify_step ?y1 notify_demo"
    using notify_step.poll [of ?y1 4 0 7 "nsys notify_demo" Pending]
    by (simp add: notify_demo_def notified_poll_def poll_notified_def notify_const_new_def nt_store_def)
  ultimately show ?thesis by (rule notify_reach.step)
qed

theorem notify_reaches_waiter_witness:
  "snd (notify_one (nsys notify_demo)) = [7] \<and> nt_tokens (fst (notify_one (nsys notify_demo))) = nt_tokens (nsys notify_demo) + 1"
proof
  show "snd (notify_one (nsys notify_demo)) = [7]" using notify_reaches_waiter [OF notify_demo_reach] by (force simp: notify_demo_def)
  obtain n' ws where n': "notify (nsys notify_demo) False = (n', ws)" by fastforce
  with notify_reaches_waiter [OF notify_demo_reach] have
    "nt_tokens n' = nt_tokens (nsys notify_demo) + 1 \<or> nt_waiters (nsys notify_demo) = []" by blast
  with n' show "nt_tokens (fst (notify_one (nsys notify_demo))) = nt_tokens (nsys notify_demo) + 1"
    by (simp add: notify_one_def) (simp add: notify_demo_def)
qed

theorem notify_waiters_completes_all_witness:
  "snd (notified_poll (fst (notify_waiters (nsys notify_demo))) (fut_at 4 0) 7) = Ready ()"
  using notify_waiters_completes_all [OF notify_demo_reach, of "fst (notify_waiters (nsys notify_demo))"
      "snd (notify_waiters (nsys notify_demo))" 4 0 7]
  by (simp add: notify_demo_def)

end
