(* ===== verification/Barrier.thy ===== *)
theory Barrier
  imports Ffrt_Prelude
begin

text \<open>
  The reusable barrier of \<open>sync/barrier.rs\<close>: the state under its mutex, the future returned by
  \<open>wait\<close>, and runs of any number of tasks. Rounds are shown to consist of exactly \<open>threshold\<close>
  arrivals with one leader, and waiting tasks to be released together.
\<close>

section \<open>State and operations\<close>

record barrier_state =
  br_generation :: u64
  br_arrived :: nat
  br_waiters :: "waker list"

record barrier =
  bar_state :: barrier_state
  bar_threshold :: nat

record barrier_future =
  bf_generation :: u64
  bf_registered :: bool
  bf_leader :: bool

datatype barrier_wait_result = BarrierWaitResult (is_leader: bool)

definition barrier_new :: "nat \<Rightarrow> barrier" where
  "barrier_new n = \<lparr>bar_state = \<lparr>br_generation = 0, br_arrived = 0, br_waiters = []\<rparr>,
     bar_threshold = (if n = 0 then 1 else n)\<rparr>"

definition barrier_wait :: barrier_future where
  "barrier_wait = \<lparr>bf_generation = - 1, bf_registered = False, bf_leader = False\<rparr>"

definition barrier_poll ::
  "barrier \<Rightarrow> barrier_future \<Rightarrow> waker \<Rightarrow>
   barrier \<times> barrier_future \<times> barrier_wait_result poll \<times> waker list" where
  "barrier_poll b f cx =
     (let s = bar_state b in
      if \<not> bf_registered f then
        (let f = f\<lparr>bf_registered := True, bf_generation := br_generation s\<rparr>;
             s = s\<lparr>br_arrived := br_arrived s + 1\<rparr> in
         if br_arrived s = bar_threshold b then
           (b\<lparr>bar_state := \<lparr>br_generation = br_generation s + 1, br_arrived = 0, br_waiters = []\<rparr>\<rparr>,
            f\<lparr>bf_leader := True\<rparr>, Ready (BarrierWaitResult True), br_waiters s)
         else
           (b\<lparr>bar_state := s\<lparr>br_waiters := br_waiters s @ [cx]\<rparr>\<rparr>, f, Pending, []))
      else if br_generation s \<noteq> bf_generation f then
        (b, f, Ready (BarrierWaitResult (bf_leader f)), [])
      else
        (b\<lparr>bar_state := s\<lparr>br_waiters := br_waiters s @ [cx]\<rparr>\<rparr>, f, Pending, []))"

section \<open>Clients\<close>

text \<open>
  A system: the barrier, the live futures with the round in which they arrived and the waker of
  their last poll, and the numbers of arrivals and of completed rounds so far.
\<close>

record barrier_sys =
  bsys :: barrier
  bfuts :: "nat \<rightharpoonup> barrier_future \<times> nat \<times> waker"
  arrivals :: nat
  rounds :: nat

inductive barrier_step :: "barrier_sys \<Rightarrow> barrier_sys \<Rightarrow> bool" where
  new: "bfuts y i = None \<Longrightarrow> barrier_step y (y\<lparr>bfuts := (bfuts y)(i \<mapsto> (barrier_wait, 0, 0))\<rparr>)"
| arrive: "bfuts y i = Some (f, k, v) \<Longrightarrow> \<not> bf_registered f \<Longrightarrow>
     barrier_poll (bsys y) f w = (b', f', Pending, ws) \<Longrightarrow>
     barrier_step y (y\<lparr>bsys := b', bfuts := (bfuts y)(i \<mapsto> (f', rounds y, w)), arrivals := Suc (arrivals y)\<rparr>)"
| complete: "bfuts y i = Some (f, k, v) \<Longrightarrow> \<not> bf_registered f \<Longrightarrow>
     barrier_poll (bsys y) f w = (b', f', Ready r, ws) \<Longrightarrow>
     barrier_step y (y\<lparr>bsys := b', bfuts := (bfuts y)(i := None), arrivals := Suc (arrivals y),
       rounds := Suc (rounds y)\<rparr>)"
| again: "bfuts y i = Some (f, k, v) \<Longrightarrow> bf_registered f \<Longrightarrow>
     barrier_poll (bsys y) f w = (b', f', Pending, ws) \<Longrightarrow>
     barrier_step y (y\<lparr>bsys := b', bfuts := (bfuts y)(i \<mapsto> (f', k, w))\<rparr>)"
| leave: "bfuts y i = Some (f, k, v) \<Longrightarrow> bf_registered f \<Longrightarrow>
     barrier_poll (bsys y) f w = (b', f', Ready r, ws) \<Longrightarrow>
     barrier_step y (y\<lparr>bsys := b', bfuts := (bfuts y)(i := None)\<rparr>)"
| drop: "bfuts y i = Some (f, k, v) \<Longrightarrow> barrier_step y (y\<lparr>bfuts := (bfuts y)(i := None)\<rparr>)"

inductive barrier_reach :: "nat \<Rightarrow> barrier_sys \<Rightarrow> bool" for n where
  start: "barrier_reach n \<lparr>bsys = barrier_new n, bfuts = Map.empty, arrivals = 0, rounds = 0\<rparr>"
| step: "barrier_reach n y \<Longrightarrow> barrier_step y z \<Longrightarrow> barrier_reach n z"

definition barrier_inv :: "nat \<Rightarrow> barrier_sys \<Rightarrow> bool" where
  "barrier_inv n y \<longleftrightarrow>
     (let b = bsys y; s = bar_state b in
      bar_threshold b = max 1 n \<and> br_arrived s < bar_threshold b \<and>
      br_generation s = of_nat (rounds y) \<and>
      arrivals y = rounds y * bar_threshold b + br_arrived s \<and>
      (\<forall>i f k v. bfuts y i = Some (f, k, v) \<longrightarrow> \<not> bf_leader f \<and>
         (bf_registered f \<longrightarrow> k \<le> rounds y \<and> bf_generation f = of_nat k \<and>
            (k = rounds y \<longrightarrow> v \<in> set (br_waiters s)))))"

lemma barrier_step_inv:
  assumes "barrier_step y z" "barrier_inv n y"
  shows "barrier_inv n z"
  using assms
proof (induction rule: barrier_step.induct)
  case (complete y i f k v w b' f' r ws)
  then have "br_arrived (bar_state (bsys y)) + 1 = bar_threshold (bsys y)"
    by (auto simp: barrier_poll_def Let_def split: if_splits)
  with complete show ?case
    by (auto simp: barrier_inv_def barrier_poll_def Let_def split: if_splits)
      (meson le_SucI Suc_n_not_le_n)+
next
  case (arrive y i f k v w b' f' ws)
  then show ?case
    by (auto simp: barrier_inv_def barrier_poll_def Let_def split: if_splits)
qed (auto simp: barrier_inv_def barrier_poll_def barrier_wait_def Let_def split: if_splits)

lemma barrier_reach_inv: "barrier_reach n y \<Longrightarrow> barrier_inv n y"
proof (induction rule: barrier_reach.induct)
  case start
  then show ?case by (simp add: barrier_inv_def barrier_new_def Let_def)
next
  case (step y z)
  then show ?case using barrier_step_inv by blast
qed

section \<open>Properties\<close>

text \<open>C10: the barrier works in rounds of exactly \<open>threshold\<close> arrivals. In every run, the arrivals so
  far are those of the completed rounds and those of the current one, which are fewer than the
  threshold; a task that arrives becomes leader and completes the round if and only if it is the last
  of its round, and then every task waiting in this round is woken; and a waiting task is let through
  if and only if its round has been completed (for the first \<open>2^64 - 1\<close> rounds), never as leader.\<close>

theorem barrier_rendezvous:
  assumes "barrier_reach n y" "rounds y < 2 ^ 64" "bfuts y i = Some (f, k, v)"
    and "barrier_poll (bsys y) f w = (b', f', r, ws)"
  shows "arrivals y = rounds y * max 1 n + br_arrived (bar_state (bsys y)) \<and>
    br_arrived (bar_state (bsys y)) < max 1 n \<and>
    (\<not> bf_registered f \<longrightarrow>
       (r = (if Suc (arrivals y) = Suc (rounds y) * max 1 n then Ready (BarrierWaitResult True) else Pending) \<and>
        (r \<noteq> Pending \<longrightarrow> (\<forall>j g u. bfuts y j = Some (g, rounds y, u) \<and> bf_registered g \<longrightarrow> u \<in> set ws)))) \<and>
    (bf_registered f \<longrightarrow> r = (if k < rounds y then Ready (BarrierWaitResult False) else Pending))"
proof -
  have inv: "barrier_inv n y" by (rule barrier_reach_inv [OF assms(1)])
  have gen: "(of_nat k :: u64) \<noteq> of_nat (rounds y)" if "k < rounds y"
  proof
    assume "(of_nat k :: u64) = of_nat (rounds y)"
    then have "unat (of_nat k :: u64) = unat (of_nat (rounds y) :: u64)" by simp
    then show False using that assms(2) by (simp add: unat_of_nat_u64)
  qed
  have k: "bf_registered f \<longrightarrow> k < rounds y \<or> k = rounds y"
    using inv assms(3) by (auto simp: barrier_inv_def Let_def le_less)
  show ?thesis
    using inv assms(3,4) gen k
    by (auto simp: barrier_inv_def barrier_poll_def Let_def split: if_splits)
qed

section \<open>A concrete run\<close>

text \<open>A barrier for two tasks: one task has arrived and waits, a second one is about to arrive.\<close>

definition barrier_demo :: barrier_sys where
  "barrier_demo = \<lparr>bsys = \<lparr>bar_state = \<lparr>br_generation = 0, br_arrived = 1, br_waiters = [7]\<rparr>, bar_threshold = 2\<rparr>,
     bfuts = (Map.empty(0 \<mapsto> (barrier_wait, 0, 0)))(1 \<mapsto> (barrier_wait, 0, 0),
       0 \<mapsto> (\<lparr>bf_generation = 0, bf_registered = True, bf_leader = False\<rparr>, 0, 7)),
     arrivals = 1, rounds = 0\<rparr>"

lemma barrier_demo_reach: "barrier_reach 2 barrier_demo"
proof -
  let ?y0 = "\<lparr>bsys = barrier_new 2, bfuts = Map.empty, arrivals = 0, rounds = 0\<rparr>"
  let ?y1 = "?y0\<lparr>bfuts := (bfuts ?y0)(0 \<mapsto> (barrier_wait, 0, 0))\<rparr>"
  let ?y2 = "?y1\<lparr>bfuts := (bfuts ?y1)(1 \<mapsto> (barrier_wait, 0, 0))\<rparr>"
  have "barrier_reach 2 ?y1"
    by (rule barrier_reach.step [OF barrier_reach.start barrier_step.new]) simp
  then have "barrier_reach 2 ?y2"
    by (rule barrier_reach.step [OF _ barrier_step.new]) simp
  moreover have "barrier_step ?y2 barrier_demo"
    using barrier_step.arrive [of ?y2 0 barrier_wait 0 0 7 "bsys barrier_demo"
        "\<lparr>bf_generation = 0, bf_registered = True, bf_leader = False\<rparr>" "[]"]
    by (simp add: barrier_demo_def barrier_poll_def barrier_wait_def barrier_new_def)
  ultimately show ?thesis by (rule barrier_reach.step)
qed

theorem barrier_rendezvous_witness:
  "fst (snd (snd (barrier_poll (bsys barrier_demo) barrier_wait 8))) = Ready (BarrierWaitResult True)"
proof -
  obtain b' f' r ws where p: "barrier_poll (bsys barrier_demo) barrier_wait 8 = (b', f', r, ws)"
    by (metis prod_cases4)
  have "bfuts barrier_demo 1 = Some (barrier_wait, 0, 0)" "rounds barrier_demo < 2 ^ 64"
    by (simp_all add: barrier_demo_def)
  from barrier_rendezvous [OF barrier_demo_reach this(2,1) p] p show ?thesis
    by (simp add: barrier_demo_def barrier_wait_def)
qed

end
