(* ===== verification/Once.thy ===== *)
theory Once
  imports Ffrt_Prelude
begin

text \<open>
  The cells that are written once: \<open>OnceCell\<close> of \<open>sync/once_cell.rs\<close> and \<open>SetOnce\<close> of
  \<open>sync/set_once.rs\<close>. Both mix atomics and a lock, so their operations are modelled in as many
  steps as they have synchronisation points, and tasks are interleaved between them. A value is
  shown to be written at most once and never to change afterwards, initialisers to exclude one
  another, and no waiting task to be left behind.
\<close>

section \<open>OnceCell\<close>

record 'a once_cell =
  oc_initializing :: bool
  oc_waiters :: "waker list"
  oc_initialized :: bool
  oc_value :: "'a option"

datatype 'a set_error = AlreadyInitializedError 'a | InitializingError 'a

definition once_cell_new :: "'a once_cell" where
  "once_cell_new = \<lparr>oc_initializing = False, oc_waiters = [], oc_initialized = False, oc_value = None\<rparr>"

definition once_cell_new_with :: "'a option \<Rightarrow> 'a once_cell" where
  "once_cell_new_with value =
     \<lparr>oc_initializing = False, oc_waiters = [], oc_initialized = (value \<noteq> None), oc_value = value\<rparr>"

definition oc_get :: "'a once_cell \<Rightarrow> 'a option" where
  "oc_get c = (if \<not> oc_initialized c then None else oc_value c)"

definition wake_all :: "'a once_cell \<Rightarrow> 'a once_cell \<times> waker list" where
  "wake_all c = (c\<lparr>oc_waiters := []\<rparr>, oc_waiters c)"

definition oc_set :: "'a once_cell \<Rightarrow> 'a \<Rightarrow> 'a once_cell \<times> ('a set_error + unit) \<times> waker list" where
  "oc_set c value =
     (if oc_initialized c then (c, Inl (AlreadyInitializedError value), [])
      else if oc_initializing c then (c, Inl (InitializingError value), [])
      else (case wake_all (c\<lparr>oc_value := Some value, oc_initialized := True\<rparr>) of
              (c', ws) \<Rightarrow> (c', Inr (), ws)))"

text \<open>
  A poll of \<open>acquire_initializer\<close>. Its unlocked test is repeated under the lock, and gives the
  same result there as a poll that finds the cell initialised, so the locked part is the step.
\<close>

definition acquire_initializer :: "'a once_cell \<Rightarrow> waker \<Rightarrow> 'a once_cell \<times> unit poll" where
  "acquire_initializer c cx =
     (if oc_initialized c then (c, Ready ())
      else if \<not> oc_initializing c then (c\<lparr>oc_initializing := True\<rparr>, Ready ())
      else (case position (\<lambda>waiter. will_wake waiter cx) (oc_waiters c) of
        Some p \<Rightarrow> (c\<lparr>oc_waiters := (oc_waiters c)[p := cx]\<rparr>, Pending)
      | None \<Rightarrow> (c\<lparr>oc_waiters := oc_waiters c @ [cx]\<rparr>, Pending)))"

text \<open>\<open>InitializerGuard::complete\<close>: first the value and the flag, then, under the lock, the rest.\<close>

definition complete_store :: "'a once_cell \<Rightarrow> 'a \<Rightarrow> 'a once_cell" where
  "complete_store c value = c\<lparr>oc_value := Some value, oc_initialized := True\<rparr>"

definition complete_release :: "'a once_cell \<Rightarrow> 'a once_cell \<times> waker list" where
  "complete_release c = wake_all (c\<lparr>oc_initializing := False\<rparr>)"

text \<open>Dropping a guard that is still active, because the initialiser failed or was cancelled.\<close>

definition initializer_guard_drop :: "'a once_cell \<Rightarrow> bool \<Rightarrow> 'a once_cell \<times> waker list" where
  "initializer_guard_drop c active =
     (if \<not> active then (c, []) else wake_all (c\<lparr>oc_initializing := False\<rparr>))"

definition oc_take :: "'a once_cell \<Rightarrow> 'a once_cell \<times> 'a option" where
  "oc_take c = (c\<lparr>oc_initialized := False, oc_value := None\<rparr>, oc_value c)"

text \<open>
  \<open>get_or_init\<close> and \<open>get_or_try_init\<close> as state machines: before the initialiser is acquired,
  running it under a guard, and between the two steps of \<open>complete\<close>.
\<close>

datatype phase = Acquiring | Running | Storing

datatype 'a outcome = Continue phase | Done "'a option"

definition get_or_init_poll :: "'a once_cell \<Rightarrow> waker \<Rightarrow> 'a once_cell \<times> 'a outcome" where
  "get_or_init_poll c cx = (case oc_get c of
     Some value \<Rightarrow> (c, Done (Some value))
   | None \<Rightarrow> (case acquire_initializer c cx of
       (c', Pending) \<Rightarrow> (c', Continue Acquiring)
     | (c', Ready _) \<Rightarrow> (case oc_get c' of
         Some value \<Rightarrow> (c', Done (Some value))
       | None \<Rightarrow> (c', Continue Running))))"

text \<open>
  The calls that are under way, the waiting ones that were told to wait and have not been woken since with the
  waker of their last poll, what the completed calls returned, and the values handed to the cell by an
  initialiser or an accepted \<open>set\<close>.
\<close>

record 'a once_sys =
  ocell :: "'a once_cell"
  otasks :: "nat \<rightharpoonup> phase"
  oparked :: "nat \<rightharpoonup> waker"
  oresults :: "nat \<rightharpoonup> 'a option"
  owritten :: "'a list"

definition once_start :: "'a once_cell \<Rightarrow> 'a option \<Rightarrow> 'a once_sys" where
  "once_start c value = \<lparr>ocell = c, otasks = Map.empty, oparked = Map.empty, oresults = Map.empty, owritten = olist value\<rparr>"

inductive once_step :: "'a once_sys \<Rightarrow> 'a once_sys \<Rightarrow> bool" where
  call: "otasks y t = None \<Longrightarrow> once_step y (y\<lparr>otasks := (otasks y)(t \<mapsto> Acquiring)\<rparr>)"
| wait: "otasks y t = Some Acquiring \<Longrightarrow> get_or_init_poll (ocell y) w = (c', Continue Acquiring) \<Longrightarrow>
     once_step y (y\<lparr>ocell := c', oparked := (oparked y)(t \<mapsto> w)\<rparr>)"
| run: "otasks y t = Some Acquiring \<Longrightarrow> get_or_init_poll (ocell y) w = (c', Continue Running) \<Longrightarrow>
     once_step y (y\<lparr>ocell := c', otasks := (otasks y)(t \<mapsto> Running), oparked := (oparked y)(t := None)\<rparr>)"
| found: "otasks y t = Some Acquiring \<Longrightarrow> get_or_init_poll (ocell y) w = (c', Done v) \<Longrightarrow>
     once_step y (y\<lparr>ocell := c', otasks := (otasks y)(t := None), oparked := (oparked y)(t := None), oresults := (oresults y)(t \<mapsto> v)\<rparr>)"
| store: "otasks y t = Some Running \<Longrightarrow>
     once_step y (y\<lparr>ocell := complete_store (ocell y) v, otasks := (otasks y)(t \<mapsto> Storing), owritten := owritten y @ [v]\<rparr>)"
| release: "otasks y t = Some Storing \<Longrightarrow> complete_release (ocell y) = (c', ws) \<Longrightarrow>
     once_step y (y\<lparr>ocell := c', otasks := (otasks y)(t := None), oparked := unpark (oparked y) ws, oresults := (oresults y)(t \<mapsto> oc_get c')\<rparr>)"
| fail: "otasks y t = Some Running \<Longrightarrow> initializer_guard_drop (ocell y) True = (c', ws) \<Longrightarrow>
     once_step y (y\<lparr>ocell := c', otasks := (otasks y)(t := None), oparked := unpark (oparked y) ws\<rparr>)"
| cancelled: "otasks y t = Some Acquiring \<Longrightarrow> once_step y (y\<lparr>otasks := (otasks y)(t := None), oparked := (oparked y)(t := None)\<rparr>)"
| set: "oc_set (ocell y) v = (c', r, ws) \<Longrightarrow>
     once_step y (y\<lparr>ocell := c', oparked := unpark (oparked y) ws, owritten := owritten y @ (case r of Inl _ \<Rightarrow> [] | Inr _ \<Rightarrow> [v])\<rparr>)"

inductive once_reach :: "'a once_sys \<Rightarrow> bool" where
  start: "once_reach (once_start once_cell_new None)"
| start_with: "once_reach (once_start (once_cell_new_with value) value)"
| step: "once_reach y \<Longrightarrow> once_step y z \<Longrightarrow> once_reach z"

definition busy :: "phase option set" where
  "busy = {Some Running, Some Storing}"

lemma busy_simps [simp]:
  "Some Running \<in> busy" "Some Storing \<in> busy" "Some Acquiring \<notin> busy" "None \<notin> busy"
  by (simp_all add: busy_def)

lemma busy_upd [simp]: "m t \<notin> busy \<Longrightarrow> p \<notin> busy \<Longrightarrow> (m(t := p)) s \<in> busy \<longleftrightarrow> m s \<in> busy"
  by auto

definition once_inv :: "'a once_sys \<Rightarrow> bool" where
  "once_inv y \<longleftrightarrow>
     (let c = ocell y in
      (oc_initialized c \<longleftrightarrow> oc_value c \<noteq> None) \<and>
      (oc_initializing c \<longleftrightarrow> (\<exists>t. otasks y t \<in> busy)) \<and>
      (\<forall>t t'. otasks y t \<in> busy \<longrightarrow> otasks y t' \<in> busy \<longrightarrow> t = t') \<and>
      (\<forall>t. otasks y t = Some Running \<longrightarrow> \<not> oc_initialized c) \<and>
      (\<forall>t. otasks y t = Some Storing \<longrightarrow> oc_initialized c) \<and>
      (oc_waiters c \<noteq> [] \<longrightarrow> oc_initializing c) \<and>
      (\<forall>t v. oresults y t = Some v \<longrightarrow> oc_initialized c \<and> v = oc_value c))"

text \<open>A parked call is registered, and what was handed to the cell is what it holds.\<close>

definition once_ghosts :: "'a once_sys \<Rightarrow> bool" where
  "once_ghosts y \<longleftrightarrow> (\<forall>t w. oparked y t = Some w \<longrightarrow> w \<in> set (oc_waiters (ocell y))) \<and> owritten y = olist (oc_value (ocell y))"

lemma refresh_waker:
  "position (\<lambda>v. will_wake v w) ws = Some p \<Longrightarrow> ws[p := w] = ws \<and> w \<in> set ws"
  by (auto simp: will_wake_def dest!: position_SomeD)

lemma get_or_init_poll_cases:
  assumes "oc_initialized c \<longleftrightarrow> oc_value c \<noteq> None" "get_or_init_poll c w = (c', r)"
  shows "oc_initialized c \<and> c' = c \<and> r = Done (oc_value c) \<or>
    \<not> oc_initialized c \<and> \<not> oc_initializing c \<and> c' = c\<lparr>oc_initializing := True\<rparr> \<and> r = Continue Running \<or>
    \<not> oc_initialized c \<and> oc_initializing c \<and> (\<exists>ws. c' = c\<lparr>oc_waiters := ws\<rparr> \<and> set ws = insert w (set (oc_waiters c))) \<and> r = Continue Acquiring"
proof (cases "oc_initialized c \<or> \<not> oc_initializing c")
  case True
  with assms show ?thesis
    by (auto simp: get_or_init_poll_def oc_get_def acquire_initializer_def split: option.splits)
next
  case False
  with assms have "c' = c\<lparr>oc_waiters := oc_waiters c'\<rparr> \<and> set (oc_waiters c') = insert w (set (oc_waiters c)) \<and> r = Continue Acquiring"
    by (auto simp: get_or_init_poll_def oc_get_def acquire_initializer_def insert_absorb dest: refresh_waker split: option.splits)
  with False show ?thesis by blast
qed

lemma once_invD:
  assumes "once_inv y"
  shows "oc_initialized (ocell y) \<longleftrightarrow> oc_value (ocell y) \<noteq> None"
    and "oc_initializing (ocell y) \<longleftrightarrow> (\<exists>t. otasks y t \<in> busy)"
    and "otasks y t \<in> busy \<Longrightarrow> otasks y t' \<in> busy \<Longrightarrow> t = t'"
    and "otasks y t = Some Running \<Longrightarrow> \<not> oc_initialized (ocell y)"
    and "otasks y t = Some Storing \<Longrightarrow> oc_initialized (ocell y)"
    and "oc_waiters (ocell y) \<noteq> [] \<Longrightarrow> oc_initializing (ocell y)"
    and "oresults y t = Some v \<Longrightarrow> oc_initialized (ocell y) \<and> v = oc_value (ocell y)"
  using assms unfolding once_inv_def Let_def by blast+

lemma once_inv_idle:
  assumes "once_inv y" "otasks y t \<notin> busy" "p \<notin> busy"
  shows "once_inv (y\<lparr>otasks := (otasks y)(t := p), oparked := q\<rparr>)"
proof -
  define m where "m = (otasks y)(t := p)"
  have "m s \<in> busy \<longleftrightarrow> otasks y s \<in> busy" "m s = Some Running \<longleftrightarrow> otasks y s = Some Running"
    "m s = Some Storing \<longleftrightarrow> otasks y s = Some Storing" for s
    using assms(2,3) by (auto simp: m_def)
  with assms(1) show ?thesis unfolding m_def [symmetric] by (simp add: once_inv_def)
qed

lemma once_inv_result:
  "once_inv y \<Longrightarrow> oc_initialized (ocell y) \<Longrightarrow> once_inv (y\<lparr>oresults := (oresults y)(t \<mapsto> oc_value (ocell y))\<rparr>)"
  by (auto simp: once_inv_def Let_def)

lemma once_inv_step:
  assumes "once_step y z" "once_inv y"
  shows "once_inv z"
  using assms
proof (induction rule: once_step.induct)
  case (wait y t w c')
  from get_or_init_poll_cases [OF once_invD(1) [OF wait(3)] wait(2)] wait(1,3) show ?case
    by (elim disjE conjE exE) (auto simp: once_inv_def Let_def)
next
  case (run y t w c')
  from get_or_init_poll_cases [OF once_invD(1) [OF run(3)] run(2)] run(1,3) show ?case
    by (elim disjE conjE exE) (auto simp: once_inv_def Let_def)
next
  case (found y t w c' v)
  from get_or_init_poll_cases [OF once_invD(1) [OF found(3)] found(2)]
  have "oc_initialized (ocell y)" "c' = ocell y" "v = oc_value (ocell y)"
    by auto
  with once_inv_result [OF once_inv_idle [OF found(3), of t None], of _ t] found(1) show ?case by simp
next
  case (set y v c' r ws)
  then show ?case
    by (auto simp: once_inv_def Let_def oc_set_def wake_all_def split: if_splits) (metis busy_simps(1))
next
  case (call y t)
  then show ?case using once_inv_idle [of y t "Some Acquiring" "oparked y"] by simp
next
  case (cancelled y t)
  then show ?case by (simp add: once_inv_idle)
next
  case (store y t v)
  then have "otasks y t \<in> busy" by simp
  then have "\<forall>s. otasks y s \<in> busy \<longleftrightarrow> s = t" "oc_initializing (ocell y)"
    using once_invD(2,3) [OF store(2)] by blast+
  with store show ?case by (auto simp: once_inv_def Let_def complete_store_def)
next
  case (release y t c' ws)
  then have "otasks y t \<in> busy" by simp
  then have "\<forall>s. otasks y s \<in> busy \<longleftrightarrow> s = t"
    using once_invD(2,3) [OF release(3)] by blast+
  with release show ?case
    by (auto simp: once_inv_def Let_def complete_release_def wake_all_def oc_get_def)
next
  case (fail y t c' ws)
  then have "otasks y t \<in> busy" by simp
  then have "\<forall>s. otasks y s \<in> busy \<longleftrightarrow> s = t"
    using once_invD(2,3) [OF fail(3)] by blast+
  with fail show ?case
    by (auto simp: once_inv_def Let_def initializer_guard_drop_def wake_all_def)
qed

lemma once_ghosts_step:
  assumes "once_step y z" "once_inv y" "once_ghosts y"
  shows "once_ghosts z"
  using assms
proof (induction rule: once_step.induct)
  case (wait y t w c')
  from get_or_init_poll_cases [OF once_invD(1) [OF wait(3)] wait(2)] wait(4) show ?case
    by (elim disjE conjE exE) (auto simp: once_ghosts_def)
next
  case (run y t w c')
  from get_or_init_poll_cases [OF once_invD(1) [OF run(3)] run(2)] run(4) show ?case
    by (elim disjE conjE exE) (auto simp: once_ghosts_def)
next
  case (found y t w c' v)
  from get_or_init_poll_cases [OF once_invD(1) [OF found(3)] found(2)] found(4) show ?case
    by (elim disjE conjE exE) (auto simp: once_ghosts_def)
next
  case (store y t v)
  then have "oc_value (ocell y) = None" using once_invD(1,4) [OF store(2)] by blast
  with store(3) show ?case by (simp add: once_ghosts_def complete_store_def)
next
  case (set y v c' r ws)
  then show ?case using once_invD(1) [OF set(2)]
    by (auto simp: once_ghosts_def oc_set_def wake_all_def unpark_Some split: if_splits)
qed (auto simp: once_ghosts_def complete_release_def initializer_guard_drop_def wake_all_def unpark_Some)

lemma once_reach_inv: "once_reach y \<Longrightarrow> once_inv y \<and> once_ghosts y"
proof (induction rule: once_reach.induct)
  case (step y z)
  then show ?case using once_inv_step once_ghosts_step by blast
qed (simp_all add: once_inv_def once_ghosts_def once_start_def once_cell_new_def once_cell_new_with_def)

lemma oc_get_stable:
  assumes "once_step y z" "once_inv y" "oc_get (ocell y) = Some v"
  shows "oc_get (ocell z) = Some v"
  using assms
proof (induction rule: once_step.induct)
  case (store y t v')
  then show ?case by (auto simp: once_inv_def Let_def oc_get_def split: if_splits)
qed (auto simp: get_or_init_poll_def oc_get_def complete_release_def initializer_guard_drop_def wake_all_def oc_set_def
    split: if_splits)

section \<open>SetOnce\<close>

definition EMPTY :: nat where "EMPTY = 0"
definition WRITING :: nat where "WRITING = 1"
definition READY :: nat where "READY = 2"

record 'a set_once =
  so_value :: "'a option"
  so_state :: nat
  so_waiters :: "waker list"

definition set_once_new :: "'a set_once" where
  "set_once_new = \<lparr>so_value = None, so_state = EMPTY, so_waiters = []\<rparr>"

definition set_once_new_with :: "'a option \<Rightarrow> 'a set_once" where
  "set_once_new_with value = (case value of
     Some v \<Rightarrow> \<lparr>so_value = Some v, so_state = READY, so_waiters = []\<rparr>
   | None \<Rightarrow> set_once_new)"

text \<open>\<open>get\<close> reads the \<open>MaybeUninit\<close> slot only in the state \<open>READY\<close>.\<close>

definition so_get :: "'a set_once \<Rightarrow> 'a option" where
  "so_get c = (if so_state c = READY then so_value c else None)"

text \<open>The four synchronisation points of \<open>set\<close>.\<close>

definition set_claim :: "'a set_once \<Rightarrow> 'a \<Rightarrow> 'a set_once \<times> ('a + unit)" where
  "set_claim c value =
     (if so_state c = EMPTY then (c\<lparr>so_state := WRITING\<rparr>, Inr ()) else (c, Inl value))"

definition set_write :: "'a set_once \<Rightarrow> 'a \<Rightarrow> 'a set_once" where
  "set_write c value = c\<lparr>so_value := Some value\<rparr>"

definition set_publish :: "'a set_once \<Rightarrow> 'a set_once" where
  "set_publish c = c\<lparr>so_state := READY\<rparr>"

definition set_wake :: "'a set_once \<Rightarrow> 'a set_once \<times> waker list" where
  "set_wake c = (c\<lparr>so_waiters := []\<rparr>, so_waiters c)"

text \<open>A poll of \<open>wait\<close>; its unlocked test is repeated under the lock.\<close>

definition wait_poll :: "'a set_once \<Rightarrow> waker \<Rightarrow> 'a set_once \<times> 'a poll" where
  "wait_poll c cx = (case so_get c of
     Some value \<Rightarrow> (c, Ready value)
   | None \<Rightarrow> (case position (\<lambda>existing. will_wake existing cx) (so_waiters c) of
       Some p \<Rightarrow> (c\<lparr>so_waiters := (so_waiters c)[p := cx]\<rparr>, Pending)
     | None \<Rightarrow> (c\<lparr>so_waiters := so_waiters c @ [cx]\<rparr>, Pending)))"

datatype 'a setter = Claimed 'a | Written | Published

text \<open>
  The calls of \<open>set\<close> that are past their compare-exchange, the tasks that \<open>wait\<close> has told to wait and that have not been
  woken since, what the completed calls of \<open>wait\<close> returned, and the accepted values.
\<close>

record 'a set_once_sys =
  scell :: "'a set_once"
  setters :: "nat \<rightharpoonup> 'a setter"
  sparked :: "nat \<rightharpoonup> waker"
  sresults :: "nat \<rightharpoonup> 'a"
  swritten :: "'a list"

definition set_once_start :: "'a set_once \<Rightarrow> 'a option \<Rightarrow> 'a set_once_sys" where
  "set_once_start c value = \<lparr>scell = c, setters = Map.empty, sparked = Map.empty, sresults = Map.empty, swritten = olist value\<rparr>"

inductive set_once_step :: "'a set_once_sys \<Rightarrow> 'a set_once_sys \<Rightarrow> bool" where
  claim: "setters y t = None \<Longrightarrow> set_claim (scell y) v = (c', Inr r) \<Longrightarrow>
     set_once_step y (y\<lparr>scell := c', setters := (setters y)(t \<mapsto> Claimed v), swritten := swritten y @ [v]\<rparr>)"
| refused: "set_claim (scell y) v = (c', Inl v') \<Longrightarrow> set_once_step y (y\<lparr>scell := c'\<rparr>)"
| write_value: "setters y t = Some (Claimed v) \<Longrightarrow>
     set_once_step y (y\<lparr>scell := set_write (scell y) v, setters := (setters y)(t \<mapsto> Written)\<rparr>)"
| publish: "setters y t = Some Written \<Longrightarrow>
     set_once_step y (y\<lparr>scell := set_publish (scell y), setters := (setters y)(t \<mapsto> Published)\<rparr>)"
| wake: "setters y t = Some Published \<Longrightarrow> set_wake (scell y) = (c', ws) \<Longrightarrow>
     set_once_step y (y\<lparr>scell := c', setters := (setters y)(t := None), sparked := unpark (sparked y) ws\<rparr>)"
| wait: "wait_poll (scell y) w = (c', Pending) \<Longrightarrow> set_once_step y (y\<lparr>scell := c', sparked := (sparked y)(t \<mapsto> w)\<rparr>)"
| finish: "wait_poll (scell y) w = (c', Ready v) \<Longrightarrow>
     set_once_step y (y\<lparr>scell := c', sparked := (sparked y)(t := None), sresults := (sresults y)(t \<mapsto> v)\<rparr>)"
| cancelled: "set_once_step y (y\<lparr>sparked := (sparked y)(t := None)\<rparr>)"

inductive set_once_reach :: "'a set_once_sys \<Rightarrow> bool" where
  start: "set_once_reach (set_once_start set_once_new None)"
| start_with: "set_once_reach (set_once_start (set_once_new_with value) value)"
| step: "set_once_reach y \<Longrightarrow> set_once_step y z \<Longrightarrow> set_once_reach z"

definition set_once_inv :: "'a set_once_sys \<Rightarrow> bool" where
  "set_once_inv y \<longleftrightarrow>
     (let c = scell y in
      so_state c \<in> {EMPTY, WRITING, READY} \<and>
      (so_state c = EMPTY \<longrightarrow> setters y = Map.empty \<and> swritten y = []) \<and>
      (so_state c = WRITING \<longrightarrow> (\<exists>t u v. setters y = Map.empty(t \<mapsto> u) \<and> swritten y = [v] \<and>
         (u = Claimed v \<or> u = Written \<and> so_value c = Some v))) \<and>
      (so_state c = READY \<longrightarrow> swritten y = olist (so_value c) \<and> so_value c \<noteq> None \<and>
         (setters y = Map.empty \<and> so_waiters c = [] \<or> (\<exists>t. setters y = Map.empty(t \<mapsto> Published)))))"

definition set_once_ghosts :: "'a set_once_sys \<Rightarrow> bool" where
  "set_once_ghosts y \<longleftrightarrow> (\<forall>t w. sparked y t = Some w \<longrightarrow> w \<in> set (so_waiters (scell y))) \<and>
     (\<forall>t v. sresults y t = Some v \<longrightarrow> so_get (scell y) = Some v)"

lemma so_states [simp]:
  "EMPTY \<noteq> WRITING" "WRITING \<noteq> EMPTY" "EMPTY \<noteq> READY" "READY \<noteq> EMPTY" "WRITING \<noteq> READY" "READY \<noteq> WRITING"
  by (simp_all add: EMPTY_def WRITING_def READY_def)

lemma empty_neq_singleton [simp]: "Map.empty \<noteq> Map.empty(t \<mapsto> u)"
  by (metis map_upd_nonempty)

lemma wait_poll_pending:
  assumes "wait_poll c w = (c', Pending)"
  shows "so_get c = None \<and> (\<exists>ws. c' = c\<lparr>so_waiters := ws\<rparr> \<and> set ws = insert w (set (so_waiters c)))"
proof -
  from assms have "so_get c = None" "c' = c\<lparr>so_waiters := so_waiters c'\<rparr> \<and> set (so_waiters c') = insert w (set (so_waiters c))"
    by (auto simp: wait_poll_def insert_absorb dest: refresh_waker split: option.splits)
  then show ?thesis by blast
qed

lemma set_once_inv_step:
  assumes "set_once_step y z" "set_once_inv y"
  shows "set_once_inv z"
  using assms
proof (induction rule: set_once_step.induct)
  case (claim y t v c' r)
  then show ?case by (auto simp: set_once_inv_def set_claim_def Let_def split: if_splits)
next
  case (refused y v c' v')
  then show ?case by (auto simp: set_claim_def split: if_splits)
next
  case (write_value y t v)
  then have "so_state (scell y) = WRITING" "setters y = Map.empty(t \<mapsto> Claimed v)" "swritten y = [v]"
    by (auto simp: set_once_inv_def Let_def split: if_splits)
  then show ?case by (auto simp: set_once_inv_def set_write_def Let_def)
next
  case (publish y t)
  then have "so_state (scell y) = WRITING" "setters y = Map.empty(t \<mapsto> Written)" "so_value (scell y) \<noteq> None"
    "swritten y = olist (so_value (scell y))"
    by (auto simp: set_once_inv_def Let_def split: if_splits)
  then show ?case by (auto simp: set_once_inv_def set_publish_def Let_def)
next
  case (wake y t c' ws)
  then have "so_state (scell y) = READY" "setters y = Map.empty(t \<mapsto> Published)" "so_value (scell y) \<noteq> None"
    "swritten y = olist (so_value (scell y))"
    by (auto simp: set_once_inv_def Let_def split: if_splits)
  then show ?case using wake(2) by (auto simp: set_once_inv_def set_wake_def Let_def)
next
  case (wait y w c' t)
  from wait_poll_pending [OF wait(1)] wait(2) show ?case
    by (elim conjE exE) (simp add: set_once_inv_def so_get_def Let_def split: if_splits)
next
  case (finish y w c' v t)
  then show ?case by (auto simp: set_once_inv_def wait_poll_def Let_def split: option.splits)
next
  case (cancelled y t)
  then show ?case by (simp add: set_once_inv_def)
qed

lemma so_get_stable:
  assumes "set_once_step y z" "set_once_inv y" "so_get (scell y) = Some v"
  shows "so_get (scell z) = Some v"
  using assms
proof (induction rule: set_once_step.induct)
  case (write_value y t v')
  then show ?case by (auto simp: set_once_inv_def Let_def so_get_def split: if_splits)
qed (auto simp: so_get_def set_claim_def set_publish_def set_wake_def wait_poll_def split: if_splits)

lemma set_once_ghosts_step:
  assumes step: "set_once_step y z" and inv: "set_once_inv y" "set_once_ghosts y"
  shows "set_once_ghosts z"
proof -
  have got: "so_get (scell z) = Some v" if "sresults y t = Some v" for t v
    using so_get_stable [OF step inv(1)] inv(2) that by (simp add: set_once_ghosts_def)
  from step have res: "sresults z t = Some v \<Longrightarrow> sresults y t = Some v \<or> so_get (scell z) = Some v" for t v
    by cases (auto simp: wait_poll_def split: option.splits if_splits)
  from step inv(2) have "sparked z t = Some w \<Longrightarrow> w \<in> set (so_waiters (scell z))" for t w
  proof (induction rule: set_once_step.induct)
    case (wait y w' c' t')
    from wait_poll_pending [OF wait(1)] wait(2,3) show ?case
      by (elim conjE exE) (auto simp: set_once_ghosts_def split: if_splits)
  qed (auto simp: set_once_ghosts_def set_claim_def set_write_def set_publish_def set_wake_def unpark_Some wait_poll_def
      split: if_splits option.splits)
  with got res show ?thesis unfolding set_once_ghosts_def by blast
qed

lemma set_once_reach_inv: "set_once_reach y \<Longrightarrow> set_once_inv y \<and> set_once_ghosts y"
proof (induction rule: set_once_reach.induct)
  case (step y z)
  then show ?case using set_once_inv_step set_once_ghosts_step by blast
qed (auto simp: set_once_inv_def set_once_ghosts_def set_once_start_def set_once_new_def set_once_new_with_def split: option.split)

section \<open>Properties\<close>

text \<open>C11: in every run of any number of tasks in \<open>get_or_init\<close>, \<open>get_or_try_init\<close> and \<open>set\<close>, with
  initialisers failing or being cancelled at any point: at most one task runs an initialiser at a time;
  a task that was told to wait and has not been woken since is registered in the cell, and some other task has an active
  initialiser, so that none is left waiting once no initialiser is active; the cell holds exactly the one value that an initialiser
  or an accepted \<open>set\<close> handed to it, and no second one is handed to it; the value, once there, never changes; and all completed calls return this value.\<close>

theorem once_cell_single_assignment:
  assumes "once_reach y"
  shows "(\<forall>t t'. otasks y t \<in> busy \<longrightarrow> otasks y t' \<in> busy \<longrightarrow> t = t') \<and>
    (oc_waiters (ocell y) \<noteq> [] \<longrightarrow> (\<exists>t. otasks y t \<in> busy)) \<and>
    (\<forall>t w. oparked y t = Some w \<longrightarrow> w \<in> set (oc_waiters (ocell y)) \<and> (\<exists>t'. otasks y t' \<in> busy)) \<and>
    owritten y = olist (oc_get (ocell y)) \<and>
    (\<forall>z v. once_step y z \<longrightarrow> oc_get (ocell y) = Some v \<longrightarrow> oc_get (ocell z) = Some v) \<and>
    (\<forall>t v. oresults y t = Some v \<longrightarrow> v \<noteq> None \<and> v = oc_get (ocell y))"
proof -
  have inv: "once_inv y" "once_ghosts y" using once_reach_inv [OF assms] by simp_all
  have "\<forall>t v. oresults y t = Some v \<longrightarrow> v \<noteq> None \<and> v = oc_get (ocell y)"
    unfolding oc_get_def using once_invD(1,7) [OF inv(1)] by metis
  moreover have "\<forall>t t'. otasks y t \<in> busy \<longrightarrow> otasks y t' \<in> busy \<longrightarrow> t = t'"
    using once_invD(3) [OF inv(1)] by blast
  moreover have waiters: "oc_waiters (ocell y) \<noteq> [] \<longrightarrow> (\<exists>t. otasks y t \<in> busy)"
    using once_invD(2,6) [OF inv(1)] by simp
  moreover have "\<forall>t w. oparked y t = Some w \<longrightarrow> w \<in> set (oc_waiters (ocell y)) \<and> (\<exists>t'. otasks y t' \<in> busy)"
    using inv(2) waiters by (fastforce simp: once_ghosts_def)
  moreover have "owritten y = olist (oc_get (ocell y))"
    using inv(2) once_invD(1) [OF inv(1)] by (auto simp: once_ghosts_def oc_get_def)
  ultimately show ?thesis using oc_get_stable [OF _ inv(1)] by (intro conjI) blast+
qed

text \<open>C12: in every interleaving of concurrent calls of \<open>set\<close> and \<open>wait\<close>: the value is only read after it
  has been written and then never changes; at most one \<open>set\<close> is past its
  compare-exchange, at most one value is ever accepted, and this is what the cell holds and every completed \<open>wait\<close> returned;
  a task that \<open>wait\<close> told to wait and that has not been woken since is registered in the cell, and if the value has been published
  meanwhile, the setter has not yet reached the point where it wakes all registered tasks, so no task is left behind.\<close>

theorem set_once_safe_publication:
  assumes "set_once_reach y"
  shows "(so_state (scell y) = READY \<longrightarrow> so_value (scell y) \<noteq> None) \<and>
    (\<forall>t t'. setters y t \<noteq> None \<longrightarrow> setters y t' \<noteq> None \<longrightarrow> t = t') \<and>
    length (swritten y) \<le> 1 \<and> (\<forall>v. so_get (scell y) = Some v \<longrightarrow> swritten y = [v]) \<and>
    (\<forall>t v. sresults y t = Some v \<longrightarrow> so_get (scell y) = Some v) \<and>
    (\<forall>z v. set_once_step y z \<longrightarrow> so_get (scell y) = Some v \<longrightarrow> so_get (scell z) = Some v) \<and>
    (\<forall>t w. sparked y t = Some w \<longrightarrow> w \<in> set (so_waiters (scell y))) \<and>
    (so_get (scell y) \<noteq> None \<and> so_waiters (scell y) \<noteq> [] \<longrightarrow>
       (\<exists>t. setters y t = Some Published \<and> snd (set_wake (scell y)) = so_waiters (scell y)))"
proof -
  have inv: "set_once_inv y" "set_once_ghosts y" using set_once_reach_inv [OF assms] by simp_all
  have "\<forall>t t'. setters y t \<noteq> None \<longrightarrow> setters y t' \<noteq> None \<longrightarrow> t = t'"
    using inv(1) by (auto simp: set_once_inv_def Let_def split: if_splits)
  moreover have "length (swritten y) \<le> 1" "\<forall>v. so_get (scell y) = Some v \<longrightarrow> swritten y = [v]"
    using inv(1) by (auto simp: set_once_inv_def Let_def so_get_def split: if_splits)
  moreover have "so_state (scell y) = READY \<longrightarrow> so_value (scell y) \<noteq> None"
    using inv(1) by (simp add: set_once_inv_def Let_def)
  moreover have "so_get (scell y) \<noteq> None \<and> so_waiters (scell y) \<noteq> [] \<longrightarrow> (\<exists>t. setters y t = Some Published \<and>
      snd (set_wake (scell y)) = so_waiters (scell y))"
    using inv(1) by (auto simp: set_once_inv_def Let_def so_get_def set_wake_def split: if_splits)
  moreover have "\<forall>t v. sresults y t = Some v \<longrightarrow> so_get (scell y) = Some v"
    "\<forall>t w. sparked y t = Some w \<longrightarrow> w \<in> set (so_waiters (scell y))"
    using inv(2) by (simp_all add: set_once_ghosts_def)
  ultimately show ?thesis using so_get_stable [OF _ inv(1)] by (intro conjI) blast+
qed

section \<open>Concrete runs\<close>

text \<open>One task runs its initialiser while another one waits.\<close>

definition once_demo :: "nat once_sys" where
  "once_demo = \<lparr>ocell = \<lparr>oc_initializing = True, oc_waiters = [7], oc_initialized = False, oc_value = None\<rparr>,
     otasks = [0 \<mapsto> Acquiring, 1 \<mapsto> Acquiring, 0 \<mapsto> Running], oparked = [1 \<mapsto> 7], oresults = Map.empty, owritten = []\<rparr>"

lemma once_demo_reach: "once_reach once_demo"
proof -
  let ?y0 = "once_start once_cell_new None :: nat once_sys"
  let ?y1 = "?y0\<lparr>otasks := (otasks ?y0)(0 \<mapsto> Acquiring)\<rparr>"
  let ?y2 = "?y1\<lparr>otasks := (otasks ?y1)(1 \<mapsto> Acquiring)\<rparr>"
  let ?y3 = "?y2\<lparr>ocell := once_cell_new\<lparr>oc_initializing := True\<rparr>, otasks := (otasks ?y2)(0 \<mapsto> Running), oparked := (oparked ?y2)(0 := None)\<rparr>"
  have "once_reach ?y1" by (rule once_reach.step [OF once_reach.start once_step.call]) (simp add: once_start_def)
  then have "once_reach ?y2" by (rule once_reach.step [OF _ once_step.call]) (simp add: once_start_def)
  moreover have "once_step ?y2 ?y3"
    by (rule once_step.run [of _ _ 5])
      (simp_all add: once_start_def get_or_init_poll_def acquire_initializer_def oc_get_def once_cell_new_def)
  ultimately have "once_reach ?y3" by (rule once_reach.step)
  moreover have "once_step ?y3 once_demo"
    using once_step.wait [of ?y3 1 7 "ocell once_demo"]
    by (simp add: once_start_def get_or_init_poll_def acquire_initializer_def oc_get_def once_cell_new_def once_demo_def)
  ultimately show ?thesis by (rule once_reach.step)
qed

theorem once_cell_single_assignment_witness:
  "oparked once_demo 1 = Some 7 \<and> 7 \<in> set (oc_waiters (ocell once_demo)) \<and> (\<exists>t. otasks once_demo t \<in> busy)"
proof -
  have "oparked once_demo 1 = Some 7" by (simp add: once_demo_def)
  then show ?thesis using once_cell_single_assignment [OF once_demo_reach] by blast
qed

text \<open>A task waits, another one sets the value and has published it.\<close>

definition set_once_demo :: "nat set_once_sys" where
  "set_once_demo = \<lparr>scell = \<lparr>so_value = Some 5, so_state = READY, so_waiters = [7]\<rparr>,
     setters = [0 \<mapsto> Claimed 5, 0 \<mapsto> Written, 0 \<mapsto> Published], sparked = [1 \<mapsto> 7], sresults = Map.empty, swritten = [5]\<rparr>"

lemma set_once_demo_reach: "set_once_reach set_once_demo"
proof -
  let ?y0 = "set_once_start set_once_new None :: nat set_once_sys"
  let ?y1 = "?y0\<lparr>scell := set_once_new\<lparr>so_waiters := [7]\<rparr>, sparked := (sparked ?y0)(1 \<mapsto> 7)\<rparr>"
  let ?y2 = "?y1\<lparr>scell := set_once_new\<lparr>so_waiters := [7], so_state := WRITING\<rparr>, setters := (setters ?y1)(0 \<mapsto> Claimed 5), swritten := swritten ?y1 @ [5]\<rparr>"
  let ?y3 = "?y2\<lparr>scell := set_write (scell ?y2) 5, setters := (setters ?y2)(0 \<mapsto> Written)\<rparr>"
  have "set_once_step ?y0 ?y1"
    by (rule set_once_step.wait) (simp add: set_once_start_def wait_poll_def so_get_def set_once_new_def)
  then have "set_once_reach ?y1" by (rule set_once_reach.step [OF set_once_reach.start])
  moreover have "set_once_step ?y1 ?y2"
    by (rule set_once_step.claim) (simp_all add: set_once_start_def set_claim_def set_once_new_def)
  ultimately have "set_once_reach ?y2" by (rule set_once_reach.step)
  then have "set_once_reach ?y3" by (rule set_once_reach.step [OF _ set_once_step.write_value]) simp
  moreover have "set_once_step ?y3 set_once_demo"
    using set_once_step.publish [of ?y3 0]
    by (simp add: set_once_demo_def set_once_start_def set_publish_def set_write_def set_once_new_def)
  ultimately show ?thesis by (rule set_once_reach.step)
qed

theorem set_once_safe_publication_witness:
  "sparked set_once_demo 1 = Some 7 \<and> 7 \<in> set (so_waiters (scell set_once_demo)) \<and> (\<exists>t. setters set_once_demo t = Some Published)"
proof -
  have "so_get (scell set_once_demo) \<noteq> None \<and> so_waiters (scell set_once_demo) \<noteq> []" "sparked set_once_demo 1 = Some 7"
    by (simp_all add: set_once_demo_def so_get_def)
  then show ?thesis using set_once_safe_publication [OF set_once_demo_reach] by blast
qed

end
