(* ===== verification/Broadcast.thy ===== *)
theory Broadcast
  imports Ffrt_Prelude
begin

text \<open>
  The broadcast channel of \<open>sync/broadcast.rs\<close>: a bounded queue of numbered messages, receivers
  with a position of their own, senders, weak senders and the futures that wait. The channel is
  shown to implement a log: every receiver reads the log in order from where it subscribed, and what
  it misses because the queue is bounded it is told exactly.
\<close>

section \<open>State\<close>

record 'a broadcast_state =
  bc_queue :: "(u64 \<times> 'a) list"
  bc_capacity :: nat
  bc_next_seq :: u64
  bc_senders :: nat
  bc_receivers :: nat
  bc_waiters :: "waker list"
  bc_close_waiters :: "waker list"

datatype recv_error = RecvClosed | RecvLagged u64
datatype try_recv_error = TryRecvEmpty | TryRecvClosed | TryRecvLagged u64
datatype 'a send_error = SendError 'a

text \<open>A receiver is its \<open>next_seq\<close>; the channel returned to the caller has one of them.\<close>

definition bc_channel :: "nat \<Rightarrow> ('a broadcast_state \<times> u64) panicky" where
  "bc_channel capacity =
     (if \<not> capacity > 0 then Inl ''broadcast channel capacity must be positive''
      else Inr (\<lparr>bc_queue = [], bc_capacity = capacity, bc_next_seq = 0, bc_senders = 1, bc_receivers = 1,
                  bc_waiters = [], bc_close_waiters = []\<rparr>, 0))"

definition bc_sender_new :: "nat \<Rightarrow> 'a broadcast_state panicky" where
  "bc_sender_new capacity =
     (if \<not> capacity > 0 then Inl ''broadcast channel capacity must be positive''
      else Inr \<lparr>bc_queue = [], bc_capacity = capacity, bc_next_seq = 0, bc_senders = 1, bc_receivers = 0,
                bc_waiters = [], bc_close_waiters = []\<rparr>)"

section \<open>Sender\<close>

definition bc_closed_poll :: "'a broadcast_state \<Rightarrow> waker \<Rightarrow> 'a broadcast_state \<times> unit poll" where
  "bc_closed_poll s cx =
     (if bc_receivers s = 0 then (s, Ready ())
      else (case position (\<lambda>waiter. will_wake waiter cx) (bc_close_waiters s) of
        Some p \<Rightarrow> (s\<lparr>bc_close_waiters := (bc_close_waiters s)[p := cx]\<rparr>, Pending)
      | None \<Rightarrow> (s\<lparr>bc_close_waiters := bc_close_waiters s @ [cx]\<rparr>, Pending)))"

text \<open>The loop that drops the oldest messages until the queue is no longer than the capacity.\<close>

function trim :: "nat \<Rightarrow> 'b list \<Rightarrow> 'b list" where
  "trim capacity queue = (if length queue > capacity then trim capacity (tl queue) else queue)"
  by auto
termination by (relation "measure (length \<circ> snd)") auto

declare trim.simps [simp del]

definition push_locked :: "'a broadcast_state \<Rightarrow> 'a \<Rightarrow> 'a broadcast_state \<times> waker list" where
  "push_locked s value =
     (let seq = bc_next_seq s in
      (s\<lparr>bc_next_seq := bc_next_seq s + 1,
         bc_queue := trim (bc_capacity s) (bc_queue s @ [(seq, value)]),
         bc_waiters := []\<rparr>,
       bc_waiters s))"

definition bc_send :: "'a broadcast_state \<Rightarrow> 'a \<Rightarrow> 'a broadcast_state \<times> ('a send_error + nat) \<times> waker list" where
  "bc_send s value =
     (if bc_receivers s = 0 then (s, Inl (SendError value), [])
      else (case push_locked s value of (s', ws) \<Rightarrow> (s', Inr (bc_receivers s'), ws)))"

definition bc_subscribe :: "'a broadcast_state \<Rightarrow> ('a broadcast_state \<times> u64) panicky" where
  "bc_subscribe s = (case usize_add (bc_receivers s) 1 of
     Inl e \<Rightarrow> Inl e
   | Inr n \<Rightarrow> Inr (s\<lparr>bc_receivers := n\<rparr>, bc_next_seq s))"

definition bc_sender_clone :: "'a broadcast_state \<Rightarrow> 'a broadcast_state panicky" where
  "bc_sender_clone s = (case usize_add (bc_senders s) 1 of Inl e \<Rightarrow> Inl e | Inr n \<Rightarrow> Inr (s\<lparr>bc_senders := n\<rparr>))"

definition bc_sender_drop :: "'a broadcast_state \<Rightarrow> ('a broadcast_state \<times> waker list) panicky" where
  "bc_sender_drop s = (case usize_sub (bc_senders s) 1 of
     Inl e \<Rightarrow> Inl e
   | Inr n \<Rightarrow>
       (let s = s\<lparr>bc_senders := n\<rparr> in
        if bc_senders s = 0 then Inr (s\<lparr>bc_waiters := []\<rparr>, bc_waiters s) else Inr (s, [])))"

text \<open>\<open>WeakSender::upgrade\<close>, with whether the shared state is still there.\<close>

definition bc_weak_upgrade :: "'a broadcast_state \<Rightarrow> bool \<Rightarrow> ('a broadcast_state \<times> bool) panicky" where
  "bc_weak_upgrade s shared_alive =
     (if \<not> shared_alive then Inr (s, False)
      else (case usize_add (bc_senders s) 1 of Inl e \<Rightarrow> Inl e | Inr n \<Rightarrow> Inr (s\<lparr>bc_senders := n\<rparr>, True)))"

section \<open>Receiver\<close>

definition bc_try_recv_locked :: "'a broadcast_state \<Rightarrow> u64 \<Rightarrow> u64 \<times> (try_recv_error + 'a)" where
  "bc_try_recv_locked s next_seq = (case position (\<lambda>(seq, _). seq \<ge> next_seq) (bc_queue s) of
     Some index \<Rightarrow>
       (case bc_queue s ! index of (seq, value) \<Rightarrow>
          if seq > next_seq then (seq, Inl (TryRecvLagged (seq - next_seq)))
          else (next_seq + 1, Inr value))
   | None \<Rightarrow> if bc_senders s = 0 then (next_seq, Inl TryRecvClosed) else (next_seq, Inl TryRecvEmpty))"

text \<open>\<open>blocking_recv\<close>, with the states that its attempts find.\<close>

fun bc_blocking_recv :: "'a broadcast_state list \<Rightarrow> u64 \<Rightarrow> (u64 \<times> (recv_error + 'a)) option" where
  "bc_blocking_recv [] next_seq = None"
| "bc_blocking_recv (s # ss) next_seq = (case bc_try_recv_locked s next_seq of
     (n, Inr value) \<Rightarrow> Some (n, Inr value)
   | (n, Inl TryRecvClosed) \<Rightarrow> Some (n, Inl RecvClosed)
   | (n, Inl (TryRecvLagged amount)) \<Rightarrow> Some (n, Inl (RecvLagged amount))
   | (n, Inl TryRecvEmpty) \<Rightarrow> bc_blocking_recv ss n)"

definition bc_receiver_len :: "'a broadcast_state \<Rightarrow> u64 \<Rightarrow> nat" where
  "bc_receiver_len s next_seq = unat (bc_next_seq s - next_seq)"

definition bc_resubscribe :: "'a broadcast_state \<Rightarrow> ('a broadcast_state \<times> u64) panicky" where
  "bc_resubscribe s = (case usize_add (bc_receivers s) 1 of
     Inl e \<Rightarrow> Inl e
   | Inr n \<Rightarrow> Inr (s\<lparr>bc_receivers := n\<rparr>, bc_next_seq s))"

definition bc_receiver_clone :: "'a broadcast_state \<Rightarrow> ('a broadcast_state \<times> u64) panicky" where
  "bc_receiver_clone s = (case usize_add (bc_receivers s) 1 of
     Inl e \<Rightarrow> Inl e
   | Inr n \<Rightarrow> Inr (s\<lparr>bc_receivers := n\<rparr>, bc_next_seq s))"

definition bc_receiver_drop :: "'a broadcast_state \<Rightarrow> ('a broadcast_state \<times> waker list) panicky" where
  "bc_receiver_drop s = (case usize_sub (bc_receivers s) 1 of
     Inl e \<Rightarrow> Inl e
   | Inr n \<Rightarrow>
       (let s = s\<lparr>bc_receivers := n\<rparr> in
        if bc_receivers s = 0 then Inr (s\<lparr>bc_close_waiters := []\<rparr>, bc_close_waiters s) else Inr (s, [])))"

definition bc_recv_poll ::
  "'a broadcast_state \<Rightarrow> u64 \<Rightarrow> waker \<Rightarrow> 'a broadcast_state \<times> u64 \<times> (recv_error + 'a) poll" where
  "bc_recv_poll s next_seq cx = (case position (\<lambda>(seq, _). seq \<ge> next_seq) (bc_queue s) of
     Some index \<Rightarrow>
       (case bc_queue s ! index of (seq, value) \<Rightarrow>
          if seq > next_seq then (s, seq, Ready (Inl (RecvLagged (seq - next_seq))))
          else (s, next_seq + 1, Ready (Inr value)))
   | None \<Rightarrow>
       if bc_senders s = 0 then (s, next_seq, Ready (Inl RecvClosed))
       else (s\<lparr>bc_waiters := bc_waiters s @ [cx]\<rparr>, next_seq, Pending))"

section \<open>The log\<close>

text \<open>
  The abstract channel: the log of all messages sent so far. A receiver at position \<open>p\<close> of a log
  of which the last \<open>capacity\<close> messages are retained.
\<close>

definition log_recv :: "nat \<Rightarrow> 'a list \<Rightarrow> nat \<Rightarrow> nat \<times> (nat + 'a) option" where
  "log_recv capacity sent p =
     (let oldest = length sent - capacity in
      if p < oldest then (oldest, Some (Inl (oldest - p)))
      else if p < length sent then (p + 1, Some (Inr (sent ! p)))
      else (p, None))"

definition log_queue :: "nat \<Rightarrow> 'a list \<Rightarrow> (u64 \<times> 'a) list" where
  "log_queue capacity sent = map (\<lambda>i. (of_nat i, sent ! i)) [length sent - capacity..<length sent]"

lemma trim_drop: "trim c xs = drop (length xs - c) xs"
proof (induction c xs rule: trim.induct)
  case (1 c xs)
  show ?case
  proof (cases "c < length xs")
    case True
    then have "drop (length xs - Suc c) (tl xs) = drop (length xs - c) xs"
      by (cases xs) (auto simp: Suc_diff_le)
    with True 1 show ?thesis by (subst trim.simps) simp
  qed (subst trim.simps, simp)
qed

lemma log_queue_push:
  "trim c (log_queue c sent @ [(of_nat (length sent), v)]) = log_queue c (sent @ [v])"
proof -
  let ?lo = "length sent - c" and ?n = "length sent"
  have "log_queue c sent @ [(of_nat ?n, v)] = map (\<lambda>i. (of_nat i, (sent @ [v]) ! i)) [?lo..<Suc ?n]"
    unfolding log_queue_def by (auto simp: nth_append intro!: map_cong)
  moreover have "drop (Suc ?n - ?lo - c) [?lo..<Suc ?n] = [Suc ?n - c..<Suc ?n]"
    by (simp add: drop_upt del: upt_Suc) (cases "c \<le> ?n"; simp add: Suc_diff_le)
  ultimately show ?thesis
    unfolding trim_drop by (simp add: log_queue_def drop_map del: upt_Suc)
qed

lemma of_nat_le_u64:
  assumes "i < 2 ^ 64" "j < 2 ^ 64"
  shows "(of_nat i :: u64) \<le> of_nat j \<longleftrightarrow> i \<le> j" "(of_nat i :: u64) < of_nat j \<longleftrightarrow> i < j"
  using assms by (simp_all add: word_le_nat_alt word_less_nat_alt unat_of_nat_u64)

lemma length_log_queue: "length (log_queue c sent) = length sent - (length sent - c)"
  by (simp add: log_queue_def)

lemma nth_log_queue:
  "i < length sent - (length sent - c) \<Longrightarrow>
     log_queue c sent ! i = (of_nat (length sent - c + i), sent ! (length sent - c + i))"
  by (simp add: log_queue_def)

lemma position_log:
  assumes "0 < c" "length sent < 2 ^ 64" "p \<le> length sent"
  shows "position (\<lambda>(seq, _). seq \<ge> (of_nat p :: u64)) (log_queue c sent) =
    (if p < length sent then Some (p - (length sent - c)) else None)"
proof (cases "p < length sent")
  case True
  have le: "(of_nat p :: u64) \<le> of_nat j \<longleftrightarrow> p \<le> j" if "j < length sent" for j
    using that assms by (intro of_nat_le_u64) auto
  show ?thesis
    unfolding if_P [OF True] position_Some_iff
    using True assms(1) by (auto simp: length_log_queue nth_log_queue le simp del: of_nat_add)
next
  case False
  then have "p = length sent" using assms(3) by simp
  moreover have "\<not> (of_nat (length sent) :: u64) \<le> of_nat j" if "j < length sent" for j
    using that assms(2) of_nat_le_u64(1) [of "length sent" j] by simp
  ultimately show ?thesis
    by (auto simp: log_queue_def)
qed

text \<open>Reading the queue is reading the log.\<close>

fun to_log :: "try_recv_error + 'a \<Rightarrow> (nat + 'a) option" where
  "to_log (Inr v) = Some (Inr v)"
| "to_log (Inl (TryRecvLagged k)) = Some (Inl (unat k))"
| "to_log (Inl _) = None"

fun recv_log :: "recv_error + 'a \<Rightarrow> (nat + 'a) option" where
  "recv_log (Inr v) = Some (Inr v)"
| "recv_log (Inl (RecvLagged k)) = Some (Inl (unat k))"
| "recv_log (Inl RecvClosed) = None"

lemma try_recv_refines:
  assumes "0 < bc_capacity s" "length sent < 2 ^ 64" "p \<le> length sent"
    and queue: "bc_queue s = log_queue (bc_capacity s) sent"
    and recv: "bc_try_recv_locked s (of_nat p) = (next, r)"
  shows "next = of_nat (fst (log_recv (bc_capacity s) sent p)) \<and>
    to_log r = snd (log_recv (bc_capacity s) sent p) \<and>
    (r = Inl TryRecvClosed \<longrightarrow> bc_senders s = 0) \<and> (r = Inl TryRecvEmpty \<longrightarrow> bc_senders s \<noteq> 0)"
proof (cases "p < length sent")
  case False
  then have "p = length sent" using assms(3) by simp
  with recv assms show ?thesis
    by (auto simp: bc_try_recv_locked_def position_log log_recv_def Let_def split: if_splits)
next
  case True
  define lo where "lo = length sent - bc_capacity s"
  let ?i = "max p lo"
  have i: "?i < length sent" "lo + (p - lo) = ?i" using True assms(1) by (auto simp: lo_def)
  have "p - lo < length sent - lo" using i by arith
  then have nth: "bc_queue s ! (p - lo) = (of_nat ?i, sent ! ?i)"
    using nth_log_queue [of "p - lo" sent "bc_capacity s"] i queue
    by (simp add: lo_def [symmetric] del: of_nat_add)
  have pos: "position (\<lambda>(seq, _). seq \<ge> (of_nat p :: u64)) (bc_queue s) = Some (p - lo)"
    using position_log [OF assms(1-3)] True queue by (simp add: lo_def)
  have less: "(of_nat p :: u64) < of_nat ?i \<longleftrightarrow> p < lo"
    using of_nat_le_u64(2) [of p ?i] i assms(2) by (simp add: less_max_iff_disj)
  have "unat (of_nat lo - of_nat p :: u64) = lo - p" if "p < lo"
  proof -
    have "(of_nat lo - of_nat p :: u64) = of_nat (lo - p)" using that by (simp add: of_nat_diff)
    moreover have "lo - p < 2 ^ 64" using assms(2) by (simp add: lo_def)
    ultimately show ?thesis by (simp only: unat_of_nat_u64)
  qed
  with recv pos nth less True show ?thesis
    by (auto simp: bc_try_recv_locked_def log_recv_def Let_def lo_def [symmetric] max_def add.commute
        split: if_splits)
qed

lemma recv_poll_try:
  "bc_recv_poll s n cx = (case bc_try_recv_locked s n of
     (n', Inr v) \<Rightarrow> (s, n', Ready (Inr v))
   | (n', Inl (TryRecvLagged k)) \<Rightarrow> (s, n', Ready (Inl (RecvLagged k)))
   | (n', Inl TryRecvClosed) \<Rightarrow> (s, n', Ready (Inl RecvClosed))
   | (n', Inl TryRecvEmpty) \<Rightarrow> (s\<lparr>bc_waiters := bc_waiters s @ [cx]\<rparr>, n', Pending))"
  by (cases "position (\<lambda>(seq, _). seq \<ge> n) (bc_queue s)")
    (simp_all add: bc_recv_poll_def bc_try_recv_locked_def del: position_None split: prod.splits)

lemma recv_poll_ready:
  "bc_recv_poll s n w = (s', n', Ready x) \<Longrightarrow>
     s' = s \<and> (\<exists>res. bc_try_recv_locked s n = (n', res) \<and> to_log res = recv_log x \<and> (x = Inl RecvClosed \<longrightarrow> res = Inl TryRecvClosed))"
  unfolding recv_poll_try by (auto split: prod.splits sum.splits try_recv_error.splits)

lemma recv_poll_pending:
  "bc_recv_poll s n w = (s', n', Pending) \<Longrightarrow>
     s' = s\<lparr>bc_waiters := bc_waiters s @ [w]\<rparr> \<and> bc_try_recv_locked s n = (n', Inl TryRecvEmpty)"
  unfolding recv_poll_try by (auto split: prod.splits sum.splits try_recv_error.splits)

section \<open>Clients\<close>

text \<open>
  A system: the shared state, the log, the live receivers (their \<open>next_seq\<close>, the position of the log
  at which they subscribed, and what their receive operations have returned so far: messages and
  lag reports), and the receivers that are parked, with the waker of their last poll.
\<close>

record 'a bc_sys =
  bst :: "'a broadcast_state"
  sent :: "'a list"
  rxs :: "nat \<rightharpoonup> u64 \<times> nat \<times> (nat + 'a) list"
  parked :: "nat \<rightharpoonup> waker"

fun note_result :: "try_recv_error + 'a \<Rightarrow> (nat + 'a) list \<Rightarrow> (nat + 'a) list" where
  "note_result r outs = (case to_log r of None \<Rightarrow> outs | Some x \<Rightarrow> outs @ [x])"

fun note_recv :: "recv_error + 'a \<Rightarrow> (nat + 'a) list \<Rightarrow> (nat + 'a) list" where
  "note_recv r outs = (case recv_log r of None \<Rightarrow> outs | Some x \<Rightarrow> outs @ [x])"

inductive bc_step :: "'a bc_sys \<Rightarrow> 'a bc_sys \<Rightarrow> bool" where
  send: "0 < bc_senders (bst y) \<Longrightarrow> bc_send (bst y) v = (s', Inr n, ws) \<Longrightarrow>
     bc_step y (y\<lparr>bst := s', sent := sent y @ [v], parked := unpark (parked y) ws\<rparr>)"
| send_err: "0 < bc_senders (bst y) \<Longrightarrow> bc_send (bst y) v = (s', Inl e, ws) \<Longrightarrow> bc_step y (y\<lparr>bst := s'\<rparr>)"
| subscribe: "0 < bc_senders (bst y) \<Longrightarrow> rxs y r = None \<Longrightarrow> bc_subscribe (bst y) = Inr (s', n) \<Longrightarrow>
     bc_step y (y\<lparr>bst := s', rxs := (rxs y)(r \<mapsto> (n, length (sent y), []))\<rparr>)"
| rx_clone: "q \<in> dom (rxs y) \<Longrightarrow> rxs y r = None \<Longrightarrow> bc_receiver_clone (bst y) = Inr (s', n) \<Longrightarrow>
     bc_step y (y\<lparr>bst := s', rxs := (rxs y)(r \<mapsto> (n, length (sent y), []))\<rparr>)"
| try_recv: "rxs y r = Some (n, st, outs) \<Longrightarrow> bc_try_recv_locked (bst y) n = (n', res) \<Longrightarrow>
     bc_step y (y\<lparr>rxs := (rxs y)(r \<mapsto> (n', st, note_result res outs)), parked := (parked y)(r := None)\<rparr>)"
| poll_ready: "rxs y r = Some (n, st, outs) \<Longrightarrow> bc_recv_poll (bst y) n w = (s', n', Ready x) \<Longrightarrow>
     bc_step y (y\<lparr>bst := s', rxs := (rxs y)(r \<mapsto> (n', st, note_recv x outs)), parked := (parked y)(r := None)\<rparr>)"
| poll_pending: "rxs y r = Some (n, st, outs) \<Longrightarrow> bc_recv_poll (bst y) n w = (s', n', Pending) \<Longrightarrow>
     bc_step y (y\<lparr>bst := s', rxs := (rxs y)(r \<mapsto> (n', st, outs)), parked := (parked y)(r \<mapsto> w)\<rparr>)"
| rx_drop: "r \<in> dom (rxs y) \<Longrightarrow> bc_receiver_drop (bst y) = Inr (s', ws) \<Longrightarrow>
     bc_step y (y\<lparr>bst := s', rxs := (rxs y)(r := None), parked := (parked y)(r := None)\<rparr>)"
| tx_clone: "0 < bc_senders (bst y) \<Longrightarrow> bc_sender_clone (bst y) = Inr s' \<Longrightarrow> bc_step y (y\<lparr>bst := s'\<rparr>)"
| tx_drop: "0 < bc_senders (bst y) \<Longrightarrow> bc_sender_drop (bst y) = Inr (s', ws) \<Longrightarrow>
     bc_step y (y\<lparr>bst := s', parked := unpark (parked y) ws\<rparr>)"
| tx_closed: "0 < bc_senders (bst y) \<Longrightarrow> bc_closed_poll (bst y) w = (s', x) \<Longrightarrow> bc_step y (y\<lparr>bst := s'\<rparr>)"
| upgrade: "bc_weak_upgrade (bst y) (0 < bc_senders (bst y) \<or> 0 < bc_receivers (bst y)) = Inr (s', b) \<Longrightarrow>
     bc_step y (y\<lparr>bst := s'\<rparr>)"

inductive bc_reach :: "nat \<Rightarrow> 'a bc_sys \<Rightarrow> bool" for c where
  start: "bc_channel c = Inr (s, n) \<Longrightarrow>
     bc_reach c \<lparr>bst = s, sent = [], rxs = Map.empty(0 \<mapsto> (n, 0, [])), parked = Map.empty\<rparr>"
| start_new: "bc_sender_new c = Inr s \<Longrightarrow> bc_reach c \<lparr>bst = s, sent = [], rxs = Map.empty, parked = Map.empty\<rparr>"
| step: "bc_reach c y \<Longrightarrow> bc_step y z \<Longrightarrow> bc_reach c z"

text \<open>
  \<open>reads sent p outs q\<close>: the results \<open>outs\<close> take a receiver from position \<open>p\<close> of the log to position
  \<open>q\<close>, a message being the one at the position and a lag report skipping as many as it says.
\<close>

fun reads :: "'a list \<Rightarrow> nat \<Rightarrow> (nat + 'a) list \<Rightarrow> nat \<Rightarrow> bool" where
  "reads l p [] q \<longleftrightarrow> p = q"
| "reads l p (Inr v # outs) q \<longleftrightarrow> p < length l \<and> v = l ! p \<and> reads l (p + 1) outs q"
| "reads l p (Inl k # outs) q \<longleftrightarrow> 0 < k \<and> reads l (p + k) outs q"

lemma reads_append: "reads l p (xs @ ys) q \<longleftrightarrow> (\<exists>m. reads l p xs m \<and> reads l m ys q)"
  by (induction l p xs q arbitrary: q rule: reads.induct) auto

lemma reads_extend: "reads l p xs q \<Longrightarrow> reads (l @ l') p xs q"
  by (induction l p xs q rule: reads.induct) (auto simp: nth_append)

lemma reads_log_recv:
  assumes "reads l st outs p" "p \<le> length l" "log_recv c l p = (q, x)"
  shows "reads l st (case x of None \<Rightarrow> outs | Some o' \<Rightarrow> outs @ [o']) q \<and> q \<le> length l"
  using assms by (auto simp: log_recv_def Let_def reads_append intro!: exI [of _ p] split: if_splits)

section \<open>The invariant\<close>

text \<open>The queue is the retained part of the log.\<close>

definition bc_chan_ok :: "nat \<Rightarrow> 'a bc_sys \<Rightarrow> bool" where
  "bc_chan_ok c y \<longleftrightarrow> 0 < c \<and> bc_capacity (bst y) = c \<and> bc_queue (bst y) = log_queue c (sent y) \<and>
     bc_next_seq (bst y) = of_nat (length (sent y))"

text \<open>The receivers are counted, and each has read the log from where it subscribed.\<close>

definition bc_rx_ok :: "'a list \<Rightarrow> u64 \<times> nat \<times> (nat + 'a) list \<Rightarrow> bool" where
  "bc_rx_ok l x \<longleftrightarrow> (\<exists>p\<le>length l. fst x = of_nat p \<and> reads l (fst (snd x)) (snd (snd x)) p)"

definition bc_rxs_ok :: "'a bc_sys \<Rightarrow> bool" where
  "bc_rxs_ok y \<longleftrightarrow> finite (dom (rxs y)) \<and> bc_receivers (bst y) = card (dom (rxs y)) \<and>
     (\<forall>r x. rxs y r = Some x \<longrightarrow> bc_rx_ok (sent y) x)"

text \<open>A parked receiver is registered, has nothing to read, and the channel is open.\<close>

definition bc_parked_ok :: "'a bc_sys \<Rightarrow> bool" where
  "bc_parked_ok y \<longleftrightarrow> (\<forall>r w. parked y r = Some w \<longrightarrow>
     w \<in> set (bc_waiters (bst y)) \<and> 0 < bc_senders (bst y) \<and>
     (\<exists>st outs. rxs y r = Some (of_nat (length (sent y)), st, outs)))"

lemma recv_locked_refines:
  assumes chan: "bc_chan_ok c y" and len: "length (sent y) < 2 ^ 64" and ok: "bc_rx_ok (sent y) (n, st, outs)"
    and recv: "bc_try_recv_locked (bst y) n = (n', res)"
  shows "bc_rx_ok (sent y) (n', st, note_result res outs)"
    and "res = Inl TryRecvEmpty \<Longrightarrow> n = of_nat (length (sent y)) \<and> n' = n \<and> 0 < bc_senders (bst y)"
proof -
  obtain p where p: "p \<le> length (sent y)" "n = of_nat p" "reads (sent y) st outs p"
    using ok by (auto simp: bc_rx_ok_def)
  have cap: "0 < bc_capacity (bst y)" "bc_queue (bst y) = log_queue (bc_capacity (bst y)) (sent y)"
    using chan by (auto simp: bc_chan_ok_def)
  note ref = try_recv_refines [OF cap(1) len p(1) cap(2) recv [unfolded p(2)]]
  obtain q x where q: "log_recv (bc_capacity (bst y)) (sent y) p = (q, x)" by fastforce
  from reads_log_recv [OF p(3,1) q] ref q
  show "bc_rx_ok (sent y) (n', st, note_result res outs)"
    by (auto simp: bc_rx_ok_def)
  assume "res = Inl TryRecvEmpty"
  with ref q have "x = None" "0 < bc_senders (bst y)" "n' = of_nat q" by auto
  with q p show "n = of_nat (length (sent y)) \<and> n' = n \<and> 0 < bc_senders (bst y)"
    by (auto simp: log_recv_def Let_def split: if_splits)
qed

lemma rx_ok_send: "bc_rx_ok l x \<Longrightarrow> bc_rx_ok (l @ [v]) x"
  by (auto simp: bc_rx_ok_def intro: reads_extend le_SucI)

lemma rx_ok_new: "bc_rx_ok l (of_nat (length l), length l, [])"
  by (auto simp: bc_rx_ok_def)

lemma bc_step_len: "bc_step y z \<Longrightarrow> length (sent y) \<le> length (sent z)"
  by (induction rule: bc_step.induct) auto

lemmas bc_op_defs = bc_send_def push_locked_def bc_subscribe_def bc_receiver_clone_def bc_receiver_drop_def
  bc_sender_clone_def bc_sender_drop_def bc_closed_poll_def bc_weak_upgrade_def usize_add_def Let_def

lemma recv_poll_keeps:
  "bc_recv_poll s n w = (s', n', x) \<Longrightarrow> \<exists>ws. s' = s\<lparr>bc_waiters := bc_waiters s @ ws\<rparr>"
  unfolding recv_poll_try
  by (auto split: prod.splits sum.splits try_recv_error.splits intro: exI [of _ "[]"])

lemma chan_ok_step: "bc_step y z \<Longrightarrow> bc_chan_ok c y \<Longrightarrow> bc_chan_ok c z"
proof (induction rule: bc_step.induct)
  case (send y v s' n ws)
  then show ?case
    using log_queue_push [of c "sent y" v]
    by (auto simp: bc_chan_ok_def bc_op_defs add.commute split: if_splits)
qed (auto simp: bc_chan_ok_def bc_op_defs dest!: recv_poll_keeps split: if_splits option.splits sum.splits)

lemma dom_same: "rxs y r = Some x \<Longrightarrow> dom ((rxs y)(r \<mapsto> x')) = dom (rxs y)"
  by auto

lemma rxs_ok_upd:
  assumes "bc_rxs_ok y" "rxs y r = Some x" "bc_rx_ok (sent y) x'"
    "bc_receivers s' = bc_receivers (bst y)"
  shows "bc_rxs_ok (y\<lparr>bst := s', rxs := (rxs y)(r \<mapsto> x'), parked := m\<rparr>)"
  using assms dom_same [OF assms(2), of x'] by (cases x') (simp add: bc_rxs_ok_def)

lemma rxs_ok_new:
  assumes "bc_rxs_ok y" "bc_chan_ok c y" "rxs y r = None" "bc_receivers s' = bc_receivers (bst y) + 1"
  shows "bc_rxs_ok (y\<lparr>bst := s', rxs := (rxs y)(r \<mapsto> (bc_next_seq (bst y), length (sent y), []))\<rparr>)"
  using assms rx_ok_new [of "sent y"] by (auto simp: bc_rxs_ok_def bc_chan_ok_def domIff)

lemma rxs_ok_drop:
  assumes "bc_rxs_ok y" "r \<in> dom (rxs y)" "bc_receivers s' = bc_receivers (bst y) - 1"
  shows "bc_rxs_ok (y\<lparr>bst := s', rxs := (rxs y)(r := None), parked := m\<rparr>)"
  using assms by (auto simp: bc_rxs_ok_def card_Diff_singleton)

lemma rxs_ok_step:
  assumes "bc_step y z" "bc_chan_ok c y" "bc_rxs_ok y" "length (sent z) < 2 ^ 64"
  shows "bc_rxs_ok z"
  using assms
proof (induction rule: bc_step.induct)
  case (send y v s' n ws)
  then show ?case by (auto simp: bc_rxs_ok_def bc_op_defs intro: rx_ok_send split: if_splits)
next
  case (subscribe y r s' n)
  then show ?case using rxs_ok_new [OF subscribe(5,4,2)] by (auto simp: bc_subscribe_def usize_add_def split: if_splits)
next
  case (rx_clone q y r s' n)
  then show ?case using rxs_ok_new [OF rx_clone(5,4,2)] by (auto simp: bc_receiver_clone_def usize_add_def split: if_splits)
next
  case (try_recv y r n st outs n' res)
  then have "bc_rx_ok (sent y) (n, st, outs)" by (auto simp: bc_rxs_ok_def)
  from recv_locked_refines(1) [OF try_recv(3) _ this try_recv(2)] try_recv(5)
  show ?case using rxs_ok_upd [OF try_recv(4,1), of _ "bst y"] by simp
next
  case (poll_ready y r n st outs w s' n' x)
  then have ok: "bc_rx_ok (sent y) (n, st, outs)" by (auto simp: bc_rxs_ok_def)
  obtain res where res: "bc_try_recv_locked (bst y) n = (n', res)" "to_log res = recv_log x" "s' = bst y"
    using recv_poll_ready [OF poll_ready(2)] by blast
  from recv_locked_refines(1) [OF poll_ready(3) _ ok res(1)] poll_ready(5) res(2,3)
  show ?case using rxs_ok_upd [OF poll_ready(4,1), of _ "bst y"] by simp
next
  case (poll_pending y r n st outs w s' n')
  then have ok: "bc_rx_ok (sent y) (n, st, outs)" by (auto simp: bc_rxs_ok_def)
  have "n' = n"
    using poll_pending(2) by (auto simp: bc_recv_poll_def split: option.splits if_splits prod.splits)
  with ok show ?case using rxs_ok_upd [OF poll_pending(4,1)] recv_poll_keeps [OF poll_pending(2)] by auto
next
  case (rx_drop r y s' ws)
  then have "bc_receivers s' = bc_receivers (bst y) - 1"
    by (auto simp: bc_receiver_drop_def usize_sub_def Let_def split: if_splits sum.splits)
  then show ?case by (rule rxs_ok_drop [OF rx_drop(4,1)])
qed (auto simp: bc_rxs_ok_def bc_op_defs split: if_splits option.splits sum.splits)

lemma parked_ok_step:
  assumes "bc_step y z" "bc_chan_ok c y" "bc_rxs_ok y" "bc_parked_ok y" "length (sent z) < 2 ^ 64"
  shows "bc_parked_ok z"
  using assms
proof (induction rule: bc_step.induct)
  case (send y v s' n ws)
  then have "ws = bc_waiters (bst y)" by (auto simp: bc_op_defs split: if_splits)
  with send show ?case by (auto simp: bc_parked_ok_def unpark_Some)
next
  case (poll_ready y r n st outs w s' n' x)
  then show ?case using recv_poll_ready [OF poll_ready(2)] by (auto simp: bc_parked_ok_def)
next
  case (poll_pending y r n st outs w s' n')
  then have ok: "bc_rx_ok (sent y) (n, st, outs)" by (auto simp: bc_rxs_ok_def)
  have "bc_try_recv_locked (bst y) n = (n', Inl TryRecvEmpty)"
    and s': "s' = bst y\<lparr>bc_waiters := bc_waiters (bst y) @ [w]\<rparr>"
    using recv_poll_pending [OF poll_pending(2)] by simp_all
  from recv_locked_refines(2) [OF poll_pending(3) _ ok this(1)] poll_pending(6)
  have "n' = of_nat (length (sent y))" "0 < bc_senders (bst y)" by auto
  with poll_pending(5) s' show ?case by (auto simp: bc_parked_ok_def)
next
  case (tx_drop y s' ws)
  then have "bc_senders s' = 0 \<and> ws = bc_waiters (bst y) \<or>
      0 < bc_senders s' \<and> bc_waiters s' = bc_waiters (bst y)"
    by (auto simp: bc_op_defs usize_sub_def split: if_splits)
  with tx_drop(5) show ?case by (auto simp: bc_parked_ok_def unpark_Some)
qed (auto simp: bc_parked_ok_def bc_chan_ok_def bc_op_defs split: if_splits option.splits sum.splits)

lemma bc_reach_inv:
  assumes "bc_reach c y" "length (sent y) < 2 ^ 64"
  shows "bc_chan_ok c y \<and> bc_rxs_ok y \<and> bc_parked_ok y"
  using assms
proof (induction rule: bc_reach.induct)
  case (start s n)
  then show ?case
    by (auto simp: bc_channel_def bc_chan_ok_def bc_rxs_ok_def bc_parked_ok_def log_queue_def bc_rx_ok_def
        split: if_splits)
next
  case (start_new s)
  then show ?case
    by (auto simp: bc_sender_new_def bc_chan_ok_def bc_rxs_ok_def bc_parked_ok_def log_queue_def split: if_splits)
next
  case (step y z)
  then have "length (sent y) < 2 ^ 64" using bc_step_len [OF step(2)] by simp
  with step show ?case using chan_ok_step rxs_ok_step parked_ok_step by blast
qed

section \<open>Properties\<close>

text \<open>C13: the channel is a log with a bounded memory. In every run (of fewer than \<open>2^64\<close>
  messages), what a receiver has received so far, by \<open>recv\<close> or \<open>try_recv\<close>, messages and lag reports in order, is exactly the
  log of messages sent from the point of its subscription on: no message is
  lost, repeated or reordered without being counted in a lag report. What it receives next, with either operation, is the
  next message of the log, or a report of how many messages have been overwritten; if there is neither, \<open>try_recv\<close> returns that the channel is
  closed or empty and \<open>recv\<close> that it is closed or waits, in both cases according to whether there are senders.\<close>

theorem broadcast_delivers_log:
  assumes "bc_reach c y" "length (sent y) < 2 ^ 64" "rxs y r = Some (n, st, outs)"
    and "bc_try_recv_locked (bst y) n = (n', res)" "bc_recv_poll (bst y) n w = (s'', n'', x)"
  shows "\<exists>p\<le>length (sent y). n = of_nat p \<and> reads (sent y) st outs p \<and>
    n' = of_nat (fst (log_recv c (sent y) p)) \<and> to_log res = snd (log_recv c (sent y) p) \<and>
    (to_log res = None \<longrightarrow> res = Inl (if bc_senders (bst y) = 0 then TryRecvClosed else TryRecvEmpty)) \<and>
    n'' = of_nat (fst (log_recv c (sent y) p)) \<and>
    (case x of
       Ready v \<Rightarrow> recv_log v = snd (log_recv c (sent y) p) \<and> (v = Inl RecvClosed \<longrightarrow> bc_senders (bst y) = 0)
     | Pending \<Rightarrow> snd (log_recv c (sent y) p) = None \<and> 0 < bc_senders (bst y))"
proof -
  have inv: "bc_chan_ok c y" "bc_rxs_ok y" using bc_reach_inv [OF assms(1,2)] by blast+
  then obtain p where p: "p \<le> length (sent y)" "n = of_nat p" "reads (sent y) st outs p"
    using assms(3) by (fastforce simp: bc_rxs_ok_def bc_rx_ok_def)
  have got: "n' = of_nat (fst (log_recv c (sent y) p)) \<and> to_log res = snd (log_recv c (sent y) p) \<and>
      (res = Inl TryRecvClosed \<longrightarrow> bc_senders (bst y) = 0) \<and> (res = Inl TryRecvEmpty \<longrightarrow> bc_senders (bst y) \<noteq> 0)"
    using try_recv_refines [OF _ assms(2) p(1) _ assms(4) [unfolded p(2)]] inv(1)
    by (auto simp: bc_chan_ok_def)
  have "n'' = n' \<and> (case x of Ready v \<Rightarrow> recv_log v = to_log res \<and> (v = Inl RecvClosed \<longrightarrow> res = Inl TryRecvClosed)
      | Pending \<Rightarrow> res = Inl TryRecvEmpty)"
    using assms(4,5) by (cases x) (auto dest!: recv_poll_ready recv_poll_pending)
  moreover have "to_log res = None \<longrightarrow> res \<in> {Inl TryRecvClosed, Inl TryRecvEmpty}"
    by (cases res rule: to_log.cases) auto
  ultimately show ?thesis using p got by (intro exI [of _ p]) (auto split: poll.splits)
qed

text \<open>C14: no receiver sleeps through a message. In every run, a receiver whose poll returned \<open>Pending\<close>
  and whose waker has not been called since is registered with the channel, has read all
  messages sent, and there is a sender; and sending a message calls the wakers of all of them.\<close>

theorem broadcast_no_lost_wakeup:
  assumes "bc_reach c y" "length (sent y) < 2 ^ 64" "parked y r = Some w"
  shows "w \<in> set (bc_waiters (bst y)) \<and> 0 < bc_senders (bst y) \<and>
    (\<exists>n st outs. rxs y r = Some (n, st, outs) \<and> bc_try_recv_locked (bst y) n = (n, Inl TryRecvEmpty)) \<and>
    (\<forall>v. \<exists>s' k ws. bc_send (bst y) v = (s', Inr k, ws) \<and> w \<in> set ws \<and> k = card (dom (rxs y)))"
proof -
  have inv: "bc_chan_ok c y" "bc_rxs_ok y" "bc_parked_ok y" using bc_reach_inv [OF assms(1,2)] by blast+
  then obtain st outs where w: "w \<in> set (bc_waiters (bst y))" "0 < bc_senders (bst y)"
    and r: "rxs y r = Some (of_nat (length (sent y)), st, outs)"
    using assms(3) unfolding bc_parked_ok_def by blast
  have "bc_try_recv_locked (bst y) (of_nat (length (sent y))) = (of_nat (length (sent y)), Inl TryRecvEmpty)"
    using position_log [OF _ assms(2), of c "length (sent y)"] inv(1) w(2)
    by (simp add: bc_try_recv_locked_def bc_chan_ok_def del: position_None)
  moreover have "bc_receivers (bst y) \<noteq> 0" "bc_receivers (bst y) = card (dom (rxs y))"
    using inv(2) r by (auto simp: bc_rxs_ok_def)
  ultimately show ?thesis
    using w r by (auto simp: bc_send_def push_locked_def Let_def)
qed

section \<open>Concrete runs\<close>

text \<open>A channel that retains one message, with a parked receiver; and one whose only sender is gone.\<close>

definition bc_demo0 :: "nat broadcast_state" where
  "bc_demo0 = \<lparr>bc_queue = [], bc_capacity = 1, bc_next_seq = 0, bc_senders = 1, bc_receivers = 1,
     bc_waiters = [], bc_close_waiters = []\<rparr>"

definition bc_demo_start :: "nat bc_sys" where
  "bc_demo_start = \<lparr>bst = bc_demo0, sent = [], rxs = Map.empty(0 \<mapsto> (0, 0, [])), parked = Map.empty\<rparr>"

definition bc_demo_parked :: "nat bc_sys" where
  "bc_demo_parked = \<lparr>bst = bc_demo0\<lparr>bc_waiters := [7]\<rparr>, sent = [],
     rxs = (Map.empty(0 \<mapsto> (0, 0, [])))(0 \<mapsto> (0, 0, [])), parked = Map.empty(0 \<mapsto> 7)\<rparr>"

definition bc_demo_lag :: "nat bc_sys" where
  "bc_demo_lag = \<lparr>bst = bc_demo0\<lparr>bc_next_seq := 2, bc_queue := [(1, 20)]\<rparr>, sent = [10, 20],
     rxs = Map.empty(0 \<mapsto> (0, 0, [])), parked = Map.empty\<rparr>"

lemma bc_demo_start_reach: "bc_reach 1 bc_demo_start"
  using bc_reach.start [of 1 bc_demo0 0] by (simp add: bc_channel_def bc_demo0_def bc_demo_start_def)

lemma bc_demo_parked_reach: "bc_reach 1 bc_demo_parked"
proof -
  have "bc_step bc_demo_start bc_demo_parked"
    using bc_step.poll_pending [of bc_demo_start 0 0 0 "[]" 7 "bst bc_demo_parked" 0]
    by (simp add: bc_demo_start_def bc_demo_parked_def bc_demo0_def bc_recv_poll_def)
  with bc_demo_start_reach show ?thesis by (rule bc_reach.step)
qed

lemma trim_demo: "trim (Suc 0) [x] = [x]" "trim (Suc 0) [x, z] = [z]"
  by (simp_all add: trim_drop)

lemma bc_demo_lag_reach: "bc_reach 1 bc_demo_lag"
proof -
  let ?y1 = "bc_demo_start\<lparr>bst := bc_demo0\<lparr>bc_next_seq := 1, bc_queue := [(0, 10)]\<rparr>, sent := [10]\<rparr>"
  have "bc_step bc_demo_start ?y1"
    using bc_step.send [of bc_demo_start 10 "bst ?y1" 1 "[]"]
    by (simp add: bc_demo_start_def bc_demo0_def bc_send_def push_locked_def Let_def trim_demo)
  moreover have "bc_step ?y1 bc_demo_lag"
    using bc_step.send [of ?y1 20 "bst bc_demo_lag" 1 "[]"]
    by (simp add: bc_demo_start_def bc_demo_lag_def bc_demo0_def bc_send_def push_locked_def Let_def trim_demo)
  ultimately show ?thesis using bc_demo_start_reach by (blast intro: bc_reach.step)
qed

theorem broadcast_delivers_log_witness:
  "to_log (snd (bc_try_recv_locked (bst bc_demo_lag) 0)) = Some (Inl 1) \<and>
   (\<exists>v. snd (snd (bc_recv_poll (bst bc_demo_lag) 0 7)) = Ready v \<and> recv_log v = Some (Inl 1))"
proof -
  obtain n' res s'' n'' x where r: "bc_try_recv_locked (bst bc_demo_lag) 0 = (n', res)"
    "bc_recv_poll (bst bc_demo_lag) 0 7 = (s'', n'', x)" by (metis prod_cases3 surj_pair)
  have y: "length (sent bc_demo_lag) < 2 ^ 64" "rxs bc_demo_lag 0 = Some (0, 0, [])" "sent bc_demo_lag = [10, 20]"
    by (simp_all add: bc_demo_lag_def)
  from broadcast_delivers_log [OF bc_demo_lag_reach y(1,2) r] r show ?thesis
    by (auto simp: log_recv_def y(3) split: poll.splits)
qed

theorem broadcast_no_lost_wakeup_witness: "\<forall>v. \<exists>s' k ws. bc_send (bst bc_demo_parked) v = (s', Inr k, ws) \<and> 7 \<in> set ws"
proof -
  have "length (sent bc_demo_parked) < 2 ^ 64" "parked bc_demo_parked 0 = Some 7"
    by (simp_all add: bc_demo_parked_def)
  from broadcast_no_lost_wakeup [OF bc_demo_parked_reach this] show ?thesis by blast
qed

text \<open>A closed channel can be opened again. There is a run in which all senders have been dropped and
  the receiver is told that the channel is closed, and in which upgrading a weak sender then succeeds
  and the receiver is told that the channel is open.\<close>

lemma broadcast_weak_upgrade_reopens:
  "\<exists>y s'. bc_reach 1 y \<and> rxs y 0 = Some (0, 0, []) \<and>
     bc_try_recv_locked (bst y) 0 = (0, Inl TryRecvClosed) \<and>
     bc_weak_upgrade (bst y) (0 < bc_senders (bst y) \<or> 0 < bc_receivers (bst y)) = Inr (s', True) \<and>
     bc_try_recv_locked (s' :: nat broadcast_state) 0 = (0, Inl TryRecvEmpty)"
proof -
  let ?y = "bc_demo_start\<lparr>bst := bc_demo0\<lparr>bc_senders := 0\<rparr>\<rparr>"
  have "bc_step bc_demo_start ?y"
    using bc_step.tx_drop [of bc_demo_start "bst ?y" "[]"]
    by (simp add: bc_demo_start_def bc_demo0_def bc_sender_drop_def Let_def)
  with bc_demo_start_reach have "bc_reach 1 ?y" by (rule bc_reach.step)
  then show ?thesis
    by (intro exI [of _ ?y] exI [of _ bc_demo0] conjI)
      (simp_all add: bc_demo_start_def bc_demo0_def bc_try_recv_locked_def bc_weak_upgrade_def usize_add_def usize_max_def)
qed

end
