(* ===== verification/Watch.thy ===== *)
theory Watch
  imports Ffrt_Prelude
begin

text \<open>
  The watch channel (\<open>sync/watch.rs\<close>): many senders publish values, each with the next version number,
  and every receiver remembers the version it has seen last. All operations run under the mutex of
  the shared state; \<open>Ref\<close>, which keeps the mutex locked while it lives, is what a \<open>borrow\<close>
  returns: the value and whether it has changed.
\<close>

record 'a watch_state =
  wt_value :: 'a
  wt_version :: u64
  wt_senders :: nat
  wt_receivers :: nat
  wt_waiters :: "waker list"
  wt_closed_waiters :: "waker list"

datatype wt_recv_error = WtRecvError
datatype 'a wt_send_error = WtSendError 'a

definition wt_channel :: "'a \<Rightarrow> 'a watch_state \<times> u64" where
  "wt_channel init = (\<lparr>wt_value = init, wt_version = 0, wt_senders = 1, wt_receivers = 1,
     wt_waiters = [], wt_closed_waiters = []\<rparr>, 0)"

definition wt_sender_new :: "'a \<Rightarrow> 'a watch_state" where
  "wt_sender_new init = \<lparr>wt_value = init, wt_version = 0, wt_senders = 1, wt_receivers = 0,
     wt_waiters = [], wt_closed_waiters = []\<rparr>"

section \<open>Sender\<close>

definition wt_send :: "'a watch_state \<Rightarrow> 'a \<Rightarrow> 'a watch_state \<times> ('a wt_send_error + unit) \<times> waker list" where
  "wt_send s value =
     (if wt_receivers s = 0 then (s, Inl (WtSendError value), [])
      else (s\<lparr>wt_value := value, wt_version := wt_version s + 1, wt_waiters := []\<rparr>, Inr (), wt_waiters s))"

definition send_replace :: "'a watch_state \<Rightarrow> 'a \<Rightarrow> 'a watch_state \<times> 'a \<times> waker list" where
  "send_replace s value =
     (let old = wt_value s in
      (s\<lparr>wt_value := value, wt_version := wt_version s + 1, wt_waiters := []\<rparr>, old, wt_waiters s))"

definition send_modify :: "'a watch_state \<Rightarrow> ('a \<Rightarrow> 'a) \<Rightarrow> 'a watch_state \<times> waker list" where
  "send_modify s func =
     (s\<lparr>wt_value := func (wt_value s), wt_version := wt_version s + 1, wt_waiters := []\<rparr>, wt_waiters s)"

text \<open>The closure may change the value and then say that it did not.\<close>

definition send_if_modified :: "'a watch_state \<Rightarrow> ('a \<Rightarrow> 'a \<times> bool) \<Rightarrow> 'a watch_state \<times> bool \<times> waker list" where
  "send_if_modified s func = (case func (wt_value s) of (value, modified) \<Rightarrow>
     (let s = s\<lparr>wt_value := value\<rparr> in
      if \<not> modified then (s, False, [])
      else (s\<lparr>wt_version := wt_version s + 1, wt_waiters := []\<rparr>, True, wt_waiters s)))"

definition wt_broadcast :: "'a watch_state \<Rightarrow> 'a \<Rightarrow> 'a watch_state \<times> waker list" where
  "wt_broadcast s value =
     (s\<lparr>wt_value := value, wt_version := wt_version s + 1, wt_waiters := []\<rparr>, wt_waiters s)"

definition wt_sender_borrow :: "'a watch_state \<Rightarrow> 'a \<times> bool" where
  "wt_sender_borrow s = (wt_value s, False)"

definition wt_subscribe :: "'a watch_state \<Rightarrow> ('a watch_state \<times> u64) panicky" where
  "wt_subscribe s = (case usize_add (wt_receivers s) 1 of
     Inl e \<Rightarrow> Inl e
   | Inr n \<Rightarrow> Inr (s\<lparr>wt_receivers := n\<rparr>, wt_version s))"

definition wt_is_closed :: "'a watch_state \<Rightarrow> bool" where
  "wt_is_closed s \<longleftrightarrow> wt_receivers s = 0"

definition wt_sender_clone :: "'a watch_state \<Rightarrow> 'a watch_state panicky" where
  "wt_sender_clone s = (case usize_add (wt_senders s) 1 of Inl e \<Rightarrow> Inl e | Inr n \<Rightarrow> Inr (s\<lparr>wt_senders := n\<rparr>))"

definition wt_sender_drop :: "'a watch_state \<Rightarrow> ('a watch_state \<times> waker list) panicky" where
  "wt_sender_drop s = (case usize_sub (wt_senders s) 1 of
     Inl e \<Rightarrow> Inl e
   | Inr n \<Rightarrow>
       (let s = s\<lparr>wt_senders := n\<rparr> in
        if wt_senders s = 0 then Inr (s\<lparr>wt_waiters := []\<rparr>, wt_waiters s) else Inr (s, [])))"

definition wt_closed_poll :: "'a watch_state \<Rightarrow> waker \<Rightarrow> 'a watch_state \<times> unit poll" where
  "wt_closed_poll s cx =
     (if wt_receivers s = 0 then (s, Ready ())
      else (s\<lparr>wt_closed_waiters := wt_closed_waiters s @ [cx]\<rparr>, Pending))"

section \<open>Receiver\<close>

definition wt_borrow :: "'a watch_state \<Rightarrow> u64 \<Rightarrow> 'a \<times> bool" where
  "wt_borrow s seen = (wt_value s, wt_version s \<noteq> seen)"

definition borrow_and_update :: "'a watch_state \<Rightarrow> u64 \<Rightarrow> u64 \<times> 'a \<times> bool" where
  "borrow_and_update s seen = (wt_version s, wt_value s, wt_version s \<noteq> seen)"

definition has_changed :: "'a watch_state \<Rightarrow> u64 \<Rightarrow> wt_recv_error + bool" where
  "has_changed s seen =
     (if wt_version s \<noteq> seen then Inr True
      else if wt_senders s = 0 then Inl WtRecvError
      else Inr False)"

definition mark_seen :: "'a watch_state \<Rightarrow> u64" where
  "mark_seen s = wt_version s"

definition mark_unchanged :: "'a watch_state \<Rightarrow> u64" where
  "mark_unchanged s = mark_seen s"

definition mark_changed :: "'a watch_state \<Rightarrow> u64" where
  "mark_changed s = wt_version s - 1"

definition borrow_and_update_version :: "'a watch_state \<Rightarrow> u64 \<times> u64" where
  "borrow_and_update_version s = (wt_version s, wt_version s)"

definition wt_receiver_clone :: "'a watch_state \<Rightarrow> u64 \<Rightarrow> ('a watch_state \<times> u64) panicky" where
  "wt_receiver_clone s seen = (case usize_add (wt_receivers s) 1 of
     Inl e \<Rightarrow> Inl e
   | Inr n \<Rightarrow> Inr (s\<lparr>wt_receivers := n\<rparr>, seen))"

definition wt_receiver_drop :: "'a watch_state \<Rightarrow> ('a watch_state \<times> waker list) panicky" where
  "wt_receiver_drop s = (case usize_sub (wt_receivers s) 1 of
     Inl e \<Rightarrow> Inl e
   | Inr n \<Rightarrow>
       (let s = s\<lparr>wt_receivers := n\<rparr> in
        if wt_receivers s = 0 then Inr (s\<lparr>wt_closed_waiters := []\<rparr>, wt_closed_waiters s) else Inr (s, [])))"

definition changed_poll ::
  "'a watch_state \<Rightarrow> u64 \<Rightarrow> waker \<Rightarrow> 'a watch_state \<times> u64 \<times> (wt_recv_error + unit) poll" where
  "changed_poll s seen cx =
     (if wt_version s \<noteq> seen then (s, wt_version s, Ready (Inr ()))
      else if wt_senders s = 0 then (s, seen, Ready (Inl WtRecvError))
      else (s\<lparr>wt_waiters := wt_waiters s @ [cx]\<rparr>, seen, Pending))"

definition wait_for_poll ::
  "'a watch_state \<Rightarrow> u64 \<Rightarrow> ('a \<Rightarrow> bool) \<Rightarrow> waker \<Rightarrow> 'a watch_state \<times> u64 \<times> (wt_recv_error + 'a \<times> bool) poll" where
  "wait_for_poll s seen predicate cx =
     (let changed = wt_version s \<noteq> seen in
      if predicate (wt_value s) then (s, wt_version s, Ready (Inr (wt_value s, changed)))
      else if wt_senders s = 0 then (s, seen, Ready (Inl WtRecvError))
      else (s\<lparr>wt_waiters := wt_waiters s @ [cx]\<rparr>, seen, Pending))"

section \<open>Clients\<close>

text \<open>
  What a sender can do with the value, with whether it publishes a new version and the wakers it calls.
\<close>

datatype 'a sender_op =
  Send 'a | SendReplace 'a | SendModify "'a \<Rightarrow> 'a" | SendIfModified "'a \<Rightarrow> 'a \<times> bool" | SendBroadcast 'a

fun sender_do :: "'a watch_state \<Rightarrow> 'a sender_op \<Rightarrow> 'a watch_state \<times> bool \<times> waker list" where
  "sender_do s (Send v) = (case wt_send s v of (s', r, ws) \<Rightarrow> (s', r = Inr (), ws))"
| "sender_do s (SendReplace v) = (case send_replace s v of (s', _, ws) \<Rightarrow> (s', True, ws))"
| "sender_do s (SendModify f) = (case send_modify s f of (s', ws) \<Rightarrow> (s', True, ws))"
| "sender_do s (SendIfModified f) = send_if_modified s f"
| "sender_do s (SendBroadcast v) = (case wt_broadcast s v of (s', ws) \<Rightarrow> (s', True, ws))"

text \<open>
  What the operation means: the value it leaves, given the one before, and whether this is a new version, given whether there are
  receivers. Only \<open>send_if_modified\<close> can change the value without making a new version of it.
\<close>

fun meant_value :: "bool \<Rightarrow> 'a \<Rightarrow> 'a sender_op \<Rightarrow> 'a" where
  "meant_value listening old (Send v) = (if listening then v else old)"
| "meant_value listening old (SendReplace v) = v"
| "meant_value listening old (SendModify f) = f old"
| "meant_value listening old (SendIfModified f) = fst (f old)"
| "meant_value listening old (SendBroadcast v) = v"

fun meant_version :: "bool \<Rightarrow> 'a \<Rightarrow> 'a sender_op \<Rightarrow> bool" where
  "meant_version listening old (Send v) \<longleftrightarrow> listening"
| "meant_version listening old (SendIfModified f) \<longleftrightarrow> snd (f old)"
| "meant_version listening old _ \<longleftrightarrow> True"

definition record_op :: "bool \<Rightarrow> 'a sender_op \<Rightarrow> 'a list \<Rightarrow> 'a list" where
  "record_op listening a vs = (if meant_version listening (last vs) a then vs else butlast vs) @ [meant_value listening (last vs) a]"

text \<open>
  A system: the shared state, the values of the versions published so far, as the operations of the senders mean them, the live receivers
  with the version each has seen last (as \<open>seen\<close> and as a number, \<open>-1\<close> for a first value marked as
  changed), the parked receivers with the version they looked at, and the wakers parked in \<open>closed\<close>.
\<close>

record 'a wt_sys =
  wst :: "'a watch_state"
  versions :: "'a list"
  wrxs :: "nat \<rightharpoonup> u64 \<times> int"
  wparked :: "nat \<rightharpoonup> waker"
  looked_at :: "nat \<Rightarrow> nat"
  cparked :: "waker set"

definition latest :: "'a wt_sys \<Rightarrow> nat" where
  "latest y = length (versions y) - 1"

inductive wt_step :: "'a wt_sys \<Rightarrow> 'a wt_sys \<Rightarrow> bool" where
  operate: "0 < wt_senders (wst y) \<Longrightarrow> sender_do (wst y) a = (s', published, ws) \<Longrightarrow>
     wt_step y (y\<lparr>wst := s', versions := record_op (wrxs y \<noteq> Map.empty) a (versions y), wparked := unpark (wparked y) ws\<rparr>)"
| tx_clone: "0 < wt_senders (wst y) \<Longrightarrow> wt_sender_clone (wst y) = Inr s' \<Longrightarrow> wt_step y (y\<lparr>wst := s'\<rparr>)"
| tx_drop: "0 < wt_senders (wst y) \<Longrightarrow> wt_sender_drop (wst y) = Inr (s', ws) \<Longrightarrow>
     wt_step y (y\<lparr>wst := s', wparked := unpark (wparked y) ws\<rparr>)"
| tx_closed: "0 < wt_senders (wst y) \<Longrightarrow> wt_closed_poll (wst y) w = (s', Pending) \<Longrightarrow>
     wt_step y (y\<lparr>wst := s', cparked := insert w (cparked y)\<rparr>)"
| subscribe: "0 < wt_senders (wst y) \<Longrightarrow> wrxs y r = None \<Longrightarrow> wt_subscribe (wst y) = Inr (s', seen) \<Longrightarrow>
     wt_step y (y\<lparr>wst := s', wrxs := (wrxs y)(r \<mapsto> (seen, int (latest y)))\<rparr>)"
| rx_clone: "wrxs y q = Some (seen, p) \<Longrightarrow> wrxs y r = None \<Longrightarrow> wt_receiver_clone (wst y) seen = Inr (s', seen') \<Longrightarrow>
     wt_step y (y\<lparr>wst := s', wrxs := (wrxs y)(r \<mapsto> (seen', p))\<rparr>)"
| rx_drop: "r \<in> dom (wrxs y) \<Longrightarrow> wt_receiver_drop (wst y) = Inr (s', ws) \<Longrightarrow>
     wt_step y (y\<lparr>wst := s', wrxs := (wrxs y)(r := None), wparked := (wparked y)(r := None),
       cparked := cparked y - set ws\<rparr>)"
| see: "wrxs y r = Some (seen, p) \<Longrightarrow>
     seen' \<in> {fst (borrow_and_update (wst y) seen), mark_unchanged (wst y), fst (borrow_and_update_version (wst y))} \<Longrightarrow>
     wt_step y (y\<lparr>wrxs := (wrxs y)(r \<mapsto> (seen', int (latest y))), wparked := (wparked y)(r := None)\<rparr>)"
| unsee: "wrxs y r = Some (seen, p) \<Longrightarrow>
     wt_step y (y\<lparr>wrxs := (wrxs y)(r \<mapsto> (mark_changed (wst y), int (latest y) - 1)), wparked := (wparked y)(r := None)\<rparr>)"
| changed_ready: "wrxs y r = Some (seen, p) \<Longrightarrow> changed_poll (wst y) seen w = (s', seen', Ready (Inr ())) \<Longrightarrow>
     wt_step y (y\<lparr>wst := s', wrxs := (wrxs y)(r \<mapsto> (seen', int (latest y))), wparked := (wparked y)(r := None)\<rparr>)"
| changed_closed: "wrxs y r = Some (seen, p) \<Longrightarrow> changed_poll (wst y) seen w = (s', seen', Ready (Inl e)) \<Longrightarrow>
     wt_step y (y\<lparr>wst := s', wrxs := (wrxs y)(r \<mapsto> (seen', p)), wparked := (wparked y)(r := None)\<rparr>)"
| changed_pending: "wrxs y r = Some (seen, p) \<Longrightarrow> changed_poll (wst y) seen w = (s', seen', Pending) \<Longrightarrow>
     wt_step y (y\<lparr>wst := s', wrxs := (wrxs y)(r \<mapsto> (seen', p)), wparked := (wparked y)(r \<mapsto> w),
       looked_at := (looked_at y)(r := latest y)\<rparr>)"
| wait_ready: "wrxs y r = Some (seen, p) \<Longrightarrow> wait_for_poll (wst y) seen P w = (s', seen', Ready (Inr x)) \<Longrightarrow>
     wt_step y (y\<lparr>wst := s', wrxs := (wrxs y)(r \<mapsto> (seen', int (latest y))), wparked := (wparked y)(r := None)\<rparr>)"
| wait_closed: "wrxs y r = Some (seen, p) \<Longrightarrow> wait_for_poll (wst y) seen P w = (s', seen', Ready (Inl e)) \<Longrightarrow>
     wt_step y (y\<lparr>wst := s', wrxs := (wrxs y)(r \<mapsto> (seen', p)), wparked := (wparked y)(r := None)\<rparr>)"
| wait_pending: "wrxs y r = Some (seen, p) \<Longrightarrow> wait_for_poll (wst y) seen P w = (s', seen', Pending) \<Longrightarrow>
     wt_step y (y\<lparr>wst := s', wrxs := (wrxs y)(r \<mapsto> (seen', p)), wparked := (wparked y)(r \<mapsto> w),
       looked_at := (looked_at y)(r := latest y)\<rparr>)"

inductive wt_reach :: "'a wt_sys \<Rightarrow> bool" where
  start: "wt_channel init = (s, seen) \<Longrightarrow>
     wt_reach \<lparr>wst = s, versions = [init], wrxs = Map.empty(0 \<mapsto> (seen, 0)), wparked = Map.empty,
       looked_at = (\<lambda>_. 0), cparked = {}\<rparr>"
| start_new: "wt_reach \<lparr>wst = wt_sender_new init, versions = [init], wrxs = Map.empty, wparked = Map.empty,
       looked_at = (\<lambda>_. 0), cparked = {}\<rparr>"
| step: "wt_reach y \<Longrightarrow> wt_step y z \<Longrightarrow> wt_reach z"

lemmas wt_op_defs = wt_send_def send_replace_def send_modify_def send_if_modified_def wt_broadcast_def
  wt_subscribe_def wt_sender_clone_def wt_sender_drop_def wt_closed_poll_def borrow_and_update_def
  mark_seen_def mark_unchanged_def mark_changed_def borrow_and_update_version_def wt_receiver_clone_def
  wt_receiver_drop_def wait_for_poll_def usize_add_def Let_def

text \<open>
  Every operation leaves the value and reports the publication that it means; when it publishes, it takes the next version and wakes all waiters.
\<close>

lemma sender_do_meant:
  assumes "sender_do s a = (s', published, ws)"
  shows "wt_value s' = meant_value (wt_receivers s \<noteq> 0) (wt_value s) a" "published = meant_version (wt_receivers s \<noteq> 0) (wt_value s) a"
  using assms by (cases a; (auto simp: wt_op_defs split: if_splits prod.splits; fail))+

lemma sender_do_effect:
  assumes "sender_do s a = (s', published, ws)"
  shows "wt_version s' = (if published then wt_version s + 1 else wt_version s)"
    "wt_waiters s' = (if published then [] else wt_waiters s)" "ws = (if published then wt_waiters s else [])"
    "wt_senders s' = wt_senders s" "wt_receivers s' = wt_receivers s" "wt_closed_waiters s' = wt_closed_waiters s"
  using assms by (cases a; (auto simp: wt_op_defs split: if_splits prod.splits; fail))+

text \<open>Version numbers that are less than \<open>2^64\<close> apart are told apart by their words.\<close>

lemma seen_eq_iff:
  assumes "- 1 \<le> p" "p \<le> int n" "n < 2 ^ 64 - 1"
  shows "(of_nat n :: u64) = of_int p \<longleftrightarrow> int n = p"
proof -
  have "(of_nat n :: u64) = of_int p \<longleftrightarrow> (of_int (int n - p) :: u64) = 0" by simp
  also have "\<dots> \<longleftrightarrow> (2 ^ 64 :: int) dvd int n - p"
    by (simp only: word_of_int_eq_0_iff) simp
  also have "\<dots> \<longleftrightarrow> int n - p = 0"
    using assms zdvd_imp_le [of "2 ^ 64" "int n - p"] by force
  finally show ?thesis by simp
qed

definition wt_value_ok :: "'a wt_sys \<Rightarrow> bool" where
  "wt_value_ok y \<longleftrightarrow> versions y \<noteq> [] \<and> wt_value (wst y) = last (versions y) \<and> wt_version (wst y) = of_nat (latest y)"

definition wt_seen_ok :: "'a wt_sys \<Rightarrow> bool" where
  "wt_seen_ok y \<longleftrightarrow> (\<forall>r seen p. wrxs y r = Some (seen, p) \<longrightarrow> seen = of_int p \<and> - 1 \<le> p \<and> p \<le> int (latest y))"

definition wt_count_ok :: "'a wt_sys \<Rightarrow> bool" where
  "wt_count_ok y \<longleftrightarrow> finite (dom (wrxs y)) \<and> wt_receivers (wst y) = card (dom (wrxs y))"

definition wt_parked_ok :: "'a wt_sys \<Rightarrow> bool" where
  "wt_parked_ok y \<longleftrightarrow>
     (\<forall>r w. wparked y r = Some w \<longrightarrow> w \<in> set (wt_waiters (wst y)) \<and> 0 < wt_senders (wst y) \<and>
        looked_at y r = latest y \<and> r \<in> dom (wrxs y)) \<and>
     (\<forall>w\<in>cparked y. w \<in> set (wt_closed_waiters (wst y)) \<and> 0 < wt_receivers (wst y))"

lemma counted_empty: "wt_count_ok y \<Longrightarrow> wrxs y \<noteq> Map.empty \<longleftrightarrow> wt_receivers (wst y) \<noteq> 0"
  by (auto simp: wt_count_ok_def)

lemma latest_record:
  assumes "versions y \<noteq> []" "meant_version l (last (versions y)) a = b"
  shows "length (record_op l a (versions y)) - 1 = (if b then Suc (latest y) else latest y)" "record_op l a (versions y) \<noteq> []"
    "last (record_op l a (versions y)) = meant_value l (last (versions y)) a"
  using assms by (cases "versions y"; auto simp: record_op_def latest_def)+

text \<open>An operation of a sender, on the recorded versions.\<close>

lemma operate_versions:
  assumes "wt_value_ok y" "wt_count_ok y" "sender_do (wst y) a = (s', published, ws)"
    and z: "z = y\<lparr>wst := s', versions := record_op (wrxs y \<noteq> Map.empty) a (versions y), wparked := m\<rparr>"
  shows "latest z = (if published then Suc (latest y) else latest y)" "versions z \<noteq> []" "last (versions z) = wt_value s'"
  using latest_record [of y "wrxs y \<noteq> Map.empty" a published] sender_do_meant [OF assms(3)] assms(1) counted_empty [OF assms(2)] z
  by (auto simp: wt_value_ok_def latest_def)

lemma wt_value_ok_step:
  assumes "wt_step y z" "wt_value_ok y" "wt_count_ok y"
  shows "wt_value_ok z"
  using assms
proof cases
  case (operate a s' published ws)
  with assms(2) show ?thesis using operate_versions [OF assms(2,3) operate(3,1)] sender_do_effect(1) [OF operate(3)]
    by (auto simp: wt_value_ok_def)
qed (auto simp: wt_value_ok_def latest_def wt_op_defs changed_poll_def split: if_splits sum.splits)

lemma wt_seen_ok_step:
  assumes "wt_step y z" "wt_value_ok y" "wt_count_ok y" "wt_seen_ok y"
  shows "wt_seen_ok z"
  using assms
proof cases
  case (operate a s' published ws)
  have "latest y \<le> latest z" using operate_versions(1) [OF assms(2,3) operate(3,1)] by simp
  with operate assms(4) show ?thesis by (fastforce simp: wt_seen_ok_def)
next
  case rx_clone
  with assms(4) show ?thesis by (auto simp: wt_seen_ok_def latest_def wt_op_defs split: if_splits)
qed (auto simp: wt_seen_ok_def wt_value_ok_def latest_def wt_op_defs changed_poll_def split: if_splits sum.splits)

lemma insert_dom_same: "m r = Some x \<Longrightarrow> insert r (dom m) = dom m"
  by auto

lemma wt_count_ok_step:
  assumes "wt_step y z" "wt_count_ok y"
  shows "wt_count_ok z"
  using assms
proof cases
  case (operate a s' published ws)
  with assms(2) show ?thesis using sender_do_effect [OF operate(3)] by (simp add: wt_count_ok_def)
next
  case (subscribe r s' seen)
  then have "r \<notin> dom (wrxs y)" by auto
  with subscribe assms(2) show ?thesis by (auto simp: wt_count_ok_def wt_op_defs split: if_splits)
next
  case (rx_clone q seen p r s' seen')
  then have "r \<notin> dom (wrxs y)" by auto
  with rx_clone assms(2) show ?thesis by (auto simp: wt_count_ok_def wt_op_defs split: if_splits)
next
  case (rx_drop r s' ws)
  with assms(2) have "card (dom (wrxs y) - {r}) = wt_receivers (wst y) - 1" by (simp add: wt_count_ok_def)
  with rx_drop assms(2) show ?thesis
    by (auto simp: wt_count_ok_def wt_op_defs usize_sub_def split: if_splits)
qed (auto simp: wt_count_ok_def wt_op_defs changed_poll_def insert_dom_same split: if_splits sum.splits)

lemma wt_parked_ok_step:
  assumes "wt_step y z" "wt_value_ok y" "wt_count_ok y" "wt_parked_ok y"
  shows "wt_parked_ok z"
  using assms(1)
proof cases
  case (operate a s' published ws)
  with assms(4) show ?thesis
    using sender_do_effect [OF operate(3)] operate_versions(1) [OF assms(2,3) operate(3,1)] by (simp add: wt_parked_ok_def unpark_Some)
next
  case (rx_drop r s' ws)
  then show ?thesis using assms(4)
    by (auto simp: wt_parked_ok_def latest_def wt_op_defs usize_sub_def split: if_splits)
qed (use assms(4) in \<open>auto simp: wt_parked_ok_def latest_def wt_op_defs changed_poll_def unpark_Some usize_sub_def
       split: if_splits sum.splits\<close>)

lemma wt_reach_inv:
  assumes "wt_reach y"
  shows "wt_value_ok y \<and> wt_seen_ok y \<and> wt_count_ok y \<and> wt_parked_ok y"
  using assms
proof induction
  case start
  then show ?case
    by (auto simp: wt_channel_def wt_value_ok_def wt_seen_ok_def wt_count_ok_def wt_parked_ok_def latest_def)
next
  case start_new
  then show ?case
    by (simp add: wt_sender_new_def wt_value_ok_def wt_seen_ok_def wt_count_ok_def wt_parked_ok_def latest_def)
next
  case (step y z)
  then show ?case using wt_value_ok_step wt_seen_ok_step wt_count_ok_step wt_parked_ok_step by blast
qed

section \<open>Properties\<close>

text \<open>C15: \<open>changed\<close> reports exactly the unseen versions. In every run with fewer than \<open>2^64 - 1\<close> versions,
  polling \<open>changed\<close> for a receiver that has last seen version \<open>p\<close> succeeds at once iff there is a later one (and then
  marks the latest as seen), reports the closed channel iff there is none and no sender is left, and waits otherwise;
  \<open>has_changed\<close> agrees with it. The value that the receiver borrows is that of the latest version, that is what the senders' operations
  so far, applied in turn to the first value, have made of it; \<open>wait_for\<close> returns this value iff it satisfies the predicate; and the next operation of
  a sender leaves the value it means, makes a new version of it iff it means to, where \<open>send\<close> needs a receiver, and \<open>send_replace\<close> returns the one before.\<close>

theorem watch_changed_iff_unseen:
  assumes "wt_reach y" "latest y < 2 ^ 64 - 1" "wrxs y r = Some (seen, p)"
    and "changed_poll (wst y) seen w = (s', seen', res)"
  shows "p \<le> int (latest y) \<and>
    (res = Ready (Inr ()) \<longleftrightarrow> p < int (latest y)) \<and>
    (res = Ready (Inl WtRecvError) \<longleftrightarrow> p = int (latest y) \<and> wt_senders (wst y) = 0) \<and>
    (res = Pending \<longleftrightarrow> p = int (latest y) \<and> wt_senders (wst y) \<noteq> 0) \<and>
    seen' = of_nat (latest y) \<and>
    (has_changed (wst y) seen = Inr True \<longleftrightarrow> res = Ready (Inr ())) \<and>
    (has_changed (wst y) seen = Inl WtRecvError \<longleftrightarrow> res = Ready (Inl WtRecvError)) \<and>
    wt_borrow (wst y) seen = (versions y ! latest y, p \<noteq> int (latest y)) \<and>
    borrow_and_update (wst y) seen = (of_nat (latest y), versions y ! latest y, p \<noteq> int (latest y)) \<and>
    (\<forall>P x. snd (snd (wait_for_poll (wst y) seen P w)) = Ready (Inr x) \<longleftrightarrow> P (versions y ! latest y) \<and> x = (versions y ! latest y, p \<noteq> int (latest y))) \<and>
    (\<forall>v. fst (snd (send_replace (wst y) v)) = versions y ! latest y) \<and>
    (\<forall>a s' published ws. sender_do (wst y) a = (s', published, ws) \<longrightarrow>
       wt_value s' = meant_value True (versions y ! latest y) a \<and> published = meant_version True (versions y ! latest y) a)"
proof -
  have inv: "wt_value_ok y" "wt_seen_ok y" "wt_count_ok y" using wt_reach_inv [OF assms(1)] by blast+
  then have p: "seen = of_int p" "- 1 \<le> p" "p \<le> int (latest y)"
    using assms(3) by (auto simp: wt_seen_ok_def)
  have v: "wt_value (wst y) = versions y ! latest y"
    using inv(1) by (simp add: wt_value_ok_def latest_def last_conv_nth)
  have recv: "wt_receivers (wst y) \<noteq> 0" using counted_empty [OF inv(3)] assms(3) by auto
  have "\<forall>a s' published ws. sender_do (wst y) a = (s', published, ws) \<longrightarrow>
      wt_value s' = meant_value True (versions y ! latest y) a \<and> published = meant_version True (versions y ! latest y) a"
    using sender_do_meant [where s = "wst y"] recv v by simp
  with p v show ?thesis
    using assms(4) inv(1) seen_eq_iff [OF p(2,3) assms(2)]
    by (auto simp: changed_poll_def has_changed_def wt_borrow_def borrow_and_update_def wait_for_poll_def send_replace_def wt_value_ok_def split: if_splits)
qed

text \<open>C16: no receiver sleeps through a version, and no sender through the end of the receivers. In every run, a
  receiver whose poll of \<open>changed\<close> or \<open>wait_for\<close> returned \<open>Pending\<close> and whose waker has not been called since
  has looked at the latest version, and every way of publishing a version and the drop of the last
  sender call its waker; a task that waits in \<open>closed\<close> has its waker called by the drop of the last
  receiver.\<close>

theorem watch_no_lost_wakeup:
  assumes "wt_reach y"
  shows "(\<forall>r w. wparked y r = Some w \<longrightarrow>
      looked_at y r = latest y \<and> 0 < wt_senders (wst y) \<and>
      (\<forall>a s' ws. sender_do (wst y) a = (s', True, ws) \<longrightarrow> w \<in> set ws) \<and>
      (wt_senders (wst y) = 1 \<longrightarrow> (\<exists>s' ws. wt_sender_drop (wst y) = Inr (s', ws) \<and> w \<in> set ws))) \<and>
    (\<forall>w \<in> cparked y. dom (wrxs y) \<noteq> {} \<and>
      (card (dom (wrxs y)) = 1 \<longrightarrow> (\<exists>s' ws. wt_receiver_drop (wst y) = Inr (s', ws) \<and> w \<in> set ws)))"
proof -
  have inv: "wt_parked_ok y" "wt_count_ok y" using wt_reach_inv [OF assms] by blast+
  have pub [simp]: "ws = wt_waiters (wst y)" if "sender_do (wst y) a = (s', True, ws)" for a s' ws
    using sender_do_effect(3) [OF that] by simp
  show ?thesis
    using inv by (auto simp: wt_parked_ok_def wt_count_ok_def wt_sender_drop_def wt_receiver_drop_def usize_sub_def Let_def dest!: pub)
qed

section \<open>Concrete runs\<close>

definition wt_demo0 :: "nat watch_state" where
  "wt_demo0 = \<lparr>wt_value = 1, wt_version = 0, wt_senders = 1, wt_receivers = 1, wt_waiters = [], wt_closed_waiters = []\<rparr>"

definition wt_demo_start :: "nat wt_sys" where
  "wt_demo_start = \<lparr>wst = wt_demo0, versions = [1], wrxs = Map.empty(0 \<mapsto> (0, 0)), wparked = Map.empty,
     looked_at = (\<lambda>_. 0), cparked = {}\<rparr>"

definition wt_demo_sent :: "nat wt_sys" where
  "wt_demo_sent = wt_demo_start\<lparr>wst := wt_demo0\<lparr>wt_value := 2, wt_version := 1\<rparr>, versions := [1, 2]\<rparr>"

definition wt_demo_parked :: "nat wt_sys" where
  "wt_demo_parked = wt_demo_start\<lparr>wst := wt_demo0\<lparr>wt_waiters := [7]\<rparr>, wparked := Map.empty(0 \<mapsto> 7)\<rparr>"

lemma wt_demo_start_reach: "wt_reach wt_demo_start"
  using wt_reach.start [of 1 wt_demo0 0] by (simp add: wt_channel_def wt_demo0_def wt_demo_start_def)

lemma wt_demo_sent_reach: "wt_reach wt_demo_sent"
proof -
  have "wt_step wt_demo_start wt_demo_sent"
    using wt_step.operate [of wt_demo_start "Send 2" "wst wt_demo_sent" True "[]"]
    by (simp add: wt_demo_start_def wt_demo_sent_def wt_demo0_def wt_send_def record_op_def)
  with wt_demo_start_reach show ?thesis by (rule wt_reach.step)
qed

lemma wt_demo_parked_reach: "wt_reach wt_demo_parked"
proof -
  have "wt_step wt_demo_start wt_demo_parked"
    using wt_step.changed_pending [of wt_demo_start 0 0 0 7 "wst wt_demo_parked" 0]
    by (simp add: wt_demo_start_def wt_demo_parked_def wt_demo0_def changed_poll_def latest_def fun_upd_idem)
  with wt_demo_start_reach show ?thesis by (rule wt_reach.step)
qed

theorem watch_changed_iff_unseen_witness:
  "snd (snd (changed_poll (wst wt_demo_sent) 0 7)) = Ready (Inr ()) \<and> wt_borrow (wst wt_demo_sent) 0 = (2, True)"
proof -
  obtain s' seen' res where r: "changed_poll (wst wt_demo_sent) 0 7 = (s', seen', res)"
    by (metis prod.exhaust)
  have y: "latest wt_demo_sent = 1" "wrxs wt_demo_sent 0 = Some (0, 0)" "versions wt_demo_sent = [1, 2]"
    by (simp_all add: wt_demo_sent_def wt_demo_start_def latest_def)
  then have "latest wt_demo_sent < 2 ^ 64 - 1" by simp
  from watch_changed_iff_unseen [OF wt_demo_sent_reach this y(2) r] show ?thesis
    by (simp add: r y)
qed

theorem watch_no_lost_wakeup_witness:
  "looked_at wt_demo_parked 0 = latest wt_demo_parked \<and>
   (\<exists>s' ws. sender_do (wst wt_demo_parked) (Send 2) = (s', True, ws) \<and> 7 \<in> set ws)"
proof -
  have p: "wparked wt_demo_parked 0 = Some 7" by (simp add: wt_demo_parked_def)
  moreover have "\<exists>s' ws. sender_do (wst wt_demo_parked) (Send 2) = (s', True, ws)"
    by (simp add: wt_demo_parked_def wt_demo0_def wt_send_def)
  ultimately show ?thesis using watch_no_lost_wakeup [OF wt_demo_parked_reach] by blast
qed

end
