(* ===== verification/Mpsc.thy ===== *)
theory Mpsc
  imports Ffrt_Prelude "HOL-Library.Multiset"
begin

text \<open>
  The multi-producer channels (\<open>signal/mpsc.rs\<close>), bounded and unbounded, which share their state. Each operation
  holds the FFRT mutex of \<open>Shared\<close>; its effects on others are the wakers it calls and
  whether it broadcasts on the condition variable on which the blocking operations wait.
\<close>

datatype 'a mp_send_error = MpSendError 'a
datatype 'a try_send_error = Full 'a | Closed 'a
datatype mp_try_recv_error = Empty | Disconnected
datatype 'a send_timeout_error = SendTimeout 'a | SendClosed 'a
datatype recv_timeout_error = RecvTimeout | RecvTimeoutClosed

record 'a mp_inner =
  mp_queue :: "'a list"
  mp_capacity :: "nat option"
  mp_reserved :: nat
  mp_sender_count :: nat
  mp_receiver_alive :: bool
  mp_recv_waker :: "waker option"
  mp_send_wakers :: "waker list"
  mp_close_waiters :: "waker list"

definition shared_new :: "nat option \<Rightarrow> 'a mp_inner" where
  "shared_new capacity = \<lparr>mp_queue = [], mp_capacity = capacity, mp_reserved = 0, mp_sender_count = 1,
     mp_receiver_alive = True, mp_recv_waker = None, mp_send_wakers = [], mp_close_waiters = []\<rparr>"

definition unbounded_channel :: "'a mp_inner" where
  "unbounded_channel = shared_new None"

definition mp_channel :: "nat \<Rightarrow> 'a mp_inner panicky" where
  "mp_channel capacity =
     (if \<not> capacity > 0 then Inl ''mpsc bounded channel requires positive capacity''
      else Inr (shared_new (Some capacity)))"

text \<open>The conditions that many of the operations test.\<close>

definition mp_full :: "'a mp_inner \<Rightarrow> bool" where
  "mp_full s = (case mp_capacity s of None \<Rightarrow> False | Some cap \<Rightarrow> length (mp_queue s) + mp_reserved s \<ge> cap)"

definition disconnected :: "'a mp_inner \<Rightarrow> bool" where
  "disconnected s \<longleftrightarrow> mp_sender_count s = 0 \<or> (\<not> mp_receiver_alive s \<and> mp_reserved s = 0)"

text \<open>A message is pushed, the waker of the receiver taken and called, and the condition broadcast.\<close>

definition recv_waker_list :: "'a mp_inner \<Rightarrow> waker list" where
  "recv_waker_list s = (case mp_recv_waker s of None \<Rightarrow> [] | Some w \<Rightarrow> [w])"

definition push_value :: "'a mp_inner \<Rightarrow> 'a \<Rightarrow> 'a mp_inner \<times> waker list \<times> bool" where
  "push_value s value = (s\<lparr>mp_queue := mp_queue s @ [value], mp_recv_waker := None\<rparr>, recv_waker_list s, True)"

section \<open>Bounded sender\<close>

definition mp_try_send :: "'a mp_inner \<Rightarrow> 'a \<Rightarrow> 'a mp_inner \<times> ('a try_send_error + unit) \<times> waker list \<times> bool" where
  "mp_try_send s value =
     (if \<not> mp_receiver_alive s then (s, Inl (Closed value), [], False)
      else if mp_full s then (s, Inl (Full value), [], False)
      else (case push_value s value of (s', ws, b) \<Rightarrow> (s', Inr (), ws, b)))"

text \<open>One round of the loop of \<open>blocking_send\<close> (\<open>None\<close>: it waits on the condition), and the loop over the states it finds.\<close>

definition blocking_send_round ::
  "'a mp_inner \<Rightarrow> 'a \<Rightarrow> ('a mp_inner \<times> ('a mp_send_error + unit) \<times> waker list \<times> bool) option" where
  "blocking_send_round s value =
     (if \<not> mp_receiver_alive s then Some (s, Inl (MpSendError value), [], False)
      else if mp_full s then None
      else (case push_value s value of (s', ws, b) \<Rightarrow> Some (s', Inr (), ws, b)))"

fun blocking_send ::
  "'a mp_inner list \<Rightarrow> 'a \<Rightarrow> ('a mp_inner \<times> ('a mp_send_error + unit) \<times> waker list \<times> bool) option" where
  "blocking_send [] value = None"
| "blocking_send (s # ss) value = (case blocking_send_round s value of
     Some r \<Rightarrow> Some r
   | None \<Rightarrow> blocking_send ss value)"

definition mp_sender_is_closed :: "'a mp_inner \<Rightarrow> bool" where
  "mp_sender_is_closed s \<longleftrightarrow> \<not> mp_receiver_alive s"

definition mp_available :: "'a mp_inner \<Rightarrow> nat panicky" where
  "mp_available s = (case mp_capacity s of
     None \<Rightarrow> Inl ''bounded sender has no capacity''
   | Some cap \<Rightarrow> Inr (cap - (length (mp_queue s) + mp_reserved s)))"

definition reserve_now :: "'a mp_inner \<Rightarrow> nat \<Rightarrow> ('a mp_inner \<times> (unit try_send_error + unit)) panicky" where
  "reserve_now s permits =
     (if \<not> mp_receiver_alive s then Inr (s, Inl (Closed ()))
      else (case mp_capacity s of
        None \<Rightarrow> Inl ''bounded channel''
      | Some capacity \<Rightarrow>
          if permits > capacity - (length (mp_queue s) + mp_reserved s) then Inr (s, Inl (Full ()))
          else Inr (s\<lparr>mp_reserved := mp_reserved s + permits\<rparr>, Inr ())))"

definition poll_reserve ::
  "'a mp_inner \<Rightarrow> nat \<Rightarrow> waker \<Rightarrow> ('a mp_inner \<times> (unit mp_send_error + unit) poll) panicky" where
  "poll_reserve s permits cx =
     (if \<not> mp_receiver_alive s then Inr (s, Ready (Inl (MpSendError ())))
      else (case mp_capacity s of
        None \<Rightarrow> Inl ''bounded channel''
      | Some capacity \<Rightarrow>
          if permits \<le> capacity - (length (mp_queue s) + mp_reserved s)
          then Inr (s\<lparr>mp_reserved := mp_reserved s + permits\<rparr>, Ready (Inr ()))
          else Inr (s\<lparr>mp_send_wakers := mp_send_wakers s @ [cx]\<rparr>, Pending)))"

definition mp_sender_clone :: "'a mp_inner \<Rightarrow> 'a mp_inner panicky" where
  "mp_sender_clone s = (case usize_add (mp_sender_count s) 1 of Inl e \<Rightarrow> Inl e | Inr n \<Rightarrow> Inr (s\<lparr>mp_sender_count := n\<rparr>))"

definition mp_sender_drop :: "'a mp_inner \<Rightarrow> ('a mp_inner \<times> waker list \<times> bool) panicky" where
  "mp_sender_drop s = (case usize_sub (mp_sender_count s) 1 of
     Inl e \<Rightarrow> Inl e
   | Inr n \<Rightarrow>
       (let s = s\<lparr>mp_sender_count := n\<rparr> in
        if mp_sender_count s = 0 \<or> (\<not> mp_receiver_alive s \<and> mp_reserved s = 0)
        then Inr (s\<lparr>mp_recv_waker := None\<rparr>, recv_waker_list s, True)
        else Inr (s, [], False)))"

text \<open>\<open>WeakSender::upgrade\<close>, with whether the shared state is still there.\<close>

definition mp_weak_upgrade :: "'a mp_inner \<Rightarrow> bool \<Rightarrow> ('a mp_inner \<times> bool) panicky" where
  "mp_weak_upgrade s shared_alive =
     (if \<not> shared_alive then Inr (s, False)
      else if mp_sender_count s = 0 then Inr (s, False)
      else (case usize_add (mp_sender_count s) 1 of Inl e \<Rightarrow> Inl e | Inr n \<Rightarrow> Inr (s\<lparr>mp_sender_count := n\<rparr>, True)))"

section \<open>Permits\<close>

definition send_reserved :: "'a mp_inner \<Rightarrow> 'a \<Rightarrow> ('a mp_inner \<times> waker list \<times> bool) panicky" where
  "send_reserved s value = (case usize_sub (mp_reserved s) 1 of
     Inl e \<Rightarrow> Inl e
   | Inr n \<Rightarrow> Inr (push_value (s\<lparr>mp_reserved := n\<rparr>) value))"

definition wake_senders :: "'a mp_inner \<Rightarrow> 'a mp_inner \<times> waker list" where
  "wake_senders s = (s\<lparr>mp_send_wakers := []\<rparr>, mp_send_wakers s)"

definition release_reserved :: "'a mp_inner \<Rightarrow> nat \<Rightarrow> ('a mp_inner \<times> waker list \<times> bool) panicky" where
  "release_reserved s permits =
     (if permits = 0 then Inr (s, [], False)
      else (case usize_sub (mp_reserved s) permits of
        Inl e \<Rightarrow> Inl e
      | Inr n \<Rightarrow>
          (let s = s\<lparr>mp_reserved := n\<rparr>;
               (s, ws) = (if \<not> mp_receiver_alive s \<and> mp_reserved s = 0
                          then (s\<lparr>mp_recv_waker := None\<rparr>, recv_waker_list s) else (s, []));
               (s, ws') = wake_senders s
           in Inr (s, ws @ ws', True))))"

text \<open>A \<open>Permit\<close> and a \<open>PermitIterator\<close> are the number of permits they hold; sending or dropping ends a permit.\<close>

definition mp_permit_send :: "'a mp_inner \<Rightarrow> nat \<Rightarrow> 'a \<Rightarrow> ('a mp_inner \<times> nat \<times> waker list \<times> bool) panicky" where
  "mp_permit_send s permits value = (case send_reserved s value of
     Inl e \<Rightarrow> Inl e
   | Inr (s', ws, b) \<Rightarrow> Inr (s', 0, ws, b))"

definition mp_permit_drop :: "'a mp_inner \<Rightarrow> nat \<Rightarrow> ('a mp_inner \<times> waker list \<times> bool) panicky" where
  "mp_permit_drop s permits = release_reserved s permits"

fun mp_permit_next :: "nat \<Rightarrow> (nat \<times> nat) option" where
  "mp_permit_next 0 = None"
| "mp_permit_next (Suc remaining) = Some (remaining, 1)"

text \<open>An \<open>OwnedPermit\<close> holds its sender until it is sent or released.\<close>

record owned_permit =
  op_sender :: bool
  op_permits :: nat

definition owned_permit_send ::
  "'a mp_inner \<Rightarrow> owned_permit \<Rightarrow> 'a \<Rightarrow> ('a mp_inner \<times> owned_permit \<times> waker list \<times> bool) panicky" where
  "owned_permit_send s p value =
     (if \<not> op_sender p then Inl ''owned permit missing sender''
      else (case send_reserved s value of
        Inl e \<Rightarrow> Inl e
      | Inr (s', ws, b) \<Rightarrow> Inr (s', \<lparr>op_sender = False, op_permits = 0\<rparr>, ws, b)))"

definition owned_permit_release ::
  "'a mp_inner \<Rightarrow> owned_permit \<Rightarrow> ('a mp_inner \<times> owned_permit \<times> waker list \<times> bool) panicky" where
  "owned_permit_release s p =
     (if \<not> op_sender p then Inl ''owned permit missing sender''
      else (case release_reserved s (op_permits p) of
        Inl e \<Rightarrow> Inl e
      | Inr (s', ws, b) \<Rightarrow> Inr (s', \<lparr>op_sender = False, op_permits = 0\<rparr>, ws, b)))"

text \<open>Dropping it releases the permit and then drops the sender, each under the mutex.\<close>

definition owned_permit_drop :: "'a mp_inner \<Rightarrow> owned_permit \<Rightarrow> ('a mp_inner \<times> waker list \<times> bool) panicky" where
  "owned_permit_drop s p =
     (if op_sender p then
        (case release_reserved s (op_permits p) of
           Inl e \<Rightarrow> Inl e
         | Inr (s, ws, b) \<Rightarrow>
             (case mp_sender_drop s of Inl e \<Rightarrow> Inl e | Inr (s, ws', b') \<Rightarrow> Inr (s, ws @ ws', b \<or> b')))
      else Inr (s, [], False))"

section \<open>Futures of the sender\<close>

text \<open>\<open>SendFuture\<close> is its \<open>value\<close>; polling it again after it has completed panics in \<open>unwrap\<close>.\<close>

definition send_future_poll :: "'a mp_inner \<Rightarrow> 'a option \<Rightarrow> waker \<Rightarrow>
  ('a mp_inner \<times> 'a option \<times> ('a mp_send_error + unit) poll \<times> waker list \<times> bool) panicky" where
  "send_future_poll s value cx =
     (if \<not> mp_receiver_alive s then
        (case value of
           None \<Rightarrow> Inl ''called Option::unwrap() on a None value''
         | Some v \<Rightarrow> Inr (s, None, Ready (Inl (MpSendError v)), [], False))
      else if mp_full s then Inr (s\<lparr>mp_send_wakers := mp_send_wakers s @ [cx]\<rparr>, value, Pending, [], False)
      else
        (case value of
           None \<Rightarrow> Inl ''called Option::unwrap() on a None value''
         | Some v \<Rightarrow> (case push_value s v of (s', ws, b) \<Rightarrow> Inr (s', None, Ready (Inr ()), ws, b))))"

text \<open>With what polling the \<open>Sleep\<close> of the timeout would return.\<close>

definition send_timeout_poll :: "'a mp_inner \<Rightarrow> 'a option \<Rightarrow> unit poll \<Rightarrow> waker \<Rightarrow>
  ('a mp_inner \<times> 'a option \<times> ('a send_timeout_error + unit) poll \<times> waker list \<times> bool) panicky" where
  "send_timeout_poll s value sleep cx = (case send_future_poll s value cx of
     Inl e \<Rightarrow> Inl e
   | Inr (s', value', Ready (Inr _), ws, b) \<Rightarrow> Inr (s', value', Ready (Inr ()), ws, b)
   | Inr (s', value', Ready (Inl (MpSendError v)), ws, b) \<Rightarrow> Inr (s', value', Ready (Inl (SendClosed v)), ws, b)
   | Inr (s', value', Pending, ws, b) \<Rightarrow>
       (case sleep of
          Ready _ \<Rightarrow>
            (case value' of
               None \<Rightarrow> Inl ''send value missing on timeout''
             | Some v \<Rightarrow> Inr (s', None, Ready (Inl (SendTimeout v)), ws, b))
        | Pending \<Rightarrow> Inr (s', value', Pending, ws, b)))"

definition sender_closed_poll :: "'a mp_inner \<Rightarrow> waker \<Rightarrow> 'a mp_inner \<times> unit poll" where
  "sender_closed_poll s cx =
     (if \<not> mp_receiver_alive s then (s, Ready ())
      else (s\<lparr>mp_close_waiters := mp_close_waiters s @ [cx]\<rparr>, Pending))"

section \<open>Bounded receiver\<close>

text \<open>The message at the front is taken, all waiting senders are woken and the condition is broadcast.\<close>

definition pop_value :: "'a mp_inner \<Rightarrow> ('a \<times> 'a mp_inner \<times> waker list \<times> bool) option" where
  "pop_value s = (case mp_queue s of
     [] \<Rightarrow> None
   | value # queue \<Rightarrow> (case wake_senders (s\<lparr>mp_queue := queue\<rparr>) of (s', ws) \<Rightarrow> Some (value, s', ws, True)))"

definition poll_recv_shared :: "'a mp_inner \<Rightarrow> waker \<Rightarrow> 'a mp_inner \<times> 'a option poll \<times> waker list \<times> bool" where
  "poll_recv_shared s cx = (case pop_value s of
     Some (value, s', ws, b) \<Rightarrow> (s', Ready (Some value), ws, b)
   | None \<Rightarrow>
       if mp_sender_count s = 0 \<or> (\<not> mp_receiver_alive s \<and> mp_reserved s = 0) then (s, Ready None, [], False)
       else (s\<lparr>mp_recv_waker := Some cx\<rparr>, Pending, [], False))"

text \<open>The loop that moves messages into the buffer until \<open>limit\<close> have been added or the queue is empty.\<close>

fun recv_loop :: "nat \<Rightarrow> nat \<Rightarrow> 'a list \<Rightarrow> 'a list \<Rightarrow> 'a list \<times> 'a list" where
  "recv_loop initial_len limit buffer [] = (buffer, [])"
| "recv_loop initial_len limit buffer (value # queue) =
     (if length buffer - initial_len < limit then recv_loop initial_len limit (buffer @ [value]) queue
      else (buffer, value # queue))"

definition poll_recv_many_shared ::
  "'a mp_inner \<Rightarrow> waker \<Rightarrow> 'a list \<Rightarrow> nat \<Rightarrow> 'a mp_inner \<times> 'a list \<times> nat poll \<times> waker list \<times> bool" where
  "poll_recv_many_shared s cx buffer limit =
     (if limit = 0 then (s, buffer, Ready 0, [], False)
      else
        (let initial_len = length buffer;
             (buffer, queue) = recv_loop initial_len limit buffer (mp_queue s);
             s = s\<lparr>mp_queue := queue\<rparr>;
             received = length buffer - initial_len
         in if received \<noteq> 0 then (case wake_senders s of (s, ws) \<Rightarrow> (s, buffer, Ready received, ws, True))
            else if mp_sender_count s = 0 \<or> (\<not> mp_receiver_alive s \<and> mp_reserved s = 0)
            then (s, buffer, Ready 0, [], False)
            else (s\<lparr>mp_recv_waker := Some cx\<rparr>, buffer, Pending, [], False)))"

definition mp_try_recv :: "'a mp_inner \<Rightarrow> 'a mp_inner \<times> (mp_try_recv_error + 'a) \<times> waker list \<times> bool" where
  "mp_try_recv s = (case pop_value s of
     Some (value, s', ws, b) \<Rightarrow> (s', Inr value, ws, b)
   | None \<Rightarrow>
       if mp_sender_count s = 0 \<or> (\<not> mp_receiver_alive s \<and> mp_reserved s = 0)
       then (s, Inl Disconnected, [], False)
       else (s, Inl Empty, [], False))"

definition blocking_recv_round :: "'a mp_inner \<Rightarrow> ('a mp_inner \<times> 'a option \<times> waker list \<times> bool) option" where
  "blocking_recv_round s = (case pop_value s of
     Some (value, s', ws, b) \<Rightarrow> Some (s', Some value, ws, b)
   | None \<Rightarrow>
       if mp_sender_count s = 0 \<or> (\<not> mp_receiver_alive s \<and> mp_reserved s = 0) then Some (s, None, [], False)
       else None)"

fun blocking_recv :: "'a mp_inner list \<Rightarrow> ('a mp_inner \<times> 'a option \<times> waker list \<times> bool) option" where
  "blocking_recv [] = None"
| "blocking_recv (s # ss) = (case blocking_recv_round s of Some r \<Rightarrow> Some r | None \<Rightarrow> blocking_recv ss)"

text \<open>
  The loop of \<open>recv_many\<close> and \<open>blocking_recv_many\<close> after their first message, which calls \<open>try_recv\<close> until it
  fails, here with no other operation in between.
\<close>

function try_recv_loop :: "nat \<Rightarrow> nat \<Rightarrow> 'a list \<Rightarrow> 'a mp_inner \<Rightarrow> 'a list \<times> 'a mp_inner" where
  "try_recv_loop initial_len limit buffer s =
     (if length buffer - initial_len < limit
      then (case mp_try_recv s of
          (s', Inr value, _) \<Rightarrow> try_recv_loop initial_len limit (buffer @ [value]) s'
        | (s', Inl _, _) \<Rightarrow> (buffer, s'))
      else (buffer, s))"
  by auto
termination
  by (relation "measure (\<lambda>(i, l, b, s). length (mp_queue s))")
    (auto simp: mp_try_recv_def pop_value_def wake_senders_def split: list.splits if_splits)

definition recv_many :: "'a mp_inner \<Rightarrow> 'a option \<Rightarrow> 'a list \<Rightarrow> nat \<Rightarrow> 'a mp_inner \<times> 'a list \<times> nat" where
  "recv_many s first buffer limit =
     (if limit = 0 then (s, buffer, 0)
      else (case first of
        None \<Rightarrow> (s, buffer, 0)
      | Some value \<Rightarrow>
          (case try_recv_loop (length buffer) limit (buffer @ [value]) s of
             (buffer', s') \<Rightarrow> (s', buffer', length buffer' - length buffer))))"

definition mp_close :: "'a mp_inner \<Rightarrow> 'a mp_inner \<times> waker list \<times> bool" where
  "mp_close s = (s\<lparr>mp_receiver_alive := False, mp_close_waiters := [], mp_send_wakers := []\<rparr>,
     mp_close_waiters s @ mp_send_wakers s, True)"

definition mp_receiver_is_closed :: "'a mp_inner \<Rightarrow> bool" where
  "mp_receiver_is_closed s \<longleftrightarrow> \<not> mp_receiver_alive s \<or> mp_sender_count s = 0"

definition mp_receiver_drop :: "'a mp_inner \<Rightarrow> 'a mp_inner \<times> waker list \<times> bool" where
  "mp_receiver_drop s = (s\<lparr>mp_receiver_alive := False, mp_close_waiters := [], mp_send_wakers := []\<rparr>,
     mp_close_waiters s @ mp_send_wakers s, True)"

definition recv_timeout_poll :: "'a mp_inner \<Rightarrow> unit poll \<Rightarrow> waker \<Rightarrow>
  'a mp_inner \<times> (recv_timeout_error + 'a) poll \<times> waker list \<times> bool" where
  "recv_timeout_poll s sleep cx = (case pop_value s of
     Some (value, s', ws, b) \<Rightarrow> (s', Ready (Inr value), ws, b)
   | None \<Rightarrow>
       if mp_sender_count s = 0 \<or> (\<not> mp_receiver_alive s \<and> mp_reserved s = 0)
       then (s, Ready (Inl RecvTimeoutClosed), [], False)
       else (s\<lparr>mp_recv_waker := Some cx\<rparr>, map_poll (\<lambda>_. Inl RecvTimeout) sleep, [], False))"

section \<open>Unbounded sender and receiver\<close>

definition unbounded_send :: "'a mp_inner \<Rightarrow> 'a \<Rightarrow> 'a mp_inner \<times> ('a mp_send_error + unit) \<times> waker list \<times> bool" where
  "unbounded_send s value =
     (if \<not> mp_receiver_alive s then (s, Inl (MpSendError value), [], False)
      else (case push_value s value of (s', ws, b) \<Rightarrow> (s', Inr (), ws, b)))"

text \<open>The unbounded receiver takes a message without waking senders, of which none waits.\<close>

definition unbounded_pop :: "'a mp_inner \<Rightarrow> ('a \<times> 'a mp_inner \<times> waker list \<times> bool) option" where
  "unbounded_pop s = (case mp_queue s of
     [] \<Rightarrow> None
   | value # queue \<Rightarrow> Some (value, s\<lparr>mp_queue := queue\<rparr>, [], True))"

definition unbounded_try_recv :: "'a mp_inner \<Rightarrow> 'a mp_inner \<times> (mp_try_recv_error + 'a) \<times> waker list \<times> bool" where
  "unbounded_try_recv s = (case unbounded_pop s of
     Some (value, s', ws, b) \<Rightarrow> (s', Inr value, ws, b)
   | None \<Rightarrow>
       if mp_sender_count s = 0 \<or> (\<not> mp_receiver_alive s \<and> mp_reserved s = 0)
       then (s, Inl Disconnected, [], False)
       else (s, Inl Empty, [], False))"

definition unbounded_blocking_recv_round ::
  "'a mp_inner \<Rightarrow> ('a mp_inner \<times> 'a option \<times> waker list \<times> bool) option" where
  "unbounded_blocking_recv_round s = (case unbounded_pop s of
     Some (value, s', ws, b) \<Rightarrow> Some (s', Some value, ws, b)
   | None \<Rightarrow>
       if mp_sender_count s = 0 \<or> (\<not> mp_receiver_alive s \<and> mp_reserved s = 0) then Some (s, None, [], False)
       else None)"

definition unbounded_close :: "'a mp_inner \<Rightarrow> 'a mp_inner \<times> waker list \<times> bool" where
  "unbounded_close s = (s\<lparr>mp_receiver_alive := False, mp_close_waiters := []\<rparr>, mp_close_waiters s, True)"

definition unbounded_receiver_drop :: "'a mp_inner \<Rightarrow> 'a mp_inner \<times> waker list \<times> bool" where
  "unbounded_receiver_drop s = (s\<lparr>mp_receiver_alive := False, mp_close_waiters := []\<rparr>, mp_close_waiters s, True)"

definition unbounded_recv_timeout_poll :: "'a mp_inner \<Rightarrow> unit poll \<Rightarrow> waker \<Rightarrow>
  'a mp_inner \<times> (recv_timeout_error + 'a) poll \<times> waker list \<times> bool" where
  "unbounded_recv_timeout_poll s sleep cx = (case unbounded_pop s of
     Some (value, s', ws, b) \<Rightarrow> (s', Ready (Inr value), ws, b)
   | None \<Rightarrow>
       if mp_sender_count s = 0 \<or> (\<not> mp_receiver_alive s \<and> mp_reserved s = 0)
       then (s, Ready (Inl RecvTimeoutClosed), [], False)
       else (s\<lparr>mp_recv_waker := Some cx\<rparr>, map_poll (\<lambda>_. Inl RecvTimeout) sleep, [], False))"

end
