(* ===== verification/Mpsc_System.thy ===== *)
theory Mpsc_System
  imports Mpsc
begin

text \<open>
  The channels of \<open>signal/mpsc.rs\<close> with their clients: all runs of senders, permits and a receiver,
  the invariants of the shared state and what they give: delivery, capacity, wakeups and disconnection.
\<close>

section \<open>Clients\<close>

text \<open>
  A system: the shared state; the live senders; the permits, each with its sender and the number of
  units it holds; the messages that have been accepted and those that the receiver got; the receiver
  (alive or dropped); and who is waiting: the receiver's waker, the wakers of sends with the number of
  units they need, and whether a thread is blocked in \<open>blocking_recv\<close> or in \<open>blocking_send\<close>.
\<close>

record 'a mp_sys =
  mst :: "'a mp_inner"
  txs :: "nat set"
  permits :: "(nat \<times> nat) multiset"
  accepted :: "'a list"
  received :: "'a list"
  rx_live :: bool
  rx_parked :: "waker option"
  tx_parked :: "(waker \<times> nat) set"
  rx_blocked :: bool
  tx_blocked :: bool

text \<open>What an operation does to those who wait, given the wakers it calls and whether it broadcasts.\<close>

definition wake_up :: "waker list \<Rightarrow> bool \<Rightarrow> 'a mp_sys \<Rightarrow> 'a mp_sys" where
  "wake_up ws b y = y\<lparr>
     rx_parked := (case rx_parked y of None \<Rightarrow> None | Some w \<Rightarrow> if w \<in> set ws then None else Some w),
     tx_parked := {(w, n) \<in> tx_parked y. w \<notin> set ws},
     rx_blocked := (rx_blocked y \<and> \<not> b), tx_blocked := (tx_blocked y \<and> \<not> b)\<rparr>"

text \<open>The receiver is exclusively borrowed: its next operation ends the previous one.\<close>

definition rx_idle :: "'a mp_sys \<Rightarrow> 'a mp_sys" where
  "rx_idle y = y\<lparr>rx_parked := None, rx_blocked := False\<rparr>"

datatype 'a tx_op = TrySend 'a | SendPoll 'a waker | SendTimeoutPoll 'a "unit poll" waker | BlockingSend 'a | UnboundedSend 'a

text \<open>The outcome of a send: it may be accepted, refused, waiting as a future, or blocked.\<close>

datatype tx_result = Accepted | Refused | Waiting | Blocked

fun tx_do :: "'a mp_inner \<Rightarrow> 'a tx_op \<Rightarrow> ('a mp_inner \<times> tx_result \<times> waker list \<times> bool) panicky" where
  "tx_do s (TrySend v) = (case mp_try_send s v of
     (s', Inr _, ws, b) \<Rightarrow> Inr (s', Accepted, ws, b)
   | (s', Inl _, ws, b) \<Rightarrow> Inr (s', Refused, ws, b))"
| "tx_do s (SendPoll v w) = (case send_future_poll s (Some v) w of
     Inl e \<Rightarrow> Inl e
   | Inr (s', _, Ready (Inr _), ws, b) \<Rightarrow> Inr (s', Accepted, ws, b)
   | Inr (s', _, Ready (Inl _), ws, b) \<Rightarrow> Inr (s', Refused, ws, b)
   | Inr (s', _, Pending, ws, b) \<Rightarrow> Inr (s', Waiting, ws, b))"
| "tx_do s (SendTimeoutPoll v sleep w) = (case send_timeout_poll s (Some v) sleep w of
     Inl e \<Rightarrow> Inl e
   | Inr (s', _, Ready (Inr _), ws, b) \<Rightarrow> Inr (s', Accepted, ws, b)
   | Inr (s', _, Ready (Inl _), ws, b) \<Rightarrow> Inr (s', Refused, ws, b)
   | Inr (s', _, Pending, ws, b) \<Rightarrow> Inr (s', Waiting, ws, b))"
| "tx_do s (BlockingSend v) = (case blocking_send_round s v of
     Some (s', Inr _, ws, b) \<Rightarrow> Inr (s', Accepted, ws, b)
   | Some (s', Inl _, ws, b) \<Rightarrow> Inr (s', Refused, ws, b)
   | None \<Rightarrow> Inr (s, Blocked, [], False))"
| "tx_do s (UnboundedSend v) = (case unbounded_send s v of
     (s', Inr _, ws, b) \<Rightarrow> Inr (s', Accepted, ws, b)
   | (s', Inl _, ws, b) \<Rightarrow> Inr (s', Refused, ws, b))"

fun tx_value :: "'a tx_op \<Rightarrow> 'a" where
  "tx_value (TrySend v) = v"
| "tx_value (SendPoll v w) = v"
| "tx_value (SendTimeoutPoll v sleep w) = v"
| "tx_value (BlockingSend v) = v"
| "tx_value (UnboundedSend v) = v"

fun tx_waker :: "'a tx_op \<Rightarrow> waker option" where
  "tx_waker (SendPoll v w) = Some w"
| "tx_waker (SendTimeoutPoll v sleep w) = Some w"
| "tx_waker _ = None"

text \<open>The operations of a \<open>Sender\<close> need a capacity, those of an \<open>UnboundedSender\<close> have none.\<close>

fun tx_typed :: "'a tx_op \<Rightarrow> 'a mp_inner \<Rightarrow> bool" where
  "tx_typed (UnboundedSend v) s \<longleftrightarrow> mp_capacity s = None"
| "tx_typed _ s \<longleftrightarrow> mp_capacity s \<noteq> None"

datatype 'a rx_op = TryRecv | PollRecv waker | RecvTimeoutPoll "unit poll" waker | BlockingRecv
  | UnboundedTryRecv | UnboundedRecvTimeoutPoll "unit poll" waker | UnboundedBlockingRecv | PollRecvMany waker "'a list" nat

text \<open>The messages it got, and whether the channel ended, or how it waits.\<close>

datatype rx_result = Got | Ended | RxEmpty | RxWaiting | RxBlocked

fun rx_do :: "'a mp_inner \<Rightarrow> 'a rx_op \<Rightarrow> 'a mp_inner \<times> 'a list \<times> rx_result \<times> waker list \<times> bool" where
  "rx_do s TryRecv = (case mp_try_recv s of
     (s', Inr v, ws, b) \<Rightarrow> (s', [v], Got, ws, b)
   | (s', Inl e, ws, b) \<Rightarrow> (s', [], if e = Disconnected then Ended else RxEmpty, ws, b))"
| "rx_do s (PollRecv w) = (case poll_recv_shared s w of
     (s', Ready (Some v), ws, b) \<Rightarrow> (s', [v], Got, ws, b)
   | (s', Ready None, ws, b) \<Rightarrow> (s', [], Ended, ws, b)
   | (s', Pending, ws, b) \<Rightarrow> (s', [], RxWaiting, ws, b))"
| "rx_do s (RecvTimeoutPoll sleep w) = (case recv_timeout_poll s sleep w of
     (s', Ready (Inr v), ws, b) \<Rightarrow> (s', [v], Got, ws, b)
   | (s', Ready (Inl e), ws, b) \<Rightarrow> (s', [], if e = RecvTimeoutClosed then Ended else RxEmpty, ws, b)
   | (s', Pending, ws, b) \<Rightarrow> (s', [], RxWaiting, ws, b))"
| "rx_do s BlockingRecv = (case blocking_recv_round s of
     Some (s', Some v, ws, b) \<Rightarrow> (s', [v], Got, ws, b)
   | Some (s', None, ws, b) \<Rightarrow> (s', [], Ended, ws, b)
   | None \<Rightarrow> (s, [], RxBlocked, [], False))"
| "rx_do s UnboundedTryRecv = (case unbounded_try_recv s of
     (s', Inr v, ws, b) \<Rightarrow> (s', [v], Got, ws, b)
   | (s', Inl e, ws, b) \<Rightarrow> (s', [], if e = Disconnected then Ended else RxEmpty, ws, b))"
| "rx_do s (UnboundedRecvTimeoutPoll sleep w) = (case unbounded_recv_timeout_poll s sleep w of
     (s', Ready (Inr v), ws, b) \<Rightarrow> (s', [v], Got, ws, b)
   | (s', Ready (Inl e), ws, b) \<Rightarrow> (s', [], if e = RecvTimeoutClosed then Ended else RxEmpty, ws, b)
   | (s', Pending, ws, b) \<Rightarrow> (s', [], RxWaiting, ws, b))"
| "rx_do s UnboundedBlockingRecv = (case unbounded_blocking_recv_round s of
     Some (s', Some v, ws, b) \<Rightarrow> (s', [v], Got, ws, b)
   | Some (s', None, ws, b) \<Rightarrow> (s', [], Ended, ws, b)
   | None \<Rightarrow> (s, [], RxBlocked, [], False))"
| "rx_do s (PollRecvMany w buffer limit) = (case poll_recv_many_shared s w buffer limit of
     (s', buffer', Ready n, ws, b) \<Rightarrow>
       (s', drop (length buffer) buffer', if n \<noteq> 0 then Got else if limit = 0 then RxEmpty else Ended, ws, b)
   | (s', buffer', Pending, ws, b) \<Rightarrow> (s', drop (length buffer) buffer', RxWaiting, ws, b))"

fun rx_waker :: "'a rx_op \<Rightarrow> waker option" where
  "rx_waker (PollRecv w) = Some w"
| "rx_waker (RecvTimeoutPoll sleep w) = Some w"
| "rx_waker (UnboundedRecvTimeoutPoll sleep w) = Some w"
| "rx_waker (PollRecvMany w buffer limit) = Some w"
| "rx_waker _ = None"

fun rx_typed :: "'a rx_op \<Rightarrow> 'a mp_inner \<Rightarrow> bool" where
  "rx_typed (PollRecv w) s \<longleftrightarrow> True"
| "rx_typed (PollRecvMany w buffer limit) s \<longleftrightarrow> True"
| "rx_typed UnboundedTryRecv s \<longleftrightarrow> mp_capacity s = None"
| "rx_typed (UnboundedRecvTimeoutPoll sleep w) s \<longleftrightarrow> mp_capacity s = None"
| "rx_typed UnboundedBlockingRecv s \<longleftrightarrow> mp_capacity s = None"
| "rx_typed _ s \<longleftrightarrow> mp_capacity s \<noteq> None"

text \<open>What the senders and the receivers do, whichever operation they use.\<close>

lemma recv_loop_take:
  "recv_loop i l buf q = (buf @ take (l - (length buf - i)) q, drop (l - (length buf - i)) q)" if "i \<le> length buf"
  using that
proof (induction i l buf q rule: recv_loop.induct)
  case (2 i l buf v q)
  then show ?case
    by (cases "length buf - i < l") (auto simp: Suc_diff_le Suc_diff_Suc take_Cons' drop_Cons')
qed simp

lemmas mp_op_defs = mp_try_send_def send_future_poll_def send_timeout_poll_def blocking_send_round_def unbounded_send_def
  push_value_def mp_try_recv_def poll_recv_shared_def recv_timeout_poll_def blocking_recv_round_def unbounded_try_recv_def
  unbounded_recv_timeout_poll_def unbounded_blocking_recv_round_def pop_value_def unbounded_pop_def wake_senders_def

lemma tx_do_spec:
  assumes "tx_do s a = Inr (s', r, ws, b)" "tx_typed a s"
  shows "case r of
      Accepted \<Rightarrow> mp_receiver_alive s \<and> \<not> mp_full s \<and> push_value s (tx_value a) = (s', ws, b)
    | Refused \<Rightarrow> (s' = s \<or> (\<exists>w. s' = s\<lparr>mp_send_wakers := mp_send_wakers s @ [w]\<rparr>)) \<and> ws = [] \<and> b = False
    | Waiting \<Rightarrow> (\<exists>w. tx_waker a = Some w \<and> s' = s\<lparr>mp_send_wakers := mp_send_wakers s @ [w]\<rparr>) \<and>
        mp_receiver_alive s \<and> mp_full s \<and> ws = [] \<and> b = False
    | Blocked \<Rightarrow> mp_receiver_alive s \<and> mp_full s \<and> s' = s \<and> ws = [] \<and> b = False"
proof (cases a)
  case (TrySend v)
  with assms show ?thesis
    by (auto simp: mp_try_send_def push_value_def split: if_splits)
next
  case (SendPoll v w)
  with assms show ?thesis by (auto simp: send_future_poll_def push_value_def split: if_splits)
next
  case (SendTimeoutPoll v sleep w)
  with assms show ?thesis
    by (cases sleep) (auto simp: send_timeout_poll_def send_future_poll_def push_value_def split: if_splits)
next
  case (BlockingSend v)
  with assms show ?thesis by (auto simp: blocking_send_round_def push_value_def split: if_splits)
next
  case (UnboundedSend v)
  with assms show ?thesis by (auto simp: unbounded_send_def push_value_def mp_full_def split: if_splits)
qed

lemma poll_recv_many_eq:
  "poll_recv_many_shared s cx buf limit =
     (if limit = 0 then (s, buf, Ready 0, [], False)
      else if mp_queue s \<noteq> [] then
        (s\<lparr>mp_queue := drop limit (mp_queue s), mp_send_wakers := []\<rparr>, buf @ take limit (mp_queue s),
         Ready (min limit (length (mp_queue s))), mp_send_wakers s, True)
      else if disconnected s then (s, buf, Ready 0, [], False)
      else (s\<lparr>mp_recv_waker := Some cx\<rparr>, buf, Pending, [], False))"
proof (cases "limit = 0 \<or> mp_queue s = []")
  case True
  then show ?thesis
    by (cases s) (auto simp: poll_recv_many_shared_def recv_loop_take disconnected_def Let_def)
next
  case False
  then show ?thesis
    by (simp add: poll_recv_many_shared_def recv_loop_take wake_senders_def min.commute Let_def)
qed

lemma pop_value_eq:
  "pop_value s = (if mp_queue s = [] then None
     else Some (hd (mp_queue s), s\<lparr>mp_queue := tl (mp_queue s), mp_send_wakers := []\<rparr>, mp_send_wakers s, True))"
  by (auto simp: pop_value_def wake_senders_def split: list.splits)

lemma unbounded_pop_eq:
  "unbounded_pop s = (if mp_queue s = [] then None
     else Some (hd (mp_queue s), s\<lparr>mp_queue := tl (mp_queue s)\<rparr>, [], True))"
  by (auto simp: unbounded_pop_def split: list.splits)

text \<open>What a receive operation does: it takes messages from the front, or nothing changes but its own waker.\<close>

definition rx_got :: "'a mp_inner \<Rightarrow> 'a list \<Rightarrow> 'a mp_inner \<Rightarrow> waker list \<Rightarrow> bool \<Rightarrow> bool" where
  "rx_got s vs s' ws b \<longleftrightarrow> vs \<noteq> [] \<and> b \<and> (\<exists>q. mp_queue s = vs @ q \<and>
     (s' = s\<lparr>mp_queue := q, mp_send_wakers := []\<rparr> \<and> ws = mp_send_wakers s \<or>
      s' = s\<lparr>mp_queue := q\<rparr> \<and> ws = [] \<and> mp_capacity s = None))"

lemma rx_got_pop:
  "mp_queue s \<noteq> [] \<Longrightarrow>
     rx_got s [hd (mp_queue s)] (s\<lparr>mp_queue := tl (mp_queue s), mp_send_wakers := []\<rparr>) (mp_send_wakers s) True"
  "mp_queue s \<noteq> [] \<Longrightarrow> mp_capacity s = None \<Longrightarrow>
     rx_got s [hd (mp_queue s)] (s\<lparr>mp_queue := tl (mp_queue s)\<rparr>) [] True"
  "mp_queue s \<noteq> [] \<Longrightarrow> 0 < n \<Longrightarrow>
     rx_got s (take n (mp_queue s)) (s\<lparr>mp_queue := drop n (mp_queue s), mp_send_wakers := []\<rparr>) (mp_send_wakers s) True"
  unfolding rx_got_def by (force intro: exI [of _ "tl (mp_queue s)"] exI [of _ "drop n (mp_queue s)"])+

lemma rx_do_spec:
  assumes "rx_do s a = (s', vs, r, ws, b)" "rx_typed a s"
  shows "case r of
      Got \<Rightarrow> rx_got s vs s' ws b
    | Ended \<Rightarrow> mp_queue s = [] \<and> disconnected s \<and> s' = s \<and> vs = [] \<and> ws = [] \<and> \<not> b
    | RxEmpty \<Rightarrow> (s' = s \<or> (\<exists>w. s' = s\<lparr>mp_recv_waker := Some w\<rparr>)) \<and> vs = [] \<and> ws = [] \<and> \<not> b
    | RxWaiting \<Rightarrow> mp_queue s = [] \<and> \<not> disconnected s \<and> vs = [] \<and> ws = [] \<and> \<not> b \<and>
        (\<exists>w. rx_waker a = Some w \<and> s' = s\<lparr>mp_recv_waker := Some w\<rparr>)
    | RxBlocked \<Rightarrow> mp_queue s = [] \<and> \<not> disconnected s \<and> s' = s \<and> vs = [] \<and> ws = [] \<and> \<not> b"
proof (cases a)
  case TryRecv
  with assms show ?thesis
    by (auto simp: mp_try_recv_def pop_value_eq rx_got_pop disconnected_def split: if_splits)
next
  case (PollRecv w)
  with assms show ?thesis
    by (auto simp: poll_recv_shared_def pop_value_eq rx_got_pop disconnected_def split: if_splits)
next
  case (RecvTimeoutPoll sleep w)
  with assms show ?thesis
    by (cases sleep) (auto simp: recv_timeout_poll_def pop_value_eq rx_got_pop disconnected_def split: if_splits)
next
  case BlockingRecv
  with assms show ?thesis
    by (auto simp: blocking_recv_round_def pop_value_eq rx_got_pop disconnected_def split: if_splits)
next
  case UnboundedTryRecv
  with assms show ?thesis
    by (auto simp: unbounded_try_recv_def unbounded_pop_eq rx_got_pop disconnected_def split: if_splits)
next
  case (UnboundedRecvTimeoutPoll sleep w)
  with assms show ?thesis
    by (cases sleep) (auto simp: unbounded_recv_timeout_poll_def unbounded_pop_eq rx_got_pop disconnected_def split: if_splits)
next
  case UnboundedBlockingRecv
  with assms show ?thesis
    by (auto simp: unbounded_blocking_recv_round_def unbounded_pop_eq rx_got_pop disconnected_def split: if_splits)
next
  case (PollRecvMany w buf limit)
  with assms show ?thesis
    by (auto simp: poll_recv_many_eq rx_got_pop split: if_splits)
qed

text \<open>The steps of the senders, of the permits and of the receiver.\<close>

inductive mp_step :: "'a mp_sys \<Rightarrow> 'a mp_sys \<Rightarrow> bool" where
  tx_accepted: "t \<in> txs y \<Longrightarrow> tx_typed a (mst y) \<Longrightarrow> tx_do (mst y) a = Inr (s', Accepted, ws, b) \<Longrightarrow>
     mp_step y (wake_up ws b (y\<lparr>mst := s', accepted := accepted y @ [tx_value a]\<rparr>))"
| tx_refused: "t \<in> txs y \<Longrightarrow> tx_typed a (mst y) \<Longrightarrow> tx_do (mst y) a = Inr (s', Refused, ws, b) \<Longrightarrow>
     mp_step y (wake_up ws b (y\<lparr>mst := s'\<rparr>))"
| tx_waiting: "t \<in> txs y \<Longrightarrow> tx_typed a (mst y) \<Longrightarrow> tx_do (mst y) a = Inr (s', Waiting, ws, b) \<Longrightarrow>
     tx_waker a = Some w \<Longrightarrow> mp_step y (wake_up ws b (y\<lparr>mst := s', tx_parked := insert (w, 1) (tx_parked y)\<rparr>))"
| tx_blocked: "t \<in> txs y \<Longrightarrow> tx_typed a (mst y) \<Longrightarrow> tx_do (mst y) a = Inr (s', Blocked, ws, b) \<Longrightarrow>
     mp_step y (wake_up ws b (y\<lparr>mst := s', tx_blocked := True\<rparr>))"
| reserve: "t \<in> txs y \<Longrightarrow> reserve_now (mst y) n = Inr (s', Inr u) \<Longrightarrow>
     mp_step y (y\<lparr>mst := s', permits := add_mset (t, n) (permits y)\<rparr>)"
| reserve_err: "t \<in> txs y \<Longrightarrow> reserve_now (mst y) n = Inr (s', Inl e) \<Longrightarrow> mp_step y (y\<lparr>mst := s'\<rparr>)"
| reserve_ready: "t \<in> txs y \<Longrightarrow> poll_reserve (mst y) n w = Inr (s', Ready (Inr u)) \<Longrightarrow>
     mp_step y (y\<lparr>mst := s', permits := add_mset (t, n) (permits y)\<rparr>)"
| reserve_closed: "t \<in> txs y \<Longrightarrow> poll_reserve (mst y) n w = Inr (s', Ready (Inl e)) \<Longrightarrow> mp_step y (y\<lparr>mst := s'\<rparr>)"
| reserve_waiting: "t \<in> txs y \<Longrightarrow> poll_reserve (mst y) n w = Inr (s', Pending) \<Longrightarrow>
     mp_step y (y\<lparr>mst := s', tx_parked := insert (w, n) (tx_parked y)\<rparr>)"
| permit_used: "(t, 1) \<in># permits y \<Longrightarrow> mp_permit_send (mst y) 1 v = Inr (s', n', ws, b) \<Longrightarrow>
     mp_step y (wake_up ws b (y\<lparr>mst := s', permits := permits y - {#(t, 1)#}, accepted := accepted y @ [v]\<rparr>))"
| permit_split: "(t, n) \<in># permits y \<Longrightarrow> mp_permit_next n = Some (n', k) \<Longrightarrow>
     mp_step y (y\<lparr>permits := add_mset (t, n') (add_mset (t, k) (permits y - {#(t, n)#}))\<rparr>)"
| permit_dropped: "(t, n) \<in># permits y \<Longrightarrow> mp_permit_drop (mst y) n = Inr (s', ws, b) \<Longrightarrow>
     mp_step y (wake_up ws b (y\<lparr>mst := s', permits := permits y - {#(t, n)#}\<rparr>))"
| tx_clone: "t \<in> txs y \<Longrightarrow> t' \<notin> txs y \<Longrightarrow> mp_sender_clone (mst y) = Inr s' \<Longrightarrow> mp_step y (y\<lparr>mst := s', txs := insert t' (txs y)\<rparr>)"
| tx_drop: "t \<in> txs y \<Longrightarrow> t \<notin># image_mset fst (permits y) \<Longrightarrow> mp_sender_drop (mst y) = Inr (s', ws, b) \<Longrightarrow>
     mp_step y (wake_up ws b (y\<lparr>mst := s', txs := txs y - {t}\<rparr>))"
| upgrade: "mp_weak_upgrade (mst y) (txs y \<noteq> {} \<or> rx_live y) = Inr (s', True) \<Longrightarrow> t' \<notin> txs y \<Longrightarrow>
     mp_step y (y\<lparr>mst := s', txs := insert t' (txs y)\<rparr>)"
| tx_closed: "t \<in> txs y \<Longrightarrow> sender_closed_poll (mst y) w = (s', r) \<Longrightarrow> mp_step y (y\<lparr>mst := s'\<rparr>)"
| rx_got: "rx_live y \<Longrightarrow> rx_typed a (mst y) \<Longrightarrow> rx_do (mst y) a = (s', vs, Got, ws, b) \<Longrightarrow>
     mp_step y (wake_up ws b (rx_idle (y\<lparr>mst := s', received := received y @ vs\<rparr>)))"
| rx_nothing: "rx_live y \<Longrightarrow> rx_typed a (mst y) \<Longrightarrow> rx_do (mst y) a = (s', vs, r, ws, b) \<Longrightarrow> r = Ended \<or> r = RxEmpty \<Longrightarrow>
     mp_step y (wake_up ws b (rx_idle (y\<lparr>mst := s'\<rparr>)))"
| rx_waiting: "rx_live y \<Longrightarrow> rx_typed a (mst y) \<Longrightarrow> rx_do (mst y) a = (s', vs, RxWaiting, ws, b) \<Longrightarrow> rx_waker a = Some w \<Longrightarrow>
     mp_step y (wake_up ws b (rx_idle (y\<lparr>mst := s'\<rparr>))\<lparr>rx_parked := Some w\<rparr>)"
| rx_blocked: "rx_live y \<Longrightarrow> rx_typed a (mst y) \<Longrightarrow> rx_do (mst y) a = (s', vs, RxBlocked, ws, b) \<Longrightarrow>
     mp_step y (wake_up ws b (rx_idle (y\<lparr>mst := s'\<rparr>))\<lparr>rx_blocked := True\<rparr>)"
| rx_close: "rx_live y \<Longrightarrow>
     (s', ws, b) = (if mp_capacity (mst y) = None then unbounded_close (mst y) else mp_close (mst y)) \<Longrightarrow>
     mp_step y (wake_up ws b (rx_idle (y\<lparr>mst := s'\<rparr>)))"
| rx_drop: "rx_live y \<Longrightarrow>
     (s', ws, b) = (if mp_capacity (mst y) = None then unbounded_receiver_drop (mst y) else mp_receiver_drop (mst y)) \<Longrightarrow>
     mp_step y (wake_up ws b (rx_idle (y\<lparr>mst := s', rx_live := False\<rparr>)))"

text \<open>A run of a bounded channel starts with \<open>channel\<close>, one of an unbounded channel with \<open>unbounded_channel\<close>.\<close>

definition mp_start :: "'a mp_inner \<Rightarrow> 'a mp_sys" where
  "mp_start s = \<lparr>mst = s, txs = {0}, permits = {#}, accepted = [], received = [], rx_live = True, rx_parked = None,
     tx_parked = {}, rx_blocked = False, tx_blocked = False\<rparr>"

inductive mp_reach :: "nat option \<Rightarrow> 'a mp_sys \<Rightarrow> bool" for cap where
  bounded: "cap = Some c \<Longrightarrow> mp_channel c = Inr s \<Longrightarrow> mp_reach cap (mp_start s)"
| unbounded: "cap = None \<Longrightarrow> mp_reach cap (mp_start unbounded_channel)"
| step: "mp_reach cap y \<Longrightarrow> mp_step y z \<Longrightarrow> mp_reach cap z"

section \<open>Invariants\<close>

lemma wake_up_simps [simp]:
  "mst (wake_up ws b y) = mst y" "txs (wake_up ws b y) = txs y" "permits (wake_up ws b y) = permits y"
  "accepted (wake_up ws b y) = accepted y" "received (wake_up ws b y) = received y" "rx_live (wake_up ws b y) = rx_live y"
  "rx_blocked (wake_up ws b y) \<longleftrightarrow> rx_blocked y \<and> \<not> b" "tx_blocked (wake_up ws b y) \<longleftrightarrow> tx_blocked y \<and> \<not> b"
  "tx_parked (wake_up ws b y) = {(w, n) \<in> tx_parked y. w \<notin> set ws}"
  "rx_parked (wake_up ws b y) = Some w \<longleftrightarrow> rx_parked y = Some w \<and> w \<notin> set ws"
  by (auto simp: wake_up_def split: option.splits)

lemma rx_idle_simps [simp]:
  "mst (rx_idle y) = mst y" "txs (rx_idle y) = txs y" "permits (rx_idle y) = permits y"
  "accepted (rx_idle y) = accepted y" "received (rx_idle y) = received y" "rx_live (rx_idle y) = rx_live y"
  "rx_blocked (rx_idle y) \<longleftrightarrow> False" "tx_blocked (rx_idle y) = tx_blocked y"
  "tx_parked (rx_idle y) = tx_parked y" "rx_parked (rx_idle y) = None"
  by (auto simp: rx_idle_def)

definition units :: "(nat \<times> nat) multiset \<Rightarrow> nat" where
  "units P = sum_mset (image_mset snd P)"

lemma units_simps [simp]: "units {#} = 0" "units (add_mset p P) = snd p + units P"
  by (simp_all add: units_def)

lemma units_remove: "p \<in># P \<Longrightarrow> units (P - {#p#}) = units P - snd p \<and> snd p \<le> units P"
  by (metis add_diff_cancel_left' insert_DiffM le_add1 units_simps(2))

text \<open>The counters: senders, and the units that the permits hold; and the bound of the queue.\<close>

definition counts_ok :: "nat option \<Rightarrow> 'a mp_sys \<Rightarrow> bool" where
  "counts_ok cap y \<longleftrightarrow> finite (txs y) \<and> mp_sender_count (mst y) = card (txs y) \<and>
     mp_reserved (mst y) = units (permits y) \<and> set_mset (image_mset fst (permits y)) \<subseteq> txs y \<and> mp_capacity (mst y) = cap \<and>
     (case cap of None \<Rightarrow> mp_reserved (mst y) = 0 | Some c \<Rightarrow> length (mp_queue (mst y)) + mp_reserved (mst y) \<le> c)"

text \<open>The messages: those accepted are those received followed by those queued.\<close>

definition log_ok :: "'a mp_sys \<Rightarrow> bool" where
  "log_ok y \<longleftrightarrow> accepted y = received y @ mp_queue (mst y)"

text \<open>The waiting tasks and threads.\<close>

definition rx_wait_ok :: "'a mp_sys \<Rightarrow> bool" where
  "rx_wait_ok y \<longleftrightarrow>
     (\<forall>w. rx_parked y = Some w \<longrightarrow> mp_recv_waker (mst y) = Some w \<and> mp_queue (mst y) = [] \<and> \<not> disconnected (mst y)) \<and>
     (rx_blocked y \<longrightarrow> mp_queue (mst y) = [] \<and> \<not> disconnected (mst y))"

definition lacks :: "'a mp_inner \<Rightarrow> nat \<Rightarrow> bool" where
  "lacks s n \<longleftrightarrow> mp_receiver_alive s \<and>
     (case mp_capacity s of None \<Rightarrow> False | Some c \<Rightarrow> c < n + length (mp_queue s) + mp_reserved s)"

definition tx_wait_ok :: "'a mp_sys \<Rightarrow> bool" where
  "tx_wait_ok y \<longleftrightarrow> (\<forall>w n. (w, n) \<in> tx_parked y \<longrightarrow> w \<in> set (mp_send_wakers (mst y)) \<and> lacks (mst y) n) \<and>
     (tx_blocked y \<longrightarrow> lacks (mst y) 1)"

lemma lacks_simps [simp]:
  "lacks (s\<lparr>mp_recv_waker := x\<rparr>) n \<longleftrightarrow> lacks s n" "lacks (s\<lparr>mp_send_wakers := xs\<rparr>) n \<longleftrightarrow> lacks s n"
  "lacks (s\<lparr>mp_close_waiters := xs\<rparr>) n \<longleftrightarrow> lacks s n" "lacks (s\<lparr>mp_sender_count := k\<rparr>) n \<longleftrightarrow> lacks s n"
  by (simp_all add: lacks_def split: option.splits)

lemma lacks_push: "lacks s n \<Longrightarrow> lacks (s\<lparr>mp_queue := mp_queue s @ vs\<rparr>) n"
  by (auto simp: lacks_def split: option.splits)

lemma lacks_reserve: "lacks s n \<Longrightarrow> lacks (s\<lparr>mp_reserved := mp_reserved s + k\<rparr>) n"
  by (auto simp: lacks_def split: option.splits)

lemma lacks_use_permit:
  "lacks s n \<Longrightarrow> 1 \<le> mp_reserved s \<Longrightarrow> lacks (s\<lparr>mp_reserved := mp_reserved s - 1, mp_queue := mp_queue s @ [v]\<rparr>) n"
  by (auto simp: lacks_def split: option.splits)

lemma lacks_unbounded: "mp_capacity s = None \<Longrightarrow> lacks s n \<longleftrightarrow> False"
  by (simp add: lacks_def)

lemma full_lacks: "mp_receiver_alive s \<Longrightarrow> mp_full s \<longleftrightarrow> lacks s 1"
  by (auto simp: mp_full_def lacks_def split: option.splits)

lemmas mp_act_defs = reserve_now_def poll_reserve_def mp_permit_send_def send_reserved_def push_value_def
  mp_permit_drop_def release_reserved_def wake_senders_def mp_sender_clone_def mp_sender_drop_def mp_weak_upgrade_def usize_add_def
  sender_closed_poll_def unbounded_close_def mp_close_def unbounded_receiver_drop_def mp_receiver_drop_def
  recv_waker_list_def usize_sub_def Let_def

lemma log_ok_step:
  assumes "mp_step y z" "log_ok y"
  shows "log_ok z"
  using assms
proof cases
  case (tx_accepted t a s' ws b)
  with assms(2) tx_do_spec [OF tx_accepted(4,3)] show ?thesis by (auto simp: log_ok_def push_value_def)
next
  case (tx_refused t a s' ws b)
  with assms(2) tx_do_spec [OF tx_refused(4,3)] show ?thesis by (auto simp: log_ok_def)
next
  case (tx_waiting t a s' ws b w)
  with assms(2) tx_do_spec [OF tx_waiting(4,3)] show ?thesis by (auto simp: log_ok_def)
next
  case (tx_blocked t a s' ws b)
  with assms(2) tx_do_spec [OF tx_blocked(4,3)] show ?thesis by (auto simp: log_ok_def)
next
  case (rx_got a s' vs ws b)
  with assms(2) rx_do_spec [OF rx_got(4,3)] show ?thesis by (auto simp: log_ok_def rx_got_def)
next
  case (rx_nothing a s' vs r ws b)
  with assms(2) rx_do_spec [OF rx_nothing(4,3)] show ?thesis by (auto simp: log_ok_def)
next
  case (rx_waiting a s' vs ws b w)
  with assms(2) rx_do_spec [OF rx_waiting(4,3)] show ?thesis by (auto simp: log_ok_def)
next
  case (rx_blocked a s' vs ws b)
  with assms(2) rx_do_spec [OF rx_blocked(4,3)] show ?thesis by (auto simp: log_ok_def)
qed (auto simp: log_ok_def mp_act_defs split: if_splits option.splits)

lemma counts_ok_step:
  assumes "mp_step y z" and inv: "counts_ok cap y"
  shows "counts_ok cap z"
  using assms(1)
proof cases
  case (tx_accepted t a s' ws b)
  with inv tx_do_spec [OF tx_accepted(4,3)] show ?thesis
    by (auto simp: counts_ok_def push_value_def mp_full_def split: option.splits)
next
  case (tx_refused t a s' ws b)
  with inv tx_do_spec [OF tx_refused(4,3)] show ?thesis
    by (auto simp: counts_ok_def rx_got_def split: option.splits)
next
  case (tx_waiting t a s' ws b w)
  with inv tx_do_spec [OF tx_waiting(4,3)] show ?thesis
    by (auto simp: counts_ok_def rx_got_def split: option.splits)
next
  case (tx_blocked t a s' ws b)
  with inv tx_do_spec [OF tx_blocked(4,3)] show ?thesis
    by (auto simp: counts_ok_def rx_got_def split: option.splits)
next
  case (rx_got a s' vs ws b)
  with inv rx_do_spec [OF rx_got(4,3)] show ?thesis
    by (auto simp: counts_ok_def rx_got_def split: option.splits)
next
  case (rx_nothing a s' vs r ws b)
  with inv rx_do_spec [OF rx_nothing(4,3)] show ?thesis
    by (auto simp: counts_ok_def rx_got_def split: option.splits)
next
  case (rx_waiting a s' vs ws b w)
  with inv rx_do_spec [OF rx_waiting(4,3)] show ?thesis
    by (auto simp: counts_ok_def rx_got_def split: option.splits)
next
  case (rx_blocked a s' vs ws b)
  with inv rx_do_spec [OF rx_blocked(4,3)] show ?thesis
    by (auto simp: counts_ok_def rx_got_def split: option.splits)
next
  case (permit_used t v s' n' ws b)
  then have s': "mp_sender_count s' = mp_sender_count (mst y)" "mp_reserved s' = mp_reserved (mst y) - 1"
    "mp_capacity s' = mp_capacity (mst y)" "mp_queue s' = mp_queue (mst y) @ [v]" "1 \<le> mp_reserved (mst y)"
    by (auto simp: mp_act_defs split: if_splits)
  have "units (permits z) = units (permits y) - 1" "set_mset (image_mset fst (permits z)) \<subseteq> set_mset (image_mset fst (permits y))"
    using permit_used(1) units_remove [OF permit_used(2)] by (auto dest: in_diffD)
  with permit_used(1) s' inv show ?thesis
    by (simp add: counts_ok_def split: option.splits) (blast | arith)+
next
  case (permit_split t n n' k)
  then obtain m where "n = Suc m" "n' = m" "k = 1" by (cases n) auto
  with permit_split(1) units_remove [OF permit_split(2)]
  have "units (permits z) = units (permits y)" "set_mset (image_mset fst (permits z)) \<subseteq> insert t (set_mset (image_mset fst (permits y)))"
    by (auto dest: in_diffD)
  moreover have "t \<in> fst ` set_mset (permits y)" using permit_split(2) by force
  ultimately show ?thesis using permit_split(1) inv by (auto simp: counts_ok_def split: option.splits)
next
  case (permit_dropped t n s' ws b)
  then have s': "mp_sender_count s' = mp_sender_count (mst y)" "mp_reserved s' = mp_reserved (mst y) - n"
    "mp_capacity s' = mp_capacity (mst y)" "mp_queue s' = mp_queue (mst y)"
    by (auto simp: mp_permit_drop_def release_reserved_def wake_senders_def usize_sub_def Let_def split: if_splits)
  have "units (permits z) = units (permits y) - n" "set_mset (image_mset fst (permits z)) \<subseteq> set_mset (image_mset fst (permits y))"
    using permit_dropped(1) units_remove [OF permit_dropped(2)] by (auto dest: in_diffD)
  with permit_dropped(1) s' inv show ?thesis
    unfolding counts_ok_def by (auto split: option.splits)
next
  case (tx_drop t s' ws b)
  then have s': "mp_sender_count s' = mp_sender_count (mst y) - 1" "mp_reserved s' = mp_reserved (mst y)"
    "mp_capacity s' = mp_capacity (mst y)" "mp_queue s' = mp_queue (mst y)"
    by (auto simp: mp_act_defs split: if_splits)
  have "set_mset (image_mset fst (permits y)) \<subseteq> txs y - {t}" using tx_drop(3) inv by (auto simp: counts_ok_def)
  with tx_drop(1,2) s' inv show ?thesis by (simp add: counts_ok_def split: option.splits)
next
  case (tx_closed t w s' r)
  with inv show ?thesis by (auto simp: counts_ok_def sender_closed_poll_def split: if_splits option.splits)
next
  case (rx_close s' ws b)
  with inv show ?thesis by (simp add: counts_ok_def unbounded_close_def mp_close_def split: if_splits option.splits)
next
  case (rx_drop s' ws b)
  with inv show ?thesis by (simp add: counts_ok_def unbounded_receiver_drop_def mp_receiver_drop_def split: if_splits option.splits)
next
  case (upgrade s' t')
  with inv show ?thesis by (auto simp: counts_ok_def mp_weak_upgrade_def usize_add_def split: if_splits option.splits)
next
  case (tx_clone t t' s')
  with inv show ?thesis by (auto simp: counts_ok_def mp_sender_clone_def usize_add_def split: if_splits option.splits)
qed (use inv in \<open>auto simp: counts_ok_def reserve_now_def poll_reserve_def split: if_splits option.splits\<close>)

lemma rx_wait_ok_step:
  assumes "mp_step y z" and inv: "rx_wait_ok y"
  shows "rx_wait_ok z"
  using assms(1)
proof cases
  case (tx_accepted t a s' ws b)
  with inv tx_do_spec [OF tx_accepted(4,3)] show ?thesis
    by (auto simp: rx_wait_ok_def push_value_def recv_waker_list_def)
next
  case (tx_refused t a s' ws b)
  with inv tx_do_spec [OF tx_refused(4,3)] show ?thesis
    by (auto simp: rx_wait_ok_def disconnected_def)
next
  case (tx_waiting t a s' ws b w)
  with inv tx_do_spec [OF tx_waiting(4,3)] show ?thesis
    by (auto simp: rx_wait_ok_def disconnected_def)
next
  case (tx_blocked t a s' ws b)
  with inv tx_do_spec [OF tx_blocked(4,3)] show ?thesis
    by (auto simp: rx_wait_ok_def disconnected_def)
next
  case (rx_got a s' vs ws b)
  with inv rx_do_spec [OF rx_got(4,3)] show ?thesis
    by (auto simp: rx_wait_ok_def disconnected_def)
next
  case (rx_nothing a s' vs r ws b)
  with inv rx_do_spec [OF rx_nothing(4,3)] show ?thesis
    by (auto simp: rx_wait_ok_def disconnected_def)
next
  case (rx_waiting a s' vs ws b w)
  with inv rx_do_spec [OF rx_waiting(4,3)] show ?thesis
    by (auto simp: rx_wait_ok_def disconnected_def)
next
  case (rx_blocked a s' vs ws b)
  with inv rx_do_spec [OF rx_blocked(4,3)] show ?thesis
    by (auto simp: rx_wait_ok_def disconnected_def)
qed (use inv in \<open>auto simp: rx_wait_ok_def disconnected_def mp_act_defs split: if_splits option.splits\<close>)

lemma tx_wait_ok_step:
  assumes "mp_step y z" and inv: "tx_wait_ok y"
  shows "tx_wait_ok z"
  using assms(1)
proof cases
  case (tx_accepted t a s' ws b)
  with inv tx_do_spec [OF tx_accepted(4,3)] show ?thesis
    by (auto simp: tx_wait_ok_def push_value_def lacks_push)
next
  case (tx_refused t a s' ws b)
  with inv tx_do_spec [OF tx_refused(4,3)] show ?thesis
    by (auto simp: tx_wait_ok_def full_lacks)
next
  case (tx_waiting t a s' ws b w)
  with inv tx_do_spec [OF tx_waiting(4,3)] show ?thesis
    by (auto simp: tx_wait_ok_def full_lacks)
next
  case (tx_blocked t a s' ws b)
  with inv tx_do_spec [OF tx_blocked(4,3)] show ?thesis
    by (auto simp: tx_wait_ok_def full_lacks)
next
  case (rx_got a s' vs ws b)
  with inv rx_do_spec [OF rx_got(4,3)] show ?thesis
    by (fastforce simp: tx_wait_ok_def rx_got_def lacks_def)
next
  case (rx_nothing a s' vs r ws b)
  with inv rx_do_spec [OF rx_nothing(4,3)] show ?thesis
    by (auto simp: tx_wait_ok_def full_lacks)
next
  case (rx_waiting a s' vs ws b w)
  with inv rx_do_spec [OF rx_waiting(4,3)] show ?thesis
    by (auto simp: tx_wait_ok_def full_lacks)
next
  case (rx_blocked a s' vs ws b)
  with inv rx_do_spec [OF rx_blocked(4,3)] show ?thesis
    by (auto simp: tx_wait_ok_def full_lacks)
next
  case (reserve_waiting t n w s')
  then have "lacks (mst y) n" "s' = mst y\<lparr>mp_send_wakers := mp_send_wakers (mst y) @ [w]\<rparr>"
    by (auto simp: poll_reserve_def lacks_def split: if_splits option.splits)
  with reserve_waiting inv show ?thesis by (auto simp: tx_wait_ok_def)
next
  case (permit_used t v s' n' ws b)
  with inv lacks_use_permit [of "mst y"] show ?thesis
    by (auto simp: tx_wait_ok_def mp_permit_send_def send_reserved_def push_value_def usize_sub_def split: if_splits)
qed (use inv in \<open>auto simp: tx_wait_ok_def mp_act_defs lacks_reserve lacks_unbounded split: if_splits option.splits\<close>)

lemma mp_reach_inv:
  assumes "mp_reach cap y"
  shows "counts_ok cap y \<and> log_ok y \<and> rx_wait_ok y \<and> tx_wait_ok y"
  using assms
proof induction
  case (step y z)
  then show ?case using counts_ok_step log_ok_step rx_wait_ok_step tx_wait_ok_step by metis
qed (auto simp: mp_channel_def unbounded_channel_def shared_new_def mp_start_def counts_ok_def log_ok_def
       rx_wait_ok_def tx_wait_ok_def split: if_splits)

text \<open>Once the channel is disconnected and drained it stays so, and accepts nothing.\<close>

lemma disconnected_step:
  assumes "mp_step y z" and inv: "counts_ok cap y" and dis: "disconnected (mst y)"
  shows "disconnected (mst z) \<and> accepted z = accepted y"
proof (cases "txs y = {}")
  case True
  with inv have "permits y = {#}" "mp_sender_count (mst y) = 0" by (auto simp: counts_ok_def)
  with assms(1) True show ?thesis
  proof cases
    case (rx_got a s' vs ws b)
    with dis rx_do_spec [OF rx_got(4,3)] show ?thesis by (auto simp: disconnected_def rx_got_def)
  next
    case (rx_nothing a s' vs r ws b)
    with dis rx_do_spec [OF rx_nothing(4,3)] show ?thesis by (auto simp: disconnected_def)
  next
    case (rx_waiting a s' vs ws b w)
    with dis rx_do_spec [OF rx_waiting(4,3)] show ?thesis by (auto simp: disconnected_def)
  next
    case (rx_blocked a s' vs ws b)
    with dis rx_do_spec [OF rx_blocked(4,3)] show ?thesis by (auto simp: disconnected_def)
  qed (auto simp: disconnected_def mp_act_defs split: if_splits)
next
  case False
  with inv dis have closed: "\<not> mp_receiver_alive (mst y)" "units (permits y) = 0" "mp_reserved (mst y) = 0"
    by (auto simp: counts_ok_def disconnected_def)
  from assms(1) show ?thesis
  proof cases
    case (tx_accepted t a s' ws b)
    with closed tx_do_spec [OF tx_accepted(4,3)] show ?thesis by auto
  next
    case (tx_refused t a s' ws b)
    with closed tx_do_spec [OF tx_refused(4,3)] show ?thesis by (auto simp: disconnected_def)
  next
    case (tx_waiting t a s' ws b w)
    with closed tx_do_spec [OF tx_waiting(4,3)] show ?thesis by auto
  next
    case (tx_blocked t a s' ws b)
    with closed tx_do_spec [OF tx_blocked(4,3)] show ?thesis by auto
  next
    case (rx_got a s' vs ws b)
    with closed rx_do_spec [OF rx_got(4,3)] show ?thesis by (auto simp: disconnected_def rx_got_def)
  next
    case (rx_nothing a s' vs r ws b)
    with closed rx_do_spec [OF rx_nothing(4,3)] show ?thesis by (auto simp: disconnected_def)
  next
    case (rx_waiting a s' vs ws b w)
    with closed rx_do_spec [OF rx_waiting(4,3)] show ?thesis by (auto simp: disconnected_def)
  next
    case (rx_blocked a s' vs ws b)
    with closed rx_do_spec [OF rx_blocked(4,3)] show ?thesis by (auto simp: disconnected_def)
  qed (use closed in \<open>auto simp: disconnected_def mp_act_defs split: if_splits option.splits\<close>)
qed

section \<open>Properties\<close>

text \<open>C17: the channel is a bounded queue. In every run, the messages the receiver has got, followed by those still queued, are exactly the
  messages accepted from the senders, in the order in which they were accepted: none is lost, duplicated or reordered, whichever of the send and
  receive operations and permits are used. The queued messages and the reserved units together are within the capacity, the units reserved are
  those that the live permits hold, and the sender count is the number of live senders; therefore dropping or using a permit and dropping a
  sender never panics.\<close>

theorem mpsc_bounded_fifo:
  assumes "mp_reach cap y"
  shows "accepted y = received y @ mp_queue (mst y) \<and>
    (case cap of None \<Rightarrow> mp_reserved (mst y) = 0 | Some c \<Rightarrow> length (mp_queue (mst y)) + mp_reserved (mst y) \<le> c) \<and>
    mp_reserved (mst y) = units (permits y) \<and> mp_sender_count (mst y) = card (txs y) \<and>
    (\<forall>t n. (t, n) \<in># permits y \<longrightarrow> (\<exists>s' ws b. mp_permit_drop (mst y) n = Inr (s', ws, b))) \<and>
    (\<forall>t v. (t, 1) \<in># permits y \<longrightarrow> (\<exists>s' n ws b. mp_permit_send (mst y) 1 v = Inr (s', n, ws, b))) \<and>
    (\<forall>t \<in> txs y. \<exists>s' ws b. mp_sender_drop (mst y) = Inr (s', ws, b))"
proof -
  have ok: "counts_ok cap y" using mp_reach_inv [OF assms] by blast
  have "n \<le> mp_reserved (mst y)" if "(t, n) \<in># permits y" for t n
    using units_remove [OF that] ok by (simp add: counts_ok_def)
  moreover have "0 < mp_sender_count (mst y)" if "t \<in> txs y" for t
    using that ok by (auto simp: counts_ok_def card_gt_0_iff)
  moreover have "accepted y = received y @ mp_queue (mst y)" using mp_reach_inv [OF assms] by (simp add: log_ok_def)
  ultimately show ?thesis
    using ok by (force simp: counts_ok_def mp_act_defs)
qed

text \<open>The receiver is not left waiting. In every run, if the receiver's task is parked, its waker is the one registered, the
  queue is empty and the channel is not disconnected; and every step after which a message is there or
  the channel is disconnected calls the waker. The same holds of a thread blocked in \<open>blocking_recv\<close>.\<close>

lemma receiver_no_lost_wakeup:
  assumes "mp_reach cap y"
  shows "(\<forall>w. rx_parked y = Some w \<longrightarrow>
      mp_recv_waker (mst y) = Some w \<and> mp_queue (mst y) = [] \<and> \<not> disconnected (mst y) \<and>
      (\<forall>z. mp_step y z \<and> (mp_queue (mst z) \<noteq> [] \<or> disconnected (mst z)) \<longrightarrow> rx_parked z = None)) \<and>
    (rx_blocked y \<longrightarrow> mp_queue (mst y) = [] \<and> \<not> disconnected (mst y) \<and>
      (\<forall>z. mp_step y z \<and> (mp_queue (mst z) \<noteq> [] \<or> disconnected (mst z)) \<longrightarrow> \<not> rx_blocked z))"
proof -
  have ok: "rx_wait_ok y" using mp_reach_inv [OF assms] by blast
  have "rx_parked z = None \<and> \<not> rx_blocked z" if "mp_step y z" "mp_queue (mst z) \<noteq> [] \<or> disconnected (mst z)" for z
    using rx_wait_ok_step [OF that(1) ok] that(2) by (cases "rx_parked z") (auto simp: rx_wait_ok_def)
  with ok show ?thesis unfolding rx_wait_ok_def by blast
qed

text \<open>No sender is left waiting. In every run, a send or reservation that returned \<open>Pending\<close> for lack of \<open>n\<close> units and
  whose waker has not been called since is registered and still lacks them; every step after which it would get
  them, or after which the receiver is gone, calls its waker. A thread blocked in \<open>blocking_send\<close> still lacks room.\<close>

lemma sender_no_lost_wakeup:
  assumes "mp_reach cap y"
  shows "(\<forall>w n. (w, n) \<in> tx_parked y \<longrightarrow>
      w \<in> set (mp_send_wakers (mst y)) \<and> (\<forall>w'. \<exists>s'. poll_reserve (mst y) n w' = Inr (s', Pending)) \<and>
      (\<forall>z. mp_step y z \<and> \<not> lacks (mst z) n \<longrightarrow> (w, n) \<notin> tx_parked z)) \<and>
    (tx_blocked y \<longrightarrow> lacks (mst y) 1 \<and> (\<forall>z. mp_step y z \<and> \<not> lacks (mst z) 1 \<longrightarrow> \<not> tx_blocked z))"
proof -
  have ok: "tx_wait_ok y" "counts_ok cap y" using mp_reach_inv [OF assms] by blast+
  have "(w, n) \<notin> tx_parked z" if "mp_step y z" "\<not> lacks (mst z) n" for z w n
    using tx_wait_ok_step [OF that(1) ok(1)] that(2) unfolding tx_wait_ok_def by blast
  moreover have "\<not> tx_blocked z" if "mp_step y z" "\<not> lacks (mst z) 1" for z
    using tx_wait_ok_step [OF that(1) ok(1)] that(2) unfolding tx_wait_ok_def by blast
  moreover have "\<exists>s'. poll_reserve (mst y) n w' = Inr (s', Pending)" if "lacks (mst y) n" for n w'
    using that ok(2) by (auto simp: poll_reserve_def lacks_def counts_ok_def split: option.splits)
  ultimately show ?thesis using ok(1) unfolding tx_wait_ok_def by blast
qed

text \<open>C18: neither end is left waiting. In every run, a parked receiver is the one registered and has nothing to receive; a parked send
  or reservation is registered and lacks room; and every step after which there is a message, room or the end of the channel calls the waker of whoever
  waits for it. The same holds of threads blocked in \<open>blocking_recv\<close> and \<open>blocking_send\<close>.\<close>

theorem mpsc_no_lost_wakeup:
  assumes "mp_reach cap y"
  shows "(\<forall>w. rx_parked y = Some w \<longrightarrow>
      mp_recv_waker (mst y) = Some w \<and> mp_queue (mst y) = [] \<and> \<not> disconnected (mst y) \<and>
      (\<forall>z. mp_step y z \<and> (mp_queue (mst z) \<noteq> [] \<or> disconnected (mst z)) \<longrightarrow> rx_parked z = None)) \<and>
    (rx_blocked y \<longrightarrow> mp_queue (mst y) = [] \<and> \<not> disconnected (mst y) \<and>
      (\<forall>z. mp_step y z \<and> (mp_queue (mst z) \<noteq> [] \<or> disconnected (mst z)) \<longrightarrow> \<not> rx_blocked z)) \<and>
    (\<forall>w n. (w, n) \<in> tx_parked y \<longrightarrow>
      w \<in> set (mp_send_wakers (mst y)) \<and> (\<forall>w'. \<exists>s'. poll_reserve (mst y) n w' = Inr (s', Pending)) \<and>
      (\<forall>z. mp_step y z \<and> \<not> lacks (mst z) n \<longrightarrow> (w, n) \<notin> tx_parked z)) \<and>
    (tx_blocked y \<longrightarrow> lacks (mst y) 1 \<and> (\<forall>z. mp_step y z \<and> \<not> lacks (mst z) 1 \<longrightarrow> \<not> tx_blocked z))"
  using receiver_no_lost_wakeup [OF assms] sender_no_lost_wakeup [OF assms] by (intro conjI) blast+


text \<open>The loop of \<open>try_recv\<close> calls takes as many messages as the limit allows.\<close>

declare try_recv_loop.simps [simp del]

lemma try_recv_loop_take:
  assumes "i \<le> length buf" "mp_send_wakers s = []"
  shows "try_recv_loop i l buf s =
    (buf @ take (l - (length buf - i)) (mp_queue s), s\<lparr>mp_queue := drop (l - (length buf - i)) (mp_queue s)\<rparr>)"
  using assms
proof (induction i l buf s rule: try_recv_loop.induct)
  case (1 i l buf s)
  show ?case
  proof (cases "length buf - i < l \<and> mp_queue s \<noteq> []")
    case False
    then show ?thesis
      by (subst try_recv_loop.simps) (auto simp: mp_try_recv_def pop_value_eq)
  next
    case True
    then obtain v q where q: "mp_queue s = v # q" by (cases "mp_queue s") auto
    let ?k = "l - Suc (length buf - i)" and ?s = "s\<lparr>mp_queue := q, mp_send_wakers := []\<rparr>"
    have pop: "mp_try_recv s = (?s, Inr v, mp_send_wakers s, True)" by (simp add: mp_try_recv_def pop_value_eq q)
    have k: "l - (length buf - i) = Suc ?k" using True by arith
    have "try_recv_loop i l (buf @ [v]) ?s = ((buf @ [v]) @ take ?k q, ?s\<lparr>mp_queue := drop ?k q\<rparr>)"
      using 1 True pop by (simp add: Suc_diff_le)
    then show ?thesis
      using True pop 1(3) unfolding k by (subst try_recv_loop.simps) (simp add: q)
  qed
qed

text \<open>C20: receiving many at a time is receiving one at a time. Whenever a message is there, \<open>poll_recv_many\<close>, which drains the queue
  under one lock, and \<open>recv_many\<close>, which receives a message and then calls \<open>try_recv\<close> until the limit is reached or the queue is
  empty, leave the same channel and the same buffer, with the first \<open>limit\<close> messages appended, and return their number.\<close>

theorem mpsc_recv_many_equivalent:
  assumes "0 < limit" "poll_recv_shared s w = (s1, Ready (Some v), ws, b)"
    and "poll_recv_many_shared s w buffer limit = (s2, buffer2, r, ws2, b2)"
  shows "recv_many s1 (Some v) buffer limit = (s2, buffer2, length buffer2 - length buffer) \<and>
    r = Ready (length buffer2 - length buffer) \<and> buffer2 = buffer @ take limit (mp_queue s) \<and> ws2 = ws"
proof -
  from assms(2) have q: "mp_queue s \<noteq> []" "v = hd (mp_queue s)" "s1 = s\<lparr>mp_queue := tl (mp_queue s), mp_send_wakers := []\<rparr>" "ws = mp_send_wakers s"
    by (auto simp: poll_recv_shared_def pop_value_eq split: if_splits)
  then obtain x xs where x: "mp_queue s = x # xs" by (cases "mp_queue s") auto
  from assms(1) obtain l where l: "limit = Suc l" by (cases limit) auto
  have "try_recv_loop (length buffer) limit (buffer @ [v]) s1 =
      ((buffer @ [v]) @ take l xs, s1\<lparr>mp_queue := drop l xs\<rparr>)"
    by (subst try_recv_loop_take) (simp_all add: q x l)
  with q x l assms(3) show ?thesis
    by (auto simp: recv_many_def poll_recv_many_eq)
qed

section \<open>Concrete runs\<close>

text \<open>A channel of capacity one, with a queued message and a sender waiting; an empty one with a parked receiver.\<close>

definition mp_demo0 :: "nat mp_inner" where
  "mp_demo0 = \<lparr>mp_queue = [], mp_capacity = Some 1, mp_reserved = 0, mp_sender_count = 1,
     mp_receiver_alive = True, mp_recv_waker = None, mp_send_wakers = [], mp_close_waiters = []\<rparr>"

lemma mp_demo_start: "mp_reach (Some 1) (mp_start mp_demo0)"
  by (rule mp_reach.bounded [of _ 1]) (simp_all add: mp_channel_def shared_new_def mp_demo0_def)

definition mp_demo_sent :: "nat mp_sys" where
  "mp_demo_sent = wake_up [] True (mp_start mp_demo0\<lparr>mst := mp_demo0\<lparr>mp_queue := [5]\<rparr>, accepted := [5]\<rparr>)"

lemma mp_demo_sent_reach: "mp_reach (Some 1) mp_demo_sent"
proof -
  have "mp_step (mp_start mp_demo0) mp_demo_sent"
    using mp_step.tx_accepted [of 0 "mp_start mp_demo0" "TrySend 5" "mst mp_demo_sent" "[]" True]
    by (simp add: mp_demo_sent_def mp_demo0_def mp_start_def mp_try_send_def push_value_def mp_full_def recv_waker_list_def)
  with mp_demo_start show ?thesis by (rule mp_reach.step)
qed

definition mp_demo_full :: "nat mp_sys" where
  "mp_demo_full = wake_up [] False (mp_demo_sent\<lparr>mst := mp_demo0\<lparr>mp_queue := [5], mp_send_wakers := [9]\<rparr>,
     tx_parked := insert (9, 1) (tx_parked mp_demo_sent)\<rparr>)"

lemma mp_demo_full_reach: "mp_reach (Some 1) mp_demo_full"
proof -
  have "mp_step mp_demo_sent mp_demo_full"
    using mp_step.tx_waiting [of 0 mp_demo_sent "SendPoll 6 9" "mst mp_demo_full" "[]" False 9]
    by (simp add: mp_demo_full_def mp_demo_sent_def mp_demo0_def mp_start_def send_future_poll_def mp_full_def)
  with mp_demo_sent_reach show ?thesis by (rule mp_reach.step)
qed

definition mp_demo_parked :: "nat mp_sys" where
  "mp_demo_parked = wake_up [] False (rx_idle (mp_start mp_demo0\<lparr>mst := mp_demo0\<lparr>mp_recv_waker := Some 7\<rparr>\<rparr>))\<lparr>rx_parked := Some 7\<rparr>"

lemma mp_demo_parked_reach: "mp_reach (Some 1) mp_demo_parked"
proof -
  have "mp_step (mp_start mp_demo0) mp_demo_parked"
    using mp_step.rx_waiting [of "mp_start mp_demo0" "PollRecv 7" "mst mp_demo_parked" "[]" "[]" False 7]
    by (simp add: mp_demo_parked_def mp_demo0_def mp_start_def poll_recv_shared_def pop_value_def)
  with mp_demo_start show ?thesis by (rule mp_reach.step)
qed

definition mp_demo_ended :: "nat mp_sys" where
  "mp_demo_ended = wake_up [] True (mp_start mp_demo0\<lparr>mst := mp_demo0\<lparr>mp_sender_count := 0\<rparr>, txs := {}\<rparr>)"

lemma mp_demo_ended_reach: "mp_reach (Some 1) mp_demo_ended"
proof -
  have "mp_step (mp_start mp_demo0) mp_demo_ended"
    using mp_step.tx_drop [of 0 "mp_start mp_demo0" "mst mp_demo_ended" "[]" True]
    by (simp add: mp_demo_ended_def mp_demo0_def mp_start_def mp_sender_drop_def usize_sub_def recv_waker_list_def)
  with mp_demo_start show ?thesis by (rule mp_reach.step)
qed

theorem mpsc_bounded_fifo_witness:
  "accepted mp_demo_sent = received mp_demo_sent @ mp_queue (mst mp_demo_sent) \<and> length (mp_queue (mst mp_demo_full)) + mp_reserved (mst mp_demo_full) \<le> 1"
  using mpsc_bounded_fifo [OF mp_demo_sent_reach] mpsc_bounded_fifo [OF mp_demo_full_reach] by simp

theorem mpsc_no_lost_wakeup_witness:
  "mp_recv_waker (mst mp_demo_parked) = Some 7 \<and> 9 \<in> set (mp_send_wakers (mst mp_demo_full)) \<and>
   (\<exists>s'. poll_reserve (mst mp_demo_full) 1 9 = Inr (s', Pending))"
proof -
  have "rx_parked mp_demo_parked = Some 7" "(9, 1) \<in> tx_parked mp_demo_full" by (simp_all add: mp_demo_parked_def mp_demo_full_def)
  with mpsc_no_lost_wakeup [OF mp_demo_parked_reach] mpsc_no_lost_wakeup [OF mp_demo_full_reach] show ?thesis by blast
qed


theorem mpsc_recv_many_equivalent_witness:
  "recv_many (mp_demo0\<lparr>mp_queue := [6]\<rparr>) (Some 5) [] 1 = (mp_demo0\<lparr>mp_queue := [6]\<rparr>, [5], 1)"
  using mpsc_recv_many_equivalent [of 1 "mp_demo0\<lparr>mp_queue := [5, 6]\<rparr>" 7 "mp_demo0\<lparr>mp_queue := [6]\<rparr>" 5 "[]" True "[]"]
  by (simp add: poll_recv_many_shared_def poll_recv_shared_def pop_value_def wake_senders_def mp_demo0_def)

end
