(* ===== verification/Oneshot.thy ===== *)
theory Oneshot
  imports Ffrt_Prelude
begin

text \<open>
  The single-value channel (\<open>signal/oneshot.rs\<close>). An endpoint is whether it still has its \<open>shared\<close> pointer; every
  operation that has it runs under the FFRT mutex. The effects on others are the wakers that are called and
  whether the condition of \<open>blocking_recv\<close> is broadcast.
\<close>

record 'a os_inner =
  os_value :: "'a option"
  os_sender_alive :: bool
  os_receiver_alive :: bool
  os_recv_waker :: "waker option"
  os_close_waker :: "waker option"

datatype os_recv_error = OsRecvError
datatype os_try_recv_error = OsEmpty | OsClosed

definition os_shared_new :: "'a os_inner" where
  "os_shared_new = \<lparr>os_value = None, os_sender_alive = True, os_receiver_alive = True, os_recv_waker = None, os_close_waker = None\<rparr>"

section \<open>Sender\<close>

text \<open>\<open>send\<close> consumes the sender.\<close>

definition os_send :: "'a os_inner \<Rightarrow> bool \<Rightarrow> 'a \<Rightarrow> 'a os_inner \<times> ('a + unit) \<times> waker list \<times> bool" where
  "os_send s shared value =
     (if \<not> shared then (s, Inl value, [], False)
      else if \<not> os_receiver_alive s then (s, Inl value, [], False)
      else (s\<lparr>os_value := Some value, os_sender_alive := False, os_recv_waker := None\<rparr>, Inr (),
            olist (os_recv_waker s), True))"

definition os_is_closed :: "'a os_inner \<Rightarrow> bool \<Rightarrow> bool" where
  "os_is_closed s shared \<longleftrightarrow> (if shared then \<not> os_receiver_alive s else True)"

definition os_poll_closed :: "'a os_inner \<Rightarrow> bool \<Rightarrow> waker \<Rightarrow> 'a os_inner \<times> unit poll" where
  "os_poll_closed s shared cx =
     (if \<not> shared then (s, Ready ())
      else if \<not> os_receiver_alive s then (s, Ready ())
      else (s\<lparr>os_close_waker := Some cx\<rparr>, Pending))"

definition closed_future_poll :: "'a os_inner \<Rightarrow> waker \<Rightarrow> 'a os_inner \<times> unit poll" where
  "closed_future_poll s cx =
     (if \<not> os_receiver_alive s then (s, Ready ()) else (s\<lparr>os_close_waker := Some cx\<rparr>, Pending))"

definition os_sender_drop :: "'a os_inner \<Rightarrow> bool \<Rightarrow> 'a os_inner \<times> waker list \<times> bool" where
  "os_sender_drop s shared =
     (if \<not> shared then (s, [], False)
      else (s\<lparr>os_sender_alive := False, os_recv_waker := None\<rparr>, olist (os_recv_waker s), True))"

section \<open>Receiver\<close>

definition os_try_recv :: "'a os_inner \<Rightarrow> bool \<Rightarrow> 'a os_inner \<times> bool \<times> (os_try_recv_error + 'a)" where
  "os_try_recv s shared =
     (if \<not> shared then (s, False, Inl OsClosed)
      else (case os_value s of
        Some value \<Rightarrow> (s\<lparr>os_value := None\<rparr>, False, Inr value)
      | None \<Rightarrow>
          if os_sender_alive s \<and> os_receiver_alive s then (s, True, Inl OsEmpty)
          else (s, False, Inl OsClosed)))"

text \<open>One round of the loop of \<open>blocking_recv\<close>, which has taken the pointer (\<open>None\<close>: it waits), and the loop.\<close>

definition os_blocking_round :: "'a os_inner \<Rightarrow> ('a os_inner \<times> (os_recv_error + 'a)) option" where
  "os_blocking_round s = (case os_value s of
     Some value \<Rightarrow> Some (s\<lparr>os_value := None\<rparr>, Inr value)
   | None \<Rightarrow>
       if \<not> os_sender_alive s \<or> \<not> os_receiver_alive s then Some (s, Inl OsRecvError)
       else None)"

fun os_blocking_recv :: "bool \<Rightarrow> 'a os_inner list \<Rightarrow> (os_recv_error + 'a) option" where
  "os_blocking_recv False ss = Some (Inl OsRecvError)"
| "os_blocking_recv True [] = None"
| "os_blocking_recv True (s # ss) = (case os_blocking_round s of
     Some (_, r) \<Rightarrow> Some r
   | None \<Rightarrow> os_blocking_recv True ss)"

definition os_is_finished :: "'a os_inner \<Rightarrow> bool \<Rightarrow> bool" where
  "os_is_finished s shared \<longleftrightarrow>
     (if shared then os_value s \<noteq> None \<or> \<not> os_sender_alive s \<or> \<not> os_receiver_alive s else True)"

definition os_is_terminated :: "bool \<Rightarrow> bool" where
  "os_is_terminated shared \<longleftrightarrow> \<not> shared"

definition os_is_empty :: "'a os_inner \<Rightarrow> bool \<Rightarrow> bool" where
  "os_is_empty s shared \<longleftrightarrow> (if shared then os_value s = None else True)"

definition wake_waiter :: "'a os_inner \<Rightarrow> bool \<Rightarrow> 'a os_inner \<times> waker list \<times> bool" where
  "wake_waiter s shared =
     (if \<not> shared then (s, [], False)
      else (s\<lparr>os_recv_waker := None\<rparr>, olist (os_recv_waker s), True))"

definition os_close :: "'a os_inner \<Rightarrow> bool \<Rightarrow> 'a os_inner \<times> waker list \<times> bool" where
  "os_close s shared =
     (if \<not> shared then (s, [], False)
      else (s\<lparr>os_receiver_alive := False, os_close_waker := None\<rparr>, olist (os_close_waker s), True))"

definition os_recv_poll :: "'a os_inner \<Rightarrow> bool \<Rightarrow> waker \<Rightarrow> 'a os_inner \<times> bool \<times> (os_recv_error + 'a) poll" where
  "os_recv_poll s shared cx =
     (if \<not> shared then (s, False, Ready (Inl OsRecvError))
      else (case os_value s of
        Some value \<Rightarrow> (s\<lparr>os_value := None\<rparr>, False, Ready (Inr value))
      | None \<Rightarrow>
          if \<not> os_sender_alive s \<or> \<not> os_receiver_alive s then (s, False, Ready (Inl OsRecvError))
          else (s\<lparr>os_recv_waker := Some cx\<rparr>, True, Pending)))"

definition os_receiver_drop :: "'a os_inner \<Rightarrow> bool \<Rightarrow> 'a os_inner \<times> waker list \<times> bool" where
  "os_receiver_drop s shared =
     (if \<not> shared then (s, [], False)
      else (s\<lparr>os_receiver_alive := False, os_close_waker := None\<rparr>, olist (os_close_waker s), True))"

section \<open>Clients\<close>

text \<open>
  A system: the shared state; the two endpoints, each with whether it exists and has its pointer; the value that
  was accepted and those that were received; the waker of the parked receiver and that of the sender
  parked in \<open>closed\<close>; and the thread in \<open>blocking_recv\<close>, with whether it sleeps on the condition.
\<close>

record 'a os_sys =
  ost :: "'a os_inner"
  otx :: bool
  orx :: bool
  oaccepted :: "'a option"
  oreceived :: "'a list"
  orx_parked :: "waker option"
  otx_parked :: "waker option"
  oblocking :: bool
  oasleep :: bool

definition os_wake :: "waker list \<Rightarrow> bool \<Rightarrow> 'a os_sys \<Rightarrow> 'a os_sys" where
  "os_wake ws b y = y\<lparr>
     orx_parked := (case orx_parked y of None \<Rightarrow> None | Some w \<Rightarrow> if w \<in> set ws then None else Some w),
     otx_parked := (case otx_parked y of None \<Rightarrow> None | Some w \<Rightarrow> if w \<in> set ws then None else Some w),
     oasleep := (oasleep y \<and> \<not> b)\<rparr>"

inductive os_step :: "'a os_sys \<Rightarrow> 'a os_sys \<Rightarrow> bool" where
  send: "otx y \<Longrightarrow> os_send (ost y) True v = (s', r, ws, b) \<Longrightarrow>
     os_step y (os_wake ws b (y\<lparr>ost := s', otx := False, otx_parked := None,
       oaccepted := (if r = Inr () then Some v else oaccepted y)\<rparr>))"
| sender_drop: "otx y \<Longrightarrow> os_sender_drop (ost y) True = (s', ws, b) \<Longrightarrow>
     os_step y (os_wake ws b (y\<lparr>ost := s', otx := False, otx_parked := None\<rparr>))"
| closed: "otx y \<Longrightarrow> os_poll_closed (ost y) True w = (s', r) \<or> closed_future_poll (ost y) w = (s', r) \<Longrightarrow>
     os_step y (y\<lparr>ost := s', otx_parked := (if r = Pending then Some w else None)\<rparr>)"
| try_recv: "orx y \<Longrightarrow> os_try_recv (ost y) True = (s', rx', r) \<Longrightarrow>
     os_step y (y\<lparr>ost := s', orx := rx', orx_parked := None,
       oreceived := (case r of Inr v \<Rightarrow> oreceived y @ [v] | Inl _ \<Rightarrow> oreceived y)\<rparr>)"
| poll: "orx y \<Longrightarrow> os_recv_poll (ost y) True w = (s', rx', r) \<Longrightarrow>
     os_step y (y\<lparr>ost := s', orx := rx', orx_parked := (if r = Pending then Some w else None),
       oreceived := (case r of Ready (Inr v) \<Rightarrow> oreceived y @ [v] | _ \<Rightarrow> oreceived y)\<rparr>)"
| blocking_start: "orx y \<Longrightarrow> os_step y (y\<lparr>orx := False, orx_parked := None, oblocking := True\<rparr>)"
| blocking_sleep: "oblocking y \<Longrightarrow> os_blocking_round (ost y) = None \<Longrightarrow> os_step y (y\<lparr>oasleep := True\<rparr>)"
| blocking_end: "oblocking y \<Longrightarrow> os_blocking_round (ost y) = Some (s', r) \<Longrightarrow>
     os_step y (y\<lparr>ost := s', oblocking := False, oasleep := False,
       oreceived := (case r of Inr v \<Rightarrow> oreceived y @ [v] | Inl _ \<Rightarrow> oreceived y)\<rparr>)"
| wake: "orx y \<Longrightarrow> wake_waiter (ost y) True = (s', ws, b) \<Longrightarrow> os_step y (os_wake ws b (y\<lparr>ost := s'\<rparr>))"
| close: "orx y \<Longrightarrow> os_close (ost y) True = (s', ws, b) \<Longrightarrow>
     os_step y (os_wake ws b (y\<lparr>ost := s', orx_parked := None\<rparr>))"
| receiver_drop: "orx y \<Longrightarrow> os_receiver_drop (ost y) True = (s', ws, b) \<Longrightarrow>
     os_step y (os_wake ws b (y\<lparr>ost := s', orx := False, orx_parked := None\<rparr>))"

definition os_start :: "'a os_sys" where
  "os_start = \<lparr>ost = os_shared_new, otx = True, orx = True, oaccepted = None, oreceived = [], orx_parked = None,
     otx_parked = None, oblocking = False, oasleep = False\<rparr>"

inductive os_reach :: "'a os_sys \<Rightarrow> bool" where
  start: "os_reach os_start"
| step: "os_reach y \<Longrightarrow> os_step y z \<Longrightarrow> os_reach z"

lemma os_wake_simps [simp]:
  "ost (os_wake ws b y) = ost y" "otx (os_wake ws b y) = otx y" "orx (os_wake ws b y) = orx y"
  "oaccepted (os_wake ws b y) = oaccepted y" "oreceived (os_wake ws b y) = oreceived y"
  "oblocking (os_wake ws b y) = oblocking y" "oasleep (os_wake ws b y) \<longleftrightarrow> oasleep y \<and> \<not> b"
  "orx_parked (os_wake ws b y) = Some w \<longleftrightarrow> orx_parked y = Some w \<and> w \<notin> set ws"
  "otx_parked (os_wake ws b y) = Some w \<longleftrightarrow> otx_parked y = Some w \<and> w \<notin> set ws"
  by (auto simp: os_wake_def split: option.splits)

lemmas os_op_defs = os_send_def os_sender_drop_def os_poll_closed_def closed_future_poll_def os_try_recv_def
  os_recv_poll_def os_blocking_round_def wake_waiter_def os_close_def os_receiver_drop_def

text \<open>The invariant: what the flags say about the endpoints, where the accepted value is, and who waits for what.\<close>

definition os_value_ok :: "'a os_sys \<Rightarrow> bool" where
  "os_value_ok y \<longleftrightarrow> (otx y \<longrightarrow> os_sender_alive (ost y) \<and> oaccepted y = None) \<and>
     (case oaccepted y of
        None \<Rightarrow> os_value (ost y) = None \<and> oreceived y = []
      | Some v \<Rightarrow> \<not> os_sender_alive (ost y) \<and>
          (os_value (ost y) = Some v \<and> oreceived y = [] \<or> os_value (ost y) = None \<and> oreceived y = [v])) \<and>
     (\<not> otx y \<longrightarrow> \<not> os_sender_alive (ost y) \<or> \<not> os_receiver_alive (ost y)) \<and>
     (\<not> orx y \<and> \<not> oblocking y \<longrightarrow> \<not> os_receiver_alive (ost y) \<or> \<not> otx y) \<and> (oblocking y \<longrightarrow> \<not> orx y)"

definition os_wait_ok :: "'a os_sys \<Rightarrow> bool" where
  "os_wait_ok y \<longleftrightarrow>
     (\<forall>w. orx_parked y = Some w \<longrightarrow> os_recv_waker (ost y) = Some w \<and> os_value (ost y) = None \<and>
        os_sender_alive (ost y) \<and> os_receiver_alive (ost y)) \<and>
     (oasleep y \<longrightarrow> oblocking y \<and> os_value (ost y) = None \<and> os_sender_alive (ost y) \<and> os_receiver_alive (ost y)) \<and>
     (\<forall>w. otx_parked y = Some w \<longrightarrow> otx y \<and> os_close_waker (ost y) = Some w \<and> os_receiver_alive (ost y))"

lemma os_value_ok_step:
  assumes "os_step y z" "os_value_ok y"
  shows "os_value_ok z"
  using assms
  by cases (auto simp: os_value_ok_def os_op_defs split: if_splits option.splits)

lemma os_wait_ok_step:
  assumes "os_step y z" "os_value_ok y" "os_wait_ok y"
  shows "os_wait_ok z"
  using assms
  by cases (auto simp: os_wait_ok_def os_value_ok_def os_op_defs split: if_splits option.splits)

lemma os_reach_inv: "os_reach y \<Longrightarrow> os_value_ok y \<and> os_wait_ok y"
proof (induction rule: os_reach.induct)
  case start
  show ?case by (simp add: os_start_def os_shared_new_def os_value_ok_def os_wait_ok_def)
next
  case (step y z)
  then show ?case using os_value_ok_step os_wait_ok_step by blast
qed

section \<open>Properties\<close>

text \<open>The value arrives exactly once. In every run the receiver has got at most the one value that \<open>send\<close> accepted; an
  accepted value that has not been received is the one that the next receive operation of any kind returns, and after it, or
  when no value was accepted and the sender is gone, every receive operation reports the closed channel.\<close>

lemma os_value_delivered:
  assumes "os_reach y"
  shows "(case oaccepted y of
      None \<Rightarrow> oreceived y = []
    | Some v \<Rightarrow> oreceived y = [v] \<or>
        oreceived y = [] \<and> os_is_finished (ost y) (orx y) \<and>
        snd (snd (os_try_recv (ost y) True)) = Inr v \<and>
        (\<forall>w. snd (snd (os_recv_poll (ost y) True w)) = Ready (Inr v)) \<and>
        (\<exists>s'. os_blocking_round (ost y) = Some (s', Inr v))) \<and>
    (\<not> otx y \<and> (oaccepted y = None \<or> oreceived y \<noteq> []) \<longrightarrow>
      snd (snd (os_try_recv (ost y) (orx y))) = Inl OsClosed \<and>
      (\<forall>w. snd (snd (os_recv_poll (ost y) (orx y) w)) = Ready (Inl OsRecvError)) \<and>
      (\<exists>s'. os_blocking_round (ost y) = Some (s', Inl OsRecvError)))"
proof -
  have ok: "os_value_ok y" using os_reach_inv [OF assms] by blast
  show ?thesis
  proof (cases "oaccepted y")
    case None
    with ok show ?thesis by (simp add: os_value_ok_def os_op_defs) blast
  next
    case (Some v)
    with ok have "os_value (ost y) = Some v \<and> oreceived y = [] \<or> os_value (ost y) = None \<and> oreceived y = [v]"
      "\<not> os_sender_alive (ost y)"
      by (simp_all add: os_value_ok_def)
    with Some show ?thesis by (elim disjE) (simp_all add: os_op_defs os_is_finished_def)
  qed
qed

text \<open>Neither end is left waiting. In every run, a receiver parked in \<open>poll\<close> or asleep in \<open>blocking_recv\<close> waits for a sender that is
  alive, and sending a value or dropping the sender wakes it; a sender parked in \<open>closed\<close> waits for a
  receiver that exists, and closing or dropping the receiver wakes it.\<close>

lemma os_ends_woken:
  assumes "os_reach y"
  shows "(\<forall>w. orx_parked y = Some w \<longrightarrow> otx y \<and>
      w \<in> set (fst (snd (os_sender_drop (ost y) True))) \<and>
      (\<forall>v. \<exists>s'. os_send (ost y) True v = (s', Inr (), [w], True))) \<and>
    (oasleep y \<longrightarrow> otx y \<and> snd (snd (os_sender_drop (ost y) True)) \<and>
      (\<forall>v. snd (snd (snd (os_send (ost y) True v))))) \<and>
    (\<forall>w. otx_parked y = Some w \<longrightarrow> (orx y \<or> oblocking y) \<and>
      w \<in> set (fst (snd (os_close (ost y) True))) \<and> w \<in> set (fst (snd (os_receiver_drop (ost y) True))))"
  using os_reach_inv [OF assms]
  by (auto simp: os_value_ok_def os_wait_ok_def os_op_defs)

text \<open>C21: the value arrives exactly once and nobody is left waiting for it. In every run the receiver has got at most the one value that
  \<open>send\<close> accepted; an accepted value that has not been received is the one that the next receive operation of any kind returns, and after it, or
  when no value was accepted and the sender is gone, every receive operation reports the closed channel. A receiver parked in \<open>poll\<close> or asleep in
  \<open>blocking_recv\<close> waits for a sender that is alive, and sending a value or dropping the sender wakes it; a sender parked in \<open>closed\<close> waits
  for a receiver that exists, and closing or dropping the receiver wakes it.\<close>

theorem oneshot_delivers_exactly_once:
  assumes "os_reach y"
  shows "((case oaccepted y of
      None \<Rightarrow> oreceived y = []
    | Some v \<Rightarrow> oreceived y = [v] \<or>
        oreceived y = [] \<and> os_is_finished (ost y) (orx y) \<and>
        snd (snd (os_try_recv (ost y) True)) = Inr v \<and>
        (\<forall>w. snd (snd (os_recv_poll (ost y) True w)) = Ready (Inr v)) \<and>
        (\<exists>s'. os_blocking_round (ost y) = Some (s', Inr v))) \<and>
    (\<not> otx y \<and> (oaccepted y = None \<or> oreceived y \<noteq> []) \<longrightarrow>
      snd (snd (os_try_recv (ost y) (orx y))) = Inl OsClosed \<and>
      (\<forall>w. snd (snd (os_recv_poll (ost y) (orx y) w)) = Ready (Inl OsRecvError)) \<and>
      (\<exists>s'. os_blocking_round (ost y) = Some (s', Inl OsRecvError)))) \<and>
    (\<forall>w. orx_parked y = Some w \<longrightarrow> otx y \<and>
      w \<in> set (fst (snd (os_sender_drop (ost y) True))) \<and>
      (\<forall>v. \<exists>s'. os_send (ost y) True v = (s', Inr (), [w], True))) \<and>
    (oasleep y \<longrightarrow> otx y \<and> snd (snd (os_sender_drop (ost y) True)) \<and>
      (\<forall>v. snd (snd (snd (os_send (ost y) True v))))) \<and>
    (\<forall>w. otx_parked y = Some w \<longrightarrow> (orx y \<or> oblocking y) \<and>
      w \<in> set (fst (snd (os_close (ost y) True))) \<and> w \<in> set (fst (snd (os_receiver_drop (ost y) True))))"
  using os_value_delivered [OF assms] os_ends_woken [OF assms] by (rule conjI)

section \<open>Concrete runs\<close>

definition os_demo_sent :: "nat os_sys" where
  "os_demo_sent = os_wake [] True (os_start\<lparr>ost := os_shared_new\<lparr>os_value := Some 3, os_sender_alive := False\<rparr>,
     otx := False, otx_parked := None, oaccepted := Some 3\<rparr>)"

lemma os_demo_sent_reach: "os_reach os_demo_sent"
proof -
  have "os_step os_start os_demo_sent"
    using os_step.send [of os_start 3 "ost os_demo_sent" "Inr ()" "[]" True]
    by (simp add: os_demo_sent_def os_start_def os_shared_new_def os_send_def)
  with os_reach.start show ?thesis by (rule os_reach.step)
qed

definition os_demo_parked :: "nat os_sys" where
  "os_demo_parked = os_start\<lparr>ost := os_shared_new\<lparr>os_recv_waker := Some 7\<rparr>, orx_parked := Some 7\<rparr>"

lemma os_demo_parked_reach: "os_reach os_demo_parked"
proof -
  have "os_step os_start os_demo_parked"
    using os_step.poll [of os_start 7 "ost os_demo_parked" True Pending]
    by (simp add: os_demo_parked_def os_start_def os_shared_new_def os_recv_poll_def)
  with os_reach.start show ?thesis by (rule os_reach.step)
qed

theorem oneshot_delivers_exactly_once_witness:
  "snd (snd (os_try_recv (ost os_demo_sent) True)) = Inr 3 \<and> (\<exists>s'. os_send (ost os_demo_parked) True 5 = (s', Inr (), [7], True))"
proof
  have "oaccepted os_demo_sent = Some 3" "oreceived os_demo_sent = []" by (simp_all add: os_demo_sent_def os_start_def)
  with oneshot_delivers_exactly_once [OF os_demo_sent_reach] show "snd (snd (os_try_recv (ost os_demo_sent) True)) = Inr 3" by simp
  have "orx_parked os_demo_parked = Some 7" by (simp add: os_demo_parked_def)
  with oneshot_delivers_exactly_once [OF os_demo_parked_reach] show "\<exists>s'. os_send (ost os_demo_parked) True 5 = (s', Inr (), [7], True)" by blast
qed

end
