(* ===== verification/Io_ReadBuf.thy ===== *)
theory Io_ReadBuf
  imports Ffrt_Prelude
begin

text \<open>
  \<open>ReadBuf\<close> of \<open>io.rs\<close>: the buffer that is handed to a reader. A byte that has not been initialised is
  \<open>None\<close>; the code that reads uninitialised bytes as bytes has undefined behaviour, which the invariant
  rules out. An assertion that fails is a panic.
\<close>

type_synonym byte = "8 word"

record read_buf =
  rb_buf :: "byte option list"
  rb_filled :: nat
  rb_initialized :: nat

definition rb_new :: "byte list \<Rightarrow> read_buf" where
  "rb_new buf = \<lparr>rb_buf = map Some buf, rb_filled = 0, rb_initialized = length buf\<rparr>"

definition rb_uninit :: "byte option list \<Rightarrow> read_buf" where
  "rb_uninit buf = \<lparr>rb_buf = buf, rb_filled = 0, rb_initialized = 0\<rparr>"

definition rb_filled_bytes :: "read_buf \<Rightarrow> byte list" where
  "rb_filled_bytes b = map the (take (rb_filled b) (rb_buf b))"

definition rb_initialized_bytes :: "read_buf \<Rightarrow> byte list" where
  "rb_initialized_bytes b = map the (take (rb_initialized b) (rb_buf b))"

definition rb_capacity :: "read_buf \<Rightarrow> nat" where
  "rb_capacity b = length (rb_buf b)"

definition rb_remaining :: "read_buf \<Rightarrow> nat" where
  "rb_remaining b = length (rb_buf b) - rb_filled b"

definition set_filled :: "read_buf \<Rightarrow> nat \<Rightarrow> read_buf panicky" where
  "set_filled b n =
     (if \<not> n \<le> rb_initialized b then Inl ''filled must not become larger than initialized''
      else Inr (b\<lparr>rb_filled := n\<rparr>))"

definition advance :: "read_buf \<Rightarrow> nat \<Rightarrow> read_buf panicky" where
  "advance b n = (case usize_checked_add (rb_filled b) n of
     None \<Rightarrow> Inl ''filled overflow''
   | Some filled \<Rightarrow> set_filled b filled)"

definition assume_init :: "read_buf \<Rightarrow> nat \<Rightarrow> read_buf panicky" where
  "assume_init b n = (case usize_checked_add (rb_filled b) n of
     None \<Rightarrow> Inl ''initialized overflow''
   | Some initialized \<Rightarrow>
       if \<not> initialized \<le> rb_capacity b then Inl ''initialized past capacity''
       else Inr (b\<lparr>rb_initialized := max (rb_initialized b) initialized\<rparr>))"

text \<open>The bytes of the region are zeroed from the initialised part on.\<close>

definition initialize_unfilled_to :: "read_buf \<Rightarrow> nat \<Rightarrow> read_buf panicky" where
  "initialize_unfilled_to b n =
     (if \<not> n \<le> rb_remaining b then Inl ''n overflows remaining''
      else
        (let stop = rb_filled b + n in
         if rb_initialized b < stop
         then Inr (b\<lparr>rb_buf := take (rb_initialized b) (rb_buf b) @ replicate (stop - rb_initialized b) (Some 0) @ drop stop (rb_buf b),
                     rb_initialized := stop\<rparr>)
         else Inr b))"

definition initialize_unfilled :: "read_buf \<Rightarrow> read_buf panicky" where
  "initialize_unfilled b = initialize_unfilled_to b (rb_remaining b)"

text \<open>Overwriting the bytes from position \<open>i\<close> on, as \<open>copy_from_slice\<close> into the region does.\<close>

definition overwrite :: "'a list \<Rightarrow> nat \<Rightarrow> 'a list \<Rightarrow> 'a list" where
  "overwrite xs i ys = take i xs @ ys @ drop (i + length ys) xs"

definition put_slice :: "read_buf \<Rightarrow> byte list \<Rightarrow> read_buf panicky" where
  "put_slice b bytes =
     (if \<not> length bytes \<le> rb_remaining b then Inl ''source does not fit in ReadBuf''
      else (case initialize_unfilled_to b (length bytes) of
        Inl e \<Rightarrow> Inl e
      | Inr b \<Rightarrow> Inr (b\<lparr>rb_buf := overwrite (rb_buf b) (rb_filled b) (map Some bytes),
                       rb_filled := rb_filled b + length bytes\<rparr>)))"

definition rb_clear :: "read_buf \<Rightarrow> read_buf" where
  "rb_clear b = b\<lparr>rb_filled := 0\<rparr>"

definition rb_len :: "read_buf \<Rightarrow> nat" where
  "rb_len b = rb_filled b"

definition rb_is_empty :: "read_buf \<Rightarrow> bool" where
  "rb_is_empty b \<longleftrightarrow> rb_filled b = 0"

text \<open>A sub-buffer over at most \<open>n\<close> bytes of the unfilled region.\<close>

definition rb_take :: "read_buf \<Rightarrow> nat \<Rightarrow> read_buf panicky" where
  "rb_take b n =
     (let amount = min n (rb_remaining b);
          taken = rb_uninit (take amount (drop (rb_filled b) (rb_buf b)))
      in assume_init taken (min (rb_initialized b - rb_filled b) amount))"

section \<open>The invariant\<close>

definition rb_ok :: "read_buf \<Rightarrow> bool" where
  "rb_ok b \<longleftrightarrow> rb_filled b \<le> rb_initialized b \<and> rb_initialized b \<le> length (rb_buf b) \<and>
     (\<forall>i<rb_initialized b. rb_buf b ! i \<noteq> None) \<and> length (rb_buf b) \<le> usize_max"

lemma rb_new_ok: "length buf \<le> usize_max \<Longrightarrow> rb_ok (rb_new buf)"
  by (simp add: rb_ok_def rb_new_def)

lemma rb_new_simps [simp]:
  "rb_capacity (rb_new buf) = length buf" "rb_remaining (rb_new buf) = length buf" "rb_filled_bytes (rb_new buf) = []"
  "rb_filled (rb_new buf) = 0"
  by (simp_all add: rb_new_def rb_capacity_def rb_remaining_def rb_filled_bytes_def)

lemma rb_remaining_capacity: "rb_remaining b = rb_capacity b - rb_filled b"
  by (simp add: rb_remaining_def rb_capacity_def)

lemma rb_ok_filled:
  assumes "rb_ok b"
  shows "None \<notin> set (take (rb_filled b) (rb_buf b))"
proof
  assume "None \<in> set (take (rb_filled b) (rb_buf b))"
  then obtain i where i: "i < rb_filled b" "rb_buf b ! i = None" by (auto simp: in_set_conv_nth)
  then have "i < rb_initialized b" using assms by (simp add: rb_ok_def)
  with i(2) assms show False unfolding rb_ok_def by blast
qed

lemma length_rb_filled_bytes [simp]: "rb_ok b \<Longrightarrow> length (rb_filled_bytes b) = rb_filled b"
  by (simp add: rb_ok_def rb_filled_bytes_def)

lemma length_overwrite [simp]: "i + length ys \<le> length xs \<Longrightarrow> length (overwrite xs i ys) = length xs"
  by (simp add: overwrite_def)

lemma nth_overwrite:
  "i + length ys \<le> length xs \<Longrightarrow> j < length xs \<Longrightarrow>
     overwrite xs i ys ! j = (if i \<le> j \<and> j < i + length ys then ys ! (j - i) else xs ! j)"
  by (auto simp: overwrite_def nth_append min_def)

lemma take_overwrite: "i + length ys \<le> length xs \<Longrightarrow> take (i + length ys) (overwrite xs i ys) = take i xs @ ys"
  by (simp add: overwrite_def)

text \<open>Initialising a part of the unfilled region keeps the bytes that are initialised already.\<close>

lemma initialize_unfilled_to_ok:
  assumes "rb_ok b" "n \<le> rb_remaining b"
  obtains b' where "initialize_unfilled_to b n = Inr b'" "rb_ok b'" "rb_capacity b' = rb_capacity b" "rb_filled b' = rb_filled b"
    "rb_filled_bytes b' = rb_filled_bytes b" "rb_initialized b' = max (rb_initialized b) (rb_filled b + n)"
    "\<forall>i<rb_initialized b. rb_buf b' ! i = rb_buf b ! i"
proof (cases "rb_initialized b < rb_filled b + n")
  case True
  let ?stop = "rb_filled b + n" and ?k = "rb_initialized b"
  let ?buf = "take ?k (rb_buf b) @ replicate (?stop - ?k) (Some 0) @ drop ?stop (rb_buf b)"
  have le: "?stop \<le> length (rb_buf b)" "?k \<le> length (rb_buf b)" "rb_filled b \<le> ?k"
    using assms by (auto simp: rb_remaining_def rb_ok_def)
  have same: "?buf ! i = rb_buf b ! i" if "i < ?k" for i
    using that le by (simp add: nth_append)
  have init: "?buf ! i \<noteq> None" if "i < ?stop" for i
    using that le assms(1) True by (cases "i < ?k") (auto simp: nth_append rb_ok_def)
  have "length ?buf = length (rb_buf b)" "take (rb_filled b) ?buf = take (rb_filled b) (rb_buf b)"
    using le True by simp_all
  with True assms le same init show ?thesis
    by (intro that [of "b\<lparr>rb_buf := ?buf, rb_initialized := ?stop\<rparr>"])
      (simp_all add: initialize_unfilled_to_def rb_ok_def rb_capacity_def rb_filled_bytes_def Let_def)
next
  case False
  with assms show ?thesis by (intro that [of b]) (simp_all add: initialize_unfilled_to_def)
qed

lemma put_slice_ok:
  assumes "rb_ok b" "length bytes \<le> rb_remaining b"
  obtains b' where "put_slice b bytes = Inr b'" "rb_ok b'" "rb_capacity b' = rb_capacity b"
    "rb_filled b' = rb_filled b + length bytes" "rb_filled_bytes b' = rb_filled_bytes b @ bytes"
proof -
  from initialize_unfilled_to_ok [OF assms] obtain c where c: "initialize_unfilled_to b (length bytes) = Inr c" "rb_ok c"
    "rb_capacity c = rb_capacity b" "rb_filled c = rb_filled b" "rb_filled_bytes c = rb_filled_bytes b"
    "rb_initialized c = max (rb_initialized b) (rb_filled b + length bytes)" by blast
  let ?b = "c\<lparr>rb_buf := overwrite (rb_buf c) (rb_filled c) (map Some bytes), rb_filled := rb_filled c + length bytes\<rparr>"
  have le: "rb_filled c + length (map Some bytes) \<le> length (rb_buf c)"
    using assms c(2,3,4) by (auto simp: rb_remaining_def rb_capacity_def rb_ok_def)
  have "rb_ok ?b"
    using c le by (auto simp: rb_ok_def nth_overwrite)
  moreover have "rb_filled_bytes ?b = rb_filled_bytes b @ bytes"
    using take_overwrite [OF le] c(5) by (simp add: rb_filled_bytes_def comp_def)
  ultimately show ?thesis
    using c(1,3,4) assms le by (intro that [of ?b]) (simp_all add: put_slice_def rb_capacity_def)
qed

lemma advance_ok:
  assumes "rb_ok b" "rb_filled b + n \<le> rb_initialized b"
  shows "advance b n = Inr (b\<lparr>rb_filled := rb_filled b + n\<rparr>) \<and> rb_ok (b\<lparr>rb_filled := rb_filled b + n\<rparr>)"
  using assms by (simp add: advance_def set_filled_def usize_checked_add_def rb_ok_def)

text \<open>The safe operations as data, and a run of them; writing through the slice that \<open>initialize_unfilled_to\<close> returns is \<open>Fill\<close>.\<close>

datatype rb_op = PutSlice "byte list" | Advance nat | SetFilled nat | InitializeTo nat | Fill "byte list" | Clear

fun rb_apply :: "read_buf \<Rightarrow> rb_op \<Rightarrow> read_buf panicky" where
  "rb_apply b (PutSlice bytes) = put_slice b bytes"
| "rb_apply b (Advance n) = advance b n"
| "rb_apply b (SetFilled n) = set_filled b n"
| "rb_apply b (InitializeTo n) = initialize_unfilled_to b n"
| "rb_apply b (Fill bytes) = (case initialize_unfilled_to b (length bytes) of
     Inl e \<Rightarrow> Inl e
   | Inr b \<Rightarrow> Inr (b\<lparr>rb_buf := overwrite (rb_buf b) (rb_filled b) (map Some bytes)\<rparr>))"
| "rb_apply b Clear = Inr (rb_clear b)"

fun rb_run :: "read_buf \<Rightarrow> rb_op list \<Rightarrow> read_buf panicky" where
  "rb_run b [] = Inr b"
| "rb_run b (a # as) = (case rb_apply b a of Inl e \<Rightarrow> Inl e | Inr b' \<Rightarrow> rb_run b' as)"

lemma rb_apply_ok:
  assumes "rb_ok b" "rb_apply b a = Inr b'"
  shows "rb_ok b' \<and> rb_capacity b' = rb_capacity b"
proof (cases a)
  case (PutSlice bytes)
  with assms(2) have "length bytes \<le> rb_remaining b" by (auto simp: put_slice_def split: if_splits)
  with put_slice_ok [OF assms(1) this] PutSlice assms(2) show ?thesis by auto
next
  case (Advance n)
  with assms show ?thesis
    by (auto simp: advance_def set_filled_def rb_ok_def rb_capacity_def usize_checked_add_def split: if_splits)
next
  case (SetFilled n)
  with assms show ?thesis by (auto simp: set_filled_def rb_ok_def rb_capacity_def split: if_splits)
next
  case (InitializeTo n)
  with assms(2) have "n \<le> rb_remaining b" by (auto simp: initialize_unfilled_to_def split: if_splits)
  with initialize_unfilled_to_ok [OF assms(1) this] InitializeTo assms(2) show ?thesis by auto
next
  case (Fill bytes)
  with assms(2) have le: "length bytes \<le> rb_remaining b" by (auto simp: initialize_unfilled_to_def split: if_splits)
  from initialize_unfilled_to_ok [OF assms(1) this] obtain c where c: "initialize_unfilled_to b (length bytes) = Inr c" "rb_ok c"
    "rb_capacity c = rb_capacity b" "rb_filled c = rb_filled b" "rb_initialized c = max (rb_initialized b) (rb_filled b + length bytes)"
    by blast
  with le assms have "rb_filled c + length (map Some bytes) \<le> length (rb_buf c)"
    by (auto simp: rb_remaining_def rb_capacity_def rb_ok_def)
  with c Fill assms(2) show ?thesis by (auto simp: rb_ok_def rb_capacity_def nth_overwrite)
next
  case Clear
  with assms show ?thesis by (auto simp: rb_clear_def rb_ok_def rb_capacity_def)
qed

lemma rb_run_ok: "rb_ok b \<Longrightarrow> rb_run b as = Inr b' \<Longrightarrow> rb_ok b' \<and> rb_capacity b' = rb_capacity b"
proof (induction as arbitrary: b)
  case (Cons a as)
  from Cons.prems(2) obtain c where c: "rb_apply b a = Inr c" "rb_run c as = Inr b'" by (auto split: sum.splits)
  with Cons.IH [OF _ c(2)] rb_apply_ok [OF Cons.prems(1) c(1)] show ?case by simp
qed simp

section \<open>Property\<close>

text \<open>C22: uninitialised memory is never exposed. After any sequence of the safe operations on a buffer that starts uninitialised, unless
  one of them panics, the filled region is within the initialised region, which is within the buffer, the buffer has kept its
  size, every byte of the filled region has been initialised; and \<open>put_slice\<close> appends its bytes to the filled ones whenever they fit, and panics
  otherwise.\<close>

theorem read_buf_exposes_only_initialized:
  assumes "length buf \<le> usize_max" "rb_run (rb_uninit buf) as = Inr b"
  shows "rb_filled b \<le> rb_initialized b \<and> rb_initialized b \<le> length (rb_buf b) \<and> length (rb_buf b) = length buf \<and>
    None \<notin> set (take (rb_filled b) (rb_buf b)) \<and>
    (\<forall>bytes. if length bytes \<le> rb_remaining b
       then \<exists>b'. put_slice b bytes = Inr b' \<and> rb_filled_bytes b' = rb_filled_bytes b @ bytes
       else put_slice b bytes = Inl ''source does not fit in ReadBuf'')"
proof -
  have "rb_ok (rb_uninit buf)" "rb_capacity (rb_uninit buf) = length buf"
    using assms(1) by (simp_all add: rb_ok_def rb_uninit_def rb_capacity_def)
  with rb_run_ok [OF _ assms(2)] have ok: "rb_ok b" "rb_capacity b = length buf" by simp_all
  have init: "None \<notin> set (take (rb_filled b) (rb_buf b))" using ok(1) by (rule rb_ok_filled)
  have "if length bytes \<le> rb_remaining b
       then \<exists>b'. put_slice b bytes = Inr b' \<and> rb_filled_bytes b' = rb_filled_bytes b @ bytes
       else put_slice b bytes = Inl ''source does not fit in ReadBuf''" for bytes
  proof (cases "length bytes \<le> rb_remaining b")
    case True
    with put_slice_ok [OF ok(1) True] show ?thesis by auto
  qed (simp add: put_slice_def)
  then have "\<forall>bytes. if length bytes \<le> rb_remaining b
       then \<exists>b'. put_slice b bytes = Inr b' \<and> rb_filled_bytes b' = rb_filled_bytes b @ bytes
       else put_slice b bytes = Inl ''source does not fit in ReadBuf''" by (rule allI)
  moreover have "rb_filled b \<le> rb_initialized b" "rb_initialized b \<le> length (rb_buf b)" "length (rb_buf b) = length buf"
    using ok by (simp_all add: rb_ok_def rb_capacity_def)
  ultimately show ?thesis using init by (intro conjI)
qed

theorem read_buf_exposes_only_initialized_witness:
  "\<exists>b b'. rb_run (rb_uninit [None, None, None]) [InitializeTo 1, PutSlice [7, 8]] = Inr b \<and>
     put_slice b [9] = Inr b' \<and> rb_filled_bytes b' = rb_filled_bytes b @ [9]"
proof -
  let ?b = "\<lparr>rb_buf = [Some 7, Some 8, None], rb_filled = 2, rb_initialized = 2\<rparr>"
  have run: "rb_run (rb_uninit [None, None, None]) [InitializeTo 1, PutSlice [7, 8]] = Inr ?b"
    by (simp add: rb_uninit_def initialize_unfilled_to_def rb_remaining_def put_slice_def overwrite_def)
  have "length [9 :: byte] \<le> rb_remaining ?b" "length [None :: byte option, None, None] \<le> usize_max"
    by (simp_all add: rb_remaining_def usize_max_def)
  with read_buf_exposes_only_initialized [OF _ run] run show ?thesis by metis
qed

end
