(* ===== verification/Io_Read.thy ===== *)
theory Io_Read
  imports Io_ReadBuf
begin

text \<open>
  Readers of \<open>io.rs\<close>: the contract of \<open>AsyncRead\<close> as a locale, the readers over slices and the adapters \<open>Chain\<close> and \<open>Take\<close>,
  which keep the contract.

  A reader is a state with a function for \<open>poll_read\<close>, which gets the waker of the context and returns the new state,
  the buffer and the result; a panic of the reader or of the buffer operations is \<open>Inl\<close>.
\<close>

datatype io_error = WouldBlock | UnexpectedEof string | InvalidData | WriteZero string | BrokenPipe string | InvalidInput string | OtherError string

type_synonym 'a io_result = "io_error + 'a"
type_synonym 'r poll_read = "'r \<Rightarrow> waker \<Rightarrow> read_buf \<Rightarrow> ('r \<times> read_buf \<times> unit io_result poll) panicky"

section \<open>Slices\<close>

definition slice_poll_read :: "byte list poll_read" where
  "slice_poll_read reader cx buf =
     (let n = min (length reader) (rb_remaining buf) in
      case put_slice buf (take n reader) of
        Inl e \<Rightarrow> Inl e
      | Inr buf \<Rightarrow> Inr (drop n reader, buf, Ready (Inr ())))"

text \<open>\<open>Cursor\<close>: a slice and a position, which may be past its end.\<close>

record cursor =
  cur_bytes :: "byte list"
  cur_position :: nat

definition cursor_poll_read :: "cursor poll_read" where
  "cursor_poll_read c cx buf =
     (if cur_position c > length (cur_bytes c) then Inr (c, buf, Ready (Inr ()))
      else
        (let start = cur_position c;
             amount = min (length (cur_bytes c) - start) (rb_remaining buf)
         in case put_slice buf (take amount (drop start (cur_bytes c))) of
              Inl e \<Rightarrow> Inl e
            | Inr buf \<Rightarrow> Inr (c\<lparr>cur_position := start + amount\<rparr>, buf, Ready (Inr ()))))"

text \<open>\<open>Empty\<close> and \<open>Repeat\<close>.\<close>

definition empty_poll_read :: "unit poll_read" where
  "empty_poll_read e cx buf = Inr (e, buf, Ready (Inr ()))"

definition repeat_poll_read :: "byte poll_read" where
  "repeat_poll_read byte cx buf = (case initialize_unfilled buf of
     Inl e \<Rightarrow> Inl e
   | Inr buf \<Rightarrow>
       (let amount = rb_remaining buf;
            buf = buf\<lparr>rb_buf := overwrite (rb_buf buf) (rb_filled buf) (replicate amount (Some byte))\<rparr>
        in case advance buf amount of Inl e \<Rightarrow> Inl e | Inr buf \<Rightarrow> Inr (byte, buf, Ready (Inr ()))))"

section \<open>Chain and Take\<close>

record ('r, 's) chain =
  ch_first :: 'r
  ch_second :: 's
  ch_reading_first :: bool

definition chain_poll_read :: "'r poll_read \<Rightarrow> 's poll_read \<Rightarrow> ('r, 's) chain poll_read" where
  "chain_poll_read read1 read2 this cx buf =
     (let second = (\<lambda>this buf. case read2 (ch_second this) cx buf of
            Inl e \<Rightarrow> Inl e
          | Inr (r, buf, res) \<Rightarrow> Inr (this\<lparr>ch_second := r\<rparr>, buf, res))
      in if ch_reading_first this then
           (let before = rb_len buf in
            case read1 (ch_first this) cx buf of
              Inl e \<Rightarrow> Inl e
            | Inr (r, buf, res) \<Rightarrow>
                (let this = this\<lparr>ch_first := r\<rparr> in
                 if res = Ready (Inr ()) \<and> rb_len buf = before then second (this\<lparr>ch_reading_first := False\<rparr>) buf
                 else Inr (this, buf, res)))
         else second this buf)"

record 'r take_reader =
  tk_inner :: 'r
  tk_limit :: u64

text \<open>The limited buffer is a slice of the initialised unfilled region, whose bytes the inner reader writes in place.\<close>

definition take_poll_read :: "'r poll_read \<Rightarrow> 'r take_reader poll_read" where
  "take_poll_read read this cx buf =
     (if tk_limit this = 0 \<or> rb_remaining buf = 0 then Inr (this, buf, Ready (Inr ()))
      else
        (let maximum = min (unat (tk_limit this)) (rb_remaining buf) in
         case initialize_unfilled buf of
           Inl e \<Rightarrow> Inl e
         | Inr buf \<Rightarrow>
             (let limited = rb_new (map the (take maximum (drop (rb_filled buf) (rb_buf buf)))) in
              case read (tk_inner this) cx limited of
                Inl e \<Rightarrow> Inl e
              | Inr (r, limited, res) \<Rightarrow>
                  (let this = this\<lparr>tk_inner := r\<rparr>;
                       buf = buf\<lparr>rb_buf := overwrite (rb_buf buf) (rb_filled buf) (rb_buf limited)\<rparr>
                   in if res \<noteq> Ready (Inr ()) then Inr (this, buf, res)
                      else
                        (let amount = rb_len limited in
                         case advance buf amount of
                           Inl e \<Rightarrow> Inl e
                         | Inr buf \<Rightarrow> Inr (this\<lparr>tk_limit := tk_limit this - of_nat amount\<rparr>, buf, Ready (Inr ())))))))"

section \<open>The contract\<close>

text \<open>
  The state of a reader determines the bytes it will still deliver. A successful poll with room in the buffer appends some of
  them to it, none only at the end; a poll that is pending or fails delivers none.
\<close>

definition reads_some :: "byte list \<Rightarrow> read_buf \<Rightarrow> read_buf \<Rightarrow> byte list \<Rightarrow> bool" where
  "reads_some content b b' content' \<longleftrightarrow>
     (\<exists>n \<le> rb_remaining b. n \<le> length content \<and> (n = 0 \<longrightarrow> content = []) \<and>
        rb_filled_bytes b' = rb_filled_bytes b @ take n content \<and> content' = drop n content)"

definition read_result :: "byte list \<Rightarrow> read_buf \<Rightarrow> read_buf \<Rightarrow> unit io_result poll \<Rightarrow> byte list \<Rightarrow> bool" where
  "read_result content b b' res content' \<longleftrightarrow>
     rb_ok b' \<and> rb_capacity b' = rb_capacity b \<and> rb_initialized b \<le> rb_initialized b' \<and>
     (if res = Ready (Inr ()) then reads_some content b b' content'
      else content' = content \<and> rb_filled b' = rb_filled b \<and> rb_filled_bytes b' = rb_filled_bytes b)"

locale async_reader =
  fixes poll_read :: "'r poll_read"
    and content :: "'r \<Rightarrow> byte list"
    and inv :: "'r \<Rightarrow> bool"
  assumes poll_read_ok:
    "inv r \<Longrightarrow> rb_ok b \<Longrightarrow> 0 < rb_remaining b \<Longrightarrow>
      \<exists>r' b' res. poll_read r cx b = Inr (r', b', res) \<and> inv r' \<and> read_result (content r) b b' res (content r')"

lemma reads_some_length:
  assumes "reads_some c b b' c'" "rb_ok b" "rb_ok b'"
  shows "rb_filled b' + length c' = rb_filled b + length c \<and> rb_filled b \<le> rb_filled b' \<and> c' = drop (rb_filled b' - rb_filled b) c \<and>
    rb_filled_bytes b' = rb_filled_bytes b @ take (rb_filled b' - rb_filled b) c \<and> (rb_filled b' = rb_filled b \<longrightarrow> c = [])"
proof -
  from assms(1) obtain n where n: "n \<le> length c" "rb_filled_bytes b' = rb_filled_bytes b @ take n c" "c' = drop n c" "n = 0 \<longrightarrow> c = []"
    by (auto simp: reads_some_def)
  have "rb_filled b' = length (rb_filled_bytes b')" using assms(3) by simp
  also have "\<dots> = rb_filled b + n" using n assms(2) by simp
  finally show ?thesis using n by simp
qed

text \<open>The readers of the standard library.\<close>

lemma put_slice_reads_some:
  assumes "rb_ok b" "0 < rb_remaining b" "n = min (length c) (rb_remaining b)"
  shows "\<exists>b'. put_slice b (take n c) = Inr b' \<and> read_result c b b' (Ready (Inr ())) (drop n c)"
proof -
  have "length (take n c) \<le> rb_remaining b" using assms(3) by simp
  from put_slice_ok [OF assms(1) this] obtain b' where b': "put_slice b (take n c) = Inr b'" "rb_ok b'" "rb_capacity b' = rb_capacity b"
    "rb_filled b' = rb_filled b + length (take n c)" "rb_filled_bytes b' = rb_filled_bytes b @ take n c" by blast
  from b'(1) have "rb_initialized b \<le> rb_initialized b'"
    by (auto simp: put_slice_def initialize_unfilled_to_def Let_def split: if_splits sum.splits)
  moreover have "n = 0 \<Longrightarrow> c = []" "n \<le> rb_remaining b" "n \<le> length c" using assms by (auto simp: min_def split: if_splits)
  ultimately show ?thesis using b' unfolding read_result_def reads_some_def by auto
qed

interpretation slice: async_reader slice_poll_read "\<lambda>r. r" "\<lambda>_. True"
proof
  fix r b cx
  assume "rb_ok b" "0 < rb_remaining b"
  from put_slice_reads_some [OF this refl, of r]
  show "\<exists>r' b' res. slice_poll_read r cx b = Inr (r', b', res) \<and> True \<and> read_result r b b' res r'"
    by (auto simp: slice_poll_read_def Let_def)
qed

interpretation cursor: async_reader cursor_poll_read "\<lambda>c. drop (cur_position c) (cur_bytes c)" "\<lambda>_. True"
proof
  fix c :: cursor and b cx
  assume b: "rb_ok b" "0 < rb_remaining b"
  show "\<exists>c' b' res. cursor_poll_read c cx b = Inr (c', b', res) \<and> True \<and>
    read_result (drop (cur_position c) (cur_bytes c)) b b' res (drop (cur_position c') (cur_bytes c'))"
  proof (cases "cur_position c > length (cur_bytes c)")
    case True
    with b show ?thesis by (auto simp: cursor_poll_read_def read_result_def reads_some_def)
  next
    case False
    with put_slice_reads_some [OF b refl, of "drop (cur_position c) (cur_bytes c)"] show ?thesis
      by (auto simp: cursor_poll_read_def Let_def drop_drop add.commute)
  qed
qed

text \<open>A chain delivers what the first reader delivers and then what the second does.\<close>

definition chain_content :: "('r \<Rightarrow> byte list) \<Rightarrow> ('s \<Rightarrow> byte list) \<Rightarrow> ('r, 's) chain \<Rightarrow> byte list" where
  "chain_content c1 c2 ch = (if ch_reading_first ch then c1 (ch_first ch) else []) @ c2 (ch_second ch)"

lemma read_result_append:
  assumes "read_result c b b1 res c'" "rb_ok b" "\<not> (res = Ready (Inr ()) \<and> rb_len b1 = rb_len b)"
  shows "read_result (c @ d) b b1 res (c' @ d)"
proof (cases "res = Ready (Inr ())")
  case True
  then have "reads_some c b b1 c'" "rb_ok b1" "rb_filled b1 \<noteq> rb_filled b" using assms by (simp_all add: read_result_def rb_len_def)
  moreover from this have len: "length (rb_filled_bytes b1) \<noteq> length (rb_filled_bytes b)" using assms(2) by simp
  ultimately obtain n where n: "n \<le> rb_remaining b" "n \<le> length c" "rb_filled_bytes b1 = rb_filled_bytes b @ take n c" "c' = drop n c"
    unfolding reads_some_def by blast
  from n(3) len have "n \<noteq> 0" by auto
  with n have "reads_some (c @ d) b b1 (c' @ d)" unfolding reads_some_def by (intro exI [of _ n]) simp
  with assms(1) True show ?thesis by (simp add: read_result_def)
qed (use assms(1) in \<open>simp add: read_result_def\<close>)

text \<open>A poll that reports the end leaves the buffer as it was, apart from its initialised bytes.\<close>

lemma read_result_end:
  assumes "read_result c b b1 (Ready (Inr ())) c'" "rb_ok b" "rb_len b1 = rb_len b"
  shows "c = []" "rb_ok b1" "rb_remaining b1 = rb_remaining b" "read_result d b1 b2 res d' \<Longrightarrow> read_result d b b2 res d'"
proof -
  from assms reads_some_length [of c b b1 c'] have same: "rb_filled b1 = rb_filled b" "rb_ok b1" "c' = c"
    "rb_filled_bytes b1 = rb_filled_bytes b" "rb_capacity b1 = rb_capacity b" "rb_initialized b \<le> rb_initialized b1"
    by (simp_all add: read_result_def rb_len_def)
  then show "rb_ok b1" and rem: "rb_remaining b1 = rb_remaining b" by (simp_all add: rb_remaining_capacity)
  from assms(1) same show "c = []" by (auto simp: read_result_def reads_some_def)
  assume "read_result d b1 b2 res d'"
  with same rem show "read_result d b b2 res d'" by (auto simp: read_result_def reads_some_def split: if_splits)
qed

lemma chain_async_reader:
  assumes "async_reader read1 c1 inv1" "async_reader read2 c2 inv2"
  shows "async_reader (chain_poll_read read1 read2) (chain_content c1 c2) (\<lambda>ch. inv1 (ch_first ch) \<and> inv2 (ch_second ch))"
proof
  fix ch :: "('a, 'b) chain" and b cx
  assume inv: "inv1 (ch_first ch) \<and> inv2 (ch_second ch)" and b: "rb_ok b" "0 < rb_remaining b"
  note second = async_reader.poll_read_ok [OF assms(2), of "ch_second ch" _ cx]
  show "\<exists>ch' b' res. chain_poll_read read1 read2 ch cx b = Inr (ch', b', res) \<and> (inv1 (ch_first ch') \<and> inv2 (ch_second ch')) \<and>
    read_result (chain_content c1 c2 ch) b b' res (chain_content c1 c2 ch')"
  proof (cases "ch_reading_first ch")
    case False
    with inv second [OF _ b] show ?thesis
      by (fastforce simp: chain_poll_read_def chain_content_def Let_def)
  next
    case True
    from async_reader.poll_read_ok [OF assms(1) _ b, of "ch_first ch" cx] inv
    obtain r b1 res where r: "read1 (ch_first ch) cx b = Inr (r, b1, res)" "inv1 r" "read_result (c1 (ch_first ch)) b b1 res (c1 r)"
      by blast
    show ?thesis
    proof (cases "res = Ready (Inr ()) \<and> rb_len b1 = rb_len b")
      case False
      from read_result_append [OF r(3) b(1) False] False True r(1,2) inv show ?thesis
        by (auto simp: chain_poll_read_def chain_content_def Let_def)
    next
      case end1: True
      note e = read_result_end [OF r(3) [unfolded conjunct1 [OF end1]] b(1) conjunct2 [OF end1]]
      obtain q b2 res2 where q: "read2 (ch_second ch) cx b1 = Inr (q, b2, res2)" "inv2 q" "read_result (c2 (ch_second ch)) b1 b2 res2 (c2 q)"
        using second [of b1] inv e(2,3) b(2) by auto
      from e(1) e(4) [OF q(3)] q(1,2) r(1,2) end1 True show ?thesis
        by (auto simp: chain_poll_read_def chain_content_def Let_def)
    qed
  qed
qed

text \<open>\<open>Take\<close> delivers at most its limit.\<close>

definition take_content :: "('r \<Rightarrow> byte list) \<Rightarrow> 'r take_reader \<Rightarrow> byte list" where
  "take_content c t = take (unat (tk_limit t)) (c (tk_inner t))"

lemma overwrite_unfilled:
  assumes "rb_ok b" "rb_initialized b = length (rb_buf b)" "rb_filled b + length ys \<le> length (rb_buf b)" "None \<notin> set ys"
  defines "b' \<equiv> b\<lparr>rb_buf := overwrite (rb_buf b) (rb_filled b) ys\<rparr>"
  shows "rb_ok b'" "rb_filled_bytes b' = rb_filled_bytes b" "rb_capacity b' = rb_capacity b"
    "n \<le> length ys \<Longrightarrow> advance b' n = Inr (b'\<lparr>rb_filled := rb_filled b + n\<rparr>) \<and> rb_ok (b'\<lparr>rb_filled := rb_filled b + n\<rparr>) \<and>
      rb_filled_bytes (b'\<lparr>rb_filled := rb_filled b + n\<rparr>) = rb_filled_bytes b @ map the (take n ys)"
proof -
  have "ys ! i \<noteq> None" if "i < length ys" for i using assms(4) that by (metis nth_mem)
  then show ok: "rb_ok b'"
    using assms by (auto simp: rb_ok_def b'_def nth_overwrite)
  show "rb_filled_bytes b' = rb_filled_bytes b" "rb_capacity b' = rb_capacity b"
    using assms(3) by (simp_all add: b'_def rb_filled_bytes_def rb_capacity_def overwrite_def)
  assume n: "n \<le> length ys"
  then have "take (rb_filled b + n) (overwrite (rb_buf b) (rb_filled b) ys) = take (rb_filled b) (rb_buf b) @ take n ys"
    using assms(3) by (simp add: overwrite_def min_def)
  with advance_ok [OF ok, of n] n assms(2,3)
  show "advance b' n = Inr (b'\<lparr>rb_filled := rb_filled b + n\<rparr>) \<and> rb_ok (b'\<lparr>rb_filled := rb_filled b + n\<rparr>) \<and>
      rb_filled_bytes (b'\<lparr>rb_filled := rb_filled b + n\<rparr>) = rb_filled_bytes b @ map the (take n ys)"
    by (simp add: b'_def rb_filled_bytes_def)
qed

lemma initialize_unfilled_ok:
  assumes "rb_ok b"
  obtains b' where "initialize_unfilled b = Inr b'" "rb_ok b'" "rb_capacity b' = rb_capacity b" "rb_filled b' = rb_filled b"
    "rb_filled_bytes b' = rb_filled_bytes b" "rb_initialized b' = length (rb_buf b')" "rb_initialized b \<le> rb_initialized b'"
proof -
  from initialize_unfilled_to_ok [OF assms order_refl] obtain b' where b': "initialize_unfilled b = Inr b'" "rb_ok b'"
    "rb_capacity b' = rb_capacity b" "rb_filled b' = rb_filled b" "rb_filled_bytes b' = rb_filled_bytes b"
    "rb_initialized b' = max (rb_initialized b) (rb_filled b + rb_remaining b)" unfolding initialize_unfilled_def by blast
  moreover have "rb_initialized b' = length (rb_buf b')"
    using assms b'(3,6) by (simp add: rb_ok_def rb_remaining_def rb_capacity_def max_def)
  ultimately show ?thesis by (intro that [of b']) simp_all
qed

context async_reader
begin

text \<open>The poll of the inner reader, on a slice of the initialised buffer that is put back.\<close>

lemma take_inner_poll:
  assumes "inv (tk_inner t)" "rb_ok b" "0 < rb_remaining b" "tk_limit t \<noteq> 0"
  obtains r l res b2 where "inv r" "rb_ok b2" "rb_filled b2 = rb_filled b" "rb_filled_bytes b2 = rb_filled_bytes b"
    "rb_capacity b2 = rb_capacity b" "rb_initialized b \<le> rb_initialized b2"
    "if res = Ready (Inr ())
     then rb_len l \<le> min (unat (tk_limit t)) (rb_remaining b) \<and> rb_len l \<le> length (content (tk_inner t)) \<and>
       (rb_len l = 0 \<longrightarrow> content (tk_inner t) = []) \<and> content r = drop (rb_len l) (content (tk_inner t)) \<and>
       (\<exists>b'. advance b2 (rb_len l) = Inr b' \<and> rb_ok b' \<and> rb_capacity b' = rb_capacity b \<and> rb_initialized b \<le> rb_initialized b' \<and>
         rb_filled_bytes b' = rb_filled_bytes b @ take (rb_len l) (content (tk_inner t)))
     else content r = content (tk_inner t)"
    "take_poll_read poll_read t cx b =
       (if res \<noteq> Ready (Inr ()) then Inr (t\<lparr>tk_inner := r\<rparr>, b2, res)
        else (case advance b2 (rb_len l) of
          Inl e \<Rightarrow> Inl e
        | Inr b' \<Rightarrow> Inr (t\<lparr>tk_inner := r, tk_limit := tk_limit t - of_nat (rb_len l)\<rparr>, b', Ready (Inr ()))))"
proof -
  let ?max = "min (unat (tk_limit t)) (rb_remaining b)"
  from initialize_unfilled_ok [OF assms(2)] obtain b1 where b1: "initialize_unfilled b = Inr b1" "rb_ok b1" "rb_capacity b1 = rb_capacity b"
    "rb_filled b1 = rb_filled b" "rb_filled_bytes b1 = rb_filled_bytes b" "rb_initialized b1 = length (rb_buf b1)"
    "rb_initialized b \<le> rb_initialized b1" by blast
  define bs where "bs = map the (take ?max (drop (rb_filled b1) (rb_buf b1)))"
  have room: "rb_filled b1 + ?max \<le> length (rb_buf b1)"
    using b1(2,3,4) assms(2) by (auto simp: rb_remaining_def rb_capacity_def rb_ok_def)
  then have len: "length bs = ?max" by (simp add: bs_def)
  have "length (rb_buf b1) \<le> usize_max" using b1(2) by (simp add: rb_ok_def)
  with room len assms(3,4) have new: "rb_ok (rb_new bs)" "0 < rb_remaining (rb_new bs)" by (auto simp: rb_new_ok unat_gt_0)
  from poll_read_ok [OF assms(1) new, of cx] obtain r l res where r: "poll_read (tk_inner t) cx (rb_new bs) = Inr (r, l, res)" "inv r"
    "read_result (content (tk_inner t)) (rb_new bs) l res (content r)" by blast
  then have l: "rb_ok l" "length (rb_buf l) = ?max" "rb_initialized l = ?max"
    using len by (auto simp: read_result_def rb_capacity_def rb_new_def rb_ok_def)
  then have full: "None \<notin> set (rb_buf l)" unfolding rb_ok_def by (metis in_set_conv_nth)
  let ?b2 = "b1\<lparr>rb_buf := overwrite (rb_buf b1) (rb_filled b1) (rb_buf l)\<rparr>"
  note o = overwrite_unfilled [OF b1(2,6) room [folded l(2)] full]
  have run: "take_poll_read poll_read t cx b =
       (if res \<noteq> Ready (Inr ()) then Inr (t\<lparr>tk_inner := r\<rparr>, ?b2, res)
        else (case advance ?b2 (rb_len l) of
          Inl e \<Rightarrow> Inl e
        | Inr b' \<Rightarrow> Inr (t\<lparr>tk_inner := r, tk_limit := tk_limit t - of_nat (rb_len l)\<rparr>, b', Ready (Inr ()))))"
    using assms(3,4) b1(1) r(1) unfolding take_poll_read_def bs_def by (simp add: Let_def split: sum.splits)
  have le: "rb_len l \<le> ?max" using l by (simp add: rb_ok_def rb_len_def)
  let ?b' = "?b2\<lparr>rb_filled := rb_filled b1 + rb_len l\<rparr>" and ?c = "content (tk_inner t)"
  have "if res = Ready (Inr ())
     then rb_len l \<le> ?max \<and> rb_len l \<le> length ?c \<and> (rb_len l = 0 \<longrightarrow> ?c = []) \<and> content r = drop (rb_len l) ?c \<and>
       (\<exists>b'. advance ?b2 (rb_len l) = Inr b' \<and> rb_ok b' \<and> rb_capacity b' = rb_capacity b \<and> rb_initialized b \<le> rb_initialized b' \<and>
         rb_filled_bytes b' = rb_filled_bytes b @ take (rb_len l) ?c)
     else content r = ?c"
  proof (cases "res = Ready (Inr ())")
    case True
    with r(3) reads_some_length [OF _ new(1) l(1), of ?c "content r"]
    have c: "rb_len l + length (content r) = length ?c" "content r = drop (rb_len l) ?c" "rb_filled_bytes l = take (rb_len l) ?c"
      "rb_len l = 0 \<longrightarrow> ?c = []"
      by (auto simp: read_result_def rb_len_def)
    then have "map the (take (rb_len l) (rb_buf l)) = take (rb_len l) ?c" by (simp add: rb_filled_bytes_def rb_len_def)
    with o(4) [of "rb_len l"] le l(2) b1(5) have "advance ?b2 (rb_len l) = Inr ?b'" "rb_ok ?b'"
      "rb_filled_bytes ?b' = rb_filled_bytes b @ take (rb_len l) ?c" by simp_all
    moreover have "rb_capacity ?b' = rb_capacity b" "rb_initialized b \<le> rb_initialized ?b'"
      using o(3) b1(3,7) by (simp_all add: rb_capacity_def)
    ultimately show ?thesis using True c le by (simp only: if_True simp_thms) auto
  qed (use r(3) in \<open>simp add: read_result_def\<close>)
  with o(1-3) b1(3-5,7) r(2) run show ?thesis by (intro that [of r ?b2 res l]) simp_all
qed

lemma take_async_reader: "async_reader (take_poll_read poll_read) (take_content content) (\<lambda>t. inv (tk_inner t))"
proof
  fix t :: "'r take_reader" and b cx
  assume inv: "inv (tk_inner t)" and b: "rb_ok b" "0 < rb_remaining b"
  show "\<exists>t' b' res. take_poll_read poll_read t cx b = Inr (t', b', res) \<and> inv (tk_inner t') \<and>
    read_result (take_content content t) b b' res (take_content content t')"
  proof (cases "tk_limit t = 0")
    case True
    with inv b show ?thesis by (auto simp: take_poll_read_def take_content_def read_result_def reads_some_def)
  next
    case False
    obtain r l res b2 where r: "inv r" "rb_ok b2" "rb_filled b2 = rb_filled b"
      "rb_filled_bytes b2 = rb_filled_bytes b" "rb_capacity b2 = rb_capacity b" "rb_initialized b \<le> rb_initialized b2"
      and res: "if res = Ready (Inr ())
       then rb_len l \<le> min (unat (tk_limit t)) (rb_remaining b) \<and> rb_len l \<le> length (content (tk_inner t)) \<and>
         (rb_len l = 0 \<longrightarrow> content (tk_inner t) = []) \<and> content r = drop (rb_len l) (content (tk_inner t)) \<and>
         (\<exists>b'. advance b2 (rb_len l) = Inr b' \<and> rb_ok b' \<and> rb_capacity b' = rb_capacity b \<and> rb_initialized b \<le> rb_initialized b' \<and>
           rb_filled_bytes b' = rb_filled_bytes b @ take (rb_len l) (content (tk_inner t)))
       else content r = content (tk_inner t)"
      and run: "take_poll_read poll_read t cx b =
       (if res \<noteq> Ready (Inr ()) then Inr (t\<lparr>tk_inner := r\<rparr>, b2, res)
        else (case advance b2 (rb_len l) of
          Inl e \<Rightarrow> Inl e
        | Inr b' \<Rightarrow> Inr (t\<lparr>tk_inner := r, tk_limit := tk_limit t - of_nat (rb_len l)\<rparr>, b', Ready (Inr ()))))"
      by (rule take_inner_poll [OF inv b False])
    show ?thesis
    proof (cases "res = Ready (Inr ())")
      case False
      then have "read_result (take_content content t) b b2 res (take_content content (t\<lparr>tk_inner := r\<rparr>))"
        using r res by (simp add: read_result_def take_content_def)
      with False r(1) run show ?thesis by (intro exI [of _ "t\<lparr>tk_inner := r\<rparr>"] exI [of _ b2] exI [of _ res]) simp
    next
      case True
      define n where "n = rb_len l"
      have n: "n \<le> unat (tk_limit t)" "n \<le> rb_remaining b" "n \<le> length (content (tk_inner t))" "n = 0 \<Longrightarrow> content (tk_inner t) = []"
        "content r = drop n (content (tk_inner t))"
        using res True by (simp_all add: n_def)
      have "unat (tk_limit t - of_nat n) = unat (tk_limit t) - n"
        using n(1) by (rule unat_sub_of_nat)
      then have "take_content content (t\<lparr>tk_inner := r, tk_limit := tk_limit t - of_nat n\<rparr>) = drop n (take_content content t)"
        using n(5) by (simp add: take_content_def drop_take)
      moreover obtain b' where "advance b2 n = Inr b'" "rb_ok b'" "rb_capacity b' = rb_capacity b" "rb_initialized b \<le> rb_initialized b'"
        "rb_filled_bytes b' = rb_filled_bytes b @ take n (content (tk_inner t))"
        using res True by (auto simp: n_def)
      moreover from this n have "reads_some (take_content content t) b b' (drop n (take_content content t))"
        unfolding reads_some_def by (intro exI [of _ n]) (auto simp: take_content_def min_def)
      ultimately show ?thesis using run True r(1) by (simp add: read_result_def n_def [symmetric])
    qed
  qed
qed

end

end
