(* ===== verification/Io_Futures.thy ===== *)
theory Io_Futures
  imports Io_Read
begin

text \<open>
  The futures of \<open>AsyncReadExt\<close> and \<open>AsyncWriteExt\<close> (\<open>io.rs\<close>) over any reader and writer: reading some bytes, an
  exact number or all of them, writing some or all, and the numbers in big- and little-endian order. The contract of
  \<open>AsyncWrite\<close> is a locale.
\<close>

section \<open>Reading\<close>

text \<open>The bytes of a slice after a reader has worked on it through a \<open>ReadBuf\<close>; the slice keeps its length.\<close>

definition slice_after :: "byte list \<Rightarrow> read_buf \<Rightarrow> byte list" where
  "slice_after bs b = take (length bs) (map the (rb_buf b))"

definition read_poll :: "'r poll_read \<Rightarrow> 'r \<Rightarrow> byte list \<Rightarrow> waker \<Rightarrow> ('r \<times> byte list \<times> nat io_result poll) panicky" where
  "read_poll poll_read r buf cx =
     (if buf = [] then Inr (r, buf, Ready (Inr 0))
      else (case poll_read r cx (rb_new buf) of
        Inl e \<Rightarrow> Inl e
      | Inr (r, read_buf, res) \<Rightarrow>
          (case res of
             Pending \<Rightarrow> Inr (r, slice_after buf read_buf, Pending)
           | Ready (Inl e) \<Rightarrow> Inr (r, slice_after buf read_buf, Ready (Inl e))
           | Ready (Inr _) \<Rightarrow> Inr (r, slice_after buf read_buf, Ready (Inr (rb_len read_buf))))))"

record 'r read_exact =
  re_reader :: 'r
  re_buf :: "byte list"
  re_read :: nat

function read_exact_poll :: "'r poll_read \<Rightarrow> 'r read_exact \<Rightarrow> waker \<Rightarrow> ('r read_exact \<times> nat io_result poll) panicky" where
  "read_exact_poll poll_read this cx =
     (if re_read this < length (re_buf this) then
        (let rest = drop (re_read this) (re_buf this) in
         case poll_read (re_reader this) cx (rb_new rest) of
           Inl e \<Rightarrow> Inl e
         | Inr (r, read_buf, res) \<Rightarrow>
             (let this = this\<lparr>re_reader := r, re_buf := take (re_read this) (re_buf this) @ slice_after rest read_buf\<rparr> in
              case res of
                Pending \<Rightarrow> Inr (this, Pending)
              | Ready (Inl e) \<Rightarrow> Inr (this, Ready (Inl e))
              | Ready (Inr _) \<Rightarrow>
                  (let n = rb_len read_buf in
                   if n = 0 then Inr (this, Ready (Inl (UnexpectedEof ''early EOF while filling buffer'')))
                   else read_exact_poll poll_read (this\<lparr>re_read := re_read this + n\<rparr>) cx)))
      else Inr (this, Ready (Inr (length (re_buf this)))))"
  by auto
termination
  by (relation "measure (\<lambda>(p, t, cx). length (re_buf t) - re_read t)") (auto simp: slice_after_def)

declare read_exact_poll.simps [simp del]

record 'r read_to_end =
  rte_reader :: 'r
  rte_buf :: "byte list"
  rte_read :: nat

text \<open>The loop ends only if the reader does, so it has fuel: \<open>None\<close> is a loop that has not ended yet.\<close>

fun read_to_end_poll ::
  "nat \<Rightarrow> 'r poll_read \<Rightarrow> 'r read_to_end \<Rightarrow> waker \<Rightarrow> ('r read_to_end \<times> nat io_result poll) panicky option" where
  "read_to_end_poll 0 poll_read this cx = None"
| "read_to_end_poll (Suc fuel) poll_read this cx =
     (case poll_read (rte_reader this) cx (rb_new (replicate (8 * 1024) 0)) of
        Inl e \<Rightarrow> Some (Inl e)
      | Inr (r, read_buf, res) \<Rightarrow>
          (let this = this\<lparr>rte_reader := r\<rparr> in
           case res of
             Ready (Inr _) \<Rightarrow>
               (let n = rb_len read_buf in
                if n = 0 then Some (Inr (this, Ready (Inr (rte_read this))))
                else read_to_end_poll fuel poll_read
                  (this\<lparr>rte_buf := rte_buf this @ rb_filled_bytes read_buf, rte_read := rte_read this + n\<rparr>) cx)
           | Ready (Inl e) \<Rightarrow> Some (Inr (this, Ready (Inl e)))
           | Pending \<Rightarrow> Some (Inr (this, Pending))))"

section \<open>Writing\<close>

type_synonym 'w poll_write = "'w \<Rightarrow> waker \<Rightarrow> byte list \<Rightarrow> ('w \<times> nat io_result poll) panicky"
type_synonym 'w poll_write_vectored = "'w \<Rightarrow> waker \<Rightarrow> byte list list \<Rightarrow> ('w \<times> nat io_result poll) panicky"
type_synonym 'w poll_flush = "'w \<Rightarrow> waker \<Rightarrow> ('w \<times> unit io_result poll) panicky"

definition vec_poll_write :: "byte list poll_write" where
  "vec_poll_write v cx buf = Inr (v @ buf, Ready (Inr (length buf)))"

definition vec_poll_write_vectored :: "byte list poll_write_vectored" where
  "vec_poll_write_vectored v cx bufs = Inr (v @ concat bufs, Ready (Inr (length (concat bufs))))"

definition vec_poll_flush :: "byte list poll_flush" where
  "vec_poll_flush v cx = Inr (v, Ready (Inr ()))"

definition vec_poll_shutdown :: "byte list poll_flush" where
  "vec_poll_shutdown v cx = Inr (v, Ready (Inr ()))"

definition sink_poll_write :: "unit poll_write" where
  "sink_poll_write s cx buf = Inr (s, Ready (Inr (length buf)))"

text \<open>The default of \<open>poll_write_vectored\<close> writes the first buffer that is not empty.\<close>

definition default_poll_write_vectored :: "'w poll_write \<Rightarrow> 'w poll_write_vectored" where
  "default_poll_write_vectored poll_write w cx bufs =
     poll_write w cx (case find (\<lambda>b. b \<noteq> []) bufs of None \<Rightarrow> [] | Some b \<Rightarrow> b)"

definition write_poll :: "'w poll_write \<Rightarrow> 'w \<Rightarrow> byte list \<Rightarrow> waker \<Rightarrow> ('w \<times> nat io_result poll) panicky" where
  "write_poll poll_write w buf cx = poll_write w cx buf"

text \<open>\<open>WriteAll\<close>: the writer and what is left of the buffer; slicing off more than there is panics.\<close>

function write_all_poll :: "'w poll_write \<Rightarrow> 'w \<Rightarrow> byte list \<Rightarrow> waker \<Rightarrow> ('w \<times> byte list \<times> unit io_result poll) panicky" where
  "write_all_poll poll_write w buf cx =
     (if buf \<noteq> [] then
        (case poll_write w cx buf of
           Inl e \<Rightarrow> Inl e
         | Inr (w', Ready (Inr n)) \<Rightarrow>
             if n = 0 then Inr (w', buf, Ready (Inl (WriteZero ''failed to write whole buffer'')))
             else if n > length buf then Inl ''range start index out of range for slice''
             else write_all_poll poll_write w' (drop n buf) cx
         | Inr (w', Ready (Inl e)) \<Rightarrow> Inr (w', buf, Ready (Inl e))
         | Inr (w', Pending) \<Rightarrow> Inr (w', buf, Pending))
      else Inr (w, buf, Ready (Inr ())))"
  by auto
termination
  by (relation "measure (\<lambda>(p, w, buf, cx). length buf)") auto

declare write_all_poll.simps [simp del]

section \<open>Numbers\<close>

text \<open>The conversions of the standard library between a number and its bytes.\<close>

definition to_le_bytes :: "nat \<Rightarrow> 'a::len word \<Rightarrow> byte list" where
  "to_le_bytes nbytes value = map (\<lambda>i. ucast (drop_bit (8 * i) value)) [0..<nbytes]"

definition to_be_bytes :: "nat \<Rightarrow> 'a::len word \<Rightarrow> byte list" where
  "to_be_bytes nbytes value = rev (to_le_bytes nbytes value)"

fun from_le_bytes :: "byte list \<Rightarrow> 'a::len word" where
  "from_le_bytes [] = 0"
| "from_le_bytes (b # bs) = or (ucast b) (push_bit 8 (from_le_bytes bs))"

definition from_be_bytes :: "byte list \<Rightarrow> 'a::len word" where
  "from_be_bytes bs = from_le_bytes (rev bs)"

text \<open>The bodies that the macros \<open>read_number_method\<close> and \<open>write_number_method\<close> generate.\<close>

definition read_number_poll ::
  "'r poll_read \<Rightarrow> nat \<Rightarrow> (byte list \<Rightarrow> 'a::len word) \<Rightarrow> 'r \<Rightarrow> waker \<Rightarrow> ('r read_exact \<times> 'a word io_result poll) panicky" where
  "read_number_poll poll_read nbytes convert r cx =
     (case read_exact_poll poll_read \<lparr>re_reader = r, re_buf = replicate nbytes 0, re_read = 0\<rparr> cx of
        Inl e \<Rightarrow> Inl e
      | Inr (this, Ready (Inr _)) \<Rightarrow> Inr (this, Ready (Inr (convert (re_buf this))))
      | Inr (this, Ready (Inl e)) \<Rightarrow> Inr (this, Ready (Inl e))
      | Inr (this, Pending) \<Rightarrow> Inr (this, Pending))"

definition write_number_poll ::
  "'w poll_write \<Rightarrow> ('a::len word \<Rightarrow> byte list) \<Rightarrow> 'w \<Rightarrow> 'a word \<Rightarrow> waker \<Rightarrow> ('w \<times> byte list \<times> unit io_result poll) panicky" where
  "write_number_poll poll_write convert w value cx = write_all_poll poll_write w (convert value) cx"

section \<open>Reading against the contract\<close>

lemma slice_after_ok:
  assumes "read_result c (rb_new bs) b' res c'"
  shows "length (slice_after bs b') = length bs" "rb_len b' \<le> length bs"
    "take (rb_len b') (slice_after bs b') = rb_filled_bytes b'"
    "res = Ready (Inr ()) \<Longrightarrow> rb_filled_bytes b' = take (rb_len b') c \<and> c' = drop (rb_len b') c \<and> rb_len b' \<le> length c \<and> (rb_len b' = 0 \<longrightarrow> c = [])"
    "res \<noteq> Ready (Inr ()) \<Longrightarrow> c' = c \<and> rb_len b' = 0"
proof -
  have ok: "rb_ok b'" "length (rb_buf b') = length bs"
    using assms by (simp_all add: read_result_def rb_capacity_def rb_new_def)
  then show "length (slice_after bs b') = length bs" "rb_len b' \<le> length bs" "take (rb_len b') (slice_after bs b') = rb_filled_bytes b'"
    by (simp_all add: slice_after_def rb_ok_def rb_len_def rb_filled_bytes_def take_map)
  show "rb_filled_bytes b' = take (rb_len b') c \<and> c' = drop (rb_len b') c \<and> rb_len b' \<le> length c \<and> (rb_len b' = 0 \<longrightarrow> c = [])"
    if "res = Ready (Inr ())"
  proof -
    from assms that obtain n where n: "n \<le> length c" "n = 0 \<longrightarrow> c = []" "rb_filled_bytes b' = take n c" "c' = drop n c"
      by (auto simp: read_result_def reads_some_def)
    from n(1,3) ok(1) have "rb_len b' = n" using length_rb_filled_bytes [of b'] by (simp add: rb_len_def)
    with n show ?thesis by simp
  qed
  show "c' = c \<and> rb_len b' = 0" if "res \<noteq> Ready (Inr ())"
    using assms that by (simp add: read_result_def rb_len_def)
qed

text \<open>
  The outcome of \<open>read_exact\<close> for \<open>len\<close> bytes, of which \<open>got\<close> have been read, with what the reader has left: success with all bytes, an early end
  with none left, or what the reader itself reported.
\<close>

definition exact_outcome :: "'r poll_read \<Rightarrow> waker \<Rightarrow> nat \<Rightarrow> nat \<Rightarrow> byte list \<Rightarrow> nat io_result poll \<Rightarrow> bool" where
  "exact_outcome poll_read cx len got left res \<longleftrightarrow> (case res of
     Ready (Inr n) \<Rightarrow> n = len \<and> got = len
   | Ready (Inl e) \<Rightarrow> (e = UnexpectedEof ''early EOF while filling buffer'' \<and> left = [] \<and> got < len) \<or>
       (\<exists>r b r' b'. poll_read r cx b = Inr (r', b', Ready (Inl e)))
   | Pending \<Rightarrow> (\<exists>r b r' b'. poll_read r cx b = Inr (r', b', Pending)))"

context async_reader
begin

lemma read_exact_poll_ok:
  assumes "inv (re_reader t)" "re_read t \<le> length (re_buf t)" "length (re_buf t) \<le> usize_max"
  shows "\<exists>t' res. read_exact_poll poll_read t cx = Inr (t', res) \<and> inv (re_reader t') \<and> length (re_buf t') = length (re_buf t) \<and>
    re_read t' \<le> length (re_buf t) \<and>
    take (re_read t') (re_buf t') @ content (re_reader t') = take (re_read t) (re_buf t) @ content (re_reader t) \<and>
    exact_outcome poll_read cx (length (re_buf t)) (re_read t') (content (re_reader t')) res"
  using assms
proof (induction "length (re_buf t) - re_read t" arbitrary: t rule: less_induct)
  case (less t)
  show ?case
  proof (cases "re_read t < length (re_buf t)")
    case False
    with less show ?thesis by (subst read_exact_poll.simps) (auto simp: exact_outcome_def)
  next
    case True
    define rest where "rest = drop (re_read t) (re_buf t)"
    have "rb_ok (rb_new rest)" "0 < rb_remaining (rb_new rest)" using True less.prems(3) by (auto simp: rest_def intro!: rb_new_ok)
    from poll_read_ok [OF less.prems(1) this, of cx] obtain r b' res
      where r: "poll_read (re_reader t) cx (rb_new rest) = Inr (r, b', res)" "inv r"
        "read_result (content (re_reader t)) (rb_new rest) b' res (content r)" by blast
    define t1 where "t1 = t\<lparr>re_reader := r, re_buf := take (re_read t) (re_buf t) @ slice_after rest b'\<rparr>"
    note s = slice_after_ok [OF r(3)]
    have t1: "length (re_buf t1) = length (re_buf t)" "take (re_read t) (re_buf t1) = take (re_read t) (re_buf t)"
      "re_reader t1 = r" "re_read t1 = re_read t"
      using True s(1) by (auto simp: t1_def rest_def)
    have step: "read_exact_poll poll_read t cx =
        (case res of Pending \<Rightarrow> Inr (t1, Pending) | Ready (Inl e) \<Rightarrow> Inr (t1, Ready (Inl e))
         | Ready (Inr _) \<Rightarrow> if rb_len b' = 0 then Inr (t1, Ready (Inl (UnexpectedEof ''early EOF while filling buffer'')))
             else read_exact_poll poll_read (t1\<lparr>re_read := re_read t + rb_len b'\<rparr>) cx)"
      using True r(1) by (subst read_exact_poll.simps) (simp add: Let_def rest_def [symmetric] t1_def split: poll.splits sum.splits)
    show ?thesis
    proof (cases "res = Ready (Inr ()) \<and> rb_len b' \<noteq> 0")
      case progress: True
      let ?t2 = "t1\<lparr>re_read := re_read t + rb_len b'\<rparr>"
      have t2: "take (re_read ?t2) (re_buf ?t2) @ content (re_reader ?t2) = take (re_read t) (re_buf t) @ content (re_reader t)"
        using True s(3,4) progress t1(3) by (simp add: t1_def rest_def)
      have "length (re_buf ?t2) - re_read ?t2 < length (re_buf t) - re_read t" "re_read ?t2 \<le> length (re_buf ?t2)"
        "length (re_buf ?t2) \<le> usize_max" "inv (re_reader ?t2)"
        using s(2) t1 True less.prems(3) r(2) progress by (auto simp: rest_def)
      from less.hyps [OF this(1,4,2,3)] t2 t1(1) progress show ?thesis by (simp add: step)
    next
      case stop: False
      then obtain res' where res': "read_exact_poll poll_read t cx = Inr (t1, res')"
        "exact_outcome poll_read cx (length (re_buf t)) (re_read t) (content r) res'"
        using step s(4) True r(1) by (cases res) (auto simp: exact_outcome_def split: sum.splits)
      have "rb_len b' = 0" "content r = content (re_reader t)" using stop s(4,5) by auto
      with res' t1 True r(2) show ?thesis by simp
    qed
  qed
qed

lemma read_to_end_poll_ok:
  assumes "inv (rte_reader t)" "length (content (rte_reader t)) < fuel"
  shows "\<exists>t' res. read_to_end_poll fuel poll_read t cx = Some (Inr (t', res)) \<and> inv (rte_reader t') \<and>
    rte_buf t' @ content (rte_reader t') = rte_buf t @ content (rte_reader t) \<and>
    rte_read t' + length (rte_buf t) = rte_read t + length (rte_buf t') \<and>
    (\<forall>n. res = Ready (Inr n) \<longrightarrow> content (rte_reader t') = [] \<and> n = rte_read t')"
  using assms
proof (induction fuel arbitrary: t)
  case (Suc fuel)
  let ?b = "rb_new (replicate (8 * 1024) 0)"
  have "rb_ok ?b" by (rule rb_new_ok) (simp add: usize_max_def)
  moreover have "0 < rb_remaining ?b" by simp
  ultimately obtain r b' res where r: "poll_read (rte_reader t) cx ?b = Inr (r, b', res)" "inv r"
    "read_result (content (rte_reader t)) ?b b' res (content r)"
    using poll_read_ok [OF Suc.prems(1)] by blast
  note s = slice_after_ok [OF r(3)]
  show ?case
  proof (cases "res = Ready (Inr ()) \<and> rb_len b' \<noteq> 0")
    case True
    let ?t = "t\<lparr>rte_reader := r, rte_buf := rte_buf t @ rb_filled_bytes b', rte_read := rte_read t + rb_len b'\<rparr>"
    have "rb_filled_bytes b' = take (rb_len b') (content (rte_reader t))" "content r = drop (rb_len b') (content (rte_reader t))"
      "rb_len b' \<le> length (content (rte_reader t))"
      using s(4) True by simp_all
    moreover from this have "length (content (rte_reader ?t)) < fuel" using True Suc.prems(2) by auto
    ultimately show ?thesis using Suc.IH [of ?t] True r(1,2) by (auto simp: Let_def)
  next
    case False
    then show ?thesis using r(1,2) s(4,5) by (cases res) (auto simp: Let_def split: sum.splits)
  qed
qed simp

end

section \<open>Writing against the contract\<close>

definition write_result :: "byte list \<Rightarrow> byte list \<Rightarrow> nat io_result poll \<Rightarrow> byte list \<Rightarrow> bool" where
  "write_result out buf res out' \<longleftrightarrow> (case res of
     Ready (Inr n) \<Rightarrow> n \<le> length buf \<and> out' = out @ take n buf
   | _ \<Rightarrow> out' = out)"

text \<open>A writer has taken some of the bytes when it says so, and none otherwise.\<close>

locale async_writer =
  fixes poll_write :: "'w poll_write"
    and emitted :: "'w \<Rightarrow> byte list"
    and winv :: "'w \<Rightarrow> bool"
  assumes poll_write_ok:
    "winv w \<Longrightarrow> length buf \<le> usize_max \<Longrightarrow>
      \<exists>w' res. poll_write w cx buf = Inr (w', res) \<and> winv w' \<and> write_result (emitted w) buf res (emitted w')"
begin

lemma write_all_poll_ok:
  "winv w \<Longrightarrow> length buf \<le> usize_max \<Longrightarrow> \<exists>w' left res. write_all_poll poll_write w buf cx = Inr (w', left, res) \<and> winv w' \<and>
     emitted w' @ left = emitted w @ buf \<and> (res = Ready (Inr ()) \<longrightarrow> left = [])"
proof (induction "length buf" arbitrary: w buf rule: less_induct)
  case less
  show ?case
  proof (cases "buf = []")
    case True
    with less.prems show ?thesis by (subst write_all_poll.simps) simp
  next
    case False
    from poll_write_ok [OF less.prems, of cx] obtain w1 res where w1: "poll_write w cx buf = Inr (w1, res)"
      and ok: "winv w1" "write_result (emitted w) buf res (emitted w1)" by blast
    show ?thesis
    proof (cases "\<exists>n. res = Ready (Inr n) \<and> n \<noteq> 0")
      case True
      then obtain n where n: "res = Ready (Inr n)" "n \<noteq> 0" "n \<le> length buf" "emitted w1 = emitted w @ take n buf"
        using ok(2) by (auto simp: write_result_def)
      with less.hyps [OF _ ok(1), of "drop n buf"] less.prems(2) False w1 show ?thesis
        by (subst write_all_poll.simps) simp
    next
      case False
      with \<open>buf \<noteq> []\<close> ok w1 show ?thesis
        by (subst write_all_poll.simps) (cases res; auto simp: write_result_def split: sum.splits)
    qed
  qed
qed

end

interpretation vec: async_writer vec_poll_write "\<lambda>v. v" "\<lambda>_. True"
  by unfold_locales (auto simp: vec_poll_write_def write_result_def)

text \<open>On a slice and a vector the futures complete at the first poll.\<close>

lemma slice_read_exact:
  assumes "length buf \<le> usize_max" "length buf \<le> length bs"
  shows "read_exact_poll slice_poll_read \<lparr>re_reader = bs, re_buf = buf, re_read = 0\<rparr> cx =
    Inr (\<lparr>re_reader = drop (length buf) bs, re_buf = take (length buf) bs, re_read = length buf\<rparr>, Ready (Inr (length buf)))"
proof -
  let ?t = "\<lparr>re_reader = bs, re_buf = buf, re_read = 0\<rparr>"
  from slice.read_exact_poll_ok [of ?t cx] assms(1) obtain t' res where t': "read_exact_poll slice_poll_read ?t cx = Inr (t', res)"
    "length (re_buf t') = length buf" "re_read t' \<le> length buf" "take (re_read t') (re_buf t') @ re_reader t' = bs"
    "exact_outcome slice_poll_read cx (length buf) (re_read t') (re_reader t') res" by auto
  have "\<not> (\<exists>r b r' b' e. slice_poll_read r cx b = Inr (r', b', Ready (Inl e)))" "\<not> (\<exists>r b r' b'. slice_poll_read r cx b = Inr (r', b', Pending))"
    by (auto simp: slice_poll_read_def Let_def split: sum.splits)
  moreover have "\<not> (re_reader t' = [] \<and> re_read t' < length buf)"
    using t'(2,3,4) assms(2) by (metis append.right_neutral length_take min.absorb2 not_le)
  ultimately have "res = Ready (Inr (length buf))" "re_read t' = length buf"
    using t'(5) by (auto simp: exact_outcome_def split: poll.splits sum.splits)
  with t' show ?thesis by (cases t') (auto simp: take_append)
qed

lemma vec_write_all: "write_all_poll vec_poll_write v buf cx = Inr (v @ buf, [], Ready (Inr ()))"
  by (subst write_all_poll.simps, subst write_all_poll.simps) (simp add: vec_poll_write_def)

section \<open>Properties\<close>


definition io_demo :: "(byte list, byte list) chain take_reader read_exact" where
  "io_demo = \<lparr>re_reader = \<lparr>tk_inner = \<lparr>ch_first = [1, 2], ch_second = [3, 4], ch_reading_first = True\<rparr>, tk_limit = 3\<rparr>,
     re_buf = [0, 0, 0], re_read = 0\<rparr>"


text \<open>The bits of a number and of its bytes.\<close>

lemma bit_from_le_bytes:
  "bit (from_le_bytes bs :: 'a::len word) k \<longleftrightarrow> k < LENGTH('a) \<and> k div 8 < length bs \<and> bit (bs ! (k div 8)) (k mod 8)"
proof (induction bs arbitrary: k)
  case (Cons b bs)
  have k: "k < 8 \<or> (8 \<le> k \<and> k div 8 = Suc ((k - 8) div 8) \<and> k mod 8 = (k - 8) mod 8)"
    by (auto simp: le_div_geq le_mod_geq not_less)
  then show ?case
    by (auto simp: bit_or_iff bit_push_bit_iff bit_ucast_iff Cons bit_imp_le_length [of b])
      (auto dest: bit_imp_le_length)
qed simp

lemma from_to_le_bytes:
  assumes "LENGTH('a) = 8 * nbytes"
  shows "from_le_bytes (to_le_bytes nbytes (value :: 'a::len word)) = value"
proof (rule bit_word_eqI)
  fix k
  assume "k < LENGTH('a)"
  moreover from this assms have "k div 8 < nbytes" by auto
  ultimately show "bit (from_le_bytes (to_le_bytes nbytes value) :: 'a word) k = bit value k"
    by (simp add: bit_from_le_bytes to_le_bytes_def bit_ucast_iff bit_drop_bit_eq)
qed

text \<open>C24: numbers survive the wire. For every integer type of a whole number of bytes, writing a value with \<open>write_u16\<close> and its siblings appends its
  bytes, in big- or little-endian order, to the output, and reading them back with the matching \<open>read_u16\<close> and its siblings
  returns the value and leaves the reader after them.\<close>

theorem number_roundtrip:
  fixes x :: "'a::len word"
  assumes "LENGTH('a) = 8 * nbytes" "nbytes \<le> usize_max"
  shows "write_number_poll vec_poll_write (to_be_bytes nbytes) v x cx = Inr (v @ to_be_bytes nbytes x, [], Ready (Inr ())) \<and>
    (\<exists>t. read_number_poll slice_poll_read nbytes from_be_bytes (to_be_bytes nbytes x @ rest) cx = Inr (t, Ready (Inr x)) \<and> re_reader t = rest) \<and>
    write_number_poll vec_poll_write (to_le_bytes nbytes) v x cx = Inr (v @ to_le_bytes nbytes x, [], Ready (Inr ())) \<and>
    (\<exists>t. read_number_poll slice_poll_read nbytes from_le_bytes (to_le_bytes nbytes x @ rest) cx = Inr (t, Ready (Inr x)) \<and> re_reader t = rest)"
proof -
  have l: "length (to_le_bytes nbytes x) = nbytes" "length (to_be_bytes nbytes x) = nbytes"
    by (simp_all add: to_le_bytes_def to_be_bytes_def)
  have "from_be_bytes (to_be_bytes nbytes x) = x"
    by (simp add: from_be_bytes_def to_be_bytes_def from_to_le_bytes [OF assms(1)])
  then show ?thesis
    using l assms from_to_le_bytes [OF assms(1), of x]
    by (simp add: write_number_poll_def vec_write_all read_number_poll_def slice_read_exact)
qed

theorem number_roundtrip_witness:
  "\<exists>t. read_number_poll slice_poll_read 2 from_be_bytes (to_be_bytes 2 (513 :: 16 word) @ [9]) 0 = Inr (t, Ready (Inr (513 :: 16 word))) \<and>
     re_reader t = [9]"
  using number_roundtrip [of 2 "[]" "513 :: 16 word" 0 "[9]"] by (simp add: usize_max_def)

end
