(* ===== verification/Io_BufRead.thy ===== *)
theory Io_BufRead
  imports Io_Futures
begin

text \<open>
  Buffered reading (\<open>io.rs\<close>): the contract of \<open>AsyncBufRead\<close> as a locale, \<open>BufReader\<close>, which implements it and \<open>AsyncRead\<close> over any
  reader, and the futures that split a stream: \<open>read_until\<close>, \<open>read_line\<close>, \<open>Lines\<close> and \<open>Split\<close>.
\<close>

type_synonym 'r poll_fill_buf = "'r \<Rightarrow> waker \<Rightarrow> ('r \<times> byte list io_result poll) panicky"
type_synonym 'r consume = "'r \<Rightarrow> nat \<Rightarrow> 'r panicky"

section \<open>Slices and cursors\<close>

definition slice_poll_fill_buf :: "byte list poll_fill_buf" where
  "slice_poll_fill_buf reader cx = Inr (reader, Ready (Inr reader))"

definition slice_consume :: "byte list consume" where
  "slice_consume reader amount = (let amount = min amount (length reader) in Inr (drop amount reader))"

definition cursor_poll_fill_buf :: "cursor poll_fill_buf" where
  "cursor_poll_fill_buf c cx = Inr (c, Ready (Inr (drop (min (cur_position c) (length (cur_bytes c))) (cur_bytes c))))"

definition cursor_consume :: "cursor consume" where
  "cursor_consume c amount = (case usize_add (cur_position c) amount of Inl e \<Rightarrow> Inl e | Inr p \<Rightarrow> Inr (c\<lparr>cur_position := p\<rparr>))"

section \<open>BufReader\<close>

record 'r buf_reader =
  br_inner :: 'r
  br_buf :: "byte list"
  br_pos :: nat
  br_cap :: nat

definition buf_reader_with_capacity :: "nat \<Rightarrow> 'r \<Rightarrow> 'r buf_reader" where
  "buf_reader_with_capacity capacity inner = \<lparr>br_inner = inner, br_buf = replicate capacity 0, br_pos = 0, br_cap = 0\<rparr>"

definition buf_reader_new :: "'r \<Rightarrow> 'r buf_reader" where
  "buf_reader_new inner = buf_reader_with_capacity (8 * 1024) inner"

definition buf_reader_buffer :: "'r buf_reader \<Rightarrow> byte list panicky" where
  "buf_reader_buffer this = slice_range (br_buf this) (br_pos this) (br_cap this)"

definition buf_reader_capacity :: "'r buf_reader \<Rightarrow> nat" where
  "buf_reader_capacity this = length (br_buf this)"

text \<open>Refilling the buffer from the inner reader, which both \<open>poll_fill_buf\<close> and \<open>poll_read\<close> do.\<close>

definition buf_reader_fill :: "'r poll_read \<Rightarrow> 'r buf_reader \<Rightarrow> waker \<Rightarrow> ('r buf_reader \<times> unit io_result poll) panicky" where
  "buf_reader_fill poll_read this cx =
     (case poll_read (br_inner this) cx (rb_new (br_buf this)) of
        Inl e \<Rightarrow> Inl e
      | Inr (r, read_buf, res) \<Rightarrow>
          (let this = this\<lparr>br_inner := r, br_buf := slice_after (br_buf this) read_buf\<rparr> in
           if res = Ready (Inr ()) then Inr (this\<lparr>br_pos := 0, br_cap := rb_len read_buf\<rparr>, res) else Inr (this, res)))"

definition buf_reader_poll_fill_buf :: "'r poll_read \<Rightarrow> 'r buf_reader poll_fill_buf" where
  "buf_reader_poll_fill_buf poll_read this cx =
     (case (if br_pos this \<ge> br_cap this then buf_reader_fill poll_read this cx else Inr (this, Ready (Inr ()))) of
        Inl e \<Rightarrow> Inl e
      | Inr (this, Pending) \<Rightarrow> Inr (this, Pending)
      | Inr (this, Ready (Inl e)) \<Rightarrow> Inr (this, Ready (Inl e))
      | Inr (this, Ready (Inr _)) \<Rightarrow>
          (case buf_reader_buffer this of Inl e \<Rightarrow> Inl e | Inr bytes \<Rightarrow> Inr (this, Ready (Inr bytes))))"

definition buf_reader_consume :: "'r buf_reader consume" where
  "buf_reader_consume this amount = (case usize_add (br_pos this) amount of
     Inl e \<Rightarrow> Inl e
   | Inr p \<Rightarrow> Inr (this\<lparr>br_pos := min p (br_cap this)\<rparr>))"

text \<open>Copying out of the buffer, and the whole of \<open>poll_read\<close>.\<close>

definition buf_reader_copy_out :: "'r buf_reader \<Rightarrow> read_buf \<Rightarrow> ('r buf_reader \<times> read_buf \<times> unit io_result poll) panicky" where
  "buf_reader_copy_out this out = (case usize_sub (br_cap this) (br_pos this) of
     Inl e \<Rightarrow> Inl e
   | Inr available \<Rightarrow>
       (let amount = min (rb_remaining out) available in
        case slice_range (br_buf this) (br_pos this) (br_pos this + amount) of
          Inl e \<Rightarrow> Inl e
        | Inr bytes \<Rightarrow> (case put_slice out bytes of
            Inl e \<Rightarrow> Inl e
          | Inr out \<Rightarrow> Inr (this\<lparr>br_pos := br_pos this + amount\<rparr>, out, Ready (Inr ())))))"

definition buf_reader_poll_read :: "'r poll_read \<Rightarrow> 'r buf_reader poll_read" where
  "buf_reader_poll_read poll_read this cx out =
     (if rb_remaining out = 0 then Inr (this, out, Ready (Inr ()))
      else if br_pos this = br_cap this \<and> rb_remaining out \<ge> length (br_buf this) then
        (case poll_read (br_inner this) cx out of
           Inl e \<Rightarrow> Inl e
         | Inr (r, out, res) \<Rightarrow> Inr (this\<lparr>br_inner := r\<rparr>, out, res))
      else
        (case (if br_pos this = br_cap this then buf_reader_fill poll_read this cx else Inr (this, Ready (Inr ()))) of
           Inl e \<Rightarrow> Inl e
         | Inr (this, Pending) \<Rightarrow> Inr (this, out, Pending)
         | Inr (this, Ready (Inl e)) \<Rightarrow> Inr (this, out, Ready (Inl e))
         | Inr (this, Ready (Inr _)) \<Rightarrow> buf_reader_copy_out this out))"

text \<open>Writing and flushing go to the inner value.\<close>

definition buf_reader_poll_write :: "'r poll_write \<Rightarrow> 'r buf_reader poll_write" where
  "buf_reader_poll_write poll_write this cx buf = (case poll_write (br_inner this) cx buf of
     Inl e \<Rightarrow> Inl e
   | Inr (w, res) \<Rightarrow> Inr (this\<lparr>br_inner := w\<rparr>, res))"

definition buf_reader_poll_write_vectored :: "'r poll_write_vectored \<Rightarrow> 'r buf_reader poll_write_vectored" where
  "buf_reader_poll_write_vectored poll_write_vectored this cx bufs = (case poll_write_vectored (br_inner this) cx bufs of
     Inl e \<Rightarrow> Inl e
   | Inr (w, res) \<Rightarrow> Inr (this\<lparr>br_inner := w\<rparr>, res))"

definition buf_reader_poll_flush :: "'r poll_flush \<Rightarrow> 'r buf_reader poll_flush" where
  "buf_reader_poll_flush poll_flush this cx = (case poll_flush (br_inner this) cx of
     Inl e \<Rightarrow> Inl e
   | Inr (w, res) \<Rightarrow> Inr (this\<lparr>br_inner := w\<rparr>, res))"

definition buf_reader_poll_shutdown :: "'r poll_flush \<Rightarrow> 'r buf_reader poll_flush" where
  "buf_reader_poll_shutdown poll_shutdown this cx = (case poll_shutdown (br_inner this) cx of
     Inl e \<Rightarrow> Inl e
   | Inr (w, res) \<Rightarrow> Inr (this\<lparr>br_inner := w\<rparr>, res))"

section \<open>Seeking\<close>

text \<open>Offsets are \<open>i64\<close>, kept in their range by \<open>checked_sub\<close>.\<close>

datatype seek_from = SeekStart nat | SeekEnd int | SeekCurrent int

definition i64_checked_sub :: "int \<Rightarrow> int \<Rightarrow> int option" where
  "i64_checked_sub a b = (if - (2 ^ 63) \<le> a - b \<and> a - b < 2 ^ 63 then Some (a - b) else None)"

type_synonym 'r start_seek = "'r \<Rightarrow> seek_from \<Rightarrow> ('r \<times> unit io_result) panicky"
type_synonym 'r poll_complete = "'r \<Rightarrow> waker \<Rightarrow> ('r \<times> nat io_result poll) panicky"

definition buf_reader_start_seek :: "'r start_seek \<Rightarrow> 'r buf_reader start_seek" where
  "buf_reader_start_seek start_seek this posn = (case usize_sub (br_cap this) (br_pos this) of
     Inl e \<Rightarrow> Inl e
   | Inr buffered \<Rightarrow>
       (case (case posn of
                SeekCurrent offset \<Rightarrow> map_option SeekCurrent (i64_checked_sub offset (int buffered))
              | _ \<Rightarrow> Some posn) of
          None \<Rightarrow> Inr (this, Inl (InvalidInput ''seek offset overflow''))
        | Some posn \<Rightarrow>
            (let this = this\<lparr>br_pos := 0, br_cap := 0\<rparr> in
             case start_seek (br_inner this) posn of
               Inl e \<Rightarrow> Inl e
             | Inr (r, res) \<Rightarrow> Inr (this\<lparr>br_inner := r\<rparr>, res))))"

definition buf_reader_poll_complete :: "'r poll_complete \<Rightarrow> 'r buf_reader poll_complete" where
  "buf_reader_poll_complete poll_complete this cx = (case poll_complete (br_inner this) cx of
     Inl e \<Rightarrow> Inl e
   | Inr (r, res) \<Rightarrow> Inr (this\<lparr>br_inner := r\<rparr>, res))"

text \<open>\<open>Cursor::seek\<close> of the standard library: a position before the start is an error.\<close>

definition cursor_start_seek :: "cursor start_seek" where
  "cursor_start_seek c posn =
     (let target = (case posn of
          SeekStart n \<Rightarrow> int n
        | SeekEnd n \<Rightarrow> int (length (cur_bytes c)) + n
        | SeekCurrent n \<Rightarrow> int (cur_position c) + n)
      in if target < 0 \<or> target \<ge> 2 ^ 64 then Inr (c, Inl (InvalidInput ''invalid seek to a negative or overflowing position''))
         else Inr (c\<lparr>cur_position := nat target\<rparr>, Inr ()))"

definition cursor_poll_complete :: "cursor poll_complete" where
  "cursor_poll_complete c cx = Inr (c, Ready (Inr (cur_position c)))"

text \<open>The \<open>Seek\<close> future: the seek starts at the first poll.\<close>

definition seek_poll ::
  "'s start_seek \<Rightarrow> 's poll_complete \<Rightarrow> 's \<Rightarrow> seek_from option \<Rightarrow> waker \<Rightarrow> ('s \<times> seek_from option \<times> nat io_result poll) panicky" where
  "seek_poll start_seek poll_complete seeker posn cx =
     (case (case posn of None \<Rightarrow> Inr (seeker, Inr ()) | Some p \<Rightarrow> start_seek seeker p) of
        Inl e \<Rightarrow> Inl e
      | Inr (seeker, Inl e) \<Rightarrow> Inr (seeker, None, Ready (Inl e))
      | Inr (seeker, Inr _) \<Rightarrow> (case poll_complete seeker cx of
          Inl e \<Rightarrow> Inl e
        | Inr (seeker, res) \<Rightarrow> Inr (seeker, None, res)))"

section \<open>Splitting a stream\<close>

definition fill_buf_poll :: "'r poll_fill_buf \<Rightarrow> 'r \<Rightarrow> waker \<Rightarrow> ('r \<times> byte list io_result poll) panicky" where
  "fill_buf_poll poll_fill_buf reader cx = poll_fill_buf reader cx"

record 'r read_until =
  ru_reader :: 'r
  ru_delimiter :: byte
  ru_buf :: "byte list"
  ru_read :: nat

text \<open>How many of the available bytes belong to the segment, the delimiter included.\<close>

definition until_used :: "byte \<Rightarrow> byte list \<Rightarrow> nat" where
  "until_used delimiter available =
     (case position (\<lambda>byte. byte = delimiter) available of None \<Rightarrow> length available | Some index \<Rightarrow> index + 1)"

fun read_until_poll ::
  "nat \<Rightarrow> 'r poll_fill_buf \<Rightarrow> 'r consume \<Rightarrow> 'r read_until \<Rightarrow> waker \<Rightarrow> ('r read_until \<times> nat io_result poll) panicky option" where
  "read_until_poll 0 poll_fill_buf consume this cx = None"
| "read_until_poll (Suc fuel) poll_fill_buf consume this cx =
     (case poll_fill_buf (ru_reader this) cx of
        Inl e \<Rightarrow> Some (Inl e)
      | Inr (r, Pending) \<Rightarrow> Some (Inr (this\<lparr>ru_reader := r\<rparr>, Pending))
      | Inr (r, Ready (Inl e)) \<Rightarrow> Some (Inr (this\<lparr>ru_reader := r\<rparr>, Ready (Inl e)))
      | Inr (r, Ready (Inr available)) \<Rightarrow>
          if available = [] then Some (Inr (this\<lparr>ru_reader := r\<rparr>, Ready (Inr (ru_read this))))
          else
            (let used = until_used (ru_delimiter this) available;
                 finished = (available ! (used - 1) = ru_delimiter this)
             in case consume r used of
                  Inl e \<Rightarrow> Some (Inl e)
                | Inr r \<Rightarrow>
                    (let this = this\<lparr>ru_reader := r, ru_buf := ru_buf this @ take used available, ru_read := ru_read this + used\<rparr>
                     in if finished then Some (Inr (this, Ready (Inr (ru_read this))))
                        else read_until_poll fuel poll_fill_buf consume this cx)))"

text \<open>\<open>String::from_utf8\<close>: the well-formed byte sequences of UTF-8. A \<open>String\<close> is the list of its bytes.\<close>

definition utf8_tail :: "byte \<Rightarrow> bool" where
  "utf8_tail b \<longleftrightarrow> 0x80 \<le> b \<and> b \<le> 0xBF"

fun utf8_valid :: "byte list \<Rightarrow> bool" where
  "utf8_valid [] = True"
| "utf8_valid (a # bs) =
     (if a \<le> 0x7F then utf8_valid bs
      else (case bs of
        [] \<Rightarrow> False
      | b # cs \<Rightarrow>
          if 0xC2 \<le> a \<and> a \<le> 0xDF then utf8_tail b \<and> utf8_valid cs
          else (case cs of
            [] \<Rightarrow> False
          | c # ds \<Rightarrow>
              if 0xE0 \<le> a \<and> a \<le> 0xEF
              then (if a = 0xE0 then 0xA0 \<le> b \<and> b \<le> 0xBF else if a = 0xED then 0x80 \<le> b \<and> b \<le> 0x9F else utf8_tail b) \<and>
                utf8_tail c \<and> utf8_valid ds
              else (case ds of
                [] \<Rightarrow> False
              | d # es \<Rightarrow> 0xF0 \<le> a \<and> a \<le> 0xF4 \<and>
                  (if a = 0xF0 then 0x90 \<le> b \<and> b \<le> 0xBF else if a = 0xF4 then 0x80 \<le> b \<and> b \<le> 0x8F else utf8_tail b) \<and>
                  utf8_tail c \<and> utf8_tail d \<and> utf8_valid es))))"

definition newline :: byte where
  "newline = 10"

definition carriage_return :: byte where
  "carriage_return = 13"

record 'r read_line =
  rl_reader :: 'r
  rl_line :: "byte list"
  rl_bytes :: "byte list"
  rl_done :: bool

text \<open>The end of \<open>ReadLine\<close>: the bytes collected become a string or an error; in both cases they leave the future.\<close>

definition read_line_finish :: "'r read_line \<Rightarrow> 'r read_line \<times> nat io_result poll" where
  "read_line_finish this =
     (let bytes = rl_bytes this; this = this\<lparr>rl_done := True, rl_bytes := []\<rparr>
      in if utf8_valid bytes then (this\<lparr>rl_line := rl_line this @ bytes\<rparr>, Ready (Inr (length bytes)))
         else (this, Ready (Inl InvalidData)))"

fun read_line_loop ::
  "nat \<Rightarrow> 'r poll_fill_buf \<Rightarrow> 'r consume \<Rightarrow> 'r read_line \<Rightarrow> waker \<Rightarrow> ('r read_line \<times> nat io_result poll) panicky option" where
  "read_line_loop 0 poll_fill_buf consume this cx = None"
| "read_line_loop (Suc fuel) poll_fill_buf consume this cx =
     (case poll_fill_buf (rl_reader this) cx of
        Inl e \<Rightarrow> Some (Inl e)
      | Inr (r, Pending) \<Rightarrow> Some (Inr (this\<lparr>rl_reader := r\<rparr>, Pending))
      | Inr (r, Ready (Inl e)) \<Rightarrow> Some (Inr (this\<lparr>rl_reader := r\<rparr>, Ready (Inl e)))
      | Inr (r, Ready (Inr available)) \<Rightarrow>
          (let used = (if available = [] then 0 else until_used newline available);
               finished = (available = [] \<or> available ! (used - 1) = newline)
           in case consume r used of
                Inl e \<Rightarrow> Some (Inl e)
              | Inr r \<Rightarrow>
                  (let this = this\<lparr>rl_reader := r, rl_bytes := rl_bytes this @ take used available\<rparr>
                   in if finished then Some (Inr (read_line_finish this))
                      else read_line_loop fuel poll_fill_buf consume this cx)))"

definition read_line_poll ::
  "nat \<Rightarrow> 'r poll_fill_buf \<Rightarrow> 'r consume \<Rightarrow> 'r read_line \<Rightarrow> waker \<Rightarrow> ('r read_line \<times> nat io_result poll) panicky option" where
  "read_line_poll fuel poll_fill_buf consume this cx =
     (if rl_done this then Some (Inl ''ReadLine polled after completion'')
      else read_line_loop fuel poll_fill_buf consume this cx)"

text \<open>\<open>Lines::next_line\<close> and \<open>Split::next_segment\<close> strip the terminator; an empty read is the end.\<close>

definition strip_newline :: "byte list \<Rightarrow> byte list" where
  "strip_newline line =
     (if line \<noteq> [] \<and> last line = newline
      then (let line = butlast line in if line \<noteq> [] \<and> last line = carriage_return then butlast line else line)
      else line)"

definition next_line_poll ::
  "nat \<Rightarrow> 'r poll_fill_buf \<Rightarrow> 'r consume \<Rightarrow> 'r read_line \<Rightarrow> waker \<Rightarrow> ('r read_line \<times> byte list option io_result poll) panicky option" where
  "next_line_poll fuel poll_fill_buf consume this cx =
     (case read_line_poll fuel poll_fill_buf consume this cx of
        None \<Rightarrow> None
      | Some (Inl e) \<Rightarrow> Some (Inl e)
      | Some (Inr (this, Pending)) \<Rightarrow> Some (Inr (this, Pending))
      | Some (Inr (this, Ready (Inl e))) \<Rightarrow> Some (Inr (this, Ready (Inl e)))
      | Some (Inr (this, Ready (Inr n))) \<Rightarrow>
          Some (Inr (this, Ready (Inr (if n = 0 then None else Some (strip_newline (rl_line this)))))))"

definition strip_delimiter :: "byte \<Rightarrow> byte list \<Rightarrow> byte list" where
  "strip_delimiter delimiter segment = (if segment \<noteq> [] \<and> last segment = delimiter then butlast segment else segment)"

definition next_segment_poll ::
  "nat \<Rightarrow> 'r poll_fill_buf \<Rightarrow> 'r consume \<Rightarrow> 'r read_until \<Rightarrow> waker \<Rightarrow> ('r read_until \<times> byte list option io_result poll) panicky option" where
  "next_segment_poll fuel poll_fill_buf consume this cx =
     (case read_until_poll fuel poll_fill_buf consume this cx of
        None \<Rightarrow> None
      | Some (Inl e) \<Rightarrow> Some (Inl e)
      | Some (Inr (this, Pending)) \<Rightarrow> Some (Inr (this, Pending))
      | Some (Inr (this, Ready (Inl e))) \<Rightarrow> Some (Inr (this, Ready (Inl e)))
      | Some (Inr (this, Ready (Inr n))) \<Rightarrow>
          Some (Inr (this, Ready (Inr (if n = 0 then None else Some (strip_delimiter (ru_delimiter this) (ru_buf this)))))))"

text \<open>\<open>ReadToString\<close> collects everything and converts it at the end.\<close>

record 'r read_to_string =
  rts_reader :: 'r
  rts_string :: "byte list"
  rts_bytes :: "byte list"
  rts_done :: bool

fun read_to_string_loop ::
  "nat \<Rightarrow> 'r poll_read \<Rightarrow> 'r read_to_string \<Rightarrow> waker \<Rightarrow> ('r read_to_string \<times> nat io_result poll) panicky option" where
  "read_to_string_loop 0 poll_read this cx = None"
| "read_to_string_loop (Suc fuel) poll_read this cx =
     (case poll_read (rts_reader this) cx (rb_new (replicate (8 * 1024) 0)) of
        Inl e \<Rightarrow> Some (Inl e)
      | Inr (r, read_buf, res) \<Rightarrow>
          (let this = this\<lparr>rts_reader := r\<rparr> in
           case res of
             Pending \<Rightarrow> Some (Inr (this, Pending))
           | Ready (Inl e) \<Rightarrow> Some (Inr (this, Ready (Inl e)))
           | Ready (Inr _) \<Rightarrow>
               if rb_is_empty read_buf then
                 (let bytes = rts_bytes this; this = this\<lparr>rts_done := True, rts_bytes := []\<rparr>
                  in if utf8_valid bytes then Some (Inr (this\<lparr>rts_string := rts_string this @ bytes\<rparr>, Ready (Inr (length bytes))))
                     else Some (Inr (this, Ready (Inl InvalidData))))
               else read_to_string_loop fuel poll_read (this\<lparr>rts_bytes := rts_bytes this @ rb_filled_bytes read_buf\<rparr>) cx))"

definition read_to_string_poll ::
  "nat \<Rightarrow> 'r poll_read \<Rightarrow> 'r read_to_string \<Rightarrow> waker \<Rightarrow> ('r read_to_string \<times> nat io_result poll) panicky option" where
  "read_to_string_poll fuel poll_read this cx =
     (if rts_done this then Some (Inl ''ReadToString polled after completion'')
      else read_to_string_loop fuel poll_read this cx)"

section \<open>The contract of AsyncBufRead\<close>

text \<open>
  Filling the buffer does not change what the reader will deliver and offers the first part of it, nothing only at the end;
  consuming offered bytes moves past them.
\<close>

locale async_buf_reader =
  fixes poll_fill_buf :: "'r poll_fill_buf"
    and consume :: "'r consume"
    and bcontent :: "'r \<Rightarrow> byte list"
    and available :: "'r \<Rightarrow> byte list"
    and binv :: "'r \<Rightarrow> bool"
  assumes fill_ok:
    "binv r \<Longrightarrow> \<exists>r' res. poll_fill_buf r cx = Inr (r', res) \<and> binv r' \<and> bcontent r' = bcontent r \<and>
      (\<forall>bytes. res = Ready (Inr bytes) \<longrightarrow> available r' = bytes \<and> (bytes = [] \<longrightarrow> bcontent r = []))"
    and consume_ok:
    "binv r \<Longrightarrow> n \<le> length (available r) \<Longrightarrow> \<exists>r'. consume r n = Inr r' \<and> binv r' \<and> bcontent r' = drop n (bcontent r)"
    and available_prefix: "binv r \<Longrightarrow> take (length (available r)) (bcontent r) = available r"

text \<open>The first segment of a stream, its delimiter included.\<close>

definition until :: "byte \<Rightarrow> byte list \<Rightarrow> byte list" where
  "until delimiter bytes = takeWhile (\<lambda>b. b \<noteq> delimiter) bytes @ take 1 (dropWhile (\<lambda>b. b \<noteq> delimiter) bytes)"

lemma until_Nil [simp]: "until d [] = []"
  by (simp add: until_def)

lemma until_append:
  "until d (xs @ ys) = (if d \<in> set xs then until d xs else xs @ until d ys)"
  by (induction xs) (auto simp: until_def)

lemma until_used_Cons:
  "until_used d (b # bs) = (if b = d then 1 else Suc (until_used d bs))"
  by (cases "position (\<lambda>byte. byte = d) bs") (simp_all add: until_used_def del: position_None)

lemma until_used_until: "until_used d bs = length (until d bs)"
  by (induction bs) (simp_all add: until_used_Cons, simp_all add: until_def until_used_def)

lemma until_take: "until d bs = take (length (until d bs)) bs"
  by (induction bs) (auto simp: until_def)

lemma until_last: "bs \<noteq> [] \<Longrightarrow> until d bs \<noteq> [] \<and> (last (until d bs) = d \<longleftrightarrow> d \<in> set bs)"
proof (induction bs)
  case (Cons b bs)
  then show ?case by (cases "b = d"; cases "bs = []") (auto simp: until_def)
qed simp

lemma until_whole: "d \<notin> set bs \<Longrightarrow> until d bs = bs"
  using until_append [of d bs "[]"] by simp

lemma until_used_ok:
  assumes "bs \<noteq> []"
  shows "until_used d bs \<le> length bs" "until_used d bs \<noteq> 0"
    "bs ! (until_used d bs - 1) = d \<Longrightarrow> until d (bs @ rest) = take (until_used d bs) bs"
    "bs ! (until_used d bs - 1) \<noteq> d \<Longrightarrow> take (until_used d bs) bs = bs \<and> d \<notin> set bs \<and> until d (bs @ rest) = bs @ until d rest"
proof -
  show le: "until_used d bs \<le> length bs" using until_take [of d bs] by (metis length_take min.cobounded1 until_used_until)
  show pos: "until_used d bs \<noteq> 0" using until_last [OF assms] by (simp add: until_used_until)
  have "bs ! (until_used d bs - 1) = until d bs ! (until_used d bs - 1)"
    using until_take [of d bs] pos by (metis diff_less neq0_conv nth_take until_used_until zero_less_one)
  also have "\<dots> = last (until d bs)" using until_last [OF assms] by (simp add: last_conv_nth until_used_until)
  finally have "bs ! (until_used d bs - 1) = d \<longleftrightarrow> d \<in> set bs" using until_last [OF assms] by simp
  then show "bs ! (until_used d bs - 1) = d \<Longrightarrow> until d (bs @ rest) = take (until_used d bs) bs"
    "bs ! (until_used d bs - 1) \<noteq> d \<Longrightarrow> take (until_used d bs) bs = bs \<and> d \<notin> set bs \<and> until d (bs @ rest) = bs @ until d rest"
    using until_take [of d bs] by (simp_all add: until_append until_used_until until_whole)
qed


text \<open>
  One poll of \<open>read_until\<close>, from a state with \<open>buf\<close> collected and \<open>c\<close> to come: success means the whole of the first segment has been moved to
  the buffer, anything else that a part of it has been.
\<close>

definition until_outcome :: "byte \<Rightarrow> byte list \<Rightarrow> byte list \<Rightarrow> nat \<Rightarrow> byte list \<Rightarrow> byte list \<Rightarrow> nat \<Rightarrow> nat io_result poll \<Rightarrow> bool" where
  "until_outcome d buf c n buf' c' n' res \<longleftrightarrow>
     buf' @ c' = buf @ c \<and> n' + length buf = n + length buf' \<and>
     (case res of
        Ready (Inr k) \<Rightarrow> k = n' \<and> buf' = buf @ until d c
      | _ \<Rightarrow> (\<exists>part. buf' = buf @ part \<and> d \<notin> set part))"

context async_buf_reader
begin

lemma read_until_poll_ok:
  assumes "binv (ru_reader t)" "length (bcontent (ru_reader t)) < fuel"
  shows "\<exists>t' res. read_until_poll fuel poll_fill_buf consume t cx = Some (Inr (t', res)) \<and> binv (ru_reader t') \<and>
    ru_delimiter t' = ru_delimiter t \<and>
    until_outcome (ru_delimiter t) (ru_buf t) (bcontent (ru_reader t)) (ru_read t)
      (ru_buf t') (bcontent (ru_reader t')) (ru_read t') res"
  using assms
proof (induction fuel arbitrary: t)
  case (Suc fuel)
  from fill_ok [OF Suc.prems(1), of cx] obtain r res where r: "poll_fill_buf (ru_reader t) cx = Inr (r, res)" "binv r"
    "bcontent r = bcontent (ru_reader t)"
    "\<forall>bytes. res = Ready (Inr bytes) \<longrightarrow> available r = bytes \<and> (bytes = [] \<longrightarrow> bcontent (ru_reader t) = [])" by blast
  show ?case
  proof (cases "\<exists>bytes. res = Ready (Inr bytes) \<and> bytes \<noteq> []")
    case False
    with r show ?thesis by (cases res) (auto simp: until_outcome_def split: sum.splits)
  next
    case True
    then obtain bytes where bytes: "res = Ready (Inr bytes)" "bytes \<noteq> []" "available r = bytes" using r(4) by blast
    let ?d = "ru_delimiter t" and ?c = "bcontent (ru_reader t)"
    define n where "n = until_used ?d bytes"
    note u = until_used_ok [OF bytes(2), of ?d, folded n_def]
    obtain rest where rest: "?c = bytes @ rest"
      using available_prefix [OF r(2)] r(3) bytes(3) by (metis append_take_drop_id)
    from consume_ok [OF r(2), of n] u(1) bytes(3) r(3) obtain q
      where q: "consume r n = Inr q" "binv q" "bcontent q = drop n ?c" by auto
    let ?t = "t\<lparr>ru_reader := q, ru_buf := ru_buf t @ take n bytes, ru_read := ru_read t + n\<rparr>"
    have step: "read_until_poll (Suc fuel) poll_fill_buf consume t cx =
        (if bytes ! (n - 1) = ?d then Some (Inr (?t, Ready (Inr (ru_read t + n)))) else read_until_poll fuel poll_fill_buf consume ?t cx)"
      using r(1) bytes(1,2) q(1) by (simp add: Let_def n_def)
    show ?thesis
    proof (cases "bytes ! (n - 1) = ?d")
      case True
      with step u q rest show ?thesis by (simp add: until_outcome_def)
    next
      case False
      from u(4) [OF False] have whole: "take n bytes = bytes" "until ?d (bytes @ rest) = bytes @ until ?d rest" "?d \<notin> set bytes" by blast+
      with u(1) have n: "n = length bytes" by (metis length_take min.absorb2)
      with rest q(3) have c: "bcontent q = rest" by simp
      have "length (bcontent (ru_reader ?t)) < fuel" using Suc.prems(2) rest c bytes(2) by (cases bytes) auto
      with Suc.IH [of ?t] q(2) obtain t' res' where t': "read_until_poll fuel poll_fill_buf consume ?t cx = Some (Inr (t', res'))"
        "binv (ru_reader t')" "ru_delimiter t' = ?d"
        "until_outcome ?d (ru_buf t @ bytes) rest (ru_read t + n) (ru_buf t') (bcontent (ru_reader t')) (ru_read t') res'"
        using c whole(1) by auto
      moreover from t'(4) have "until_outcome ?d (ru_buf t) ?c (ru_read t) (ru_buf t') (bcontent (ru_reader t')) (ru_read t') res'"
        unfolding until_outcome_def rest using whole(2,3) n by (cases res') (auto split: sum.splits)
      ultimately show ?thesis using step False by simp
    qed
  qed
qed simp

end

interpretation slice_buf: async_buf_reader slice_poll_fill_buf slice_consume "\<lambda>r. r" "\<lambda>r. r" "\<lambda>_. True"
  by unfold_locales (auto simp: slice_poll_fill_buf_def slice_consume_def)

section \<open>BufReader keeps the contracts\<close>

definition br_buffered :: "'r buf_reader \<Rightarrow> byte list" where
  "br_buffered br = take (br_cap br - br_pos br) (drop (br_pos br) (br_buf br))"

definition br_content :: "('r \<Rightarrow> byte list) \<Rightarrow> 'r buf_reader \<Rightarrow> byte list" where
  "br_content c br = br_buffered br @ c (br_inner br)"

definition br_inv :: "('r \<Rightarrow> bool) \<Rightarrow> 'r buf_reader \<Rightarrow> bool" where
  "br_inv rinv br \<longleftrightarrow> rinv (br_inner br) \<and> br_pos br \<le> br_cap br \<and> br_cap br \<le> length (br_buf br) \<and>
     0 < length (br_buf br) \<and> length (br_buf br) \<le> usize_max"

lemma br_inv_buffer:
  assumes "br_inv rinv br"
  shows "buf_reader_buffer br = Inr (br_buffered br)" "length (br_buffered br) = br_cap br - br_pos br"
  using assms by (auto simp: br_inv_def buf_reader_buffer_def slice_range_def br_buffered_def)

context async_reader
begin

lemma buf_reader_fill_ok:
  assumes "br_inv inv br" "br_pos br = br_cap br"
  obtains br' res where "buf_reader_fill poll_read br cx = Inr (br', res)" "br_inv inv br'" "br_content content br' = br_content content br"
    "length (br_buf br') = length (br_buf br)"
    "res = Ready (Inr ()) \<and> br_buffered br' = [] \<longrightarrow> br_content content br = []"
proof -
  have b: "rb_ok (rb_new (br_buf br))" "0 < rb_remaining (rb_new (br_buf br))" "inv (br_inner br)"
    using assms by (auto simp: br_inv_def intro: rb_new_ok)
  from poll_read_ok [OF b(3,1,2)] obtain r rb res
    where r: "poll_read (br_inner br) cx (rb_new (br_buf br)) = Inr (r, rb, res)" "inv r"
      "read_result (content (br_inner br)) (rb_new (br_buf br)) rb res (content r)" by blast
  note s = slice_after_ok [OF r(3)]
  have drained: "br_buffered br = []" using assms(2) by (simp add: br_buffered_def)
  show ?thesis
  proof (cases "res = Ready (Inr ())")
    case True
    let ?br = "br\<lparr>br_inner := r, br_buf := slice_after (br_buf br) rb, br_pos := 0, br_cap := rb_len rb\<rparr>"
    have new: "br_buffered ?br = take (rb_len rb) (content (br_inner br))" using s(3,4) True by (simp add: br_buffered_def)
    with s(4) True have "br_content content ?br = br_content content br" "br_buffered ?br = [] \<Longrightarrow> br_content content br = []"
      by (auto simp: br_content_def drained)
    with s(1,2) True r(1,2) assms(1) show ?thesis
      by (intro that [of ?br res]) (simp_all add: buf_reader_fill_def br_inv_def Let_def)
  next
    case False
    let ?br = "br\<lparr>br_inner := r, br_buf := slice_after (br_buf br) rb\<rparr>"
    have "br_content content ?br = br_content content br"
      using s(5) False assms(2) by (simp add: br_content_def br_buffered_def)
    with s(1) False r(1,2) assms(1) show ?thesis
      by (intro that [of ?br res]) (simp_all add: buf_reader_fill_def br_inv_def Let_def)
  qed
qed

text \<open>Bytes that are buffered are handed out first.\<close>

lemma buf_reader_copy_out_ok:
  assumes "br_inv inv br" "rb_ok b" "0 < rb_remaining b" "br_buffered br = [] \<Longrightarrow> br_content content br = []"
  shows "\<exists>br' b'. buf_reader_copy_out br b = Inr (br', b', Ready (Inr ())) \<and> br_inv inv br' \<and>
    read_result (br_content content br) b b' (Ready (Inr ())) (br_content content br')"
proof -
  let ?n = "min (rb_remaining b) (br_cap br - br_pos br)"
  have "length (br_buffered br) = br_cap br - br_pos br" by (rule br_inv_buffer(2) [OF assms(1)])
  then have n: "?n = min (length (br_buffered br)) (rb_remaining b)" by simp
  have "slice_range (br_buf br) (br_pos br) (br_pos br + ?n) = Inr (take ?n (br_buffered br))"
    using assms(1) by (auto simp: slice_range_def br_inv_def br_buffered_def)
  moreover from put_slice_reads_some [OF assms(2,3) n] obtain b' where b': "put_slice b (take ?n (br_buffered br)) = Inr b'"
    "read_result (br_buffered br) b b' (Ready (Inr ())) (drop ?n (br_buffered br))" by blast
  moreover have "br_buffered (br\<lparr>br_pos := br_pos br + ?n\<rparr>) = drop ?n (br_buffered br)"
    by (simp add: br_buffered_def drop_take add.commute)
  moreover have "read_result (br_content content br) b b' (Ready (Inr ())) (drop ?n (br_buffered br) @ content (br_inner br))"
  proof (cases "br_buffered br = []")
    case True
    with assms(4) b'(2) show ?thesis by (simp add: br_content_def)
  next
    case False
    have "rb_len b' \<noteq> rb_len b"
      using reads_some_length [of "br_buffered br" b b'] b'(2) assms(2) False by (auto simp: read_result_def rb_len_def)
    with read_result_append [OF b'(2) assms(2)] show ?thesis by (simp add: br_content_def)
  qed
  ultimately show ?thesis using assms(1)
    by (auto simp: buf_reader_copy_out_def br_inv_def br_content_def Let_def)
qed

lemma buf_reader_async_reader: "async_reader (buf_reader_poll_read poll_read) (br_content content) (br_inv inv)"
proof
  fix br :: "'r buf_reader" and b cx
  assume inv: "br_inv inv br" and b: "rb_ok b" "0 < rb_remaining b"
  let ?goal = "\<exists>br' b' res. buf_reader_poll_read poll_read br cx b = Inr (br', b', res) \<and> br_inv inv br' \<and>
    read_result (br_content content br) b b' res (br_content content br')"
  show ?goal
  proof (cases "br_pos br = br_cap br")
    case False
    then have "br_buffered br \<noteq> []" using inv by (auto simp: br_inv_def br_buffered_def)
    with buf_reader_copy_out_ok [OF inv b] False b show ?goal by (auto simp: buf_reader_poll_read_def)
  next
    case True
    then have drained: "br_buffered br = []" by (simp add: br_buffered_def)
    show ?goal
    proof (cases "length (br_buf br) \<le> rb_remaining b")
      case direct: True
      from inv have "inv (br_inner br)" by (simp add: br_inv_def)
      from poll_read_ok [OF this b] obtain r b' res where "poll_read (br_inner br) cx b = Inr (r, b', res)" "inv r"
        "read_result (content (br_inner br)) b b' res (content r)" by blast
      then show ?goal
        using True direct b inv by (auto simp: buf_reader_poll_read_def br_inv_def br_content_def br_buffered_def)
    next
      case False
      obtain br' res where br': "buf_reader_fill poll_read br cx = Inr (br', res)" "br_inv inv br'"
        "br_content content br' = br_content content br" "length (br_buf br') = length (br_buf br)"
        "res = Ready (Inr ()) \<and> br_buffered br' = [] \<longrightarrow> br_content content br = []"
        by (rule buf_reader_fill_ok [OF inv True])
      show ?goal
      proof (cases "res = Ready (Inr ())")
        case filled: True
        from buf_reader_copy_out_ok [OF br'(2) b] br'(3,5) filled obtain br2 b'
          where "buf_reader_copy_out br' b = Inr (br2, b', Ready (Inr ()))" "br_inv inv br2"
          "read_result (br_content content br) b b' (Ready (Inr ())) (br_content content br2)" by auto
        with br'(1) filled True False b show ?goal by (auto simp: buf_reader_poll_read_def)
      next
        case other: False
        then have "buf_reader_poll_read poll_read br cx b = Inr (br', b, res)"
          using br'(1) True False b by (cases res) (auto simp: buf_reader_poll_read_def split: sum.splits)
        with br'(2,3) b(1) other show ?goal by (simp add: read_result_def)
      qed
    qed
  qed
qed

lemma buf_reader_async_buf_reader:
  "async_buf_reader (buf_reader_poll_fill_buf poll_read) buf_reader_consume (br_content content) br_buffered (br_inv inv)"
proof
  fix br :: "'r buf_reader" and cx n
  assume inv: "br_inv inv br"
  let ?goal = "\<exists>br' res. buf_reader_poll_fill_buf poll_read br cx = Inr (br', res) \<and> br_inv inv br' \<and> br_content content br' = br_content content br \<and>
    (\<forall>bytes. res = Ready (Inr bytes) \<longrightarrow> br_buffered br' = bytes \<and> (bytes = [] \<longrightarrow> br_content content br = []))"
  show ?goal
  proof (cases "br_pos br < br_cap br")
    case True
    then have "br_buffered br \<noteq> []" using inv by (auto simp: br_inv_def br_buffered_def)
    with True inv show ?goal by (simp add: buf_reader_poll_fill_buf_def br_inv_buffer [OF inv])
  next
    case False
    with inv have "br_pos br = br_cap br" by (simp add: br_inv_def)
    from inv this obtain br' res where br': "buf_reader_fill poll_read br cx = Inr (br', res)" "br_inv inv br'"
        "br_content content br' = br_content content br" "length (br_buf br') = length (br_buf br)"
        "res = Ready (Inr ()) \<and> br_buffered br' = [] \<longrightarrow> br_content content br = []"
      by (rule buf_reader_fill_ok)
    with False show ?goal
      by (cases res) (auto simp: buf_reader_poll_fill_buf_def br_inv_buffer [OF br'(2)] split: sum.splits)
  qed
  show "take (length (br_buffered br)) (br_content content br) = br_buffered br" by (simp add: br_content_def)
  assume "n \<le> length (br_buffered br)"
  then have n: "br_pos br + n \<le> br_cap br" using br_inv_buffer(2) [OF inv] inv by (auto simp: br_inv_def)
  with inv have "usize_add (br_pos br) n = Inr (br_pos br + n)" by (simp add: usize_add_def br_inv_def)
  moreover have "br_buffered (br\<lparr>br_pos := br_pos br + n\<rparr>) = drop n (br_buffered br)"
    by (simp add: br_buffered_def drop_take add.commute)
  ultimately show "\<exists>br'. buf_reader_consume br n = Inr br' \<and> br_inv inv br' \<and> br_content content br' = drop n (br_content content br)"
    using inv n \<open>n \<le> length (br_buffered br)\<close> by (simp add: buf_reader_consume_def br_inv_def br_content_def min_absorb1)
qed

end

interpretation cursor_buf: async_reader "buf_reader_poll_read cursor_poll_read"
  "br_content (\<lambda>c. drop (cur_position c) (cur_bytes c))" "br_inv (\<lambda>_. True)"
  by (rule cursor.buf_reader_async_reader)

text \<open>The outcome of \<open>next_segment\<close> when \<open>all\<close> is the stream from the start of the segment on, of which \<open>buf\<close> has been collected and \<open>rest\<close> has not.\<close>

definition segment_outcome :: "byte \<Rightarrow> byte list \<Rightarrow> byte list \<Rightarrow> byte list \<Rightarrow> byte list option io_result poll \<Rightarrow> bool" where
  "segment_outcome d all buf rest res \<longleftrightarrow> (case res of
     Ready (Inr None) \<Rightarrow> all = [] \<and> rest = []
   | Ready (Inr (Some segment)) \<Rightarrow> d \<notin> set segment \<and> (all = segment @ [d] @ rest \<or> all = segment \<and> segment \<noteq> [] \<and> rest = [])
   | _ \<Rightarrow> all = buf @ rest \<and> d \<notin> set buf)"

lemma until_split:
  obtains (found) "d \<in> set xs" "until d xs = takeWhile (\<lambda>b. b \<noteq> d) xs @ [d]" "d \<notin> set (takeWhile (\<lambda>b. b \<noteq> d) xs)"
  | (whole) "d \<notin> set xs" "until d xs = xs"
proof (cases "d \<in> set xs")
  case True
  then have "dropWhile (\<lambda>b. b \<noteq> d) xs \<noteq> []" by (simp add: dropWhile_eq_Nil_conv)
  then obtain y ys where y: "dropWhile (\<lambda>b. b \<noteq> d) xs = y # ys" by (cases "dropWhile (\<lambda>b. b \<noteq> d) xs") auto
  with hd_dropWhile [of "\<lambda>b. b \<noteq> d" xs] have "y = d" by simp
  with y True show ?thesis by (intro found) (auto simp: until_def dest: set_takeWhileD)
qed (auto intro: whole until_whole)

lemma segment_ok:
  assumes "until_outcome d buf c (length buf) buf' c' n' res" "d \<notin> set buf"
  shows "segment_outcome d (buf @ c) buf' c'
    (case res of Pending \<Rightarrow> Pending | Ready (Inl e) \<Rightarrow> Ready (Inl e)
     | Ready (Inr n) \<Rightarrow> Ready (Inr (if n = 0 then None else Some (strip_delimiter d buf'))))"
proof -
  have out: "buf' @ c' = buf @ c" "n' = length buf'" using assms(1) by (auto simp: until_outcome_def)
  have all: "until d (buf @ c) = buf @ until d c" using assms(2) by (simp add: until_append)
  show ?thesis
  proof (cases "\<exists>n. res = Ready (Inr n)")
    case True
    with assms(1) out(2) all have ready: "res = Ready (Inr (length buf'))" "buf' = until d (buf @ c)"
      by (auto simp: until_outcome_def)
    show ?thesis
    proof (cases rule: until_split [of d "buf @ c"])
      case found
      with ready out(1) show ?thesis by (simp add: segment_outcome_def strip_delimiter_def)
    next
      case whole
      then have "strip_delimiter d (buf @ c) = buf @ c" unfolding strip_delimiter_def by (metis last_in_set)
      with whole ready out(1) show ?thesis by (auto simp: segment_outcome_def)
    qed
  next
    case False
    then have "d \<notin> set buf'"
      using assms by (cases res) (auto simp: until_outcome_def split: sum.splits)
    with False out(1) show ?thesis by (cases res) (auto simp: segment_outcome_def split: sum.splits)
  qed
qed

section \<open>Properties\<close>

text \<open>C25: \<open>BufReader\<close> is transparent. Over any reader that satisfies the contract of \<open>AsyncRead\<close>, and with a buffer that is not empty, the buffered
  reader delivers the same bytes in the same order: a new one delivers what the inner reader does; \<open>poll_read\<close> hands out the first of the
  bytes to come and never panics; \<open>poll_fill_buf\<close> offers a part of them, nothing only at the end, without consuming any; \<open>consume\<close> moves past
  bytes that were offered; and the indices into the buffer stay in range.\<close>

theorem buf_reader_transparent:
  assumes "async_reader poll_read content rinv" "br_inv rinv br" "rb_ok out" "0 < rb_remaining out"
  shows "(\<exists>br' out' res. buf_reader_poll_read poll_read br cx out = Inr (br', out', res) \<and> br_inv rinv br' \<and>
      read_result (br_content content br) out out' res (br_content content br')) \<and>
    (\<exists>br' res. buf_reader_poll_fill_buf poll_read br cx = Inr (br', res) \<and> br_inv rinv br' \<and>
      br_content content br' = br_content content br \<and>
      (\<forall>bytes. res = Ready (Inr bytes) \<longrightarrow> buf_reader_buffer br' = Inr bytes \<and> (bytes = [] \<longrightarrow> br_content content br = []))) \<and>
    (n \<le> length (br_buffered br) \<longrightarrow>
      (\<exists>br'. buf_reader_consume br n = Inr br' \<and> br_inv rinv br' \<and> br_content content br' = drop n (br_content content br))) \<and>
    (rinv inner \<and> 0 < capacity \<and> capacity \<le> usize_max \<longrightarrow>
      br_inv rinv (buf_reader_with_capacity capacity inner) \<and> br_content content (buf_reader_with_capacity capacity inner) = content inner)"
proof -
  note ar = async_reader.buf_reader_async_reader [OF assms(1)] and abr = async_reader.buf_reader_async_buf_reader [OF assms(1)]
  from async_buf_reader.fill_ok [OF abr assms(2), of cx]
  have "\<exists>br' res. buf_reader_poll_fill_buf poll_read br cx = Inr (br', res) \<and> br_inv rinv br' \<and> br_content content br' = br_content content br \<and>
      (\<forall>bytes. res = Ready (Inr bytes) \<longrightarrow> buf_reader_buffer br' = Inr bytes \<and> (bytes = [] \<longrightarrow> br_content content br = []))"
    using br_inv_buffer(1) by metis
  moreover have "rinv inner \<and> 0 < capacity \<and> capacity \<le> usize_max \<longrightarrow>
      br_inv rinv (buf_reader_with_capacity capacity inner) \<and> br_content content (buf_reader_with_capacity capacity inner) = content inner"
    by (simp add: br_inv_def br_content_def br_buffered_def buf_reader_with_capacity_def)
  ultimately show ?thesis
    using async_reader.poll_read_ok [OF ar assms(2-4), of cx] async_buf_reader.consume_ok [OF abr assms(2), of n] by blast
qed

definition br_demo :: "byte list buf_reader" where
  "br_demo = buf_reader_with_capacity 2 [97, 44, 98]"

lemma br_demo_ok: "br_inv (\<lambda>_. True) br_demo" "br_content (\<lambda>r. r) br_demo = [97, 44, 98]"
  by (simp_all add: br_demo_def buf_reader_with_capacity_def br_inv_def br_content_def br_buffered_def usize_max_def)

theorem buf_reader_transparent_witness:
  "\<exists>br' out' res. buf_reader_poll_read slice_poll_read br_demo 7 (rb_new [0]) = Inr (br', out', res) \<and>
    read_result [97, 44, 98] (rb_new [0]) out' res (br_content (\<lambda>r. r) br')"
proof -
  have "rb_ok (rb_new [0])" "0 < rb_remaining (rb_new [0])" by (simp_all add: rb_new_ok usize_max_def)
  from buf_reader_transparent [OF slice.async_reader_axioms br_demo_ok(1) this] show ?thesis
    unfolding br_demo_ok(2) by blast
qed



end
