(* ===== verification/Io_BufWrite.thy ===== *)
theory Io_BufWrite
  imports Io_BufRead
begin

text \<open>
  Buffered writing (\<open>io.rs\<close>): \<open>BufWriter\<close> over any writer, the two-way stream \<open>Join\<close>, and \<open>BufStream\<close>, a \<open>BufReader\<close> over a \<open>BufWriter\<close>.
\<close>

section \<open>BufWriter\<close>

record 'w buf_writer =
  bw_inner :: 'w
  bw_buf :: "byte list"
  bw_written :: nat
  bw_capacity :: nat
  bw_seek :: "seek_from option"

definition buf_writer_with_capacity :: "nat \<Rightarrow> 'w \<Rightarrow> 'w buf_writer" where
  "buf_writer_with_capacity capacity inner = \<lparr>bw_inner = inner, bw_buf = [], bw_written = 0, bw_capacity = capacity, bw_seek = None\<rparr>"

definition buf_writer_new :: "'w \<Rightarrow> 'w buf_writer" where
  "buf_writer_new inner = buf_writer_with_capacity (8 * 1024) inner"

definition buf_writer_buffer :: "'w buf_writer \<Rightarrow> byte list panicky" where
  "buf_writer_buffer this = slice_range (bw_buf this) (bw_written this) (length (bw_buf this))"

text \<open>The loop ends: every round writes at least one byte.\<close>

function poll_flush_buf :: "'w poll_write \<Rightarrow> 'w buf_writer \<Rightarrow> waker \<Rightarrow> ('w buf_writer \<times> unit io_result poll) panicky" where
  "poll_flush_buf poll_write this cx =
     (if bw_written this < length (bw_buf this) then
        (case poll_write (bw_inner this) cx (drop (bw_written this) (bw_buf this)) of
           Inl e \<Rightarrow> Inl e
         | Inr (w, Ready (Inr amount)) \<Rightarrow>
             if amount = 0 then Inr (this\<lparr>bw_inner := w\<rparr>, Ready (Inl (WriteZero ''failed to flush buffered writer'')))
             else poll_flush_buf poll_write (this\<lparr>bw_inner := w, bw_written := bw_written this + amount\<rparr>) cx
         | Inr (w, Ready (Inl e)) \<Rightarrow> Inr (this\<lparr>bw_inner := w\<rparr>, Ready (Inl e))
         | Inr (w, Pending) \<Rightarrow> Inr (this\<lparr>bw_inner := w\<rparr>, Pending))
      else Inr (this\<lparr>bw_buf := [], bw_written := 0\<rparr>, Ready (Inr ())))"
  by auto
termination
  by (relation "measure (\<lambda>(p, t, cx). length (bw_buf t) - bw_written t)") auto

declare poll_flush_buf.simps [simp del]

text \<open>\<open>ready!(...)?\<close>: only success goes on.\<close>

definition and_then :: "('s \<times> unit io_result poll) panicky \<Rightarrow> ('s \<Rightarrow> ('s \<times> 'a io_result poll) panicky) \<Rightarrow> ('s \<times> 'a io_result poll) panicky" where
  "and_then x f = (case x of
     Inl e \<Rightarrow> Inl e
   | Inr (s, Pending) \<Rightarrow> Inr (s, Pending)
   | Inr (s, Ready (Inl e)) \<Rightarrow> Inr (s, Ready (Inl e))
   | Inr (s, Ready (Inr _)) \<Rightarrow> f s)"

text \<open>The call of an operation of the inner writer.\<close>

definition on_inner :: "('w \<times> 'a io_result poll) panicky \<Rightarrow> 'w buf_writer \<Rightarrow> ('w buf_writer \<times> 'a io_result poll) panicky" where
  "on_inner x this = (case x of Inl e \<Rightarrow> Inl e | Inr (w, res) \<Rightarrow> Inr (this\<lparr>bw_inner := w\<rparr>, res))"

definition flush_if :: "bool \<Rightarrow> 'w poll_write \<Rightarrow> 'w buf_writer \<Rightarrow> waker \<Rightarrow> ('w buf_writer \<times> unit io_result poll) panicky" where
  "flush_if b poll_write this cx = (if b then poll_flush_buf poll_write this cx else Inr (this, Ready (Inr ())))"

definition buf_writer_poll_write :: "'w poll_write \<Rightarrow> 'w buf_writer poll_write" where
  "buf_writer_poll_write poll_write this cx input =
     (case usize_sub (bw_capacity this) (length (bw_buf this)) of
        Inl e \<Rightarrow> Inl e
      | Inr room \<Rightarrow>
          and_then (flush_if (bw_buf this \<noteq> [] \<and> length input > room) poll_write this cx)
            (\<lambda>this. if bw_buf this = [] \<and> length input \<ge> bw_capacity this then on_inner (poll_write (bw_inner this) cx input) this
              else (case usize_sub (bw_capacity this) (length (bw_buf this)) of
                Inl e \<Rightarrow> Inl e
              | Inr room \<Rightarrow>
                  (let amount = min (length input) room
                   in Inr (this\<lparr>bw_buf := bw_buf this @ take amount input\<rparr>, Ready (Inr amount))))))"

text \<open>The buffers after the first that still fit are appended in turn.\<close>

fun append_while_fits :: "'w buf_writer \<Rightarrow> nat \<Rightarrow> byte list list \<Rightarrow> ('w buf_writer \<times> nat) panicky" where
  "append_while_fits this written [] = Inr (this, written)"
| "append_while_fits this written (b # bufs) = (case usize_sub (bw_capacity this) (length (bw_buf this)) of
     Inl e \<Rightarrow> Inl e
   | Inr room \<Rightarrow>
       if length b > room then Inr (this, written)
       else append_while_fits (this\<lparr>bw_buf := bw_buf this @ b\<rparr>) (written + length b) bufs)"

definition saturating_total :: "byte list list \<Rightarrow> nat" where
  "saturating_total bufs = foldl (\<lambda>sum b. min usize_max (sum + length b)) 0 bufs"

definition buf_writer_poll_write_vectored ::
  "bool \<Rightarrow> 'w poll_write \<Rightarrow> 'w poll_write_vectored \<Rightarrow> 'w buf_writer poll_write_vectored" where
  "buf_writer_poll_write_vectored is_write_vectored poll_write poll_write_vectored this cx bufs =
     (case usize_sub (bw_capacity this) (length (bw_buf this)) of
        Inl e \<Rightarrow> Inl e
      | Inr room \<Rightarrow>
          if is_write_vectored then
            (let total = saturating_total bufs in
             and_then (flush_if (total > room) poll_write this cx)
               (\<lambda>this. if total \<ge> bw_capacity this then on_inner (poll_write_vectored (bw_inner this) cx bufs) this
                 else Inr (this\<lparr>bw_buf := bw_buf this @ concat bufs\<rparr>, Ready (Inr total))))
          else
            (case dropWhile (\<lambda>b. b = []) bufs of
               [] \<Rightarrow> Inr (this, Ready (Inr 0))
             | first # rest \<Rightarrow>
                 and_then (flush_if (length first > room) poll_write this cx)
                   (\<lambda>this. if length first \<ge> bw_capacity this then on_inner (poll_write (bw_inner this) cx first) this
                     else (case append_while_fits (this\<lparr>bw_buf := bw_buf this @ first\<rparr>) (length first) rest of
                       Inl e \<Rightarrow> Inl e
                     | Inr (this, written) \<Rightarrow> Inr (this, Ready (Inr written))))))"

definition buf_writer_poll_flush :: "'w poll_write \<Rightarrow> 'w poll_flush \<Rightarrow> 'w buf_writer poll_flush" where
  "buf_writer_poll_flush poll_write poll_flush this cx =
     and_then (poll_flush_buf poll_write this cx) (\<lambda>this. on_inner (poll_flush (bw_inner this) cx) this)"

definition buf_writer_poll_shutdown :: "'w poll_write \<Rightarrow> 'w poll_flush \<Rightarrow> 'w buf_writer poll_flush" where
  "buf_writer_poll_shutdown poll_write poll_shutdown this cx =
     and_then (poll_flush_buf poll_write this cx) (\<lambda>this. on_inner (poll_shutdown (bw_inner this) cx) this)"

text \<open>Reading through a buffered writer flushes it first.\<close>

definition buf_writer_poll_read :: "'w poll_write \<Rightarrow> 'w poll_read \<Rightarrow> 'w buf_writer poll_read" where
  "buf_writer_poll_read poll_write poll_read this cx buf =
     (case poll_flush_buf poll_write this cx of
        Inl e \<Rightarrow> Inl e
      | Inr (this, Pending) \<Rightarrow> Inr (this, buf, Pending)
      | Inr (this, Ready (Inl e)) \<Rightarrow> Inr (this, buf, Ready (Inl e))
      | Inr (this, Ready (Inr _)) \<Rightarrow>
          (case poll_read (bw_inner this) cx buf of
             Inl e \<Rightarrow> Inl e
           | Inr (r, buf, res) \<Rightarrow> Inr (this\<lparr>bw_inner := r\<rparr>, buf, res)))"

definition buf_writer_poll_fill_buf :: "'w poll_write \<Rightarrow> 'w poll_fill_buf \<Rightarrow> 'w buf_writer poll_fill_buf" where
  "buf_writer_poll_fill_buf poll_write poll_fill_buf this cx =
     and_then (poll_flush_buf poll_write this cx) (\<lambda>this. on_inner (poll_fill_buf (bw_inner this) cx) this)"

definition buf_writer_consume :: "'w consume \<Rightarrow> 'w buf_writer consume" where
  "buf_writer_consume consume this amount = (case consume (bw_inner this) amount of Inl e \<Rightarrow> Inl e | Inr w \<Rightarrow> Inr (this\<lparr>bw_inner := w\<rparr>))"

definition buf_writer_start_seek :: "'w buf_writer start_seek" where
  "buf_writer_start_seek this posn =
     (if bw_seek this \<noteq> None then Inr (this, Inl (OtherError ''another seek is already in progress''))
      else Inr (this\<lparr>bw_seek := Some posn\<rparr>, Inr ()))"

definition buf_writer_poll_complete :: "'w poll_write \<Rightarrow> 'w start_seek \<Rightarrow> 'w poll_complete \<Rightarrow> 'w buf_writer poll_complete" where
  "buf_writer_poll_complete poll_write start_seek poll_complete this cx =
     and_then (poll_flush_buf poll_write this cx)
       (\<lambda>this. case bw_seek this of
          None \<Rightarrow> on_inner (poll_complete (bw_inner this) cx) this
        | Some posn \<Rightarrow>
            (let this = this\<lparr>bw_seek := None\<rparr> in
             case start_seek (bw_inner this) posn of
               Inl e \<Rightarrow> Inl e
             | Inr (w, Inl e) \<Rightarrow> Inr (this\<lparr>bw_inner := w\<rparr>, Ready (Inl e))
             | Inr (w, Inr _) \<Rightarrow> on_inner (poll_complete w cx) (this\<lparr>bw_inner := w\<rparr>)))"

section \<open>Join and BufStream\<close>

record ('r, 'w) join =
  jn_reader :: 'r
  jn_writer :: 'w

definition join_poll_read :: "'r poll_read \<Rightarrow> ('r, 'w) join poll_read" where
  "join_poll_read poll_read this cx buf = (case poll_read (jn_reader this) cx buf of
     Inl e \<Rightarrow> Inl e
   | Inr (r, buf, res) \<Rightarrow> Inr (this\<lparr>jn_reader := r\<rparr>, buf, res))"

definition join_poll_write :: "'w poll_write \<Rightarrow> ('r, 'w) join poll_write" where
  "join_poll_write poll_write this cx buf = (case poll_write (jn_writer this) cx buf of
     Inl e \<Rightarrow> Inl e
   | Inr (w, res) \<Rightarrow> Inr (this\<lparr>jn_writer := w\<rparr>, res))"

definition join_poll_write_vectored :: "'w poll_write_vectored \<Rightarrow> ('r, 'w) join poll_write_vectored" where
  "join_poll_write_vectored poll_write_vectored this cx bufs = (case poll_write_vectored (jn_writer this) cx bufs of
     Inl e \<Rightarrow> Inl e
   | Inr (w, res) \<Rightarrow> Inr (this\<lparr>jn_writer := w\<rparr>, res))"

definition join_poll_flush :: "'w poll_flush \<Rightarrow> ('r, 'w) join poll_flush" where
  "join_poll_flush poll_flush this cx = (case poll_flush (jn_writer this) cx of
     Inl e \<Rightarrow> Inl e
   | Inr (w, res) \<Rightarrow> Inr (this\<lparr>jn_writer := w\<rparr>, res))"

definition join_poll_shutdown :: "'w poll_flush \<Rightarrow> ('r, 'w) join poll_flush" where
  "join_poll_shutdown poll_shutdown this cx = (case poll_shutdown (jn_writer this) cx of
     Inl e \<Rightarrow> Inl e
   | Inr (w, res) \<Rightarrow> Inr (this\<lparr>jn_writer := w\<rparr>, res))"

definition join_poll_fill_buf :: "'r poll_fill_buf \<Rightarrow> ('r, 'w) join poll_fill_buf" where
  "join_poll_fill_buf poll_fill_buf this cx = (case poll_fill_buf (jn_reader this) cx of
     Inl e \<Rightarrow> Inl e
   | Inr (r, res) \<Rightarrow> Inr (this\<lparr>jn_reader := r\<rparr>, res))"

type_synonym 'w buf_stream = "'w buf_writer buf_reader"

definition buf_stream_with_capacity :: "nat \<Rightarrow> nat \<Rightarrow> 'w \<Rightarrow> 'w buf_stream" where
  "buf_stream_with_capacity reader_capacity writer_capacity stream =
     buf_reader_with_capacity reader_capacity (buf_writer_with_capacity writer_capacity stream)"

definition buf_stream_poll_read :: "'w poll_write \<Rightarrow> 'w poll_read \<Rightarrow> 'w buf_stream poll_read" where
  "buf_stream_poll_read poll_write poll_read = buf_reader_poll_read (buf_writer_poll_read poll_write poll_read)"

definition buf_stream_poll_fill_buf :: "'w poll_write \<Rightarrow> 'w poll_read \<Rightarrow> 'w buf_stream poll_fill_buf" where
  "buf_stream_poll_fill_buf poll_write poll_read = buf_reader_poll_fill_buf (buf_writer_poll_read poll_write poll_read)"

definition buf_stream_consume :: "'w buf_stream consume" where
  "buf_stream_consume = buf_reader_consume"

definition buf_stream_poll_write :: "'w poll_write \<Rightarrow> 'w buf_stream poll_write" where
  "buf_stream_poll_write poll_write = buf_reader_poll_write (buf_writer_poll_write poll_write)"

definition buf_stream_poll_write_vectored :: "bool \<Rightarrow> 'w poll_write \<Rightarrow> 'w poll_write_vectored \<Rightarrow> 'w buf_stream poll_write_vectored" where
  "buf_stream_poll_write_vectored is_write_vectored poll_write poll_write_vectored =
     buf_reader_poll_write_vectored (buf_writer_poll_write_vectored is_write_vectored poll_write poll_write_vectored)"

definition buf_stream_poll_flush :: "'w poll_write \<Rightarrow> 'w poll_flush \<Rightarrow> 'w buf_stream poll_flush" where
  "buf_stream_poll_flush poll_write poll_flush = buf_reader_poll_flush (buf_writer_poll_flush poll_write poll_flush)"

definition buf_stream_poll_shutdown :: "'w poll_write \<Rightarrow> 'w poll_flush \<Rightarrow> 'w buf_stream poll_flush" where
  "buf_stream_poll_shutdown poll_write poll_shutdown = buf_reader_poll_shutdown (buf_writer_poll_shutdown poll_write poll_shutdown)"

definition buf_stream_start_seek :: "'w buf_stream start_seek" where
  "buf_stream_start_seek = buf_reader_start_seek buf_writer_start_seek"

definition buf_stream_poll_complete :: "'w poll_write \<Rightarrow> 'w start_seek \<Rightarrow> 'w poll_complete \<Rightarrow> 'w buf_stream poll_complete" where
  "buf_stream_poll_complete poll_write start_seek poll_complete =
     buf_reader_poll_complete (buf_writer_poll_complete poll_write start_seek poll_complete)"

section \<open>The contract of BufWriter\<close>

text \<open>What a buffered writer has accepted: what reached the inner writer and then what is still in the buffer.\<close>

definition bw_accepted :: "('w \<Rightarrow> byte list) \<Rightarrow> 'w buf_writer \<Rightarrow> byte list" where
  "bw_accepted emitted bw = emitted (bw_inner bw) @ drop (bw_written bw) (bw_buf bw)"

definition bw_inv :: "('w \<Rightarrow> bool) \<Rightarrow> 'w buf_writer \<Rightarrow> bool" where
  "bw_inv winv bw \<longleftrightarrow> winv (bw_inner bw) \<and> bw_written bw \<le> length (bw_buf bw) \<and> length (bw_buf bw) \<le> bw_capacity bw \<and>
     bw_capacity bw \<le> usize_max"

text \<open>A writer with vectored writes: they take a part of the concatenation of the buffers.\<close>

locale vectored_writer = async_writer +
  fixes poll_write_vectored :: "'a poll_write_vectored"
  assumes vectored_ok:
    "winv w \<Longrightarrow> \<forall>b\<in>set bufs. length b \<le> usize_max \<Longrightarrow>
      \<exists>w' res. poll_write_vectored w cx bufs = Inr (w', res) \<and> winv w' \<and> write_result (emitted w) (concat bufs) res (emitted w')"

lemma find_concat:
  obtains rest where "concat bufs = (case find (\<lambda>b. b \<noteq> []) bufs of None \<Rightarrow> [] | Some b \<Rightarrow> b) @ rest"
proof -
  have "\<exists>rest. concat bufs = (case find (\<lambda>b. b \<noteq> []) bufs of None \<Rightarrow> [] | Some b \<Rightarrow> b) @ rest"
    by (induction bufs) auto
  with that show ?thesis by blast
qed

lemma write_result_prefix: "write_result out buf res out' \<Longrightarrow> write_result out (buf @ rest) res out'"
  by (auto simp: write_result_def split: poll.splits sum.splits)

sublocale async_writer \<subseteq> default_vectored: vectored_writer poll_write emitted winv "default_poll_write_vectored poll_write"
proof
  fix w cx and bufs :: "byte list list"
  assume w: "winv w" "\<forall>b\<in>set bufs. length b \<le> usize_max"
  let ?b = "case find (\<lambda>b. b \<noteq> []) bufs of None \<Rightarrow> [] | Some b \<Rightarrow> b"
  have "length ?b \<le> usize_max" using w(2) by (auto simp: find_Some_iff split: option.splits)
  from poll_write_ok [OF w(1) this, of cx] obtain w' res where
    "poll_write w cx ?b = Inr (w', res)" "winv w'" "write_result (emitted w) ?b res (emitted w')" by blast
  moreover obtain rest where "concat bufs = ?b @ rest" by (rule find_concat)
  ultimately show "\<exists>w' res. default_poll_write_vectored poll_write w cx bufs = Inr (w', res) \<and> winv w' \<and>
      write_result (emitted w) (concat bufs) res (emitted w')"
    by (auto simp: default_poll_write_vectored_def intro!: write_result_prefix)
qed

interpretation vec_vectored: vectored_writer vec_poll_write "\<lambda>v. v" "\<lambda>_. True" vec_poll_write_vectored
  by unfold_locales (auto simp: vec_poll_write_vectored_def write_result_def)

lemma and_then_Ready [simp]: "and_then (Inr (s, Ready (Inr u))) f = f s"
  by (simp add: and_then_def)

lemma and_then_stop:
  assumes "res \<noteq> Ready (Inr ())" "I s" "accepted s = out"
  shows "\<exists>s' res'. and_then (Inr (s, res)) f = Inr (s', res') \<and> I s' \<and> write_result out buf res' (accepted s')"
  using assms by (cases res) (auto simp: and_then_def write_result_def split: sum.splits)

context async_writer
begin

lemma poll_flush_buf_ok:
  assumes "bw_inv winv bw"
  shows "\<exists>bw' res. poll_flush_buf poll_write bw cx = Inr (bw', res) \<and> bw_inv winv bw' \<and> bw_accepted emitted bw' = bw_accepted emitted bw \<and>
    bw_capacity bw' = bw_capacity bw \<and> bw_seek bw' = bw_seek bw \<and> (res = Ready (Inr ()) \<longrightarrow> bw_buf bw' = [])"
  using assms
proof (induction "length (bw_buf bw) - bw_written bw" arbitrary: bw rule: less_induct)
  case less
  show ?case
  proof (cases "bw_written bw < length (bw_buf bw)")
    case False
    with less.prems show ?thesis by (subst poll_flush_buf.simps) (auto simp: bw_inv_def bw_accepted_def)
  next
    case True
    let ?rest = "drop (bw_written bw) (bw_buf bw)"
    have "winv (bw_inner bw)" "length ?rest \<le> usize_max" using less.prems by (auto simp: bw_inv_def)
    from poll_write_ok [OF this, of cx] obtain w res where w: "poll_write (bw_inner bw) cx ?rest = Inr (w, res)" "winv w"
      "write_result (emitted (bw_inner bw)) ?rest res (emitted w)" by blast
    show ?thesis
    proof (cases "\<exists>n. res = Ready (Inr n) \<and> n \<noteq> 0")
      case progress: True
      then obtain n where n: "res = Ready (Inr n)" "n \<noteq> 0" by blast
      let ?bw = "bw\<lparr>bw_inner := w, bw_written := bw_written bw + n\<rparr>"
      from n(1) w(3) have le: "n \<le> length ?rest" "emitted w = emitted (bw_inner bw) @ take n ?rest" by (auto simp: write_result_def)
      have "take n ?rest @ drop (bw_written bw + n) (bw_buf bw) = ?rest" by (metis append_take_drop_id drop_drop add.commute)
      with le less.prems w(2) True have "bw_inv winv ?bw" "bw_accepted emitted ?bw = bw_accepted emitted bw"
        by (auto simp: bw_inv_def bw_accepted_def)
      moreover have "poll_flush_buf poll_write bw cx = poll_flush_buf poll_write ?bw cx"
        using True w(1) n by (subst poll_flush_buf.simps) simp
      ultimately show ?thesis using less.hyps [of ?bw] True n(2) by simp
    next
      case False
      then have "emitted w = emitted (bw_inner bw)"
        using w(3) by (cases res) (auto simp: write_result_def split: sum.splits)
      moreover have "\<exists>res'. poll_flush_buf poll_write bw cx = Inr (bw\<lparr>bw_inner := w\<rparr>, res') \<and> res' \<noteq> Ready (Inr ())"
        using True w(1) False by (subst poll_flush_buf.simps) (cases res; auto split: sum.splits)
      ultimately show ?thesis using less.prems w(2) by (auto simp: bw_inv_def bw_accepted_def)
    qed
  qed
qed

lemma flush_if_ok:
  assumes "bw_inv winv bw"
  obtains bw' res where "flush_if b poll_write bw cx = Inr (bw', res)" "bw_inv winv bw'" "bw_accepted emitted bw' = bw_accepted emitted bw"
    "bw_capacity bw' = bw_capacity bw" "res = Ready (Inr ()) \<and> b \<longrightarrow> bw_buf bw' = []" "\<not> b \<longrightarrow> bw' = bw \<and> res = Ready (Inr ())"
  using poll_flush_buf_ok [OF assms, of cx] assms unfolding flush_if_def by (cases b) auto

text \<open>A direct write to the inner writer, which happens only when nothing is buffered.\<close>

lemma on_inner_ok:
  assumes "bw_inv winv bw" "bw_buf bw = []" "x = Inr (w, res)" "winv w" "write_result (emitted (bw_inner bw)) input res (emitted w)"
  shows "\<exists>bw' res. on_inner x bw = Inr (bw', res) \<and> bw_inv winv bw' \<and> write_result (bw_accepted emitted bw) input res (bw_accepted emitted bw')"
  using assms by (auto simp: on_inner_def bw_inv_def bw_accepted_def)

lemma buf_writer_async_writer: "async_writer (buf_writer_poll_write poll_write) (bw_accepted emitted) (bw_inv winv)"
proof
  fix bw cx and input :: "byte list"
  assume inv: "bw_inv winv bw" and input: "length input \<le> usize_max"
  let ?goal = "\<lambda>x. \<exists>bw' res. x = Inr (bw', res) \<and> bw_inv winv bw' \<and> write_result (bw_accepted emitted bw) input res (bw_accepted emitted bw')"
  let ?b = "bw_buf bw \<noteq> [] \<and> length input > bw_capacity bw - length (bw_buf bw)"
  obtain bw1 res where f: "flush_if ?b poll_write bw cx = Inr (bw1, res)" "bw_inv winv bw1"
    "bw_accepted emitted bw1 = bw_accepted emitted bw" "bw_capacity bw1 = bw_capacity bw"
    "res = Ready (Inr ()) \<and> ?b \<longrightarrow> bw_buf bw1 = []" "\<not> ?b \<longrightarrow> bw1 = bw \<and> res = Ready (Inr ())"
    by (rule flush_if_ok [OF inv])
  have sub: "usize_sub (bw_capacity b) (length (bw_buf b)) = Inr (bw_capacity b - length (bw_buf b))" if "bw_inv winv b" for b :: "'w buf_writer"
    using that by (simp add: bw_inv_def)
  show "?goal (buf_writer_poll_write poll_write bw cx input)"
  proof (cases "res = Ready (Inr ())")
    case False
    show ?thesis unfolding buf_writer_poll_write_def sub [OF inv] sum.case f(1) by (rule and_then_stop) (use False f(2,3) in auto)
  next
    case True
    let ?n = "min (length input) (bw_capacity bw1 - length (bw_buf bw1))"
    have run: "buf_writer_poll_write poll_write bw cx input =
      (if bw_buf bw1 = [] \<and> length input \<ge> bw_capacity bw1 then on_inner (poll_write (bw_inner bw1) cx input) bw1
       else Inr (bw1\<lparr>bw_buf := bw_buf bw1 @ take ?n input\<rparr>, Ready (Inr ?n)))"
      using f(1) True sub [OF inv] sub [OF f(2)] by (simp add: buf_writer_poll_write_def and_then_def Let_def)
    show ?thesis
    proof (cases "bw_buf bw1 = [] \<and> length input \<ge> bw_capacity bw1")
      case direct: True
      from f(2) have "winv (bw_inner bw1)" by (simp add: bw_inv_def)
      from poll_write_ok [OF this input, of cx] obtain w res where "poll_write (bw_inner bw1) cx input = Inr (w, res)" "winv w"
        "write_result (emitted (bw_inner bw1)) input res (emitted w)" by blast
      from on_inner_ok [OF f(2) _ this] direct f(3) show ?thesis unfolding run by simp
    next
      case False
      let ?bw = "bw1\<lparr>bw_buf := bw_buf bw1 @ take ?n input\<rparr>"
      have "bw_inv winv ?bw" "bw_accepted emitted ?bw = bw_accepted emitted bw @ take ?n input"
        using f(2,3) by (auto simp: bw_inv_def bw_accepted_def)
      with False show ?thesis unfolding run by (auto simp: write_result_def)
    qed
  qed
qed

lemma append_while_fits_ok:
  assumes "bw_inv winv bw"
  shows "\<exists>bw' n. append_while_fits bw k bufs = Inr (bw', k + n) \<and> bw_inv winv bw' \<and> n \<le> length (concat bufs) \<and>
    bw_accepted emitted bw' = bw_accepted emitted bw @ take n (concat bufs)"
  using assms
proof (induction bufs arbitrary: bw k)
  case (Cons b bufs)
  let ?bw = "bw\<lparr>bw_buf := bw_buf bw @ b\<rparr>"
  show ?case
  proof (cases "length b > bw_capacity bw - length (bw_buf bw)")
    case True
    with Cons.prems show ?thesis by (intro exI [of _ bw] exI [of _ 0]) (simp add: bw_inv_def)
  next
    case False
    with Cons.prems have inv: "bw_inv winv ?bw" and acc: "bw_accepted emitted ?bw = bw_accepted emitted bw @ b"
      by (auto simp: bw_inv_def bw_accepted_def)
    from Cons.IH [OF inv, of "k + length b"] obtain bw' n where
      "append_while_fits ?bw (k + length b) bufs = Inr (bw', k + length b + n)" "bw_inv winv bw'" "n \<le> length (concat bufs)"
      "bw_accepted emitted bw' = bw_accepted emitted ?bw @ take n (concat bufs)" by blast
    with acc False Cons.prems show ?thesis
      by (intro exI [of _ bw'] exI [of _ "length b + n"]) (simp add: bw_inv_def add.assoc)
  qed
qed auto

end

lemma bw_direct: "bw_inv winv bw \<Longrightarrow> bw_buf bw = [] \<or> n \<le> bw_capacity bw - length (bw_buf bw) \<Longrightarrow> bw_capacity bw \<le> n \<Longrightarrow> bw_buf bw = []"
  by (cases "bw_buf bw") (auto simp: bw_inv_def)

lemma saturating_total_eq: "saturating_total bufs = min usize_max (length (concat bufs))"
proof -
  have "foldl (\<lambda>sum b. min usize_max (sum + length b)) s bufs = min usize_max (s + length (concat bufs))" if "s \<le> usize_max" for s
    using that by (induction bufs arbitrary: s) (auto simp: min_def)
  then show ?thesis by (simp add: saturating_total_def)
qed

lemma concat_dropWhile_Nil: "concat (dropWhile (\<lambda>b. b = []) bufs) = concat bufs"
  by (induction bufs) auto

context vectored_writer
begin

lemma buf_writer_vectored_branch:
  assumes inv: "bw_inv winv bw" and bufs: "\<forall>b\<in>set bufs. length b \<le> usize_max"
  defines "tot \<equiv> saturating_total bufs"
  shows "\<exists>bw' res. and_then (flush_if (tot > bw_capacity bw - length (bw_buf bw)) poll_write bw cx)
      (\<lambda>this. if tot \<ge> bw_capacity this then on_inner (poll_write_vectored (bw_inner this) cx bufs) this
        else Inr (this\<lparr>bw_buf := bw_buf this @ concat bufs\<rparr>, Ready (Inr tot))) = Inr (bw', res) \<and>
    bw_inv winv bw' \<and> write_result (bw_accepted emitted bw) (concat bufs) res (bw_accepted emitted bw')"
proof -
  let ?b = "tot > bw_capacity bw - length (bw_buf bw)"
  obtain bw1 res where f: "flush_if ?b poll_write bw cx = Inr (bw1, res)" "bw_inv winv bw1"
    "bw_accepted emitted bw1 = bw_accepted emitted bw" "bw_capacity bw1 = bw_capacity bw"
    "res = Ready (Inr ()) \<and> ?b \<longrightarrow> bw_buf bw1 = []" "\<not> ?b \<longrightarrow> bw1 = bw \<and> res = Ready (Inr ())"
    by (rule flush_if_ok [OF inv])
  show ?thesis
  proof (cases "res = Ready (Inr ())")
    case False
    show ?thesis unfolding f(1) by (rule and_then_stop) (use False f(2,3) in auto)
  next
    case True
    have room: "bw_buf bw1 = [] \<or> tot \<le> bw_capacity bw1 - length (bw_buf bw1)" using f(5,6) True by auto
    show ?thesis
    proof (cases "tot \<ge> bw_capacity bw1")
      case direct: True
      from f(2) room direct have "bw_buf bw1 = []" by (rule bw_direct)
      moreover from f(2) have "winv (bw_inner bw1)" by (simp add: bw_inv_def)
      from vectored_ok [OF this bufs, of cx] obtain w res where w: "poll_write_vectored (bw_inner bw1) cx bufs = Inr (w, res)" "winv w"
        "write_result (emitted (bw_inner bw1)) (concat bufs) res (emitted w)" by blast
      ultimately show ?thesis using on_inner_ok [OF f(2) _ w] direct f(3) unfolding f(1) True by simp
    next
      case False
      with f(2) have "tot = length (concat bufs)" unfolding tot_def saturating_total_eq by (auto simp: bw_inv_def min_def split: if_splits)
      with room False f(2,3) show ?thesis unfolding f(1) True by (auto simp: bw_inv_def bw_accepted_def write_result_def)
    qed
  qed
qed

lemma buf_writer_plain_branch:
  assumes inv: "bw_inv winv bw" and bufs: "length first \<le> usize_max" and first: "first \<noteq> []"
  shows "\<exists>bw' res. and_then (flush_if (length first > bw_capacity bw - length (bw_buf bw)) poll_write bw cx)
      (\<lambda>this. if length first \<ge> bw_capacity this then on_inner (poll_write (bw_inner this) cx first) this
        else (case append_while_fits (this\<lparr>bw_buf := bw_buf this @ first\<rparr>) (length first) rest of
          Inl e \<Rightarrow> Inl e
        | Inr (this, written) \<Rightarrow> Inr (this, Ready (Inr written)))) = Inr (bw', res) \<and>
    bw_inv winv bw' \<and> write_result (bw_accepted emitted bw) (first @ concat rest) res (bw_accepted emitted bw')"
proof -
  let ?b = "length first > bw_capacity bw - length (bw_buf bw)"
  obtain bw1 res where f: "flush_if ?b poll_write bw cx = Inr (bw1, res)" "bw_inv winv bw1"
    "bw_accepted emitted bw1 = bw_accepted emitted bw" "bw_capacity bw1 = bw_capacity bw"
    "res = Ready (Inr ()) \<and> ?b \<longrightarrow> bw_buf bw1 = []" "\<not> ?b \<longrightarrow> bw1 = bw \<and> res = Ready (Inr ())"
    by (rule flush_if_ok [OF inv])
  show ?thesis
  proof (cases "res = Ready (Inr ())")
    case False
    show ?thesis unfolding f(1) by (rule and_then_stop) (use False f(2,3) in auto)
  next
    case True
    have room: "bw_buf bw1 = [] \<or> length first \<le> bw_capacity bw1 - length (bw_buf bw1)" using f(5,6) True by auto
    show ?thesis
    proof (cases "length first \<ge> bw_capacity bw1")
      case direct: True
      from f(2) room direct have "bw_buf bw1 = []" by (rule bw_direct)
      moreover from f(2) have "winv (bw_inner bw1)" by (simp add: bw_inv_def)
      from poll_write_ok [OF this bufs, of cx] obtain w res where w: "poll_write (bw_inner bw1) cx first = Inr (w, res)" "winv w"
        "write_result (emitted (bw_inner bw1)) first res (emitted w)" by blast
      from write_result_prefix [OF this(3)]
      have "write_result (emitted (bw_inner bw1)) (first @ concat rest) res (emitted w)" .
      ultimately show ?thesis using on_inner_ok [OF f(2) _ w(1,2)] direct f(3) unfolding f(1) True by simp
    next
      case False
      let ?bw = "bw1\<lparr>bw_buf := bw_buf bw1 @ first\<rparr>"
      have "bw_inv winv ?bw" and acc: "bw_accepted emitted ?bw = bw_accepted emitted bw @ first"
        using room False f(2,3) by (auto simp: bw_inv_def bw_accepted_def)
      from append_while_fits_ok [OF this(1), of "length first" rest] obtain bw' n
        where "append_while_fits ?bw (length first) rest = Inr (bw', length first + n)" "bw_inv winv bw'" "n \<le> length (concat rest)"
          "bw_accepted emitted bw' = bw_accepted emitted ?bw @ take n (concat rest)" by blast
      with acc False show ?thesis unfolding f(1) True by (simp add: write_result_def)
    qed
  qed
qed

lemma buf_writer_vectored_ok:
  assumes "bw_inv winv bw" "\<forall>b\<in>set bufs. length b \<le> usize_max"
  shows "\<exists>bw' res. buf_writer_poll_write_vectored is_vectored poll_write poll_write_vectored bw cx bufs = Inr (bw', res) \<and>
    bw_inv winv bw' \<and> write_result (bw_accepted emitted bw) (concat bufs) res (bw_accepted emitted bw')"
proof -
  have sub: "usize_sub (bw_capacity bw) (length (bw_buf bw)) = Inr (bw_capacity bw - length (bw_buf bw))"
    using assms(1) by (simp add: bw_inv_def)
  show ?thesis
  proof (cases "is_vectored \<or> dropWhile (\<lambda>b. b = []) bufs = []")
    case True
    then consider is_vectored | "\<not> is_vectored" "dropWhile (\<lambda>b. b = []) bufs = []" by blast
    then show ?thesis
    proof cases
      case 1
      with buf_writer_vectored_branch [OF assms, of cx] show ?thesis
        by (simp only: buf_writer_poll_write_vectored_def sub sum.case if_True Let_def)
    next
      case 2
      with assms(1) sub show ?thesis by (simp add: buf_writer_poll_write_vectored_def write_result_def del: dropWhile_eq_Nil_conv)
    qed
  next
    case False
    then obtain first rest where fr: "dropWhile (\<lambda>b. b = []) bufs = first # rest" by (cases "dropWhile (\<lambda>b. b = []) bufs") blast+
    then have "first \<in> set (dropWhile (\<lambda>b. b = []) bufs)" by simp
    then have "first \<in> set bufs" by (blast dest: set_dropWhileD)
    moreover have "first \<noteq> []" using hd_dropWhile [of "\<lambda>b. b = []" bufs] fr by simp
    moreover have "concat bufs = first @ concat rest" using concat_dropWhile_Nil [of bufs] fr by simp
    moreover from False have "\<not> is_vectored" by blast
    ultimately show ?thesis
      using buf_writer_plain_branch [OF assms(1), of first cx rest] assms(2)
      by (simp only: buf_writer_poll_write_vectored_def sub sum.case fr list.case if_False) blast
  qed
qed

end

section \<open>Two-way streams\<close>

text \<open>A stream that is read and written: neither direction disturbs the other.\<close>

locale io_stream = async_reader poll_read content sinv + async_writer poll_write emitted sinv
  for poll_read :: "'s poll_read" and content and sinv and poll_write :: "'s poll_write" and emitted +
  assumes read_keeps_emitted: "sinv s \<Longrightarrow> poll_read s cx b = Inr (s', b', res) \<Longrightarrow> emitted s' = emitted s"
    and write_keeps_content: "sinv s \<Longrightarrow> poll_write s cx buf = Inr (s', wres) \<Longrightarrow> content s' = content s"
begin

lemma flush_keeps_content:
  "bw_inv sinv bw \<Longrightarrow> poll_flush_buf poll_write bw cx = Inr (bw', res) \<Longrightarrow> content (bw_inner bw') = content (bw_inner bw)"
proof (induction "length (bw_buf bw) - bw_written bw" arbitrary: bw rule: less_induct)
  case less
  let ?rest = "drop (bw_written bw) (bw_buf bw)"
  from less.prems(1) have s: "sinv (bw_inner bw)" "length ?rest \<le> usize_max" by (auto simp: bw_inv_def)
  from poll_write_ok [OF s, of cx] obtain w wres where w: "poll_write (bw_inner bw) cx ?rest = Inr (w, wres)" "sinv w"
    "write_result (emitted (bw_inner bw)) ?rest wres (emitted w)" by blast
  note keep = write_keeps_content [OF s(1) w(1)]
  show ?case
  proof (cases "bw_written bw < length (bw_buf bw) \<and> (\<exists>n. wres = Ready (Inr n) \<and> n \<noteq> 0)")
    case True
    then obtain n where n: "wres = Ready (Inr n)" "n \<noteq> 0" by blast
    let ?bw = "bw\<lparr>bw_inner := w, bw_written := bw_written bw + n\<rparr>"
    have "bw_inv sinv ?bw" using less.prems(1) w(2,3) n(1) True by (auto simp: bw_inv_def write_result_def)
    moreover have "poll_flush_buf poll_write bw cx = poll_flush_buf poll_write ?bw cx"
      using True w(1) n by (subst poll_flush_buf.simps) simp
    moreover have "length (bw_buf ?bw) - bw_written ?bw < length (bw_buf bw) - bw_written bw" using True n(2) by auto
    ultimately show ?thesis using less.hyps [of ?bw] less.prems(2) keep by simp
  next
    case False
    then have "\<exists>res'. poll_flush_buf poll_write bw cx =
        Inr (if bw_written bw < length (bw_buf bw) then bw\<lparr>bw_inner := w\<rparr> else bw\<lparr>bw_buf := [], bw_written := 0\<rparr>, res')"
      using w(1) by (subst poll_flush_buf.simps) (cases wres; auto split: sum.splits)
    with less.prems(2) keep show ?thesis by (auto split: if_splits)
  qed
qed

lemma buf_writer_async_reader:
  "async_reader (buf_writer_poll_read poll_write poll_read) (\<lambda>bw. content (bw_inner bw)) (bw_inv sinv)"
proof
  fix bw b cx
  assume inv: "bw_inv sinv bw" and b: "rb_ok b" "0 < rb_remaining b"
  from poll_flush_buf_ok [OF inv, of cx] obtain bw1 res where f: "poll_flush_buf poll_write bw cx = Inr (bw1, res)" "bw_inv sinv bw1" by blast
  note keep = flush_keeps_content [OF inv f(1)]
  show "\<exists>bw' b' res. buf_writer_poll_read poll_write poll_read bw cx b = Inr (bw', b', res) \<and> bw_inv sinv bw' \<and>
    read_result (content (bw_inner bw)) b b' res (content (bw_inner bw'))"
  proof (cases "res = Ready (Inr ())")
    case True
    from f(2) have "sinv (bw_inner bw1)" by (simp add: bw_inv_def)
    from poll_read_ok [OF this b] obtain r b' res' where "poll_read (bw_inner bw1) cx b = Inr (r, b', res')" "sinv r"
      "read_result (content (bw_inner bw1)) b b' res' (content r)" by blast
    with True f keep show ?thesis by (simp add: buf_writer_poll_read_def bw_inv_def)
  next
    case False
    then have "buf_writer_poll_read poll_write poll_read bw cx b = Inr (bw1, b, res)"
      using f(1) by (cases res) (auto simp: buf_writer_poll_read_def split: sum.splits)
    with False f(2) keep b(1) show ?thesis by (simp add: read_result_def)
  qed
qed

text \<open>Reading through \<open>BufStream\<close> delivers what the stream does; its reader keeps what has been accepted for writing.\<close>

lemma buf_stream_async_reader:
  "async_reader (buf_stream_poll_read poll_write poll_read) (br_content (\<lambda>bw. content (bw_inner bw))) (br_inv (bw_inv sinv))"
  unfolding buf_stream_poll_read_def by (rule async_reader.buf_reader_async_reader [OF buf_writer_async_reader])

lemma buf_stream_write_ok:
  assumes "br_inv (bw_inv sinv) bs" "length buf \<le> usize_max"
  shows "\<exists>bs' res. buf_stream_poll_write poll_write bs cx buf = Inr (bs', res) \<and> br_inv (bw_inv sinv) bs' \<and>
    write_result (bw_accepted emitted (br_inner bs)) buf res (bw_accepted emitted (br_inner bs')) \<and> br_buffered bs' = br_buffered bs"
proof -
  from assms(1) have "bw_inv sinv (br_inner bs)" by (simp add: br_inv_def)
  from async_writer.poll_write_ok [OF buf_writer_async_writer this assms(2), of cx] obtain w res where
    "buf_writer_poll_write poll_write (br_inner bs) cx buf = Inr (w, res)" "bw_inv sinv w"
    "write_result (bw_accepted emitted (br_inner bs)) buf res (bw_accepted emitted w)" by blast
  with assms(1) show ?thesis
    by (simp add: buf_stream_poll_write_def buf_reader_poll_write_def br_inv_def br_buffered_def)
qed

end

interpretation joined: io_stream "join_poll_read slice_poll_read" jn_reader "\<lambda>_. True" "join_poll_write vec_poll_write" jn_writer
proof
  fix j :: "(byte list, byte list) join" and b cx
  assume "rb_ok b" "0 < rb_remaining b"
  from slice.poll_read_ok [OF TrueI this, of "jn_reader j" cx]
  show "\<exists>j' b' res. join_poll_read slice_poll_read j cx b = Inr (j', b', res) \<and> True \<and> read_result (jn_reader j) b b' res (jn_reader j')"
    by (auto simp: join_poll_read_def)
qed (auto simp: join_poll_write_def vec_poll_write_def join_poll_read_def write_result_def split: sum.splits)

section \<open>Properties\<close>

text \<open>C27: \<open>BufWriter\<close> loses and reorders nothing. Over any writer that satisfies the contract of \<open>AsyncWrite\<close>, plain and vectored writes accept a
  first part of their input, whose length they report, behind everything accepted before, and never panic; a write that is pending or fails
  accepts nothing; the buffer stays within its capacity; and after a successful flush all that has been accepted is in the inner writer.\<close>

theorem buf_writer_keeps_order:
  assumes "vectored_writer poll_write emitted winv poll_write_vectored" "bw_inv winv bw" "length input \<le> usize_max"
    and "\<forall>b\<in>set bufs. length b \<le> usize_max"
  shows "(\<exists>bw' res. buf_writer_poll_write poll_write bw cx input = Inr (bw', res) \<and> bw_inv winv bw' \<and>
      write_result (bw_accepted emitted bw) input res (bw_accepted emitted bw')) \<and>
    (\<exists>bw' res. buf_writer_poll_write_vectored is_vectored poll_write poll_write_vectored bw cx bufs = Inr (bw', res) \<and> bw_inv winv bw' \<and>
      write_result (bw_accepted emitted bw) (concat bufs) res (bw_accepted emitted bw')) \<and>
    (\<exists>bw' res. poll_flush_buf poll_write bw cx = Inr (bw', res) \<and> bw_inv winv bw' \<and> bw_accepted emitted bw' = bw_accepted emitted bw \<and>
      (res = Ready (Inr ()) \<longrightarrow> emitted (bw_inner bw') = bw_accepted emitted bw))"
proof -
  from assms(1) have aw: "async_writer poll_write emitted winv" by (simp add: vectored_writer_def)
  from async_writer.poll_flush_buf_ok [OF aw assms(2), of cx]
  have "\<exists>bw' res. poll_flush_buf poll_write bw cx = Inr (bw', res) \<and> bw_inv winv bw' \<and> bw_accepted emitted bw' = bw_accepted emitted bw \<and>
      (res = Ready (Inr ()) \<longrightarrow> emitted (bw_inner bw') = bw_accepted emitted bw)"
    by (auto simp: bw_accepted_def)
  with async_writer.poll_write_ok [OF async_writer.buf_writer_async_writer [OF aw] assms(2,3), of cx]
    vectored_writer.buf_writer_vectored_ok [OF assms(1,2,4), of is_vectored cx]
  show ?thesis by blast
qed

definition bw_demo :: "byte list buf_writer" where
  "bw_demo = \<lparr>bw_inner = [1], bw_buf = [2, 3], bw_written = 1, bw_capacity = 4, bw_seek = None\<rparr>"

theorem buf_writer_keeps_order_witness:
  "\<exists>bw' res. buf_writer_poll_write vec_poll_write bw_demo 7 [4, 5, 6] = Inr (bw', res) \<and>
    write_result [1, 3] [4, 5, 6] res (bw_accepted (\<lambda>v. v) bw')"
proof -
  have "bw_inv (\<lambda>_. True) bw_demo" "bw_accepted (\<lambda>v. v) bw_demo = [1, 3]"
    by (simp_all add: bw_demo_def bw_inv_def bw_accepted_def usize_max_def)
  with buf_writer_keeps_order [OF vec_vectored.vectored_writer_axioms this(1), of "[4, 5, 6]" "[]" 7 True] show ?thesis
    by (auto simp: usize_max_def)
qed

end
