(* ===== verification/Io_Copy.thy ===== *)
theory Io_Copy
  imports Io_BufWrite
begin

text \<open>
  Copying between streams (\<open>io.rs\<close>): \<open>copy\<close>, \<open>copy_buf\<close>, and one direction of \<open>copy_bidirectional\<close>, whose futures share the same loop:
  refill the buffer when it is empty, drain it, stop at the end of the reader. The loops end only if the reader does, so they
  have fuel; \<open>None\<close> is a loop that has not ended yet.
\<close>

section \<open>The loop\<close>

text \<open>The buffer that \<open>Copy\<close> and \<open>CopyDirection\<close> have in common.\<close>

record copy_buffer =
  cp_buf :: "byte list"
  cp_pos :: nat
  cp_cap :: nat
  cp_amount :: u64
  cp_eof :: bool

record copy_direction = copy_buffer +
  cd_done :: bool

record ('r, 'w) copy = copy_buffer +
  cp_reader :: 'r
  cp_writer :: 'w

definition copy_new :: "'r \<Rightarrow> 'w \<Rightarrow> ('r, 'w) copy" where
  "copy_new reader writer = \<lparr>cp_buf = replicate (8 * 1024) 0, cp_pos = 0, cp_cap = 0, cp_amount = 0, cp_eof = False,
     cp_reader = reader, cp_writer = writer\<rparr>"

definition copy_direction_new :: "nat \<Rightarrow> copy_direction" where
  "copy_direction_new size' = \<lparr>cp_buf = replicate (max size' 1) 0, cp_pos = 0, cp_cap = 0, cp_amount = 0, cp_eof = False, cd_done = False\<rparr>"

definition copy_fill ::
  "'r poll_read \<Rightarrow> 'r \<Rightarrow> 'z copy_buffer_scheme \<Rightarrow> waker \<Rightarrow> ('r \<times> 'z copy_buffer_scheme \<times> unit io_result poll) panicky" where
  "copy_fill poll_read r this cx =
     (case poll_read r cx (rb_new (cp_buf this)) of
        Inl e \<Rightarrow> Inl e
      | Inr (r, read_buf, res) \<Rightarrow>
          (let this = this\<lparr>cp_buf := slice_after (cp_buf this) read_buf\<rparr> in
           if res = Ready (Inr ())
           then Inr (r, this\<lparr>cp_pos := 0, cp_cap := rb_len read_buf, cp_eof := rb_len read_buf = 0\<rparr>, res)
           else Inr (r, this, res)))"

text \<open>Every round of the inner loop writes at least one byte.\<close>

function copy_drain ::
  "string \<Rightarrow> 'w poll_write \<Rightarrow> 'w \<Rightarrow> 'z copy_buffer_scheme \<Rightarrow> waker \<Rightarrow> ('w \<times> 'z copy_buffer_scheme \<times> unit io_result poll) panicky" where
  "copy_drain msg poll_write w this cx =
     (if cp_pos this < cp_cap this then
        (case slice_range (cp_buf this) (cp_pos this) (cp_cap this) of
           Inl e \<Rightarrow> Inl e
         | Inr bytes \<Rightarrow> (case poll_write w cx bytes of
             Inl e \<Rightarrow> Inl e
           | Inr (w, Pending) \<Rightarrow> Inr (w, this, Pending)
           | Inr (w, Ready (Inl e)) \<Rightarrow> Inr (w, this, Ready (Inl e))
           | Inr (w, Ready (Inr written)) \<Rightarrow>
               if written = 0 then Inr (w, this, Ready (Inl (WriteZero msg)))
               else copy_drain msg poll_write w
                 (this\<lparr>cp_pos := cp_pos this + written, cp_amount := cp_amount this + of_nat written\<rparr>) cx))
      else Inr (w, this, Ready (Inr ())))"
  by auto
termination
  by (relation "measure (\<lambda>(m, p, w, t, cx). cp_cap t - cp_pos t)") auto

declare copy_drain.simps [simp del]

text \<open>The outer loop up to the end of the reader, which is reported as success.\<close>

fun copy_loop ::
  "nat \<Rightarrow> string \<Rightarrow> 'r poll_read \<Rightarrow> 'w poll_write \<Rightarrow> 'r \<Rightarrow> 'w \<Rightarrow> 'z copy_buffer_scheme \<Rightarrow> waker \<Rightarrow>
   ('r \<times> 'w \<times> 'z copy_buffer_scheme \<times> unit io_result poll) panicky option" where
  "copy_loop 0 msg poll_read poll_write r w this cx = None"
| "copy_loop (Suc fuel) msg poll_read poll_write r w this cx =
     (case (if cp_pos this = cp_cap this \<and> \<not> cp_eof this then copy_fill poll_read r this cx else Inr (r, this, Ready (Inr ()))) of
        Inl e \<Rightarrow> Some (Inl e)
      | Inr (r, this, Pending) \<Rightarrow> Some (Inr (r, w, this, Pending))
      | Inr (r, this, Ready (Inl e)) \<Rightarrow> Some (Inr (r, w, this, Ready (Inl e)))
      | Inr (r, this, Ready (Inr _)) \<Rightarrow>
          (case copy_drain msg poll_write w this cx of
             Inl e \<Rightarrow> Some (Inl e)
           | Inr (w, this, Pending) \<Rightarrow> Some (Inr (r, w, this, Pending))
           | Inr (w, this, Ready (Inl e)) \<Rightarrow> Some (Inr (r, w, this, Ready (Inl e)))
           | Inr (w, this, Ready (Inr _)) \<Rightarrow>
               if cp_eof this then Some (Inr (r, w, this, Ready (Inr ())))
               else copy_loop fuel msg poll_read poll_write r w this cx))"

section \<open>The futures\<close>

definition copy_poll ::
  "nat \<Rightarrow> 'r poll_read \<Rightarrow> 'w poll_write \<Rightarrow> 'w poll_flush \<Rightarrow> ('r, 'w) copy \<Rightarrow> waker \<Rightarrow> (('r, 'w) copy \<times> u64 io_result poll) panicky option" where
  "copy_poll fuel poll_read poll_write poll_flush this cx =
     (case copy_loop fuel ''failed to copy entire stream'' poll_read poll_write (cp_reader this) (cp_writer this) this cx of
        None \<Rightarrow> None
      | Some (Inl e) \<Rightarrow> Some (Inl e)
      | Some (Inr (r, w, this, Pending)) \<Rightarrow> Some (Inr (this\<lparr>cp_reader := r, cp_writer := w\<rparr>, Pending))
      | Some (Inr (r, w, this, Ready (Inl e))) \<Rightarrow> Some (Inr (this\<lparr>cp_reader := r, cp_writer := w\<rparr>, Ready (Inl e)))
      | Some (Inr (r, w, this, Ready (Inr _))) \<Rightarrow>
          (let this = this\<lparr>cp_reader := r\<rparr> in
           case poll_flush w cx of
             Inl e \<Rightarrow> Some (Inl e)
           | Inr (w, Pending) \<Rightarrow> Some (Inr (this\<lparr>cp_writer := w\<rparr>, Pending))
           | Inr (w, Ready (Inl e)) \<Rightarrow> Some (Inr (this\<lparr>cp_writer := w\<rparr>, Ready (Inl e)))
           | Inr (w, Ready (Inr _)) \<Rightarrow> Some (Inr (this\<lparr>cp_writer := w\<rparr>, Ready (Inr (cp_amount this))))))"

definition poll_copy_direction ::
  "nat \<Rightarrow> 'r poll_read \<Rightarrow> 'w poll_write \<Rightarrow> 'w poll_flush \<Rightarrow> 'r \<Rightarrow> 'w \<Rightarrow> copy_direction \<Rightarrow> waker \<Rightarrow>
   ('r \<times> 'w \<times> copy_direction \<times> u64 io_result poll) panicky option" where
  "poll_copy_direction fuel poll_read poll_write poll_shutdown r w state cx =
     (if cd_done state then Some (Inr (r, w, state, Ready (Inr (cp_amount state))))
      else
        (case copy_loop fuel ''failed to copy bidirectional stream'' poll_read poll_write r w state cx of
           None \<Rightarrow> None
         | Some (Inl e) \<Rightarrow> Some (Inl e)
         | Some (Inr (r, w, state, Pending)) \<Rightarrow> Some (Inr (r, w, state, Pending))
         | Some (Inr (r, w, state, Ready (Inl e))) \<Rightarrow> Some (Inr (r, w, state, Ready (Inl e)))
         | Some (Inr (r, w, state, Ready (Inr _))) \<Rightarrow>
             (case poll_shutdown w cx of
                Inl e \<Rightarrow> Some (Inl e)
              | Inr (w, Pending) \<Rightarrow> Some (Inr (r, w, state, Pending))
              | Inr (w, Ready (Inl e)) \<Rightarrow> Some (Inr (r, w, state, Ready (Inl e)))
              | Inr (w, Ready (Inr _)) \<Rightarrow>
                  Some (Inr (r, w, state\<lparr>cd_done := True\<rparr>, Ready (Inr (cp_amount state)))))))"

text \<open>Both directions are polled before either result is looked at.\<close>

definition copy_bidirectional_poll ::
  "nat \<Rightarrow> 'a poll_read \<Rightarrow> 'a poll_write \<Rightarrow> 'a poll_flush \<Rightarrow> 'b poll_read \<Rightarrow> 'b poll_write \<Rightarrow> 'b poll_flush \<Rightarrow>
   'a \<Rightarrow> 'b \<Rightarrow> copy_direction \<Rightarrow> copy_direction \<Rightarrow> waker \<Rightarrow>
   ('a \<times> 'b \<times> copy_direction \<times> copy_direction \<times> (u64 \<times> u64) io_result poll) panicky option" where
  "copy_bidirectional_poll fuel read_a write_a shutdown_a read_b write_b shutdown_b a b a_to_b b_to_a cx =
     (case poll_copy_direction fuel read_a write_b shutdown_b a b a_to_b cx of
        None \<Rightarrow> None
      | Some (Inl e) \<Rightarrow> Some (Inl e)
      | Some (Inr (a, b, a_to_b, first)) \<Rightarrow>
          (case poll_copy_direction fuel read_b write_a shutdown_a b a b_to_a cx of
             None \<Rightarrow> None
           | Some (Inl e) \<Rightarrow> Some (Inl e)
           | Some (Inr (b, a, b_to_a, second)) \<Rightarrow>
               Some (Inr (a, b, a_to_b, b_to_a,
                 (case (first, second) of
                    (Ready (Inl e), _) \<Rightarrow> Ready (Inl e)
                  | (_, Ready (Inl e)) \<Rightarrow> Ready (Inl e)
                  | (Ready (Inr x), Ready (Inr y)) \<Rightarrow> Ready (Inr (x, y))
                  | _ \<Rightarrow> Pending)))))"

text \<open>\<open>copy_buf\<close>: the bytes the reader offers are written and what was written is consumed.\<close>

fun copy_buf_poll ::
  "nat \<Rightarrow> 'r poll_fill_buf \<Rightarrow> 'r consume \<Rightarrow> 'w poll_write \<Rightarrow> 'w poll_flush \<Rightarrow> 'r \<Rightarrow> 'w \<Rightarrow> u64 \<Rightarrow> waker \<Rightarrow>
   ('r \<times> 'w \<times> u64 \<times> u64 io_result poll) panicky option" where
  "copy_buf_poll 0 poll_fill_buf consume poll_write poll_flush r w amount cx = None"
| "copy_buf_poll (Suc fuel) poll_fill_buf consume poll_write poll_flush r w amount cx =
     (case poll_fill_buf r cx of
        Inl e \<Rightarrow> Some (Inl e)
      | Inr (r, Pending) \<Rightarrow> Some (Inr (r, w, amount, Pending))
      | Inr (r, Ready (Inl e)) \<Rightarrow> Some (Inr (r, w, amount, Ready (Inl e)))
      | Inr (r, Ready (Inr available)) \<Rightarrow>
          if available = [] then
            (case poll_flush w cx of
               Inl e \<Rightarrow> Some (Inl e)
             | Inr (w, Pending) \<Rightarrow> Some (Inr (r, w, amount, Pending))
             | Inr (w, Ready (Inl e)) \<Rightarrow> Some (Inr (r, w, amount, Ready (Inl e)))
             | Inr (w, Ready (Inr _)) \<Rightarrow> Some (Inr (r, w, amount, Ready (Inr amount))))
          else
            (case poll_write w cx available of
               Inl e \<Rightarrow> Some (Inl e)
             | Inr (w, Pending) \<Rightarrow> Some (Inr (r, w, amount, Pending))
             | Inr (w, Ready (Inl e)) \<Rightarrow> Some (Inr (r, w, amount, Ready (Inl e)))
             | Inr (w, Ready (Inr written)) \<Rightarrow>
                 if written = 0 then Some (Inr (r, w, amount, Ready (Inl (WriteZero ''failed to copy buffered stream''))))
                 else (case consume r written of
                   Inl e \<Rightarrow> Some (Inl e)
                 | Inr r \<Rightarrow> copy_buf_poll fuel poll_fill_buf consume poll_write poll_flush r w (amount + of_nat written) cx)))"

section \<open>Nothing is lost\<close>

text \<open>A writer whose flush and shutdown add nothing to what it has been given.\<close>

locale flushing_writer = async_writer +
  fixes poll_flush :: "'a poll_flush"
  assumes flush_ok: "winv w \<Longrightarrow> \<exists>w' res. poll_flush w cx = Inr (w', res) \<and> winv w' \<and> emitted w' = emitted w"

interpretation vec_flush: flushing_writer vec_poll_write "\<lambda>v. v" "\<lambda>_. True" vec_poll_flush
  by unfold_locales (simp add: vec_poll_flush_def)

text \<open>
  Flushing a \<open>BufWriter\<close> hands on what is buffered, and flushes the inner writer only after that; shutting it down does the same with the
  shutdown of the inner writer.
\<close>

context flushing_writer
begin

lemma buf_writer_flush_ok:
  assumes "bw_inv winv bw"
  shows "\<exists>bw' res. buf_writer_poll_flush poll_write poll_flush bw cx = Inr (bw', res) \<and> bw_inv winv bw' \<and> bw_accepted emitted bw' = bw_accepted emitted bw \<and>
    (res = Ready (Inr ()) \<longrightarrow> emitted (bw_inner bw') = bw_accepted emitted bw \<and>
      (\<exists>w. emitted w = bw_accepted emitted bw \<and> poll_flush w cx = Inr (bw_inner bw', Ready (Inr ()))))"
proof -
  from poll_flush_buf_ok [OF assms, of cx] obtain bw1 res1 where f: "poll_flush_buf poll_write bw cx = Inr (bw1, res1)" "bw_inv winv bw1"
    "bw_accepted emitted bw1 = bw_accepted emitted bw" "res1 = Ready (Inr ()) \<longrightarrow> bw_buf bw1 = []" by blast
  show ?thesis
  proof (cases "res1 = Ready (Inr ())")
    case True
    from f(2) have "winv (bw_inner bw1)" by (simp add: bw_inv_def)
    from flush_ok [OF this, of cx] obtain w res where w: "poll_flush (bw_inner bw1) cx = Inr (w, res)" "winv w" "emitted w = emitted (bw_inner bw1)"
      by blast
    moreover have "emitted (bw_inner bw1) = bw_accepted emitted bw" using f(3,4) True by (simp add: bw_accepted_def)
    ultimately show ?thesis using f True by (auto simp: buf_writer_poll_flush_def on_inner_def bw_inv_def bw_accepted_def)
  next
    case False
    with f(1-3) show ?thesis by (cases res1) (auto simp: buf_writer_poll_flush_def and_then_def split: sum.splits)
  qed
qed

end

lemma buf_writer_shutdown_flush: "buf_writer_poll_shutdown = buf_writer_poll_flush"
  by (simp add: fun_eq_iff buf_writer_poll_shutdown_def buf_writer_poll_flush_def)

definition cp_pending :: "'z copy_buffer_scheme \<Rightarrow> byte list" where
  "cp_pending s = take (cp_cap s - cp_pos s) (drop (cp_pos s) (cp_buf s))"

definition copy_inv :: "byte list \<Rightarrow> 'z copy_buffer_scheme \<Rightarrow> bool" where
  "copy_inv rest s \<longleftrightarrow> cp_pos s \<le> cp_cap s \<and> cp_cap s \<le> length (cp_buf s) \<and> 0 < length (cp_buf s) \<and> length (cp_buf s) \<le> usize_max \<and>
     (cp_eof s \<longrightarrow> cp_pos s = cp_cap s \<and> rest = [])"

text \<open>The relation between two states of a copy: what was written, what is buffered and what is still to be read are the same
  stream, and the amount counts what was written.\<close>

definition copied :: "byte list \<Rightarrow> byte list \<Rightarrow> 'z copy_buffer_scheme \<Rightarrow> byte list \<Rightarrow> byte list \<Rightarrow> 'z copy_buffer_scheme \<Rightarrow> bool" where
  "copied out rest s out' rest' s' \<longleftrightarrow>
     out' @ cp_pending s' @ rest' = out @ cp_pending s @ rest \<and>
     cp_amount s' = cp_amount s + (of_nat (length out') - of_nat (length out)) \<and>
     copy_buffer.more s' = copy_buffer.more s"

lemma copied_refl: "copied out rest s out rest s"
  by (simp add: copied_def)

lemma copied_trans: "copied o1 r1 s1 o2 r2 s2 \<Longrightarrow> copied o2 r2 s2 o3 r3 s3 \<Longrightarrow> copied o1 r1 s1 o3 r3 s3"
  by (simp add: copied_def)


context async_writer
begin

lemma copy_drain_ok:
  assumes "winv w" "copy_inv rest s"
  shows "\<exists>w' s' res. copy_drain msg poll_write w s cx = Inr (w', s', res) \<and> winv w' \<and> copy_inv rest s' \<and>
    copied (emitted w) rest s (emitted w') rest s' \<and> cp_eof s' = cp_eof s \<and> (res = Ready (Inr ()) \<longrightarrow> cp_pos s' = cp_cap s')"
  using assms
proof (induction "cp_cap s - cp_pos s" arbitrary: w s rule: less_induct)
  case less
  show ?case
  proof (cases "cp_pos s < cp_cap s")
    case False
    with less.prems show ?thesis by (subst copy_drain.simps) (auto simp: copied_refl copy_inv_def)
  next
    case True
    from less.prems(2) have range: "slice_range (cp_buf s) (cp_pos s) (cp_cap s) = Inr (cp_pending s)"
      and len: "length (cp_pending s) = cp_cap s - cp_pos s" "length (cp_pending s) \<le> usize_max"
      by (auto simp: slice_range_def cp_pending_def copy_inv_def)
    from poll_write_ok [OF less.prems(1) len(2), of cx] obtain w1 res where w1: "poll_write w cx (cp_pending s) = Inr (w1, res)" "winv w1"
      "write_result (emitted w) (cp_pending s) res (emitted w1)" by blast
    show ?thesis
    proof (cases "\<exists>n. res = Ready (Inr n) \<and> n \<noteq> 0")
      case progress: True
      then obtain n where n: "res = Ready (Inr n)" "n \<noteq> 0" "n \<le> length (cp_pending s)" "emitted w1 = emitted w @ take n (cp_pending s)"
        using w1(3) by (auto simp: write_result_def)
      let ?s = "s\<lparr>cp_pos := cp_pos s + n, cp_amount := cp_amount s + of_nat n\<rparr>"
      have "cp_pending ?s = drop n (cp_pending s)" by (simp add: cp_pending_def drop_take add.commute)
      then have one: "copied (emitted w) rest s (emitted w1) rest ?s" using n(3,4) by (simp add: copied_def)
      have "copy_inv rest ?s" "cp_cap ?s - cp_pos ?s < cp_cap s - cp_pos s"
        using less.prems(2) True n(2,3) len(1) by (auto simp: copy_inv_def)
      from less.hyps [OF this(2) w1(2) this(1)] obtain w' s' res' where w': "copy_drain msg poll_write w1 ?s cx = Inr (w', s', res')" "winv w'"
        "copy_inv rest s'" "copied (emitted w1) rest ?s (emitted w') rest s'" "cp_eof s' = cp_eof ?s" "res' = Ready (Inr ()) \<longrightarrow> cp_pos s' = cp_cap s'" by blast
      have "copy_drain msg poll_write w s cx = copy_drain msg poll_write w1 ?s cx"
        using True range w1(1) n(1,2) by (subst copy_drain.simps) simp
      with w' copied_trans [OF one w'(4)] show ?thesis by simp
    next
      case False
      then have same: "emitted w1 = emitted w" using w1(3) by (cases res) (auto simp: write_result_def split: sum.splits)
      have "\<exists>res'. copy_drain msg poll_write w s cx = Inr (w1, s, res') \<and> res' \<noteq> Ready (Inr ())"
        using True range w1(1) False by (subst copy_drain.simps) (cases res; auto split: sum.splits)
      with same w1(2) less.prems(2) show ?thesis by (auto simp: copied_refl)
    qed
  qed
qed

end

context async_reader
begin

lemma copy_fill_ok:
  assumes "inv r" "copy_inv (content r) s" "cp_pos s = cp_cap s" "\<not> cp_eof s"
  shows "\<exists>r' s' res. copy_fill poll_read r s cx = Inr (r', s', res) \<and> inv r' \<and> copy_inv (content r') s' \<and>
    copied out (content r) s out (content r') s' \<and>
    (if res = Ready (Inr ()) then cp_eof s' \<or> length (content r') < length (content r) else content r' = content r \<and> \<not> cp_eof s')"
proof -
  have b: "rb_ok (rb_new (cp_buf s))" "0 < rb_remaining (rb_new (cp_buf s))" using assms(2) by (auto simp: copy_inv_def intro: rb_new_ok)
  from poll_read_ok [OF assms(1) b, of cx] obtain r' rb res where r: "poll_read r cx (rb_new (cp_buf s)) = Inr (r', rb, res)" "inv r'"
    "read_result (content r) (rb_new (cp_buf s)) rb res (content r')" by blast
  note sl = slice_after_ok [OF r(3)]
  have drained: "cp_pending s = []" using assms(3) by (simp add: cp_pending_def)
  show ?thesis
  proof (cases "res = Ready (Inr ())")
    case True
    let ?s = "s\<lparr>cp_buf := slice_after (cp_buf s) rb, cp_pos := 0, cp_cap := rb_len rb, cp_eof := rb_len rb = 0\<rparr>"
    from sl(3,4) True have "cp_pending ?s = take (rb_len rb) (content r)" "content r' = drop (rb_len rb) (content r)"
      "rb_len rb \<le> length (content r)" "rb_len rb = 0 \<longrightarrow> content r = []" by (simp_all add: cp_pending_def)
    moreover from this have "copied out (content r) s out (content r') ?s" by (simp add: copied_def drained)
    moreover have "copy_inv (content r') ?s" using assms(2) sl(1,2) calculation by (auto simp: copy_inv_def)
    moreover have "copy_fill poll_read r s cx = Inr (r', ?s, res)" using r(1) True by (simp add: copy_fill_def Let_def)
    ultimately show ?thesis using True r(2) by auto
  next
    case False
    let ?s = "s\<lparr>cp_buf := slice_after (cp_buf s) rb\<rparr>"
    have "copied out (content r) s out (content r') ?s" using sl(5) False assms(3) by (simp add: copied_def cp_pending_def)
    moreover have "copy_inv (content r') ?s" using assms(2,4) sl(1) by (simp add: copy_inv_def)
    moreover have "copy_fill poll_read r s cx = Inr (r', ?s, res)" using r(1) False by (simp add: copy_fill_def Let_def)
    ultimately show ?thesis using False r(2) sl(5) assms(4) by simp
  qed
qed

end

text \<open>A reader and a writer to copy between.\<close>

locale copying = async_reader poll_read content rinv + flushing_writer poll_write emitted winv poll_flush
  for poll_read :: "'r poll_read" and content and rinv and poll_write :: "'w poll_write" and emitted and winv and poll_flush
begin

text \<open>A round either ends the loop or leaves an empty buffer and has drained it or read something.\<close>

lemma copy_loop_ok:
  assumes "rinv r" "winv w" "copy_inv (content r) s" "length (content r) + (if cp_pos s < cp_cap s then 1 else 0) < fuel"
  shows "\<exists>r' w' s' res. copy_loop fuel msg poll_read poll_write r w s cx = Some (Inr (r', w', s', res)) \<and> rinv r' \<and> winv w' \<and>
    copy_inv (content r') s' \<and> copied (emitted w) (content r) s (emitted w') (content r') s' \<and> (res = Ready (Inr ()) \<longrightarrow> cp_eof s')"
  using assms
proof (induction fuel arbitrary: r w s)
  case (Suc fuel)
  let ?fill = "cp_pos s = cp_cap s \<and> \<not> cp_eof s"
  have "\<exists>r1 s1 res1. (if ?fill then copy_fill poll_read r s cx else Inr (r, s, Ready (Inr ()))) = Inr (r1, s1, res1) \<and>
      rinv r1 \<and> copy_inv (content r1) s1 \<and> copied (emitted w) (content r) s (emitted w) (content r1) s1 \<and>
      (res1 = Ready (Inr ()) \<longrightarrow> cp_eof s1 \<or> length (content r1) < fuel)"
  proof (cases ?fill)
    case True
    with copy_fill_ok [OF Suc.prems(1,3), of cx "emitted w"] Suc.prems(4) show ?thesis by (fastforce split: if_splits)
  next
    case False
    with Suc.prems have "cp_eof s \<or> length (content r) < fuel" by (auto simp: copy_inv_def split: if_splits)
    with False Suc.prems(1,3) show ?thesis by (auto simp: copied_refl)
  qed
  then obtain r1 s1 res1 where f: "(if ?fill then copy_fill poll_read r s cx else Inr (r, s, Ready (Inr ()))) = Inr (r1, s1, res1)"
    "rinv r1" "copy_inv (content r1) s1" "copied (emitted w) (content r) s (emitted w) (content r1) s1"
    "res1 = Ready (Inr ()) \<longrightarrow> cp_eof s1 \<or> length (content r1) < fuel" by blast
  show ?case
  proof (cases "res1 = Ready (Inr ())")
    case False
    then have "copy_loop (Suc fuel) msg poll_read poll_write r w s cx = Some (Inr (r1, w, s1, res1))"
      using f(1) by (cases res1) (auto split: sum.splits)
    with f(2-4) False Suc.prems(2) show ?thesis by simp
  next
    case True
    from copy_drain_ok [OF Suc.prems(2) f(3), of msg cx] obtain w2 s2 res2 where d: "copy_drain msg poll_write w s1 cx = Inr (w2, s2, res2)" "winv w2"
      "copy_inv (content r1) s2" "copied (emitted w) (content r1) s1 (emitted w2) (content r1) s2" "cp_eof s2 = cp_eof s1"
      "res2 = Ready (Inr ()) \<longrightarrow> cp_pos s2 = cp_cap s2" by blast
    note c = copied_trans [OF f(4) d(4)]
    show ?thesis
    proof (cases "res2 = Ready (Inr ()) \<and> \<not> cp_eof s2")
      case False
      then have "copy_loop (Suc fuel) msg poll_read poll_write r w s cx = Some (Inr (r1, w2, s2, res2))"
        using f(1) d(1) True by (cases res2) (auto split: sum.splits)
      with False c d(2,3) f(2) show ?thesis by auto
    next
      case again: True
      have "copy_loop (Suc fuel) msg poll_read poll_write r w s cx = copy_loop fuel msg poll_read poll_write r1 w2 s2 cx"
        using f(1) d(1) True again by simp
      moreover have "length (content r1) + (if cp_pos s2 < cp_cap s2 then 1 else 0) < fuel" using f(5) True again d(5,6) by simp
      ultimately show ?thesis using Suc.IH [OF f(2) d(2,3)] copied_trans [OF c] by metis
    qed
  qed
qed simp

text \<open>At the end of the reader nothing is left anywhere.\<close>

lemma copied_all: "copied out rest s out' rest' s' \<Longrightarrow> copy_inv rest' s' \<Longrightarrow> cp_eof s' \<Longrightarrow> out' = out @ cp_pending s @ rest"
  by (auto simp: copied_def copy_inv_def cp_pending_def)

lemma copy_buf_poll_ok:
  assumes "async_buf_reader poll_fill_buf consume bcontent available binv" "binv q" "winv w" "length (bcontent q) < fuel"
    "\<forall>q. binv q \<longrightarrow> length (available q) \<le> usize_max"
  shows "\<exists>q' w' amount' res. copy_buf_poll fuel poll_fill_buf consume poll_write poll_flush q w amount cx = Some (Inr (q', w', amount', res)) \<and>
    binv q' \<and> winv w' \<and> emitted w' @ bcontent q' = emitted w @ bcontent q \<and>
    amount' = amount + (of_nat (length (emitted w')) - of_nat (length (emitted w))) \<and> (\<forall>n. res = Ready (Inr n) \<longrightarrow> n = amount' \<and> bcontent q' = [])"
  using assms(2-4)
proof (induction fuel arbitrary: q w amount)
  case (Suc fuel)
  from async_buf_reader.fill_ok [OF assms(1) Suc.prems(1), of cx] obtain q1 res where q1: "poll_fill_buf q cx = Inr (q1, res)" "binv q1"
    "bcontent q1 = bcontent q" "\<forall>bytes. res = Ready (Inr bytes) \<longrightarrow> available q1 = bytes \<and> (bytes = [] \<longrightarrow> bcontent q = [])" by blast
  consider (stop) "\<not> (\<exists>bytes. res = Ready (Inr bytes))" | (fin) "res = Ready (Inr [])" | (some) bytes where "res = Ready (Inr bytes)" "bytes \<noteq> []"
    by blast
  then show ?case
  proof cases
    case stop
    with q1 Suc.prems(2) show ?thesis by (cases res) (auto split: sum.splits)
  next
    case fin
    from flush_ok [OF Suc.prems(2), of cx] obtain w1 fres where "poll_flush w cx = Inr (w1, fres)" "winv w1" "emitted w1 = emitted w" by blast
    with fin q1 show ?thesis by (cases fres) (auto split: sum.splits)
  next
    case some
    with q1(4) have av: "available q1 = bytes" by blast
    have "length bytes \<le> usize_max" using assms(5) q1(2) av by blast
    from poll_write_ok [OF Suc.prems(2) this, of cx] obtain w1 wres where w1: "poll_write w cx bytes = Inr (w1, wres)" "winv w1"
      "write_result (emitted w) bytes wres (emitted w1)" by blast
    show ?thesis
    proof (cases "\<exists>n. wres = Ready (Inr n) \<and> n \<noteq> 0")
      case False
      then have "emitted w1 = emitted w" using w1(3) by (cases wres) (auto simp: write_result_def split: sum.splits)
      with False w1(1,2) some q1 show ?thesis by (cases wres) (auto split: sum.splits)
    next
      case True
      then obtain n where n: "wres = Ready (Inr n)" "n \<noteq> 0" "n \<le> length bytes" "emitted w1 = emitted w @ take n bytes"
        using w1(3) by (auto simp: write_result_def)
      from async_buf_reader.consume_ok [OF assms(1) q1(2), of n] n(3) av obtain q2
        where q2: "consume q1 n = Inr q2" "binv q2" "bcontent q2 = drop n (bcontent q)" using q1(3) by auto
      from async_buf_reader.available_prefix [OF assms(1) q1(2)] av q1(3) have pre: "take (length bytes) (bcontent q) = bytes" by simp
      then have le: "n \<le> length (bcontent q)" using n(3) by (metis le_trans length_take min.cobounded1)
      from pre have "take n bytes = take n (bcontent q)" using n(3) by (metis min.absorb1 take_take)
      moreover have "length (bcontent q2) < fuel" using q2(3) Suc.prems(3) n(2,3) pre by (auto dest: arg_cong [of _ _ length])
      ultimately show ?thesis using Suc.IH [OF q2(2) w1(2), of "amount + of_nat n"] q1(1) some w1(1) n(1,2,3,4) q2(1,3) le
        by (auto simp: min_absorb2)
    qed
  qed
qed simp

lemma copy_poll_ok:
  fixes t :: "('r, 'w) copy"
  assumes "rinv (cp_reader t)" "winv (cp_writer t)" "copy_inv (content (cp_reader t)) t" "length (content (cp_reader t)) + 1 < fuel"
  shows "\<exists>t' res. copy_poll fuel poll_read poll_write poll_flush t cx = Some (Inr (t', res)) \<and>
    rinv (cp_reader t') \<and> winv (cp_writer t') \<and> copy_inv (content (cp_reader t')) t' \<and>
    emitted (cp_writer t') @ cp_pending t' @ content (cp_reader t') = emitted (cp_writer t) @ cp_pending t @ content (cp_reader t) \<and>
    cp_amount t' = cp_amount t + (of_nat (length (emitted (cp_writer t'))) - of_nat (length (emitted (cp_writer t)))) \<and>
    (\<forall>n. res = Ready (Inr n) \<longrightarrow> n = cp_amount t' \<and> emitted (cp_writer t') = emitted (cp_writer t) @ cp_pending t @ content (cp_reader t))"
proof -
  have "length (content (cp_reader t)) + (if cp_pos t < cp_cap t then 1 else 0) < fuel" using assms(4) by simp
  from copy_loop_ok [OF assms(1-3) this, of "''failed to copy entire stream''" cx] obtain r w s res where
    l: "copy_loop fuel ''failed to copy entire stream'' poll_read poll_write (cp_reader t) (cp_writer t) t cx = Some (Inr (r, w, s, res))"
    "rinv r" "winv w" "copy_inv (content r) s" "copied (emitted (cp_writer t)) (content (cp_reader t)) t (emitted w) (content r) s"
    "res = Ready (Inr ()) \<longrightarrow> cp_eof s" by blast
  have upd: "copy_inv rest (s\<lparr>cp_reader := r', cp_writer := w'\<rparr>) = copy_inv rest s" "cp_pending (s\<lparr>cp_reader := r', cp_writer := w'\<rparr>) = cp_pending s"
    for rest r' w' by (simp_all add: copy_inv_def cp_pending_def)
  note c = l(5) [unfolded copied_def]
  show ?thesis
  proof (cases "res = Ready (Inr ())")
    case False
    then have "\<exists>res'. copy_poll fuel poll_read poll_write poll_flush t cx = Some (Inr (s\<lparr>cp_reader := r, cp_writer := w\<rparr>, res')) \<and>
      (\<forall>n. res' \<noteq> Ready (Inr n))"
      using l(1) poll_not_ok [OF False] by (auto simp: copy_poll_def)
    with l(2-4) upd c show ?thesis by auto
  next
    case True
    from flush_ok [OF l(3), of cx] obtain w' fres where f: "poll_flush w cx = Inr (w', fres)" "winv w'" "emitted w' = emitted w" by blast
    have "emitted w = emitted (cp_writer t) @ cp_pending t @ content (cp_reader t)" using l(4,5,6) True by (intro copied_all) auto
    moreover have "\<exists>res'. copy_poll fuel poll_read poll_write poll_flush t cx = Some (Inr (s\<lparr>cp_reader := r, cp_writer := w'\<rparr>, res')) \<and>
      (\<forall>n. res' = Ready (Inr n) \<longrightarrow> n = cp_amount s)"
      using l(1) f(1) True by (cases fres) (auto simp: copy_poll_def Let_def split: sum.splits)
    ultimately show ?thesis using l(2,4) f(2,3) upd c by auto
  qed
qed

end

interpretation slice_to_vec: copying slice_poll_read "\<lambda>r. r" "\<lambda>_. True" vec_poll_write "\<lambda>v. v" "\<lambda>_. True" vec_poll_flush ..

section \<open>Properties\<close>

text \<open>C28: \<open>copy\<close> moves the whole stream. For any reader and writer that satisfy their contracts and in every state a poll can leave behind, a poll of
  the \<open>Copy\<close> future ends and does not panic; what has been written, what is in its buffer and what is still to be read are always the
  stream it started with; the amount counts the bytes written; and when it reports success everything has been written.\<close>

theorem copy_transfers_everything:
  fixes t :: "('r, 'w) copy"
  assumes "copying poll_read content rinv poll_write emitted winv poll_flush"
    and "rinv (cp_reader t)" "winv (cp_writer t)" "copy_inv (content (cp_reader t)) t" "length (content (cp_reader t)) + 1 < fuel"
  shows "\<exists>t' res. copy_poll fuel poll_read poll_write poll_flush t cx = Some (Inr (t', res)) \<and>
    rinv (cp_reader t') \<and> winv (cp_writer t') \<and> copy_inv (content (cp_reader t')) t' \<and>
    emitted (cp_writer t') @ cp_pending t' @ content (cp_reader t') = emitted (cp_writer t) @ cp_pending t @ content (cp_reader t) \<and>
    cp_amount t' = cp_amount t + (of_nat (length (emitted (cp_writer t'))) - of_nat (length (emitted (cp_writer t)))) \<and>
    (\<forall>n. res = Ready (Inr n) \<longrightarrow> n = cp_amount t' \<and> emitted (cp_writer t') = emitted (cp_writer t) @ cp_pending t @ content (cp_reader t))"
  using assms(2-5) by (rule copying.copy_poll_ok [OF assms(1)])

definition copy_demo :: "(byte list, byte list) copy" where
  "copy_demo = \<lparr>cp_buf = [1, 2], cp_pos = 1, cp_cap = 2, cp_amount = 1, cp_eof = False, cp_reader = [3, 4, 5], cp_writer = [1]\<rparr>"

theorem copy_transfers_everything_witness:
  "\<exists>t' res. copy_poll 5 slice_poll_read vec_poll_write vec_poll_flush copy_demo 7 = Some (Inr (t', res)) \<and>
    cp_writer t' @ cp_pending t' @ cp_reader t' = [1, 2, 3, 4, 5]"
proof -
  have "copy_inv (cp_reader copy_demo) copy_demo" "length (cp_reader copy_demo) + 1 < 5" by (simp_all add: copy_demo_def copy_inv_def usize_max_def)
  moreover have "cp_writer copy_demo @ cp_pending copy_demo @ cp_reader copy_demo = [1, 2, 3, 4, 5]" by (simp add: copy_demo_def cp_pending_def)
  ultimately show ?thesis
    using copy_transfers_everything [OF slice_to_vec.copying_axioms, of copy_demo 5 7] by auto
qed

end
