(* ===== verification/Io_Pipe.thy ===== *)
theory Io_Pipe
  imports Io_Futures
begin

text \<open>
  In-memory streams (\<open>io.rs\<close>): \<open>MemoryPipe\<close>, a bounded byte queue with a waker for each end, and \<open>DuplexStream\<close>, two pipes in opposite
  directions. Each operation holds the lock of a pipe and is one step; \<open>drop\<close> closes the two pipes one after the other.
\<close>

section \<open>A pipe\<close>

record memory_pipe =
  pp_buffer :: "byte list"
  pp_capacity :: nat
  pp_writer_closed :: bool
  pp_reader_closed :: bool
  pp_reader_waker :: "waker option"
  pp_writer_waker :: "waker option"

definition memory_pipe_new :: "nat \<Rightarrow> memory_pipe" where
  "memory_pipe_new capacity = \<lparr>pp_buffer = [], pp_capacity = capacity, pp_writer_closed = False, pp_reader_closed = False,
     pp_reader_waker = None, pp_writer_waker = None\<rparr>"

definition pipe_register :: "waker option \<Rightarrow> waker \<Rightarrow> waker option" where
  "pipe_register slot waker =
     (if (case slot of None \<Rightarrow> True | Some registered \<Rightarrow> \<not> will_wake registered waker) then Some waker else slot)"

text \<open>The bytes are moved one at a time; taking from an empty queue would panic.\<close>

fun pipe_pop_bytes :: "nat \<Rightarrow> byte list \<Rightarrow> read_buf \<Rightarrow> (byte list \<times> read_buf) panicky" where
  "pipe_pop_bytes 0 buffer buf = Inr (buffer, buf)"
| "pipe_pop_bytes (Suc n) buffer buf = (case buffer of
     [] \<Rightarrow> Inl ''called Option::unwrap() on a None value''
   | b # rest \<Rightarrow> (case put_slice buf [b] of Inl e \<Rightarrow> Inl e | Inr buf \<Rightarrow> pipe_pop_bytes n rest buf))"

definition pipe_poll_read ::
  "memory_pipe \<Rightarrow> waker \<Rightarrow> read_buf \<Rightarrow> (memory_pipe \<times> read_buf \<times> unit io_result poll \<times> waker list) panicky" where
  "pipe_poll_read pipe cx buf =
     (if pp_buffer pipe \<noteq> [] then
        (let amount = min (length (pp_buffer pipe)) (rb_remaining buf) in
         case pipe_pop_bytes amount (pp_buffer pipe) buf of
           Inl e \<Rightarrow> Inl e
         | Inr (rest, buf) \<Rightarrow>
             Inr (pipe\<lparr>pp_buffer := rest, pp_writer_waker := None\<rparr>, buf, Ready (Inr ()), olist (pp_writer_waker pipe)))
      else if pp_writer_closed pipe then Inr (pipe, buf, Ready (Inr ()), [])
      else Inr (pipe\<lparr>pp_reader_waker := pipe_register (pp_reader_waker pipe) cx\<rparr>, buf, Pending, []))"

definition pipe_poll_write :: "memory_pipe \<Rightarrow> waker \<Rightarrow> byte list \<Rightarrow> (memory_pipe \<times> nat io_result poll \<times> waker list) panicky" where
  "pipe_poll_write pipe cx buf =
     (if pp_reader_closed pipe then Inr (pipe, Ready (Inl (BrokenPipe ''duplex peer dropped its reader'')), [])
      else (case usize_sub (pp_capacity pipe) (length (pp_buffer pipe)) of
        Inl e \<Rightarrow> Inl e
      | Inr available \<Rightarrow>
          if available = 0 then Inr (pipe\<lparr>pp_writer_waker := pipe_register (pp_writer_waker pipe) cx\<rparr>, Pending, [])
          else
            (let amount = min available (length buf) in
             Inr (pipe\<lparr>pp_buffer := pp_buffer pipe @ take amount buf, pp_reader_waker := None\<rparr>, Ready (Inr amount),
               olist (pp_reader_waker pipe)))))"

definition pipe_poll_shutdown :: "memory_pipe \<Rightarrow> memory_pipe \<times> unit io_result poll \<times> waker list" where
  "pipe_poll_shutdown pipe = (pipe\<lparr>pp_writer_closed := True, pp_reader_waker := None\<rparr>, Ready (Inr ()), olist (pp_reader_waker pipe))"

definition pipe_drop_writer :: "memory_pipe \<Rightarrow> memory_pipe \<times> waker list" where
  "pipe_drop_writer pipe = (pipe\<lparr>pp_writer_closed := True, pp_reader_waker := None\<rparr>, olist (pp_reader_waker pipe))"

definition pipe_drop_reader :: "memory_pipe \<Rightarrow> memory_pipe \<times> waker list" where
  "pipe_drop_reader pipe = (pipe\<lparr>pp_reader_closed := True, pp_writer_waker := None\<rparr>, olist (pp_writer_waker pipe))"

section \<open>A pair of streams\<close>

text \<open>The pipes are named by the stream that writes to them.\<close>

datatype side = LeftEnd | RightEnd

fun peer :: "side \<Rightarrow> side" where
  "peer LeftEnd = RightEnd"
| "peer RightEnd = LeftEnd"

type_synonym pipes = "side \<Rightarrow> memory_pipe"

definition duplex :: "nat \<Rightarrow> pipes panicky" where
  "duplex max_buf_size =
     (if \<not> max_buf_size > 0 then Inl ''duplex capacity must be non-zero''
      else Inr (\<lambda>_. memory_pipe_new max_buf_size))"

definition duplex_poll_read ::
  "pipes \<Rightarrow> side \<Rightarrow> waker \<Rightarrow> read_buf \<Rightarrow> (pipes \<times> read_buf \<times> unit io_result poll \<times> waker list) panicky" where
  "duplex_poll_read ps e cx buf = (case pipe_poll_read (ps (peer e)) cx buf of
     Inl p \<Rightarrow> Inl p
   | Inr (incoming, buf, res, ws) \<Rightarrow> Inr (ps(peer e := incoming), buf, res, ws))"

definition duplex_poll_write :: "pipes \<Rightarrow> side \<Rightarrow> waker \<Rightarrow> byte list \<Rightarrow> (pipes \<times> nat io_result poll \<times> waker list) panicky" where
  "duplex_poll_write ps e cx buf = (case pipe_poll_write (ps e) cx buf of
     Inl p \<Rightarrow> Inl p
   | Inr (outgoing, res, ws) \<Rightarrow> Inr (ps(e := outgoing), res, ws))"

definition duplex_poll_shutdown :: "pipes \<Rightarrow> side \<Rightarrow> pipes \<times> unit io_result poll \<times> waker list" where
  "duplex_poll_shutdown ps e = (case pipe_poll_shutdown (ps e) of (outgoing, res, ws) \<Rightarrow> (ps(e := outgoing), res, ws))"

text \<open>Dropping an end takes the two locks in turn.\<close>

definition duplex_drop_outgoing :: "pipes \<Rightarrow> side \<Rightarrow> pipes \<times> waker list" where
  "duplex_drop_outgoing ps e = (case pipe_drop_writer (ps e) of (outgoing, ws) \<Rightarrow> (ps(e := outgoing), ws))"

definition duplex_drop_incoming :: "pipes \<Rightarrow> side \<Rightarrow> pipes \<times> waker list" where
  "duplex_drop_incoming ps e = (case pipe_drop_reader (ps (peer e)) of (incoming, ws) \<Rightarrow> (ps(peer e := incoming), ws))"

section \<open>Clients\<close>

text \<open>
  The streams with their history: per pipe the bytes that were accepted and the bytes that were delivered, and the tasks whose last poll
  of it was pending and that have not been woken since. Each end is used by one task at a time; an end that is being dropped has let go of its
  outgoing pipe and not yet of its incoming one.
\<close>

record duplex_sys =
  dx_pipes :: pipes
  dx_alive :: "side \<Rightarrow> bool"
  dx_dropping :: "side \<Rightarrow> bool"
  dx_sent :: "side \<Rightarrow> byte list"
  dx_got :: "side \<Rightarrow> byte list"
  dx_reader :: "side \<Rightarrow> waker option"
  dx_writer :: "side \<Rightarrow> waker option"

definition unparked :: "(side \<Rightarrow> waker option) \<Rightarrow> waker list \<Rightarrow> side \<Rightarrow> waker option" where
  "unparked m ws = (\<lambda>e. case m e of None \<Rightarrow> None | Some w \<Rightarrow> if w \<in> set ws then None else Some w)"

definition dx_woken :: "waker list \<Rightarrow> duplex_sys \<Rightarrow> duplex_sys" where
  "dx_woken ws s = s\<lparr>dx_reader := unparked (dx_reader s) ws, dx_writer := unparked (dx_writer s) ws\<rparr>"

inductive duplex_step :: "duplex_sys \<Rightarrow> duplex_sys \<Rightarrow> bool" where
  reads: "dx_alive s e \<Longrightarrow> rb_ok b \<Longrightarrow> duplex_poll_read (dx_pipes s) e cx b = Inr (ps, b', res, ws) \<Longrightarrow>
    duplex_step s (dx_woken ws (s\<lparr>dx_pipes := ps,
      dx_got := (dx_got s)(peer e := dx_got s (peer e) @ drop (rb_filled b) (rb_filled_bytes b')),
      dx_reader := (dx_reader s)(peer e := if res = Pending then Some cx else None)\<rparr>))"
| writes: "dx_alive s e \<Longrightarrow> duplex_poll_write (dx_pipes s) e cx bytes = Inr (ps, res, ws) \<Longrightarrow>
    duplex_step s (dx_woken ws (s\<lparr>dx_pipes := ps,
      dx_sent := (dx_sent s)(e := dx_sent s e @ (case res of Ready (Inr n) \<Rightarrow> take n bytes | _ \<Rightarrow> [])),
      dx_writer := (dx_writer s)(e := if res = Pending then Some cx else None)\<rparr>))"
| shuts: "dx_alive s e \<Longrightarrow> duplex_poll_shutdown (dx_pipes s) e = (ps, res, ws) \<Longrightarrow>
    duplex_step s (dx_woken ws (s\<lparr>dx_pipes := ps\<rparr>))"
| drops: "dx_alive s e \<Longrightarrow> duplex_drop_outgoing (dx_pipes s) e = (ps, ws) \<Longrightarrow>
    duplex_step s (dx_woken ws (s\<lparr>dx_pipes := ps, dx_alive := (dx_alive s)(e := False), dx_dropping := (dx_dropping s)(e := True),
      dx_reader := (dx_reader s)(peer e := None), dx_writer := (dx_writer s)(e := None)\<rparr>))"
| dropped: "dx_dropping s e \<Longrightarrow> duplex_drop_incoming (dx_pipes s) e = (ps, ws) \<Longrightarrow>
    duplex_step s (dx_woken ws (s\<lparr>dx_pipes := ps, dx_dropping := (dx_dropping s)(e := False)\<rparr>))"

inductive duplex_reach :: "nat \<Rightarrow> duplex_sys \<Rightarrow> bool" for capacity where
  start: "duplex capacity = Inr ps \<Longrightarrow> duplex_reach capacity \<lparr>dx_pipes = ps, dx_alive = (\<lambda>_. True), dx_dropping = (\<lambda>_. False), dx_sent = (\<lambda>_. []), dx_got = (\<lambda>_. []),
    dx_reader = (\<lambda>_. None), dx_writer = (\<lambda>_. None)\<rparr>"
| step: "duplex_reach capacity s \<Longrightarrow> duplex_step s s' \<Longrightarrow> duplex_reach capacity s'"

section \<open>The invariant\<close>

definition pipe_inv :: "nat \<Rightarrow> memory_pipe \<Rightarrow> byte list \<Rightarrow> byte list \<Rightarrow> waker option \<Rightarrow> waker option \<Rightarrow> bool" where
  "pipe_inv capacity p sent got rd wr \<longleftrightarrow>
     got @ pp_buffer p = sent \<and> pp_capacity p = capacity \<and> length (pp_buffer p) \<le> capacity \<and>
     (\<forall>w. rd = Some w \<longrightarrow> pp_reader_waker p = Some w \<and> pp_buffer p = [] \<and> \<not> pp_writer_closed p) \<and>
     (\<forall>w. wr = Some w \<longrightarrow> pp_writer_waker p = Some w \<and> length (pp_buffer p) = capacity \<and> \<not> pp_reader_closed p)"

lemma pipe_register_eq [simp]: "pipe_register slot w = Some w"
  by (auto simp: pipe_register_def will_wake_def split: option.splits)

lemma pipe_pop_bytes_ok:
  assumes "rb_ok b" "n \<le> length bs" "n \<le> rb_remaining b"
  shows "\<exists>b'. pipe_pop_bytes n bs b = Inr (drop n bs, b') \<and> rb_ok b' \<and> rb_filled_bytes b' = rb_filled_bytes b @ take n bs"
  using assms
proof (induction n arbitrary: bs b)
  case (Suc n)
  then obtain x xs where bs: "bs = x # xs" by (cases bs) auto
  have "length [x] \<le> rb_remaining b" using Suc.prems(3) by simp
  with Suc.prems(1) obtain b1 where b1: "put_slice b [x] = Inr b1" "rb_ok b1" "rb_capacity b1 = rb_capacity b"
    "rb_filled b1 = rb_filled b + length [x]" "rb_filled_bytes b1 = rb_filled_bytes b @ [x]" by (rule put_slice_ok)
  then have "n \<le> rb_remaining b1" using Suc.prems(3) by (simp add: rb_remaining_capacity)
  with Suc.IH [OF b1(2), of xs] Suc.prems(2) bs b1(1,5) show ?case by simp
qed simp

text \<open>Each operation on a pipe keeps its invariant, whoever else is woken.\<close>

definition still :: "waker option \<Rightarrow> waker list \<Rightarrow> waker option" where
  "still m ws = (case m of None \<Rightarrow> None | Some w \<Rightarrow> if w \<in> set ws then None else Some w)"

lemma still_Some [simp]: "still m ws = Some w \<longleftrightarrow> m = Some w \<and> w \<notin> set ws"
  by (auto simp: still_def split: option.splits)

lemma unparked_still: "unparked m ws e = still (m e) ws"
  by (simp add: unparked_def still_def)

lemma pipe_inv_still: "pipe_inv c p sent got rd wr \<Longrightarrow> pipe_inv c p sent got (still rd ws) (still wr ws)"
  by (auto simp: pipe_inv_def)

lemma pipe_poll_read_inv:
  assumes "pipe_inv c p sent got rd wr" "rb_ok b"
  shows "\<exists>p' b' res ws. pipe_poll_read p cx b = Inr (p', b', res, ws) \<and>
    pipe_inv c p' sent (got @ drop (rb_filled b) (rb_filled_bytes b')) (still (if res = Pending then Some cx else None) ws) (still wr ws)"
proof (cases "pp_buffer p = []")
  case True
  with assms show ?thesis by (auto simp: pipe_poll_read_def pipe_inv_def)
next
  case False
  let ?n = "min (length (pp_buffer p)) (rb_remaining b)"
  from pipe_pop_bytes_ok [OF assms(2), of ?n "pp_buffer p"] obtain b' where b': "pipe_pop_bytes ?n (pp_buffer p) b = Inr (drop ?n (pp_buffer p), b')"
    "rb_filled_bytes b' = rb_filled_bytes b @ take ?n (pp_buffer p)" by auto
  have "drop (rb_filled b) (rb_filled_bytes b') = take ?n (pp_buffer p)" using b'(2) assms(2) by simp
  moreover have "pipe_poll_read p cx b =
    Inr (p\<lparr>pp_buffer := drop ?n (pp_buffer p), pp_writer_waker := None\<rparr>, b', Ready (Inr ()), olist (pp_writer_waker p))"
    using False b'(1) by (simp add: pipe_poll_read_def Let_def)
  ultimately show ?thesis using assms(1) False by (auto simp: pipe_inv_def)
qed

lemma pipe_poll_write_inv:
  assumes "pipe_inv c p sent got rd wr" "0 < c"
  shows "\<exists>p' res ws. pipe_poll_write p cx bytes = Inr (p', res, ws) \<and>
    pipe_inv c p' (sent @ (case res of Ready (Inr n) \<Rightarrow> take n bytes | _ \<Rightarrow> [])) got (still rd ws) (still (if res = Pending then Some cx else None) ws)"
proof -
  have sub: "usize_sub (pp_capacity p) (length (pp_buffer p)) = Inr (c - length (pp_buffer p))" using assms(1) by (simp add: pipe_inv_def)
  show ?thesis
  proof (cases "pp_reader_closed p \<or> c - length (pp_buffer p) = 0")
    case True
    with assms sub show ?thesis by (auto simp: pipe_poll_write_def pipe_inv_def)
  next
    case False
    with assms sub show ?thesis by (auto simp: pipe_poll_write_def pipe_inv_def Let_def)
  qed
qed

lemma pipe_close_inv:
  assumes "pipe_inv c p sent got rd wr"
  shows "pipe_inv c (fst (pipe_drop_writer p)) sent got (still rd (snd (pipe_drop_writer p))) (still wr ws)"
    "pipe_inv c (fst (pipe_drop_reader p)) sent got (still rd ws) (still wr (snd (pipe_drop_reader p)))"
  using assms by (auto simp: pipe_inv_def pipe_drop_writer_def pipe_drop_reader_def)

definition duplex_inv :: "nat \<Rightarrow> duplex_sys \<Rightarrow> bool" where
  "duplex_inv c s \<longleftrightarrow> 0 < c \<and>
     (\<forall>e. pipe_inv c (dx_pipes s e) (dx_sent s e) (dx_got s e) (dx_reader s e) (dx_writer s e) \<and>
       (\<not> dx_alive s e \<longrightarrow> pp_writer_closed (dx_pipes s e) \<and> (\<not> dx_dropping s e \<longrightarrow> pp_reader_closed (dx_pipes s (peer e)))))"

lemma peer_peer [simp]: "peer (peer e) = e" "peer e \<noteq> e" "e \<noteq> peer e"
  by (cases e; simp)+

lemma side_cases: "f = e \<or> f = peer e"
  by (cases e; cases f) auto

lemma pipe_flags_kept:
  "pipe_poll_read p cx b = Inr (p', b', res, ws) \<Longrightarrow> pp_writer_closed p' = pp_writer_closed p \<and> pp_reader_closed p' = pp_reader_closed p"
  "pipe_poll_write p cx bytes = Inr (p', wres, ws) \<Longrightarrow> pp_writer_closed p' = pp_writer_closed p \<and> pp_reader_closed p' = pp_reader_closed p"
  by (auto simp: pipe_poll_read_def pipe_poll_write_def Let_def split: if_splits sum.splits prod.splits)

lemma duplex_invI:
  assumes "0 < c" "pipe_inv c (dx_pipes s e) (dx_sent s e) (dx_got s e) (dx_reader s e) (dx_writer s e)"
    and "pipe_inv c (dx_pipes s (peer e)) (dx_sent s (peer e)) (dx_got s (peer e)) (dx_reader s (peer e)) (dx_writer s (peer e))"
    and "\<not> dx_alive s e \<Longrightarrow> pp_writer_closed (dx_pipes s e) \<and> (\<not> dx_dropping s e \<longrightarrow> pp_reader_closed (dx_pipes s (peer e)))"
    and "\<not> dx_alive s (peer e) \<Longrightarrow> pp_writer_closed (dx_pipes s (peer e)) \<and> (\<not> dx_dropping s (peer e) \<longrightarrow> pp_reader_closed (dx_pipes s e))"
  shows "duplex_inv c s"
  unfolding duplex_inv_def
proof (intro conjI allI)
  fix f
  show "pipe_inv c (dx_pipes s f) (dx_sent s f) (dx_got s f) (dx_reader s f) (dx_writer s f)"
    using side_cases [of f e] assms(2,3) by blast
  show "\<not> dx_alive s f \<longrightarrow> pp_writer_closed (dx_pipes s f) \<and> (\<not> dx_dropping s f \<longrightarrow> pp_reader_closed (dx_pipes s (peer f)))"
    using side_cases [of f e] assms(4,5) by auto
qed (rule assms(1))

lemma duplex_step_inv:
  assumes "duplex_step s s'" "duplex_inv c s"
  shows "duplex_inv c s'"
proof -
  from assms(2) have c: "0 < c" and pipe: "pipe_inv c (dx_pipes s f) (dx_sent s f) (dx_got s f) (dx_reader s f) (dx_writer s f)"
    and closed: "\<not> dx_alive s f \<Longrightarrow> pp_writer_closed (dx_pipes s f) \<and> (\<not> dx_dropping s f \<longrightarrow> pp_reader_closed (dx_pipes s (peer f)))" for f
    by (simp_all add: duplex_inv_def)
  from assms(1) show ?thesis
  proof cases
    case (reads e b cx ps b' res ws)
    from pipe_poll_read_inv [OF pipe [of "peer e"] reads(3), of cx] reads(4) obtain p where p: "pipe_poll_read (dx_pipes s (peer e)) cx b = Inr (p, b', res, ws)"
      "ps = (dx_pipes s)(peer e := p)"
      "pipe_inv c p (dx_sent s (peer e)) (dx_got s (peer e) @ drop (rb_filled b) (rb_filled_bytes b'))
        (still (if res = Pending then Some cx else None) ws) (still (dx_writer s (peer e)) ws)"
      by (auto simp: duplex_poll_read_def)
    show ?thesis unfolding reads(1) dx_woken_def
      by (rule duplex_invI [of _ _ e])
        (use p pipe_flags_kept(1) [OF p(1)] c closed [of e] closed [of "peer e"] pipe_inv_still [OF pipe [of e]] in \<open>simp_all add: unparked_still\<close>)
  next
    case (writes e cx bytes ps res ws)
    from pipe_poll_write_inv [OF pipe [of e] c, of cx bytes] writes(3) obtain p where p: "pipe_poll_write (dx_pipes s e) cx bytes = Inr (p, res, ws)"
      "ps = (dx_pipes s)(e := p)"
      "pipe_inv c p (dx_sent s e @ (case res of Ready (Inr n) \<Rightarrow> take n bytes | _ \<Rightarrow> [])) (dx_got s e)
        (still (dx_reader s e) ws) (still (if res = Pending then Some cx else None) ws)"
      by (auto simp: duplex_poll_write_def)
    show ?thesis unfolding writes(1) dx_woken_def
      by (rule duplex_invI [of _ _ e])
        (use p pipe_flags_kept(2) [OF p(1)] c closed [of e] closed [of "peer e"] pipe_inv_still [OF pipe [of "peer e"]] in \<open>simp_all add: unparked_still\<close>)
  next
    case (shuts e ps res ws)
    then have p: "ps = (dx_pipes s)(e := fst (pipe_drop_writer (dx_pipes s e)))" "ws = snd (pipe_drop_writer (dx_pipes s e))"
      by (simp_all add: duplex_poll_shutdown_def pipe_poll_shutdown_def pipe_drop_writer_def)
    show ?thesis unfolding shuts(1) dx_woken_def
      by (rule duplex_invI [of _ _ e])
        (use p c closed [of e] closed [of "peer e"] pipe_inv_still [OF pipe [of "peer e"]] pipe_close_inv(1) [OF pipe [of e]]
          in \<open>simp_all add: unparked_still pipe_drop_writer_def\<close>)
  next
    case (drops e ps ws)
    let ?w = "pipe_drop_writer (dx_pipes s e)"
    from drops have p: "ps = (dx_pipes s)(e := fst ?w)" "ws = snd ?w"
      by (simp_all add: duplex_drop_outgoing_def split: prod.splits)
    have one: "pipe_inv c (fst ?w) (dx_sent s e) (dx_got s e) (still (dx_reader s e) ws) None"
      using pipe [of e] by (auto simp: p pipe_inv_def pipe_drop_writer_def)
    have two: "pipe_inv c (dx_pipes s (peer e)) (dx_sent s (peer e)) (dx_got s (peer e)) None (still (dx_writer s (peer e)) ws)"
      using pipe [of "peer e"] by (auto simp: pipe_inv_def)
    show ?thesis unfolding drops(1) dx_woken_def
      by (rule duplex_invI [of _ _ e])
        (use p(1) c closed [of "peer e"] one two in \<open>simp_all add: unparked_still pipe_drop_writer_def still_def\<close>)
  next
    case (dropped e ps ws)
    let ?r = "pipe_drop_reader (dx_pipes s (peer e))"
    from dropped have p: "ps = (dx_pipes s)(peer e := fst ?r)" "ws = snd ?r"
      by (simp_all add: duplex_drop_incoming_def split: prod.splits)
    show ?thesis unfolding dropped(1) dx_woken_def
      by (rule duplex_invI [of _ _ e])
        (use p c closed [of e] closed [of "peer e"] pipe_inv_still [OF pipe [of e]] pipe_close_inv(2) [OF pipe [of "peer e"]]
          in \<open>simp_all add: unparked_still pipe_drop_reader_def\<close>)
  qed
qed

lemma duplex_reach_inv: "duplex_reach c s \<Longrightarrow> duplex_inv c s"
proof (induction rule: duplex_reach.induct)
  case (start ps)
  then show ?case by (auto simp: duplex_def duplex_inv_def pipe_inv_def memory_pipe_new_def split: if_splits)
qed (rule duplex_step_inv)

section \<open>Properties\<close>

text \<open>C29: an in-memory stream delivers its bytes in order, within its capacity, and loses no wake-up. In every state that the two ends can
  reach, and for each direction: what was delivered followed by what is in the pipe is what was accepted; the pipe never holds more than
  its capacity; a read or write does not panic; a reader that waits has registered its waker, and the pipe is empty and not closed, so
  that the write or close that changes this wakes it; a writer that waits has registered its waker, and the pipe is full and its reader is
  there; when a read finds the end, everything that was accepted has been delivered.\<close>

theorem duplex_delivers_in_order:
  assumes "duplex_reach capacity s" "rb_ok b"
  shows "dx_got s e @ pp_buffer (dx_pipes s e) = dx_sent s e \<and> length (pp_buffer (dx_pipes s e)) \<le> capacity \<and>
    (dx_reader s e = Some w \<longrightarrow> pp_reader_waker (dx_pipes s e) = Some w \<and> pp_buffer (dx_pipes s e) = [] \<and> \<not> pp_writer_closed (dx_pipes s e)) \<and>
    (dx_writer s e = Some w \<longrightarrow>
      pp_writer_waker (dx_pipes s e) = Some w \<and> length (pp_buffer (dx_pipes s e)) = capacity \<and> \<not> pp_reader_closed (dx_pipes s e)) \<and>
    (\<exists>ps res ws. duplex_poll_write (dx_pipes s) e cx bytes = Inr (ps, res, ws)) \<and>
    (\<exists>ps b' res ws. duplex_poll_read (dx_pipes s) (peer e) cx b = Inr (ps, b', res, ws) \<and>
      (res = Ready (Inr ()) \<and> 0 < rb_remaining b \<and> rb_filled b' = rb_filled b \<longrightarrow> dx_got s e = dx_sent s e))"
proof -
  from duplex_reach_inv [OF assms(1)] have c: "0 < capacity"
    and pipe: "pipe_inv capacity (dx_pipes s e) (dx_sent s e) (dx_got s e) (dx_reader s e) (dx_writer s e)" by (auto simp: duplex_inv_def)
  from pipe_poll_write_inv [OF pipe c, of cx bytes] have "\<exists>ps res ws. duplex_poll_write (dx_pipes s) e cx bytes = Inr (ps, res, ws)"
    by (auto simp: duplex_poll_write_def)
  moreover from pipe_poll_read_inv [OF pipe assms(2), of cx] obtain p' b' res ws
    where r: "pipe_poll_read (dx_pipes s e) cx b = Inr (p', b', res, ws)" by blast
  have "res = Ready (Inr ()) \<and> 0 < rb_remaining b \<and> rb_filled b' = rb_filled b \<longrightarrow> pp_buffer (dx_pipes s e) = []"
    using r pipe_pop_bytes_ok [OF assms(2), of "min (length (pp_buffer (dx_pipes s e))) (rb_remaining b)" "pp_buffer (dx_pipes s e)"] assms(2)
    by (auto simp: pipe_poll_read_def Let_def min_def split: if_splits dest!: arg_cong [where f = length])
  with r pipe have "\<exists>ps b' res ws. duplex_poll_read (dx_pipes s) (peer e) cx b = Inr (ps, b', res, ws) \<and>
      (res = Ready (Inr ()) \<and> 0 < rb_remaining b \<and> rb_filled b' = rb_filled b \<longrightarrow> dx_got s e = dx_sent s e)"
    by (auto simp: duplex_poll_read_def pipe_inv_def)
  ultimately show ?thesis using pipe by (simp add: pipe_inv_def)
qed

theorem duplex_delivers_in_order_witness:
  "\<exists>s. duplex_reach 2 s \<and> dx_sent s LeftEnd = [1, 2] \<and> dx_got s LeftEnd @ pp_buffer (dx_pipes s LeftEnd) = [1, 2]"
proof -
  let ?s = "\<lparr>dx_pipes = (\<lambda>_. memory_pipe_new 2), dx_alive = (\<lambda>_. True), dx_dropping = (\<lambda>_. False), dx_sent = (\<lambda>_. []), dx_got = (\<lambda>_. []),
    dx_reader = (\<lambda>_. None), dx_writer = (\<lambda>_. None)\<rparr>"
  have "duplex_reach 2 ?s" by (rule duplex_reach.start) (simp add: duplex_def)
  moreover have "duplex_poll_write (dx_pipes ?s) LeftEnd 5 [1, 2, 3] =
    Inr ((dx_pipes ?s)(LeftEnd := (memory_pipe_new 2)\<lparr>pp_buffer := [1, 2]\<rparr>), Ready (Inr 2), [])"
    by (simp add: duplex_poll_write_def pipe_poll_write_def memory_pipe_new_def usize_sub_def)
  then have "duplex_step ?s (dx_woken [] (?s\<lparr>dx_pipes := (dx_pipes ?s)(LeftEnd := (memory_pipe_new 2)\<lparr>pp_buffer := [1, 2]\<rparr>),
      dx_sent := (dx_sent ?s)(LeftEnd := [1, 2]), dx_writer := (dx_writer ?s)(LeftEnd := None)\<rparr>))" (is "duplex_step _ ?s'")
    using duplex_step.writes [of ?s LeftEnd 5 "[1, 2, 3]"] by simp
  ultimately have reach: "duplex_reach 2 ?s'" by (rule duplex_reach.step)
  have "rb_ok (rb_new [])" by (simp add: rb_new_ok)
  from duplex_delivers_in_order [OF reach this, of LeftEnd] reach show ?thesis
    by (intro exI [of _ ?s']) (simp add: dx_woken_def)
qed

end
