(* ===== verification/Io_Standard.thy ===== *)
theory Io_Standard
  imports Io_BufRead
begin

text \<open>
  The standard streams (\<open>io.rs\<close>): each handle keeps at most one blocking operation, which a task of its own runs. How that task is
  spawned and polled are parameters: polling returns the result of the operation, or the message of the error with which the
  task failed. A future that is dropped leaves its operation in the handle.
\<close>

type_synonym ('h, 'a) poll_join = "'h \<Rightarrow> waker \<Rightarrow> 'h \<times> (string + 'a io_result) poll"

definition join_error :: "string \<Rightarrow> io_error" where
  "join_error message = OtherError message"

section \<open>Standard input\<close>

record 'h stdin =
  si_operation :: "'h option"

definition stdin_new :: "'h stdin" where
  "stdin_new = \<lparr>si_operation = None\<rparr>"

definition stdin_poll_read :: "(nat \<Rightarrow> 'h) \<Rightarrow> ('h, byte list) poll_join \<Rightarrow> 'h stdin poll_read" where
  "stdin_poll_read spawn_blocking poll this cx buf =
     (if rb_remaining buf = 0 then Inr (this, buf, Ready (Inr ()))
      else
        (let operation = (case si_operation this of None \<Rightarrow> spawn_blocking (min (rb_remaining buf) (8 * 1024)) | Some h \<Rightarrow> h) in
         case poll operation cx of
           (_, Ready (Inr (Inr bytes))) \<Rightarrow>
             (case put_slice buf bytes of
                Inl e \<Rightarrow> Inl e
              | Inr buf \<Rightarrow> Inr (this\<lparr>si_operation := None\<rparr>, buf, Ready (Inr ())))
         | (_, Ready (Inr (Inl e))) \<Rightarrow> Inr (this\<lparr>si_operation := None\<rparr>, buf, Ready (Inl e))
         | (_, Ready (Inl e)) \<Rightarrow> Inr (this\<lparr>si_operation := None\<rparr>, buf, Ready (Inl (join_error e)))
         | (h, Pending) \<Rightarrow> Inr (this\<lparr>si_operation := Some h\<rparr>, buf, Pending)))"

text \<open>\<open>Stdin::read_line\<close> reads one byte at a time; the bytes read so far are the state of the future. The loop ends with the input, so it
  has fuel.\<close>

fun stdin_read_line ::
  "nat \<Rightarrow> (nat \<Rightarrow> 'h) \<Rightarrow> ('h, byte list) poll_join \<Rightarrow> 'h stdin \<Rightarrow> byte list \<Rightarrow> byte list \<Rightarrow> waker \<Rightarrow>
   ('h stdin \<times> byte list \<times> byte list \<times> nat io_result poll) panicky option" where
  "stdin_read_line 0 spawn_blocking poll this bytes destination cx = None"
| "stdin_read_line (Suc fuel) spawn_blocking poll this bytes destination cx =
     (case read_poll (stdin_poll_read spawn_blocking poll) this [0] cx of
        Inl e \<Rightarrow> Some (Inl e)
      | Inr (this, _, Pending) \<Rightarrow> Some (Inr (this, bytes, destination, Pending))
      | Inr (this, _, Ready (Inl e)) \<Rightarrow> Some (Inr (this, bytes, destination, Ready (Inl e)))
      | Inr (this, byte, Ready (Inr n)) \<Rightarrow>
          (let bytes = (if n = 0 then bytes else bytes @ [byte ! 0]) in
           if n = 0 \<or> byte ! 0 = newline then
             (if utf8_valid bytes then Some (Inr (this, bytes, destination @ bytes, Ready (Inr (length bytes))))
              else Some (Inr (this, bytes, destination, Ready (Inl InvalidData))))
           else stdin_read_line fuel spawn_blocking poll this bytes destination cx))"

section \<open>Standard output and error\<close>

datatype ('w, 'f) standard_write_operation = WriteOperation 'w | FlushOperation 'f

record ('w, 'f) standard_writer =
  sw_operation :: "('w, 'f) standard_write_operation option"

definition poll_standard_write :: "(byte list \<Rightarrow> 'w) \<Rightarrow> ('w, nat) poll_join \<Rightarrow> ('w, 'f) standard_writer poll_write" where
  "poll_standard_write spawn_blocking poll this cx bytes =
     (let operation = (case sw_operation this of None \<Rightarrow> WriteOperation (spawn_blocking bytes) | Some h \<Rightarrow> h) in
      case operation of
        FlushOperation _ \<Rightarrow> Inr (this, Ready (Inl (OtherError ''standard stream flush is already in progress'')))
      | WriteOperation handle \<Rightarrow>
          (case poll handle cx of
             (_, Ready (Inr result)) \<Rightarrow> Inr (this\<lparr>sw_operation := None\<rparr>, Ready result)
           | (_, Ready (Inl e)) \<Rightarrow> Inr (this\<lparr>sw_operation := None\<rparr>, Ready (Inl (join_error e)))
           | (h, Pending) \<Rightarrow> Inr (this\<lparr>sw_operation := Some (WriteOperation h)\<rparr>, Pending)))"

definition poll_standard_flush :: "'f \<Rightarrow> ('f, unit) poll_join \<Rightarrow> ('w, 'f) standard_writer poll_flush" where
  "poll_standard_flush spawned poll this cx =
     (let operation = (case sw_operation this of None \<Rightarrow> FlushOperation spawned | Some h \<Rightarrow> h) in
      case operation of
        WriteOperation _ \<Rightarrow> Inr (this, Ready (Inl (OtherError ''standard stream write is already in progress'')))
      | FlushOperation handle \<Rightarrow>
          (case poll handle cx of
             (_, Ready (Inr result)) \<Rightarrow> Inr (this\<lparr>sw_operation := None\<rparr>, Ready result)
           | (_, Ready (Inl e)) \<Rightarrow> Inr (this\<lparr>sw_operation := None\<rparr>, Ready (Inl (join_error e)))
           | (h, Pending) \<Rightarrow> Inr (this\<lparr>sw_operation := Some (FlushOperation h)\<rparr>, Pending)))"

definition standard_poll_shutdown :: "'f \<Rightarrow> ('f, unit) poll_join \<Rightarrow> ('w, 'f) standard_writer poll_flush" where
  "standard_poll_shutdown spawned poll this cx = poll_standard_flush spawned poll this cx"

section \<open>Properties\<close>

text \<open>A read that is not interrupted fits its buffer, because the operation was given its size.\<close>

lemma stdin_poll_read_fits:
  assumes "rb_ok buf" "0 < rb_remaining buf" "si_operation this = Some h" "length bytes \<le> rb_remaining buf"
    and "poll h cx = (h', Ready (Inr (Inr bytes)))"
  obtains buf' where "stdin_poll_read spawn_blocking poll this cx buf = Inr (this\<lparr>si_operation := None\<rparr>, buf', Ready (Inr ()))"
    "rb_filled_bytes buf' = rb_filled_bytes buf @ bytes"
proof -
  from assms(1,4) obtain buf' where "put_slice buf bytes = Inr buf'" "rb_filled_bytes buf' = rb_filled_bytes buf @ bytes"
    by (rule put_slice_ok)
  with assms(2,3,5) that show ?thesis by (simp add: stdin_poll_read_def)
qed

text \<open>C30: a cancelled operation on a standard stream breaks the next one. A read of standard input that was started for a large buffer and
  dropped while pending makes the next read panic when its buffer is smaller than what arrives, as that of \<open>read_line\<close> is, and the input is
  lost. A write to standard output that was dropped while pending hands its count to the next one: \<open>write_all\<close> of
  a shorter buffer then panics, and the bytes of that buffer are never written.\<close>

theorem cancelled_standard_operation_panics:
  assumes "si_operation input = None" "1 < rb_remaining buf"
    and "poll_r (spawn_r (min (rb_remaining buf) (8 * 1024))) cx = (hr, Pending)" "poll_r hr cx' = (hr', Ready (Inr (Inr bytes)))" "1 < length bytes"
    and "sw_operation out = None" "poll_w (spawn_w first) cx = (hw, Pending)" "poll_w hw cx' = (hw', Ready (Inr (Inr n)))"
    and "length second < n" "second \<noteq> []"
  shows "(\<exists>input'. stdin_poll_read spawn_r poll_r input cx buf = Inr (input', buf, Pending) \<and>
      stdin_read_line (Suc fuel) spawn_r poll_r input' [] destination cx' = Some (Inl ''source does not fit in ReadBuf'')) \<and>
    (\<exists>out'. poll_standard_write spawn_w poll_w out cx first = Inr (out', Pending) \<and>
      write_all_poll (poll_standard_write spawn_w poll_w) out' second cx' = Inl ''range start index out of range for slice'')"
proof -
  let ?input = "input\<lparr>si_operation := Some hr\<rparr>" and ?out = "out\<lparr>sw_operation := Some (WriteOperation hw)\<rparr>"
  have "stdin_poll_read spawn_r poll_r input cx buf = Inr (?input, buf, Pending)"
    using assms(1-3) by (simp add: stdin_poll_read_def)
  moreover have "read_poll (stdin_poll_read spawn_r poll_r) ?input [0] cx' = Inl ''source does not fit in ReadBuf''"
    using assms(4,5) by (simp add: read_poll_def stdin_poll_read_def put_slice_def)
  moreover have "poll_standard_write spawn_w poll_w out cx first = Inr (?out, Pending)"
    using assms(6,7) by (simp add: poll_standard_write_def)
  moreover have "write_all_poll (poll_standard_write spawn_w poll_w) ?out second cx' = Inl ''range start index out of range for slice''"
    using assms(8-10) by (subst write_all_poll.simps) (simp add: poll_standard_write_def)
  ultimately show ?thesis by auto
qed

text \<open>A blocking operation that is pending once and then done.\<close>

definition demo_poll :: "(bool \<times> 'a, 'a) poll_join" where
  "demo_poll h cx = (case h of (started, x) \<Rightarrow> if started then (h, Ready (Inr (Inr x))) else ((True, x), Pending))"

theorem cancelled_standard_operation_panics_witness:
  "(\<exists>input'. stdin_poll_read (\<lambda>n. (False, take n [104, 105])) demo_poll stdin_new 1 (rb_new [0, 0, 0]) = Inr (input', rb_new [0, 0, 0], Pending) \<and>
      stdin_read_line 1 (\<lambda>n. (False, take n [104, 105])) demo_poll input' [] [] 2 = Some (Inl ''source does not fit in ReadBuf'')) \<and>
    (\<exists>out'. poll_standard_write (\<lambda>bytes. (False, length bytes)) demo_poll \<lparr>sw_operation = None\<rparr> 1 [1, 2, 3] = Inr (out', Pending) \<and>
      write_all_poll (poll_standard_write (\<lambda>bytes. (False, length bytes)) demo_poll) out' [9] 2 = Inl ''range start index out of range for slice'')"
  using cancelled_standard_operation_panics [of stdin_new "rb_new [0, 0, 0]" demo_poll "\<lambda>n. (False, take n [104, 105])" 1 "(True, [104, 105])" 2
      "(True, [104, 105])" "[104, 105]" "\<lparr>sw_operation = None\<rparr>" demo_poll "\<lambda>bytes. (False, length bytes)" "[1, 2, 3]" "(True, 3)" "(True, 3)" 3 "[9]" 0 "[]"]
  by (simp add: stdin_new_def demo_poll_def)

end
