(* ===== verification/Timer.thy ===== *)
theory Timer
  imports Ffrt_Prelude
begin

text \<open>
  Timers (\<open>timer/\<close> and the timer registration of \<open>reactor.rs\<close>): \<open>Sleep\<close>, \<open>Timeout\<close> and \<open>Interval\<close>.

  Instants and durations are numbers of nanoseconds. Every reading of the clock is an argument, in the order in which the
  code takes them. A loop timer is known by its timeout in milliseconds; that it does not fire before is a hypothesis where it is used.
\<close>

section \<open>Instants\<close>

definition instant_limit :: nat where
  "instant_limit = 2 ^ 63 * 1000000000"

definition instant_checked_add :: "nat \<Rightarrow> nat \<Rightarrow> nat option" where
  "instant_checked_add t d = (if t + d < instant_limit then Some (t + d) else None)"

definition instant_add :: "nat \<Rightarrow> nat \<Rightarrow> nat panicky" where
  "instant_add t d = (case instant_checked_add t d of None \<Rightarrow> Inl ''overflow when adding duration to instant'' | Some t \<Rightarrow> Inr t)"

section \<open>The registration of a timer\<close>

definition u64_max :: nat where
  "u64_max = 2 ^ 64 - 1"

definition register_timer_millis :: "nat \<Rightarrow> nat" where
  "register_timer_millis timeout =
     (let millis = max (min (timeout + 999999) (2 ^ 128 - 1) div 1000000) 1
      in if millis \<le> u64_max then millis else u64_max)"

text \<open>Rounding up: the timer does not fire early, and at most a millisecond late.\<close>

lemma register_timer_millis_bounds:
  assumes "timeout \<le> u64_max * 1000000"
  shows "timeout \<le> register_timer_millis timeout * 1000000 \<and> register_timer_millis timeout * 1000000 < timeout + 1000000 + 1000000"
proof -
  have "timeout + 999999 < 2 ^ 128 - 1" using assms by (simp add: u64_max_def)
  moreover have "(timeout + 999999) div 1000000 \<le> u64_max" using assms by (simp add: u64_max_def)
  ultimately have "register_timer_millis timeout = max ((timeout + 999999) div 1000000) 1"
    by (simp add: register_timer_millis_def u64_max_def Let_def min_def)
  then show ?thesis by (auto simp: max_def)
qed

section \<open>Sleep\<close>

record timer_state =
  ts_fired :: bool
  ts_waker :: "waker option"

definition timer_state_default :: timer_state where
  "timer_state_default = \<lparr>ts_fired = False, ts_waker = None\<rparr>"

definition timer_register :: "timer_state \<Rightarrow> waker \<Rightarrow> timer_state" where
  "timer_register s waker =
     (if (case ts_waker s of None \<Rightarrow> True | Some registered \<Rightarrow> \<not> will_wake registered waker) then s\<lparr>ts_waker := Some waker\<rparr> else s)"

text \<open>\<open>fire\<close> stores the flag and then takes the waker under its lock: two steps, and their sequence.\<close>

definition timer_fire_store :: "timer_state \<Rightarrow> timer_state" where
  "timer_fire_store s = s\<lparr>ts_fired := True\<rparr>"

definition timer_fire_take :: "timer_state \<Rightarrow> timer_state \<times> waker list" where
  "timer_fire_take s = (s\<lparr>ts_waker := None\<rparr>, olist (ts_waker s))"

definition timer_fire :: "timer_state \<Rightarrow> timer_state \<times> waker list" where
  "timer_fire s = timer_fire_take (timer_fire_store s)"

record sleep =
  sl_deadline :: nat
  sl_state :: timer_state
  sl_registration :: "nat option"

definition sleep_new :: "nat \<Rightarrow> sleep" where
  "sleep_new deadline = \<lparr>sl_deadline = deadline, sl_state = timer_state_default, sl_registration = None\<rparr>"

definition sleep_after :: "nat \<Rightarrow> nat \<Rightarrow> sleep panicky" where
  "sleep_after duration now = (case instant_add now duration of Inl e \<Rightarrow> Inl e | Inr deadline \<Rightarrow> Inr (sleep_new deadline))"

definition sleep_is_elapsed :: "sleep \<Rightarrow> nat \<Rightarrow> bool" where
  "sleep_is_elapsed s now \<longleftrightarrow> ts_fired (sl_state s) \<or> now \<ge> sl_deadline s"

definition sleep_reset :: "sleep \<Rightarrow> nat \<Rightarrow> sleep" where
  "sleep_reset s deadline = s\<lparr>sl_registration := None, sl_deadline := deadline, sl_state := timer_state_default\<rparr>"

text \<open>
  The poll: the check that opens and closes it, and the registration between. The callback may run between any two of
  them; \<open>fires1\<close> and \<open>fires2\<close> tell whether it does. \<open>ok\<close> tells whether the loop accepted the timer.
\<close>

definition sleep_poll_check :: "sleep \<Rightarrow> nat \<Rightarrow> sleep \<times> unit poll" where
  "sleep_poll_check s now =
     (if ts_fired (sl_state s) \<or> now \<ge> sl_deadline s then (s\<lparr>sl_registration := None\<rparr>, Ready ()) else (s, Pending))"

definition sleep_poll_register :: "sleep \<Rightarrow> waker \<Rightarrow> nat \<Rightarrow> bool \<Rightarrow> sleep panicky" where
  "sleep_poll_register s cx now ok =
     (let s = s\<lparr>sl_state := timer_register (sl_state s) cx\<rparr> in
      if sl_registration s = None then
        (if ok then Inr (s\<lparr>sl_registration := Some (register_timer_millis (sl_deadline s - now))\<rparr>)
         else Inl ''failed to register FFRT sleep timer'')
      else Inr s)"

definition sleep_callback :: "bool \<Rightarrow> sleep \<Rightarrow> sleep \<times> waker list" where
  "sleep_callback fires s = (if fires then (let (st, ws) = timer_fire (sl_state s) in (s\<lparr>sl_state := st\<rparr>, ws)) else (s, []))"

definition sleep_poll ::
  "sleep \<Rightarrow> waker \<Rightarrow> nat \<Rightarrow> bool \<Rightarrow> nat \<Rightarrow> bool \<Rightarrow> bool \<Rightarrow> nat \<Rightarrow> (sleep \<times> unit poll \<times> waker list) panicky" where
  "sleep_poll s cx now fires1 now2 ok fires2 now3 = (case sleep_poll_check s now of
     (s, Ready _) \<Rightarrow> Inr (s, Ready (), [])
   | (s, Pending) \<Rightarrow>
       (let (s, ws) = sleep_callback fires1 s in
        case sleep_poll_register s cx now2 ok of
          Inl e \<Rightarrow> Inl e
        | Inr s \<Rightarrow>
            (let (s, ws') = sleep_callback fires2 s; (s, res) = sleep_poll_check s now3 in Inr (s, res, ws @ ws'))))"

section \<open>Timeout\<close>

record 'f timeout =
  tm_value :: 'f
  tm_delay :: sleep

definition timeout_at :: "nat \<Rightarrow> 'f \<Rightarrow> 'f timeout" where
  "timeout_at deadline future = \<lparr>tm_value = future, tm_delay = sleep_new deadline\<rparr>"

definition timeout_after :: "nat \<Rightarrow> 'f \<Rightarrow> nat \<Rightarrow> 'f timeout panicky" where
  "timeout_after duration future now = (case instant_add now duration of Inl e \<Rightarrow> Inl e | Inr deadline \<Rightarrow> Inr (timeout_at deadline future))"

datatype elapsed = Elapsed

definition timeout_poll ::
  "('f \<Rightarrow> waker \<Rightarrow> 'f \<times> 'a poll) \<Rightarrow> 'f timeout \<Rightarrow> waker \<Rightarrow> nat \<Rightarrow> bool \<Rightarrow> nat \<Rightarrow> bool \<Rightarrow> bool \<Rightarrow> nat \<Rightarrow>
   ('f timeout \<times> (elapsed + 'a) poll \<times> waker list) panicky" where
  "timeout_poll poll this cx now fires1 now2 ok fires2 now3 = (case poll (tm_value this) cx of
     (f, Ready v) \<Rightarrow> Inr (this\<lparr>tm_value := f\<rparr>, Ready (Inr v), [])
   | (f, Pending) \<Rightarrow> (case sleep_poll (tm_delay this) cx now fires1 now2 ok fires2 now3 of
       Inl e \<Rightarrow> Inl e
     | Inr (d, Ready _, ws) \<Rightarrow> Inr (this\<lparr>tm_value := f, tm_delay := d\<rparr>, Ready (Inl Elapsed), ws)
     | Inr (d, Pending, ws) \<Rightarrow> Inr (this\<lparr>tm_value := f, tm_delay := d\<rparr>, Pending, ws)))"

section \<open>Interval\<close>

datatype missed_tick_behavior = Burst | Delay | Skip

text \<open>\<open>now + period\<close> is computed before the remainder is subtracted. Subtracting durations would panic below zero.\<close>

fun next_timeout :: "missed_tick_behavior \<Rightarrow> nat \<Rightarrow> nat \<Rightarrow> nat \<Rightarrow> nat panicky" where
  "next_timeout Burst timeout now period = instant_add timeout period"
| "next_timeout Delay timeout now period = instant_add now period"
| "next_timeout Skip timeout now period =
     (let remainder = (now - timeout) mod period in
      case instant_add now period of
        Inl e \<Rightarrow> Inl e
      | Inr t \<Rightarrow> if remainder > u64_max then Inl ''called Result::unwrap() on an Err value'' else Inr (t - remainder))"

record interval =
  iv_delay :: sleep
  iv_period :: nat
  iv_missed :: missed_tick_behavior

definition interval_at :: "nat \<Rightarrow> nat \<Rightarrow> interval panicky" where
  "interval_at start period =
     (if period = 0 then Inl ''period must be non-zero''
      else Inr \<lparr>iv_delay = sleep_new start, iv_period = period, iv_missed = Burst\<rparr>)"

definition interval_new :: "nat \<Rightarrow> nat \<Rightarrow> interval panicky" where
  "interval_new period now = interval_at now period"

definition set_missed_tick_behavior :: "interval \<Rightarrow> missed_tick_behavior \<Rightarrow> interval" where
  "set_missed_tick_behavior iv behavior = iv\<lparr>iv_missed := behavior\<rparr>"

definition interval_reset_at :: "interval \<Rightarrow> nat \<Rightarrow> interval" where
  "interval_reset_at iv deadline = iv\<lparr>iv_delay := sleep_reset (iv_delay iv) deadline\<rparr>"

definition interval_reset_after :: "interval \<Rightarrow> nat \<Rightarrow> nat \<Rightarrow> interval panicky" where
  "interval_reset_after iv after now = (case instant_add now after of Inl e \<Rightarrow> Inl e | Inr t \<Rightarrow> Inr (interval_reset_at iv t))"

definition interval_reset :: "interval \<Rightarrow> nat \<Rightarrow> interval panicky" where
  "interval_reset iv now = (case instant_add now (iv_period iv) of Inl e \<Rightarrow> Inl e | Inr t \<Rightarrow> Inr (interval_reset_at iv t))"

definition interval_reset_immediately :: "interval \<Rightarrow> nat \<Rightarrow> interval" where
  "interval_reset_immediately iv now = interval_reset_at iv now"

definition interval_next :: "interval \<Rightarrow> nat \<Rightarrow> nat panicky" where
  "interval_next iv now =
     (let timeout = sl_deadline (iv_delay iv) in
      case instant_add timeout 5000000 of
        Inl e \<Rightarrow> Inl e
      | Inr late \<Rightarrow>
          if now > late then next_timeout (iv_missed iv) timeout now (iv_period iv)
          else (case instant_checked_add timeout (iv_period iv) of None \<Rightarrow> Inl ''interval deadline overflow'' | Some t \<Rightarrow> Inr t))"

definition poll_tick ::
  "interval \<Rightarrow> waker \<Rightarrow> nat \<Rightarrow> bool \<Rightarrow> nat \<Rightarrow> bool \<Rightarrow> bool \<Rightarrow> nat \<Rightarrow> nat \<Rightarrow> (interval \<times> nat poll \<times> waker list) panicky" where
  "poll_tick iv cx now fires1 now2 ok fires2 now3 now4 =
     (case sleep_poll (iv_delay iv) cx now fires1 now2 ok fires2 now3 of
        Inl e \<Rightarrow> Inl e
      | Inr (d, Pending, ws) \<Rightarrow> Inr (iv\<lparr>iv_delay := d\<rparr>, Pending, ws)
      | Inr (d, Ready _, ws) \<Rightarrow>
          (let iv = iv\<lparr>iv_delay := d\<rparr>; timeout = sl_deadline d in
           case interval_next iv now4 of
             Inl e \<Rightarrow> Inl e
           | Inr next \<Rightarrow> Inr (iv\<lparr>iv_delay := sleep_reset d next\<rparr>, Ready timeout, ws)))"

section \<open>Sleeping\<close>

text \<open>
  The life of one \<open>Sleep\<close>. Time passes; the task polls it, phase by phase, and resets it between polls; its timer fires, not before
  the timeout it was started with, in two steps that interleave with all of this. \<open>ss_due\<close> is the earliest instant at which
  the timer of the current state may fire. It outlives the registration, since stopping a timer does not wait for its callback.
\<close>

datatype sleep_phase = Idle | Checked waker | Registered waker | Parked waker | Finished

record sleep_sys =
  ss_sleep :: sleep
  ss_now :: nat
  ss_due :: "nat option"
  ss_phase :: sleep_phase
  ss_firing :: bool

definition sleep_wake :: "waker list \<Rightarrow> sleep_phase \<Rightarrow> sleep_phase" where
  "sleep_wake ws ph = (case ph of Parked w \<Rightarrow> if w \<in> set ws then Idle else ph | _ \<Rightarrow> ph)"

definition sleep_range :: "nat \<Rightarrow> bool" where
  "sleep_range deadline \<longleftrightarrow> deadline \<le> u64_max * 1000000"

inductive sleep_step :: "sleep_sys \<Rightarrow> sleep_sys \<Rightarrow> bool" where
  pass: "sleep_step s (s\<lparr>ss_now := ss_now s + d\<rparr>)"
| check: "ss_phase s = Idle \<or> ss_phase s = Parked w \<Longrightarrow> sleep_poll_check (ss_sleep s) (ss_now s) = (sl, res) \<Longrightarrow>
    sleep_step s (s\<lparr>ss_sleep := sl, ss_phase := (case res of Ready _ \<Rightarrow> Finished | Pending \<Rightarrow> Checked cx)\<rparr>)"
| register: "ss_phase s = Checked cx \<Longrightarrow> sleep_poll_register (ss_sleep s) cx (ss_now s) ok = Inr sl \<Longrightarrow>
    sleep_step s (s\<lparr>ss_sleep := sl, ss_phase := Registered cx,
      ss_due := (if sl_registration (ss_sleep s) = None
                 then map_option (\<lambda>millis. ss_now s + millis * 1000000) (sl_registration sl) else ss_due s)\<rparr>)"
| recheck: "ss_phase s = Registered cx \<Longrightarrow> sleep_poll_check (ss_sleep s) (ss_now s) = (sl, res) \<Longrightarrow>
    sleep_step s (s\<lparr>ss_sleep := sl, ss_phase := (case res of Ready _ \<Rightarrow> Finished | Pending \<Rightarrow> Parked cx)\<rparr>)"
| fire_store: "ss_due s = Some t \<Longrightarrow> t \<le> ss_now s \<Longrightarrow>
    sleep_step s (s\<lparr>ss_sleep := (ss_sleep s)\<lparr>sl_state := timer_fire_store (sl_state (ss_sleep s))\<rparr>, ss_firing := True\<rparr>)"
| fire_take: "ss_firing s \<Longrightarrow> timer_fire_take (sl_state (ss_sleep s)) = (st, ws) \<Longrightarrow>
    sleep_step s (s\<lparr>ss_sleep := (ss_sleep s)\<lparr>sl_state := st\<rparr>, ss_firing := False, ss_phase := sleep_wake ws (ss_phase s)\<rparr>)"
| reset: "ss_phase s = Idle \<or> ss_phase s = Parked w \<or> ss_phase s = Finished \<Longrightarrow> sleep_range deadline \<Longrightarrow>
    sleep_step s (s\<lparr>ss_sleep := sleep_reset (ss_sleep s) deadline, ss_due := None, ss_firing := False, ss_phase := Idle\<rparr>)"

inductive sleep_reach :: "sleep_sys \<Rightarrow> bool" where
  start: "sleep_range deadline \<Longrightarrow>
    sleep_reach \<lparr>ss_sleep = sleep_new deadline, ss_now = now, ss_due = None, ss_phase = Idle, ss_firing = False\<rparr>"
| step: "sleep_reach s \<Longrightarrow> sleep_step s s' \<Longrightarrow> sleep_reach s'"

definition sleep_inv :: "sleep_sys \<Rightarrow> bool" where
  "sleep_inv s \<longleftrightarrow>
     sleep_range (sl_deadline (ss_sleep s)) \<and>
     (\<forall>t. ss_due s = Some t \<longrightarrow> sl_deadline (ss_sleep s) \<le> t \<and> t < max (ss_now s) (sl_deadline (ss_sleep s)) + 2000000) \<and>
     (ts_fired (sl_state (ss_sleep s)) \<longrightarrow> sl_deadline (ss_sleep s) \<le> ss_now s) \<and>
     (ss_firing s \<longrightarrow> ts_fired (sl_state (ss_sleep s))) \<and>
     (sl_registration (ss_sleep s) \<noteq> None \<longrightarrow> ss_due s \<noteq> None) \<and>
     (case ss_phase s of
        Registered w \<Rightarrow> sl_registration (ss_sleep s) \<noteq> None \<and>
          (ts_waker (sl_state (ss_sleep s)) = Some w \<or> ts_fired (sl_state (ss_sleep s)))
      | Parked w \<Rightarrow> sl_registration (ss_sleep s) \<noteq> None \<and>
          ts_waker (sl_state (ss_sleep s)) = Some w \<and> (ts_fired (sl_state (ss_sleep s)) \<longrightarrow> ss_firing s)
      | Finished \<Rightarrow> sl_deadline (ss_sleep s) \<le> ss_now s
      | _ \<Rightarrow> True)"

lemma register_timer_due:
  assumes "sleep_range deadline"
  shows "deadline \<le> now + register_timer_millis (deadline - now) * 1000000"
    and "now + register_timer_millis (deadline - now) * 1000000 < max now deadline + 2000000"
proof -
  have "deadline - now \<le> u64_max * 1000000" using assms by (simp add: sleep_range_def)
  from register_timer_millis_bounds [OF this]
  show "deadline \<le> now + register_timer_millis (deadline - now) * 1000000"
    and "now + register_timer_millis (deadline - now) * 1000000 < max now deadline + 2000000" by linarith+
qed

lemma register_timer_millis_0: "register_timer_millis 0 = 1"
  by (simp add: register_timer_millis_def u64_max_def)

lemma sleep_step_inv:
  assumes "sleep_step s s'" "sleep_inv s"
  shows "sleep_inv s'"
  using assms
proof cases
  case (pass d)
  then show ?thesis using assms(2) by (auto simp: sleep_inv_def max_def split: sleep_phase.splits if_splits)
next
  case (check w sl res cx)
  then show ?thesis using assms(2)
    by (auto simp: sleep_inv_def sleep_poll_check_def split: sleep_phase.splits if_splits poll.splits)
next
  case (register cx ok sl)
  then show ?thesis using assms(2)
    by (auto simp: sleep_inv_def sleep_poll_register_def timer_register_def will_wake_def register_timer_due
        register_timer_millis_0 Let_def
        split: if_splits option.splits)
next
  case (recheck cx sl res)
  then show ?thesis using assms(2)
    by (auto simp: sleep_inv_def sleep_poll_check_def split: sleep_phase.splits if_splits poll.splits)
next
  case (fire_store t)
  then show ?thesis using assms(2) by (auto simp: sleep_inv_def timer_fire_store_def split: sleep_phase.splits)
next
  case (fire_take st ws)
  then show ?thesis using assms(2)
    by (auto simp: sleep_inv_def timer_fire_take_def sleep_wake_def split: sleep_phase.splits)
next
  case (reset w deadline)
  then show ?thesis using assms(2) by (auto simp: sleep_inv_def sleep_reset_def timer_state_default_def)
qed

lemma sleep_reach_inv: "sleep_reach s \<Longrightarrow> sleep_inv s"
proof (induction rule: sleep_reach.induct)
  case (start deadline now)
  then show ?case by (simp add: sleep_inv_def sleep_new_def timer_state_default_def)
next
  case (step s s')
  then show ?case by (blast intro: sleep_step_inv)
qed

text \<open>C31: A \<open>Sleep\<close> is neither early nor lost. Under every interleaving of its polls with the two steps of its callback, a completed
  sleep, and one whose timer has fired, is past its deadline; and whenever no callback is running, a task that waits on the sleep
  is the one the sleep would wake, its timer has not fired, and it is due at most two milliseconds after the
  deadline (or after the present, when the deadline is past). Deadlines are those the loop's 64-bit milliseconds can express.
\<close>

theorem sleep_neither_early_nor_lost:
  assumes "sleep_reach s"
  shows "(ss_phase s = Finished \<or> ts_fired (sl_state (ss_sleep s)) \<longrightarrow> sl_deadline (ss_sleep s) \<le> ss_now s) \<and>
         (\<not> ss_firing s \<and> ss_phase s = Parked w \<longrightarrow>
            ts_waker (sl_state (ss_sleep s)) = Some w \<and> \<not> ts_fired (sl_state (ss_sleep s)) \<and>
            (\<exists>t. ss_due s = Some t \<and> sl_deadline (ss_sleep s) \<le> t \<and> t < max (ss_now s) (sl_deadline (ss_sleep s)) + 2000000))"
  using sleep_reach_inv [OF assms] unfolding sleep_inv_def by (auto split: sleep_phase.splits)

text \<open>A sleep of one and a half milliseconds that a task waits for.\<close>

definition sleep_example :: sleep_sys where
  "sleep_example = \<lparr>ss_sleep = \<lparr>sl_deadline = 1500000, sl_state = \<lparr>ts_fired = False, ts_waker = Some 7\<rparr>, sl_registration = Some 2\<rparr>,
     ss_now = 0, ss_due = Some 2000000, ss_phase = Parked 7, ss_firing = False\<rparr>"

lemmas sleep_eval = sleep_new_def timer_state_default_def sleep_poll_check_def sleep_poll_register_def timer_register_def
  register_timer_millis_def u64_max_def sleep_range_def sleep_example_def

lemma sleep_example_reach: "sleep_reach sleep_example"
proof -
  let ?s0 = "\<lparr>ss_sleep = sleep_new 1500000, ss_now = 0, ss_due = None, ss_phase = Idle, ss_firing = False\<rparr>"
  let ?s1 = "?s0\<lparr>ss_phase := Checked 7\<rparr>"
  let ?s2 = "sleep_example\<lparr>ss_phase := Registered 7\<rparr>"
  have "sleep_reach ?s0" by (rule sleep_reach.start) (simp add: sleep_eval)
  moreover have "sleep_step ?s0 ?s1"
    using sleep_step.check [of ?s0 0 "sleep_new 1500000" Pending 7] by (simp add: sleep_eval)
  moreover have "sleep_step ?s1 ?s2"
    using sleep_step.register [of ?s1 7 True "ss_sleep sleep_example"] by (simp add: sleep_eval)
  moreover have "sleep_step ?s2 sleep_example"
    using sleep_step.recheck [of ?s2 7 "ss_sleep sleep_example" Pending] by (simp add: sleep_eval)
  ultimately show ?thesis by (blast intro: sleep_reach.step)
qed

theorem sleep_neither_early_nor_lost_witness:
  "sleep_reach sleep_example \<and> ts_waker (sl_state (ss_sleep sleep_example)) = Some 7"
  using sleep_neither_early_nor_lost [OF sleep_example_reach, of 7] sleep_example_reach by (simp add: sleep_example_def)

section \<open>Ticking\<close>

text \<open>The next deadline, by behaviour: always at least a period later, a multiple of it later for \<open>Burst\<close> and \<open>Skip\<close>.\<close>

lemma interval_next_bounds:
  assumes "interval_next iv now = Inr next" "sl_deadline (iv_delay iv) \<le> now" "0 < iv_period iv"
  shows "sl_deadline (iv_delay iv) + iv_period iv \<le> next"
    and "iv_missed iv = Burst \<Longrightarrow> next = sl_deadline (iv_delay iv) + iv_period iv"
    and "iv_missed iv = Skip \<Longrightarrow> \<exists>k. next = sl_deadline (iv_delay iv) + k * iv_period iv"
    and "iv_missed iv = Skip \<Longrightarrow> now < next \<or> now \<le> sl_deadline (iv_delay iv) + 5000000"
    and "iv_missed iv = Delay \<Longrightarrow> next = (if now \<le> sl_deadline (iv_delay iv) + 5000000 then sl_deadline (iv_delay iv) else now) + iv_period iv"
proof -
  let ?t = "sl_deadline (iv_delay iv)" and ?p = "iv_period iv"
  have skip: "now + ?p - (now - ?t) mod ?p = ?t + ((now - ?t) div ?p + 1) * ?p"
  proof -
    obtain q r where qr: "(now - ?t) div ?p = q" "(now - ?t) mod ?p = r" by blast
    have "now = ?t + (q * ?p + r)" unfolding qr [symmetric] using assms(2) by simp
    then show ?thesis unfolding qr by simp
  qed
  have after: "now < ?t + ((now - ?t) div ?p + 1) * ?p"
    using mod_less_divisor [OF assms(3), of "now - ?t"] assms(2) unfolding skip [symmetric] by linarith
  consider "next = ?t + ?p" "now \<le> ?t + 5000000 \<or> iv_missed iv = Burst"
    | "iv_missed iv = Delay" "next = now + ?p" "?t + 5000000 < now"
    | "iv_missed iv = Skip" "next = ?t + ((now - ?t) div ?p + 1) * ?p"
    using assms(1) skip
    by (cases "iv_missed iv") (auto simp: interval_next_def instant_add_def instant_checked_add_def Let_def split: if_splits)
  note cases = this
  show "?t + ?p \<le> next" using cases assms(2) by cases auto
  show "iv_missed iv = Burst \<Longrightarrow> next = ?t + ?p" using cases by cases auto
  show "iv_missed iv = Skip \<Longrightarrow> \<exists>k. next = ?t + k * ?p" using cases
    by cases (rule exI [of _ 1], simp, simp, blast)
  show "iv_missed iv = Skip \<Longrightarrow> now < next \<or> now \<le> ?t + 5000000" using cases after by cases auto
  show "iv_missed iv = Delay \<Longrightarrow> next = (if now \<le> ?t + 5000000 then ?t else now) + ?p" using cases by cases auto
qed

text \<open>
  A run of polls, each with the clock readings of its check and of the tick. A fired timer is past its deadline, so a poll that
  completes by the flag is one that also completes by the clock, and the run needs no callbacks. It yields the ticks with the instants at which they were taken.
\<close>

fun interval_run :: "interval \<Rightarrow> (nat \<times> nat) list \<Rightarrow> (interval \<times> (nat \<times> nat) list) panicky" where
  "interval_run iv [] = Inr (iv, [])"
| "interval_run iv ((now, now4) # polls) = (case poll_tick iv 0 now False now True False now now4 of
     Inl e \<Rightarrow> Inl e
   | Inr (iv', res, ws) \<Rightarrow> (case interval_run iv' polls of
       Inl e \<Rightarrow> Inl e
     | Inr (iv'', ticks) \<Rightarrow> Inr (iv'', (case res of Ready t \<Rightarrow> (t, now4) # ticks | Pending \<Rightarrow> ticks))))"

definition interval_ready :: "interval \<Rightarrow> bool" where
  "interval_ready iv \<longleftrightarrow> 0 < iv_period iv \<and> \<not> ts_fired (sl_state (iv_delay iv))"

lemma poll_tick_cases:
  assumes "poll_tick iv cx now False now True False now now4 = Inr (iv', res, ws)" "interval_ready iv" "now \<le> now4"
  shows "interval_ready iv' \<and> iv_period iv' = iv_period iv \<and> iv_missed iv' = iv_missed iv \<and>
         (res = Pending \<and> sl_deadline (iv_delay iv') = sl_deadline (iv_delay iv) \<or>
          res = Ready (sl_deadline (iv_delay iv)) \<and> sl_deadline (iv_delay iv) \<le> now4 \<and>
          interval_next iv now4 = Inr (sl_deadline (iv_delay iv')))"
  using assms
  by (auto simp: poll_tick_def sleep_poll_def sleep_poll_check_def sleep_poll_register_def sleep_callback_def timer_register_def
      interval_ready_def interval_next_def sleep_reset_def timer_state_default_def Let_def split: if_splits sum.splits)

text \<open>A tick with the instant at which it was taken, and the tick that follows: the spacing and, by behaviour, the place.\<close>

fun tick_follows :: "missed_tick_behavior \<Rightarrow> nat \<Rightarrow> nat \<times> nat \<Rightarrow> nat \<times> nat \<Rightarrow> bool" where
  "tick_follows behavior period (t, now) (t', now') \<longleftrightarrow>
     t \<le> now \<and> t + period \<le> t' \<and>
     (case behavior of
        Burst \<Rightarrow> t' = t + period
      | Delay \<Rightarrow> t' = (if now \<le> t + 5000000 then t else now) + period
      | Skip \<Rightarrow> (\<exists>k. t' = t + k * period) \<and> (now < t' \<or> now \<le> t + 5000000))"

lemma interval_next_follows:
  assumes "interval_next iv now = Inr next" "sl_deadline (iv_delay iv) \<le> now" "interval_ready iv"
  shows "tick_follows (iv_missed iv) (iv_period iv) (sl_deadline (iv_delay iv), now) (next, now')"
  using interval_next_bounds [OF assms(1,2)] assms(2,3) by (cases "iv_missed iv") (auto simp: interval_ready_def)

lemma follows_spaced:
  assumes "successively (tick_follows b p) ds"
  shows "sorted_wrt (\<lambda>t t'. t + p \<le> t') (map fst ds)"
proof -
  have "transp (\<lambda>t t'. t + p \<le> (t' :: nat))" by (auto simp: transp_def)
  moreover have "successively (\<lambda>t t'. t + p \<le> t') (map fst ds)"
    unfolding successively_map by (rule successively_mono [OF assms]) auto
  ultimately show ?thesis by (simp add: successively_conv_sorted_wrt)
qed

lemma follows_burst:
  "successively (tick_follows Burst p) (d # ds) \<Longrightarrow> map fst (d # ds) = map (\<lambda>k. fst d + k * p) [0..<Suc (length ds)]"
proof (induction ds arbitrary: d)
  case (Cons d' ds)
  from Cons.prems have nxt: "fst d' = fst d + p" and rest: "successively (tick_follows Burst p) (d' # ds)"
    by (cases d, cases d', simp_all)
  have "map fst (d' # ds) = map (\<lambda>k. fst d + Suc k * p) [0..<Suc (length ds)]"
    unfolding Cons.IH [OF rest] nxt by (simp add: add.assoc)
  also have "\<dots> = map (\<lambda>k. fst d + k * p) [1..<Suc (Suc (length ds))]"
    by (simp only: map_Suc_upt [symmetric] map_map comp_def One_nat_def)
  finally show ?case by (simp add: upt_conv_Cons del: upt_Suc)
qed simp

lemma follows_skip:
  "successively (tick_follows Skip p) (d # ds) \<Longrightarrow> t \<in> set (d # ds) \<Longrightarrow> \<exists>k. fst t = fst d + k * p"
proof (induction ds arbitrary: d)
  case Nil
  then show ?case by (auto intro: exI [of _ 0])
next
  case (Cons d' ds)
  show ?case
  proof (cases "t = d")
    case False
    then have "t \<in> set (d' # ds)" using Cons.prems(2) by simp
    moreover have "successively (tick_follows Skip p) (d' # ds)" using Cons.prems(1) by simp
    ultimately obtain k where "fst t = fst d' + k * p" using Cons.IH by blast
    moreover obtain j where "fst d' = fst d + j * p" using Cons.prems(1) by (cases d, cases d') auto
    ultimately have "fst t = fst d + (j + k) * p" by (simp add: algebra_simps)
    then show ?thesis ..
  qed (auto intro: exI [of _ 0])
qed

lemma interval_run_follows:
  assumes "interval_run iv polls = Inr (iv', ticks)" "interval_ready iv" "list_all (\<lambda>(now, now4). now \<le> now4) polls"
  shows "\<exists>ds now. ticks @ [(sl_deadline (iv_delay iv'), 0)] = (sl_deadline (iv_delay iv), now) # ds \<and>
         successively (tick_follows (iv_missed iv) (iv_period iv)) ((sl_deadline (iv_delay iv), now) # ds)"
  using assms
proof (induction iv polls arbitrary: ticks rule: interval_run.induct)
  case (1 iv)
  then show ?case by simp
next
  case (2 iv now now4 polls)
  from "2.prems"(1) obtain iv1 res ws ticks1 where
    step: "poll_tick iv 0 now False now True False now now4 = Inr (iv1, res, ws)" and
    run: "interval_run iv1 polls = Inr (iv', ticks1)" and
    ticks: "ticks = (case res of Ready t \<Rightarrow> (t, now4) # ticks1 | Pending \<Rightarrow> ticks1)"
    by (auto split: sum.splits prod.splits)
  have le: "now \<le> now4" and rest: "list_all (\<lambda>(now, now4). now \<le> now4) polls" using "2.prems"(3) by auto
  note tick = poll_tick_cases [OF step "2.prems"(2) le]
  from tick have "interval_ready iv1" by simp
  from "2.IH" [OF step refl refl run this rest] obtain ds now1 where
    ds: "ticks1 @ [(sl_deadline (iv_delay iv'), 0)] = (sl_deadline (iv_delay iv1), now1) # ds"
      "successively (tick_follows (iv_missed iv1) (iv_period iv1)) ((sl_deadline (iv_delay iv1), now1) # ds)" by blast
  show ?case
  proof (cases res)
    case Pending
    with tick ds ticks show ?thesis by auto
  next
    case (Ready t)
    with tick have
      "tick_follows (iv_missed iv) (iv_period iv) (sl_deadline (iv_delay iv), now4) (sl_deadline (iv_delay iv1), now1)"
      using interval_next_follows "2.prems"(2) by blast
    with Ready tick ds ticks show ?thesis by auto
  qed
qed

lemma follows_not_early:
  "successively (tick_follows b p) (ticks @ [d]) \<Longrightarrow> list_all (\<lambda>(t, now). t \<le> now) ticks"
  by (induction ticks rule: induct_list012; cases d) (auto simp: successively_Cons)

text \<open>C32: The schedule of an interval, for every sequence of polls, early and late. No tick is taken before its instant, and consecutive
  ticks are at least a period apart. Under \<open>Burst\<close> the ticks are exactly the multiples of the period from the start;
  under \<open>Delay\<close> a tick taken more than five milliseconds late moves the schedule to one period after that moment; under \<open>Skip\<close> every tick
  stays a multiple of the period from the start and the one after a late tick lies ahead of the clock.
\<close>

theorem interval_schedule:
  assumes "interval_at start period = Inr iv"
    and "interval_run (set_missed_tick_behavior iv behavior) polls = Inr (iv', ticks)"
    and "list_all (\<lambda>(now, now4). now \<le> now4) polls"
  shows "list_all (\<lambda>(t, now). t \<le> now) ticks \<and>
         sorted_wrt (\<lambda>t t'. t + period \<le> t') (map fst ticks) \<and>
         (case behavior of
            Burst \<Rightarrow> map fst ticks = map (\<lambda>k. start + k * period) [0..<length ticks]
          | Delay \<Rightarrow> successively (\<lambda>(t, now) (t', _). t' = (if now \<le> t + 5000000 then t else now) + period) ticks
          | Skip \<Rightarrow> list_all (\<lambda>(t, _). \<exists>k. t = start + k * period) ticks \<and>
              successively (\<lambda>(t, now) (t', _). now < t' \<or> now \<le> t + 5000000) ticks)"
proof -
  have iv: "iv_period iv = period" "sl_deadline (iv_delay iv) = start" "interval_ready (set_missed_tick_behavior iv behavior)"
    using assms(1) by (auto simp: interval_at_def interval_ready_def set_missed_tick_behavior_def sleep_new_def
        timer_state_default_def split: if_splits)
  obtain ds now where ds: "ticks @ [(sl_deadline (iv_delay iv'), 0)] = (start, now) # ds"
    and follows: "successively (tick_follows behavior period) ((start, now) # ds)"
    using interval_run_follows [OF assms(2) iv(3) assms(3)] iv(1,2) by (auto simp: set_missed_tick_behavior_def)
  have all: "successively (tick_follows behavior period) (ticks @ [(sl_deadline (iv_delay iv'), 0)])"
    using follows ds by simp
  then have run: "successively (tick_follows behavior period) ticks" by (simp add: successively_append_iff)
  have start: "ticks = [] \<or> (\<exists>rest. ticks = (start, now) # rest)" using ds by (cases ticks) auto
  show ?thesis
  proof (intro conjI)
    show "list_all (\<lambda>(t, now). t \<le> now) ticks" by (rule follows_not_early [OF all])
    show "sorted_wrt (\<lambda>t t'. t + period \<le> t') (map fst ticks)" by (rule follows_spaced [OF run])
    show "case behavior of
            Burst \<Rightarrow> map fst ticks = map (\<lambda>k. start + k * period) [0..<length ticks]
          | Delay \<Rightarrow> successively (\<lambda>(t, now) (t', _). t' = (if now \<le> t + 5000000 then t else now) + period) ticks
          | Skip \<Rightarrow> list_all (\<lambda>(t, _). \<exists>k. t = start + k * period) ticks \<and>
              successively (\<lambda>(t, now) (t', _). now < t' \<or> now \<le> t + 5000000) ticks"
    proof (cases behavior)
      case Burst
      with run start show ?thesis using follows_burst [of period "(start, now)"] by fastforce
    next
      case Delay
      with run show ?thesis by (auto elim!: successively_mono)
    next
      case Skip
      with run start have "list_all (\<lambda>(t, _). \<exists>k. t = start + k * period) ticks"
        using follows_skip [of period "(start, now)"] by (fastforce simp: list_all_iff)
      moreover have "successively (\<lambda>(t, now) (t', _). now < t' \<or> now \<le> t + 5000000) ticks"
        using run Skip by (auto elim!: successively_mono)
      ultimately show ?thesis using Skip by simp
    qed
  qed
qed

text \<open>A period of ten milliseconds whose second tick is taken fourteen milliseconds late.\<close>

theorem interval_schedule_witness:
  "\<exists>iv iv' ticks. interval_at 0 10000000 = Inr iv \<and>
     interval_run (set_missed_tick_behavior iv Skip) [(1, 2), (5, 6), (24000000, 24000000), (30000000, 30000001)] = Inr (iv', ticks) \<and>
     ticks = [(0, 2), (10000000, 24000000), (30000000, 30000001)] \<and> sorted_wrt (\<lambda>t t'. t + 10000000 \<le> t') (map fst ticks)"
proof -
  define iv where "iv = \<lparr>iv_delay = sleep_new 0, iv_period = 10000000, iv_missed = Burst\<rparr>"
  let ?polls = "[(1, 2), (5, 6), (24000000, 24000000), (30000000, 30000001)]"
  have at: "interval_at 0 10000000 = Inr iv" by (simp add: interval_at_def iv_def)
  obtain iv' where run: "interval_run (set_missed_tick_behavior iv Skip) ?polls =
      Inr (iv', [(0, 2), (10000000, 24000000), (30000000, 30000001)])"
    by (simp add: iv_def set_missed_tick_behavior_def poll_tick_def sleep_poll_def sleep_callback_def sleep_reset_def sleep_eval
        interval_next_def instant_add_def instant_checked_add_def instant_limit_def)
  show ?thesis using at run interval_schedule [OF at run] by auto
qed

end
