(* ===== verification/Reactor.thy ===== *)
theory Reactor
  imports Io_Read
begin

text \<open>
  Readiness based I/O (\<open>reactor.rs\<close>): the readiness word of a registered descriptor, its waiters, the mask it is monitored with,
  the callback of the loop, and \<open>AsyncFd\<close> with its guards.

  The readiness word is an atomic that is read without a lock and written under the lock of \<open>events\<close>; the waiters have a lock of
  their own. An operation that takes several of these steps is the composition of one definition for each. The outcome
  of \<open>epoll_ctl\<close>, a call into the FFRT library, is an argument, and the calls made are a result.
\<close>

unbundle bit_operations_syntax

section \<open>Events\<close>

definition EPOLLIN :: u32 where "EPOLLIN = 0x001"
definition EPOLLPRI :: u32 where "EPOLLPRI = 0x002"
definition EPOLLOUT :: u32 where "EPOLLOUT = 0x004"
definition EPOLLERR :: u32 where "EPOLLERR = 0x008"
definition EPOLLHUP :: u32 where "EPOLLHUP = 0x010"

definition ERROR_EVENTS :: u32 where "ERROR_EVENTS = EPOLLERR OR EPOLLHUP"

lemmas epoll_defs = EPOLLIN_def EPOLLPRI_def EPOLLOUT_def EPOLLERR_def EPOLLHUP_def ERROR_EVENTS_def

definition pack_readiness :: "u32 \<Rightarrow> u32 \<Rightarrow> u64" where
  "pack_readiness generation ready = push_bit 32 (ucast generation) OR ucast ready"

definition unpack_readiness :: "u64 \<Rightarrow> u32 \<times> u32" where
  "unpack_readiness v = (ucast (drop_bit 32 v), ucast v)"

text \<open>The word holds both halves: packing loses nothing, in either direction.\<close>

lemma bit_u32_high: "\<not> bit (w :: u32) (32 + n)"
  using bit_imp_le_length [of w "32 + n"] by auto

lemma unpack_pack [simp]: "unpack_readiness (pack_readiness g r) = (g, r)"
  unfolding unpack_readiness_def pack_readiness_def
  by (auto intro!: bit_eqI simp: bit_simps bit_u32_high)

lemma pack_unpack: "unpack_readiness v = (g, r) \<Longrightarrow> pack_readiness g r = v"
  unfolding unpack_readiness_def pack_readiness_def
  by (auto intro!: bit_eqI simp: bit_simps)

text \<open>\<open>Interest\<close> and \<open>Ready\<close> are masks.\<close>

type_synonym interest = u32
type_synonym ready = u32

definition interest_is_readable :: "interest \<Rightarrow> bool" where
  "interest_is_readable i \<longleftrightarrow> i AND EPOLLIN \<noteq> 0"

definition interest_is_writable :: "interest \<Rightarrow> bool" where
  "interest_is_writable i \<longleftrightarrow> i AND EPOLLOUT \<noteq> 0"

definition interest_is_error :: "interest \<Rightarrow> bool" where
  "interest_is_error i \<longleftrightarrow> i AND EPOLLERR \<noteq> 0"

definition interest_is_priority :: "interest \<Rightarrow> bool" where
  "interest_is_priority i \<longleftrightarrow> i AND EPOLLPRI \<noteq> 0"

definition interest_add :: "interest \<Rightarrow> interest \<Rightarrow> interest" where
  "interest_add i other = i OR other"

definition interest_remove :: "interest \<Rightarrow> interest \<Rightarrow> interest option" where
  "interest_remove i other = (let i = i AND NOT other in if i \<noteq> 0 then Some i else None)"

definition ready_is_readable :: "ready \<Rightarrow> bool" where
  "ready_is_readable r \<longleftrightarrow> r AND (EPOLLIN OR EPOLLHUP) \<noteq> 0"

definition ready_is_writable :: "ready \<Rightarrow> bool" where
  "ready_is_writable r \<longleftrightarrow> r AND (EPOLLOUT OR EPOLLHUP) \<noteq> 0"

definition ready_sub :: "ready \<Rightarrow> ready \<Rightarrow> ready" where
  "ready_sub r other = r AND NOT other"

section \<open>A registered descriptor\<close>

record scheduled_io =
  io_fd :: int
  io_interest :: interest
  io_readiness :: u64
  io_registered :: bool
  io_events :: u32
  io_token :: nat
  io_readers :: "waker list"
  io_writers :: "waker list"

definition waiters_register :: "waker list \<Rightarrow> waker \<Rightarrow> waker list" where
  "waiters_register waiters waker = (case position (\<lambda>old. will_wake old waker) waiters of
     Some i \<Rightarrow> waiters[i := waker]
   | None \<Rightarrow> waiters @ [waker])"

definition io_ready :: "scheduled_io \<Rightarrow> ready" where
  "io_ready io = snd (unpack_readiness (io_readiness io))"

definition io_generation :: "scheduled_io \<Rightarrow> u32" where
  "io_generation io = fst (unpack_readiness (io_readiness io))"

datatype epoll_op = EpollDel int | EpollAdd int u32 nat

definition desired_events :: "scheduled_io \<Rightarrow> u32" where
  "desired_events io = (if io_ready io AND ERROR_EVENTS \<noteq> 0 then 0 else io_interest io AND NOT (io_ready io))"

definition update_interest :: "scheduled_io \<Rightarrow> bool \<Rightarrow> bool \<Rightarrow> scheduled_io \<times> epoll_op list \<times> unit io_result" where
  "update_interest io del_ok add_ok =
     (let desired = desired_events io in
      if desired = io_events io then (io, [], Inr ())
      else
        (let del = (if io_events io \<noteq> 0 then [EpollDel (io_fd io)] else []);
             failed = (io_events io \<noteq> 0 \<and> \<not> del_ok);
             io = io\<lparr>io_events := 0\<rparr> in
         if failed then (io, del, Inl (OtherError ''failed to remove FFRT fd interest''))
         else if desired \<noteq> 0 then
           (let ops = del @ [EpollAdd (io_fd io) (desired OR ERROR_EVENTS) (io_token io)] in
            if add_ok then (io\<lparr>io_events := desired\<rparr>, ops, Inr ())
            else (io, ops, Inl (OtherError ''failed to register FFRT fd interest'')))
         else (io, del, Inr ())))"

definition record_error :: "scheduled_io \<Rightarrow> scheduled_io" where
  "record_error io = io\<lparr>io_readiness := pack_readiness (io_generation io + 1) (io_ready io OR EPOLLERR)\<rparr>"

text \<open>\<open>wake_ready\<close>: the load of the readiness, and the section that takes the waiters.\<close>

definition wake_ready_take :: "scheduled_io \<Rightarrow> ready \<Rightarrow> scheduled_io \<times> waker list" where
  "wake_ready_take io ready =
     (let rd = (ready AND (EPOLLIN OR EPOLLPRI OR ERROR_EVENTS) \<noteq> 0);
          wr = (ready AND (EPOLLOUT OR ERROR_EVENTS) \<noteq> 0)
      in (io\<lparr>io_readers := (if rd then [] else io_readers io), io_writers := (if wr then [] else io_writers io)\<rparr>,
          (if rd then io_readers io else []) @ (if wr then io_writers io else [])))"

definition wake_ready :: "scheduled_io \<Rightarrow> scheduled_io \<times> waker list" where
  "wake_ready io = wake_ready_take io (io_ready io)"

text \<open>The end of a section that changed the readiness: the mask is updated, and a failure becomes an error readiness.\<close>

definition finish_update :: "scheduled_io \<Rightarrow> bool \<Rightarrow> bool \<Rightarrow> scheduled_io \<times> epoll_op list \<times> bool" where
  "finish_update io del_ok add_ok = (case update_interest io del_ok add_ok of
     (io, ops, Inl _) \<Rightarrow> (record_error io, ops, True)
   | (io, ops, Inr _) \<Rightarrow> (io, ops, False))"

definition callback_store :: "scheduled_io \<Rightarrow> u32 \<Rightarrow> scheduled_io option" where
  "callback_store io events =
     (if \<not> io_registered io then None
      else Some (io\<lparr>io_readiness := pack_readiness (io_generation io + 1) (io_ready io OR events)\<rparr>))"

definition io_callback :: "scheduled_io \<Rightarrow> u32 \<Rightarrow> bool \<Rightarrow> bool \<Rightarrow> scheduled_io \<times> epoll_op list \<times> waker list" where
  "io_callback io events del_ok add_ok = (case callback_store io events of
     None \<Rightarrow> (io, [], [])
   | Some io \<Rightarrow>
       (let (io, ops, _) = finish_update io del_ok add_ok; (io, ws) = wake_ready io in (io, ops, ws)))"

definition io_poll_ready :: "scheduled_io \<Rightarrow> waker \<Rightarrow> interest \<Rightarrow> scheduled_io \<times> (ready \<times> u32) io_result poll" where
  "io_poll_ready io cx i =
     (let ready = io_ready io AND (i OR ERROR_EVENTS) in
      if ready \<noteq> 0 then (io, Ready (Inr (ready, io_generation io)))
      else
        (let io = (if interest_is_readable i \<or> interest_is_priority i \<or> interest_is_error i
                   then io\<lparr>io_readers := waiters_register (io_readers io) cx\<rparr> else io);
             io = (if interest_is_writable i then io\<lparr>io_writers := waiters_register (io_writers io) cx\<rparr> else io)
         in (io, Pending)))"

definition clear_store :: "scheduled_io \<Rightarrow> ready \<Rightarrow> u32 \<Rightarrow> scheduled_io option" where
  "clear_store io ready generation =
     (if \<not> io_registered io then None
      else if io_generation io \<noteq> generation then None
      else Some (io\<lparr>io_readiness := pack_readiness generation (io_ready io AND NOT ready)\<rparr>))"

definition io_clear_ready :: "scheduled_io \<Rightarrow> ready \<Rightarrow> u32 \<Rightarrow> bool \<Rightarrow> bool \<Rightarrow> scheduled_io \<times> epoll_op list \<times> waker list" where
  "io_clear_ready io ready generation del_ok add_ok = (case clear_store io ready generation of
     None \<Rightarrow> (io, [], [])
   | Some io \<Rightarrow>
       (let (io, ops, failed) = finish_update io del_ok add_ok;
            (io, ws) = (if failed then wake_ready io else (io, []))
        in (io, ops, ws)))"

definition io_deregister :: "scheduled_io \<Rightarrow> scheduled_io \<times> epoll_op list" where
  "io_deregister io =
     (if \<not> io_registered io then (io, [])
      else (io\<lparr>io_registered := False, io_events := 0\<rparr>, if io_events io \<noteq> 0 then [EpollDel (io_fd io)] else []))"

section \<open>The registry\<close>

text \<open>
  The registry of tokens. The code maps a token to a weak reference to its descriptor; here a descriptor knows its token and the
  callback is its effect on one live descriptor.
\<close>

record reactor =
  rx_next :: nat
  rx_registrations :: "nat set"

definition next_token :: "reactor \<Rightarrow> (reactor \<times> nat) panicky" where
  "next_token rx = (case usize_checked_add (rx_next rx) 1 of
     None \<Rightarrow> Inl ''FFRT I/O registration identifiers exhausted''
   | Some n \<Rightarrow> Inr (rx\<lparr>rx_next := n\<rparr>, rx_next rx))"

definition io_new :: "int \<Rightarrow> interest \<Rightarrow> nat \<Rightarrow> scheduled_io" where
  "io_new fd i token = \<lparr>io_fd = fd, io_interest = i, io_readiness = 0, io_registered = True, io_events = 0, io_token = token,
     io_readers = [], io_writers = []\<rparr>"

definition rx_deregister :: "reactor \<Rightarrow> scheduled_io \<Rightarrow> reactor \<times> scheduled_io \<times> epoll_op list" where
  "rx_deregister rx io =
     (let (io', ops) = io_deregister io
      in (if io_registered io then rx\<lparr>rx_registrations := rx_registrations rx - {io_token io}\<rparr> else rx, io', ops))"

definition rx_register :: "reactor \<Rightarrow> int \<Rightarrow> interest \<Rightarrow> bool \<Rightarrow> (reactor \<times> epoll_op list \<times> scheduled_io io_result) panicky" where
  "rx_register rx fd i add_ok =
     (if fd < 0 \<or> i = 0 then Inr (rx, [], Inl (InvalidInput ''AsyncFd requires a valid fd and non-empty interest''))
      else (case next_token rx of
        Inl e \<Rightarrow> Inl e
      | Inr (rx, token) \<Rightarrow>
          (let io = io_new fd i token;
               (io, ops, result) = update_interest io True add_ok;
               rx = rx\<lparr>rx_registrations := insert token (rx_registrations rx)\<rparr> in
           case result of
             Inr _ \<Rightarrow> Inr (rx, ops, Inr io)
           | Inl error \<Rightarrow> (let (rx, _, ops') = rx_deregister rx io in Inr (rx, ops @ ops', Inl error)))))"

definition readiness_callback ::
  "reactor \<Rightarrow> nat \<Rightarrow> u32 \<Rightarrow> bool \<Rightarrow> bool \<Rightarrow> scheduled_io \<Rightarrow> scheduled_io \<times> epoll_op list \<times> waker list" where
  "readiness_callback rx token events del_ok add_ok io =
     (if token \<in> rx_registrations rx \<and> io_token io = token then io_callback io events del_ok add_ok else (io, [], []))"

section \<open>AsyncFd\<close>

record 'io async_fd =
  afd_io :: "'io option"
  afd_state :: scheduled_io

definition try_with_interest ::
  "('io \<Rightarrow> int) \<Rightarrow> reactor \<Rightarrow> 'io \<Rightarrow> interest \<Rightarrow> bool \<Rightarrow> (reactor \<times> epoll_op list \<times> (('io \<times> io_error) + 'io async_fd)) panicky" where
  "try_with_interest as_raw_fd rx io i add_ok = (case rx_register rx (as_raw_fd io) i add_ok of
     Inl e \<Rightarrow> Inl e
   | Inr (rx, ops, Inr state) \<Rightarrow> Inr (rx, ops, Inr \<lparr>afd_io = Some io, afd_state = state\<rparr>)
   | Inr (rx, ops, Inl error) \<Rightarrow> Inr (rx, ops, Inl (io, error)))"

definition async_fd_get_ref :: "'io async_fd \<Rightarrow> 'io panicky" where
  "async_fd_get_ref fd = (case afd_io fd of None \<Rightarrow> Inl ''AsyncFd inner value missing'' | Some io \<Rightarrow> Inr io)"

definition async_fd_into_inner :: "reactor \<Rightarrow> 'io async_fd \<Rightarrow> (reactor \<times> epoll_op list \<times> 'io) panicky" where
  "async_fd_into_inner rx fd =
     (let (rx, st, ops) = rx_deregister rx (afd_state fd) in
      case afd_io fd of None \<Rightarrow> Inl ''AsyncFd inner value missing'' | Some io \<Rightarrow> Inr (rx, ops, io))"

definition async_fd_drop :: "reactor \<Rightarrow> 'io async_fd \<Rightarrow> reactor \<times> epoll_op list" where
  "async_fd_drop rx fd = (let (rx, st, ops) = rx_deregister rx (afd_state fd) in (rx, ops))"

record ready_guard =
  rg_ready :: ready
  rg_generation :: u32
  rg_cleared :: bool

definition poll_ready_interest :: "'io async_fd \<Rightarrow> waker \<Rightarrow> interest \<Rightarrow> 'io async_fd \<times> ready_guard io_result poll" where
  "poll_ready_interest fd cx i =
     (let (st, res) = io_poll_ready (afd_state fd) cx i
      in (fd\<lparr>afd_state := st\<rparr>,
          map_poll (map_sum (\<lambda>e. e) (\<lambda>(ready, generation). \<lparr>rg_ready = ready, rg_generation = generation, rg_cleared = False\<rparr>)) res))"

definition guard_clear_ready ::
  "'io async_fd \<Rightarrow> ready_guard \<Rightarrow> bool \<Rightarrow> bool \<Rightarrow> 'io async_fd \<times> ready_guard \<times> epoll_op list \<times> waker list" where
  "guard_clear_ready fd g del_ok add_ok =
     (let (st, ops, ws) = io_clear_ready (afd_state fd) (rg_ready g) (rg_generation g) del_ok add_ok
      in (fd\<lparr>afd_state := st\<rparr>, g\<lparr>rg_cleared := True\<rparr>, ops, ws))"

datatype try_io_error = TryIoError

text \<open>The operation \<open>f\<close> works on the object; it may change it.\<close>

definition guard_try_io ::
  "('io \<Rightarrow> 'io \<times> 'r io_result) \<Rightarrow> 'io async_fd \<Rightarrow> ready_guard \<Rightarrow> bool \<Rightarrow> bool \<Rightarrow>
   ('io async_fd \<times> ready_guard \<times> (try_io_error + 'r io_result) \<times> waker list) panicky" where
  "guard_try_io f fd g del_ok add_ok = (case async_fd_get_ref fd of
     Inl e \<Rightarrow> Inl e
   | Inr io \<Rightarrow> (case f io of
       (io, Inl WouldBlock) \<Rightarrow>
         (let (fd, g, ops, ws) = guard_clear_ready (fd\<lparr>afd_io := Some io\<rparr>) g del_ok add_ok in Inr (fd, g, Inl TryIoError, ws))
     | (io, result) \<Rightarrow> Inr (fd\<lparr>afd_io := Some io\<rparr>, g, Inr result, [])))"

definition async_fd_try_io ::
  "('io \<Rightarrow> 'io \<times> 'r io_result) \<Rightarrow> 'io async_fd \<Rightarrow> interest \<Rightarrow> bool \<Rightarrow> bool \<Rightarrow> ('io async_fd \<times> 'r io_result \<times> waker list) panicky" where
  "async_fd_try_io f fd i del_ok add_ok =
     (let generation = io_generation (afd_state fd); ready = io_ready (afd_state fd) AND (i OR ERROR_EVENTS) in
      if ready = 0 then Inr (fd, Inl WouldBlock, [])
      else (case async_fd_get_ref fd of
        Inl e \<Rightarrow> Inl e
      | Inr io \<Rightarrow> (case f io of
          (io, Inl WouldBlock) \<Rightarrow>
            (let (st, ops, ws) = io_clear_ready (afd_state fd) ready generation del_ok add_ok
             in Inr (fd\<lparr>afd_io := Some io, afd_state := st\<rparr>, Inl WouldBlock, ws))
        | (io, result) \<Rightarrow> Inr (fd\<lparr>afd_io := Some io\<rparr>, result, []))))"

text \<open>One poll of \<open>async_io\<close>. The loop may run again for as long as the descriptor becomes ready in between, so it has fuel.\<close>

fun async_io_poll ::
  "nat \<Rightarrow> ('io \<Rightarrow> 'io \<times> 'r io_result) \<Rightarrow> 'io async_fd \<Rightarrow> interest \<Rightarrow> waker \<Rightarrow> bool \<Rightarrow> bool \<Rightarrow>
   ('io async_fd \<times> 'r io_result poll) panicky option" where
  "async_io_poll 0 f fd i cx del_ok add_ok = None"
| "async_io_poll (Suc fuel) f fd i cx del_ok add_ok = (case poll_ready_interest fd cx i of
     (fd, Pending) \<Rightarrow> Some (Inr (fd, Pending))
   | (fd, Ready (Inl error)) \<Rightarrow> Some (Inr (fd, Ready (Inl error)))
   | (fd, Ready (Inr g)) \<Rightarrow> (case guard_try_io f fd g del_ok add_ok of
       Inl e \<Rightarrow> Some (Inl e)
     | Inr (fd, g, Inr result, ws) \<Rightarrow> Some (Inr (fd, Ready result))
     | Inr (fd, g, Inl _, ws) \<Rightarrow> async_io_poll fuel f fd i cx del_ok add_ok))"

section \<open>Masks\<close>

text \<open>Masks are disjoint from a union when they are from its parts.\<close>

lemma and_or_zero: "a AND (b OR c) = 0 \<longleftrightarrow> a AND b = 0 \<and> a AND c = 0" for a b c :: u32
  by (simp add: bit.conj_disj_distrib or_eq_0_iff)

lemma and_nonzero_parts: "(r AND i) AND m \<noteq> 0 \<Longrightarrow> r AND m \<noteq> 0 \<and> i AND m \<noteq> 0" for r i m :: u32
proof -
  have "(r AND i) AND m = i AND (r AND m)" "(r AND i) AND m = r AND (i AND m)" by (simp_all only: ac_simps)
  then show "(r AND i) AND m \<noteq> 0 \<Longrightarrow> r AND m \<noteq> 0 \<and> i AND m \<noteq> 0" by auto
qed

lemma and_split: "b = (a AND b) OR (NOT a AND b)" for a b :: u32
  by (rule bit_eqI) (auto simp: bit_simps)

lemma and_not_zero: "a AND b = 0 \<Longrightarrow> NOT a AND b = b" for a b :: u32
  using and_split [of b a] by simp

definition interest_valid :: "interest \<Rightarrow> bool" where
  "interest_valid i \<longleftrightarrow> i \<noteq> 0 \<and> i AND NOT (EPOLLIN OR EPOLLPRI OR EPOLLOUT OR EPOLLERR) = 0"

text \<open>The interests that can be built: the four constants, and what the operations make of them.\<close>

lemma interest_valid_consts:
  "interest_valid EPOLLIN" "interest_valid EPOLLPRI" "interest_valid EPOLLOUT" "interest_valid EPOLLERR"
  by (simp_all add: interest_valid_def epoll_defs)

lemma interest_valid_add: "interest_valid i \<Longrightarrow> interest_valid j \<Longrightarrow> interest_valid (interest_add i j)"
  by (auto simp: interest_valid_def interest_add_def bit.conj_disj_distrib2 or_eq_0_iff)

lemma interest_valid_remove: "interest_valid i \<Longrightarrow> interest_remove i j = Some k \<Longrightarrow> interest_valid k"
  unfolding interest_valid_def interest_remove_def Let_def using and_nonzero_parts [of i "NOT j"]
  by (auto simp del: bit.de_Morgan_disj split: if_splits)

text \<open>A readiness that an interest waits for makes \<open>wake_ready\<close> take the list that the interest registers in.\<close>

definition waits_reader :: "interest \<Rightarrow> bool" where
  "waits_reader i \<longleftrightarrow> interest_is_readable i \<or> interest_is_priority i \<or> interest_is_error i"

lemmas interest_tests = waits_reader_def interest_is_readable_def interest_is_priority_def interest_is_error_def interest_is_writable_def

lemma interest_valid_meets:
  assumes "interest_valid i" "m AND i \<noteq> 0"
  shows "(m AND i) AND EPOLLIN \<noteq> 0 \<or> (m AND i) AND EPOLLPRI \<noteq> 0 \<or> (m AND i) AND EPOLLOUT \<noteq> 0 \<or> (m AND i) AND EPOLLERR \<noteq> 0"
proof (rule ccontr)
  define mask where "mask = EPOLLIN OR EPOLLPRI OR EPOLLOUT OR EPOLLERR"
  assume "\<not> ?thesis"
  then have "mask AND (m AND i) = 0" unfolding mask_def and.commute [of _ "m AND i"] by (simp add: and_or_zero)
  then have "NOT mask AND (m AND i) = m AND i" by (rule and_not_zero)
  moreover have "i AND NOT mask = 0" using assms(1) by (simp add: interest_valid_def mask_def)
  ultimately show False using assms(2) by (metis and.commute and.left_commute and_zero_eq)
qed

lemma interest_waits: "interest_valid i \<Longrightarrow> waits_reader i \<or> interest_is_writable i"
  using interest_valid_meets [of i "- 1"] by (auto simp: interest_valid_def interest_tests)

lemma ready_reaches_list:
  assumes "r AND (i OR ERROR_EVENTS) \<noteq> 0" "interest_valid i"
  shows "waits_reader i \<and> r AND (EPOLLIN OR EPOLLPRI OR ERROR_EVENTS) \<noteq> 0 \<or>
         interest_is_writable i \<and> r AND (EPOLLOUT OR ERROR_EVENTS) \<noteq> 0"
proof (cases "r AND ERROR_EVENTS = 0")
  case True
  with assms(1) have "r AND i \<noteq> 0" by (simp add: and_or_zero)
  from interest_valid_meets [OF assms(2) this] True show ?thesis
    by (auto dest!: and_nonzero_parts simp: and_or_zero interest_tests ERROR_EVENTS_def)
next
  case False
  then show ?thesis using interest_waits [OF assms(2)] by (simp add: and_or_zero)
qed

text \<open>An interest that is not ready and that the descriptor was registered for is monitored.\<close>

lemma desired_covers:
  assumes "io_ready io AND (i OR ERROR_EVENTS) = 0" "i AND io_interest io = i"
  shows "desired_events io AND i = i"
proof -
  have "io_ready io AND i = 0" using assms(1) by (simp add: and_or_zero)
  then have "NOT (io_ready io) AND i = i" by (rule and_not_zero)
  moreover have "io_ready io AND ERROR_EVENTS = 0" using assms(1) by (simp add: and_or_zero)
  moreover have "io_interest io AND i = i" using assms(2) by (simp add: and.commute)
  ultimately show ?thesis by (simp add: desired_events_def and.assoc)
qed

section \<open>Tokens\<close>

text \<open>A token that has left the registry stays out of it: a callback that was fetched before the removal finds nothing, whatever is registered later.\<close>

definition token_dead :: "reactor \<Rightarrow> nat \<Rightarrow> bool" where
  "token_dead rx token \<longleftrightarrow> token < rx_next rx \<and> token \<notin> rx_registrations rx"

lemma rx_deregister_dead:
  "rx_deregister rx io = (rx', io', ops) \<Longrightarrow> io_registered io \<Longrightarrow> io_token io < rx_next rx \<Longrightarrow> token_dead rx' (io_token io)"
  by (auto simp: rx_deregister_def token_dead_def split: prod.splits)

lemma rx_deregister_keeps_dead: "rx_deregister rx io = (rx', io', ops) \<Longrightarrow> token_dead rx token \<Longrightarrow> token_dead rx' token"
  by (auto simp: rx_deregister_def token_dead_def split: prod.splits if_splits)

lemma rx_register_keeps_dead:
  "rx_register rx fd i ok = Inr (rx', ops, res) \<Longrightarrow> token_dead rx token \<Longrightarrow> token_dead rx' token"
  by (auto simp: rx_register_def next_token_def usize_checked_add_def token_dead_def rx_deregister_def Let_def
      split: if_splits prod.splits sum.splits)

lemma dead_token_no_callback: "token_dead rx token \<Longrightarrow> readiness_callback rx token events d a io = (io, [], [])"
  by (simp add: readiness_callback_def token_dead_def)

section \<open>Waiting for readiness\<close>

text \<open>
  One registered descriptor under concurrent use. \<open>rs_section\<close> is the holder of the lock of \<open>events\<close>, between the store of the readiness and
  the update of the mask; \<open>rs_wakes\<close> are the calls of \<open>wake_ready\<close> under way, with the readiness they loaded, if they have;
  \<open>rs_parked\<close> are the tasks that wait, with their interests; \<open>rs_guards\<close> are the observations handed out, each with the
  number of events before it; \<open>rs_epoll\<close> is the mask the loop monitors. The loop may call back with any events at any time.
  A descriptor is deregistered when nobody borrows it, so when nobody waits.
\<close>

datatype io_section = Free | InCallback | InClear

record reactor_sys =
  rs_io :: scheduled_io
  rs_section :: io_section
  rs_wakes :: "ready option list"
  rs_parked :: "(waker \<times> interest) list"
  rs_guards :: "(ready \<times> u32 \<times> nat) list"
  rs_count :: nat
  rs_epoll :: "u32 option"

fun epoll_apply :: "bool \<Rightarrow> bool \<Rightarrow> epoll_op list \<Rightarrow> u32 option \<Rightarrow> u32 option" where
  "epoll_apply d a [] m = m"
| "epoll_apply d a (EpollDel _ # ops) m = epoll_apply d a ops (if d then None else m)"
| "epoll_apply d a (EpollAdd _ ev _ # ops) m = epoll_apply d a ops (if a then Some ev else m)"

definition woken :: "waker list \<Rightarrow> (waker \<times> interest) list \<Rightarrow> (waker \<times> interest) list" where
  "woken ws parked = filter (\<lambda>(w, i). w \<notin> set ws) parked"

inductive rs_step :: "reactor_sys \<Rightarrow> reactor_sys \<Rightarrow> bool" where
  callback: "rs_section s = Free \<Longrightarrow> callback_store (rs_io s) events = Some io \<Longrightarrow>
    rs_step s (s\<lparr>rs_io := io, rs_section := InCallback, rs_count := rs_count s + 1\<rparr>)"
| callback_end: "rs_section s = InCallback \<Longrightarrow> finish_update (rs_io s) d a = (io, ops, failed) \<Longrightarrow>
    rs_step s (s\<lparr>rs_io := io, rs_section := Free, rs_wakes := None # rs_wakes s,
      rs_count := rs_count s + (if failed then 1 else 0), rs_epoll := epoll_apply d a ops (rs_epoll s)\<rparr>)"
| wake_load: "rs_wakes s = xs @ None # ys \<Longrightarrow> rs_step s (s\<lparr>rs_wakes := xs @ Some (io_ready (rs_io s)) # ys\<rparr>)"
| wake_take: "rs_wakes s = xs @ Some r # ys \<Longrightarrow> wake_ready_take (rs_io s) r = (io, ws) \<Longrightarrow>
    rs_step s (s\<lparr>rs_io := io, rs_wakes := xs @ ys, rs_parked := woken ws (rs_parked s)\<rparr>)"
| poll_ready: "interest_valid i \<Longrightarrow> io_registered (rs_io s) \<Longrightarrow> io_poll_ready (rs_io s) cx i = (io, Ready (Inr (r, g))) \<Longrightarrow>
    rs_step s (s\<lparr>rs_io := io, rs_guards := (r, g, rs_count s) # rs_guards s\<rparr>)"
| poll_pending: "interest_valid i \<Longrightarrow> io_registered (rs_io s) \<Longrightarrow> io_poll_ready (rs_io s) cx i = (io, Pending) \<Longrightarrow>
    rs_step s (s\<lparr>rs_io := io, rs_parked := (cx, i) # rs_parked s\<rparr>)"
| cancel: "rs_step s (s\<lparr>rs_parked := filter P (rs_parked s)\<rparr>)"
| clear: "rs_section s = Free \<Longrightarrow> (r, g, c) \<in> set (rs_guards s) \<Longrightarrow> clear_store (rs_io s) r g = Some io \<Longrightarrow>
    rs_step s (s\<lparr>rs_io := io, rs_section := InClear\<rparr>)"
| clear_end: "rs_section s = InClear \<Longrightarrow> finish_update (rs_io s) d a = (io, ops, failed) \<Longrightarrow>
    rs_step s (s\<lparr>rs_io := io, rs_section := Free, rs_wakes := (if failed then None # rs_wakes s else rs_wakes s),
      rs_count := rs_count s + (if failed then 1 else 0), rs_epoll := epoll_apply d a ops (rs_epoll s)\<rparr>)"
| deregister: "rs_section s = Free \<Longrightarrow> rs_parked s = [] \<Longrightarrow> io_deregister (rs_io s) = (io, ops) \<Longrightarrow>
    rs_step s (s\<lparr>rs_io := io, rs_epoll := epoll_apply d True ops (rs_epoll s)\<rparr>)"

inductive rs_reach :: "reactor_sys \<Rightarrow> bool" where
  start: "rx_register rx fd i True = Inr (rx', ops, Inr io) \<Longrightarrow>
    rs_reach \<lparr>rs_io = io, rs_section = Free, rs_wakes = [], rs_parked = [], rs_guards = [], rs_count = 0,
      rs_epoll = epoll_apply True True ops None\<rparr>"
| step: "rs_reach s \<Longrightarrow> rs_step s s' \<Longrightarrow> rs_reach s'"

text \<open>What keeps a parked task from being forgotten: a wake-up under way that will see the readiness it waits for.\<close>

definition wake_due :: "reactor_sys \<Rightarrow> ready \<Rightarrow> bool" where
  "wake_due s m \<longleftrightarrow> rs_section s = InCallback \<or> (\<exists>w\<in>set (rs_wakes s). case w of None \<Rightarrow> True | Some r \<Rightarrow> r AND m \<noteq> 0)"

definition parked_inv :: "reactor_sys \<Rightarrow> bool" where
  "parked_inv s \<longleftrightarrow> (\<forall>(w, i)\<in>set (rs_parked s).
     interest_valid i \<and> io_registered (rs_io s) \<and>
     (waits_reader i \<longrightarrow> w \<in> set (io_readers (rs_io s))) \<and> (interest_is_writable i \<longrightarrow> w \<in> set (io_writers (rs_io s))) \<and>
     (io_ready (rs_io s) AND (i OR ERROR_EVENTS) \<noteq> 0 \<longrightarrow> wake_due s (i OR ERROR_EVENTS)))"

definition armed_inv :: "reactor_sys \<Rightarrow> bool" where
  "armed_inv s \<longleftrightarrow>
     (rs_section s = Free \<and> io_registered (rs_io s) \<longrightarrow> io_events (rs_io s) = desired_events (rs_io s)) \<and>
     (rs_section s \<noteq> Free \<longrightarrow> io_registered (rs_io s)) \<and>
     (io_events (rs_io s) \<noteq> 0 \<longrightarrow> rs_epoll s = Some (io_events (rs_io s) OR ERROR_EVENTS))"

definition count_inv :: "reactor_sys \<Rightarrow> bool" where
  "count_inv s \<longleftrightarrow> io_generation (rs_io s) = of_nat (rs_count s) \<and>
     (\<forall>(r, g, c)\<in>set (rs_guards s). g = of_nat c \<and> c \<le> rs_count s)"

text \<open>The end of a section: what it leaves alone, what it makes of the readiness, and that the mask is the desired one.\<close>

lemma or_err: "(r OR EPOLLERR) AND ERROR_EVENTS \<noteq> 0" for r :: u32
proof -
  have "EPOLLERR AND ERROR_EVENTS \<noteq> 0" by (simp add: epoll_defs)
  then show ?thesis by (simp add: bit.conj_disj_distrib2 or_eq_0_iff)
qed

lemma update_interest_cases:
  assumes "update_interest io d a = (io', ops, res)"
  obtains "res = Inr ()" "io' = io\<lparr>io_events := desired_events io\<rparr>"
    "desired_events io \<noteq> 0 \<longrightarrow> io_events io = desired_events io \<and> ops = [] \<or> epoll_apply d a ops m = Some (desired_events io OR ERROR_EVENTS)"
  | e where "res = Inl e" "io' = io\<lparr>io_events := 0\<rparr>"
  using assms that unfolding update_interest_def Let_def by (auto split: if_splits)

lemma finish_update_same:
  assumes "finish_update io d a = (io', ops, failed)"
  shows "io_readers io' = io_readers io" "io_writers io' = io_writers io" "io_registered io' = io_registered io"
    "io_interest io' = io_interest io"
    "io_ready io' = (if failed then io_ready io OR EPOLLERR else io_ready io)"
    "io_generation io' = (if failed then io_generation io + 1 else io_generation io)"
    "io_events io' = desired_events io'"
  using assms or_err [of "io_ready io"]
  by (auto simp: finish_update_def record_error_def io_ready_def io_generation_def desired_events_def
      elim!: update_interest_cases split: prod.splits sum.splits)

lemma finish_update_epoll:
  assumes "finish_update io d a = (io', ops, failed)" "io_events io \<noteq> 0 \<longrightarrow> m = Some (io_events io OR ERROR_EVENTS)" "io_events io' \<noteq> 0"
  shows "epoll_apply d a ops m = Some (io_events io' OR ERROR_EVENTS)"
  using assms
  by (auto simp: finish_update_def record_error_def elim!: update_interest_cases [where m = m] split: prod.splits sum.splits)

lemma set_waiters_register [simp]: "set (waiters_register ws w) = insert w (set ws)"
proof (cases "position (\<lambda>old. will_wake old w) ws")
  case (Some i)
  then show ?thesis using position_SomeD [OF Some] by (simp add: waiters_register_def will_wake_def) (metis insert_absorb list_update_id nth_mem)
qed (simp add: waiters_register_def del: position_None)

lemma armed_step: "rs_step s s' \<Longrightarrow> armed_inv s \<Longrightarrow> armed_inv s'"
proof (induction rule: rs_step.induct)
  case (callback s events io)
  then show ?case by (auto simp: armed_inv_def callback_store_def split: if_splits)
next
  case (callback_end s d a io ops failed)
  then show ?case using finish_update_same [OF callback_end(2)] finish_update_epoll [OF callback_end(2)]
    by (simp add: armed_inv_def)
next
  case (wake_load s xs ys)
  then show ?case by (simp add: armed_inv_def)
next
  case (wake_take s xs r ys io ws)
  then show ?case by (auto simp: armed_inv_def wake_ready_take_def Let_def desired_events_def io_ready_def)
next
  case (poll_ready i s cx io r g)
  then show ?case by (auto simp: armed_inv_def io_poll_ready_def Let_def desired_events_def io_ready_def split: if_splits)
next
  case (poll_pending i s cx io)
  then show ?case by (auto simp: armed_inv_def io_poll_ready_def Let_def desired_events_def io_ready_def split: if_splits)
next
  case (cancel s P)
  then show ?case by (simp add: armed_inv_def)
next
  case (clear s r g c io)
  then show ?case by (auto simp: armed_inv_def clear_store_def split: if_splits)
next
  case (clear_end s d a io ops failed)
  then show ?case using finish_update_same [OF clear_end(2)] finish_update_epoll [OF clear_end(2)]
    by (simp add: armed_inv_def)
next
  case (deregister s io ops d)
  then show ?case by (auto simp: armed_inv_def io_deregister_def split: if_splits)
qed

lemma count_step: "rs_step s s' \<Longrightarrow> count_inv s \<Longrightarrow> count_inv s'"
proof (induction rule: rs_step.induct)
  case (callback_end s d a io ops failed)
  then show ?case using finish_update_same(6) [OF callback_end(2)] by (auto simp: count_inv_def)
next
  case (clear_end s d a io ops failed)
  then show ?case using finish_update_same(6) [OF clear_end(2)] by (auto simp: count_inv_def)
qed (auto simp: count_inv_def callback_store_def wake_ready_take_def io_poll_ready_def clear_store_def io_deregister_def
    io_generation_def Let_def split: if_splits)

lemma wake_take_parked:
  assumes "wake_ready_take io r = (io', ws)" "(w, i) \<in> set (woken ws parked)" "interest_valid i"
    "waits_reader i \<longrightarrow> w \<in> set (io_readers io)" "interest_is_writable i \<longrightarrow> w \<in> set (io_writers io)"
  shows "(w, i) \<in> set parked" "r AND (i OR ERROR_EVENTS) = 0" "waits_reader i \<longrightarrow> w \<in> set (io_readers io')"
    "interest_is_writable i \<longrightarrow> w \<in> set (io_writers io')"
proof -
  show "(w, i) \<in> set parked" using assms(2) by (simp add: woken_def)
  have out: "w \<notin> set ws" using assms(2) by (simp add: woken_def)
  show "r AND (i OR ERROR_EVENTS) = 0"
  proof (rule ccontr)
    assume "r AND (i OR ERROR_EVENTS) \<noteq> 0"
    from ready_reaches_list [OF this assms(3)] assms(1,4,5) out show False
      by (auto simp: wake_ready_take_def Let_def)
  qed
  show "waits_reader i \<longrightarrow> w \<in> set (io_readers io')" "interest_is_writable i \<longrightarrow> w \<in> set (io_writers io')"
    using assms(1,4,5) out by (auto simp: wake_ready_take_def Let_def split: if_splits)
qed

lemma parked_step_wake:
  assumes "rs_wakes s = xs @ Some r # ys" "wake_ready_take (rs_io s) r = (io, ws)" "parked_inv s"
  shows "parked_inv (s\<lparr>rs_io := io, rs_wakes := xs @ ys, rs_parked := woken ws (rs_parked s)\<rparr>)"
  unfolding parked_inv_def
proof (clarsimp, goal_cases)
  case (1 w i)
  then have "(w, i) \<in> set (rs_parked s)" by (simp add: woken_def)
  with assms(3) have old: "interest_valid i" "io_registered (rs_io s)" "waits_reader i \<longrightarrow> w \<in> set (io_readers (rs_io s))"
    "interest_is_writable i \<longrightarrow> w \<in> set (io_writers (rs_io s))"
    "io_ready (rs_io s) AND (i OR ERROR_EVENTS) \<noteq> 0 \<longrightarrow> wake_due s (i OR ERROR_EVENTS)"
    by (auto simp: parked_inv_def)
  note now = wake_take_parked [OF assms(2) 1 old(1,3,4)]
  have same: "io_ready io = io_ready (rs_io s)" "io_registered io = io_registered (rs_io s)"
    using assms(2) by (auto simp: wake_ready_take_def io_ready_def Let_def)
  show ?case using old now assms(1) unfolding same by (auto simp: wake_due_def)
qed

lemma parked_step: "rs_step s s' \<Longrightarrow> parked_inv s \<Longrightarrow> parked_inv s'"
proof (induction rule: rs_step.induct)
  case (callback s events io)
  then show ?case by (auto simp: parked_inv_def callback_store_def wake_due_def split: if_splits)
next
  case (callback_end s d a io ops failed)
  then show ?case using finish_update_same [OF callback_end(2)] by (auto simp: parked_inv_def wake_due_def)
next
  case (wake_load s xs ys)
  then show ?case by (fastforce simp: parked_inv_def wake_due_def)
next
  case (wake_take s xs r ys io ws)
  then show ?case by (rule parked_step_wake)
next
  case (poll_ready i s cx io r g)
  then show ?case by (auto simp: parked_inv_def io_poll_ready_def wake_due_def Let_def split: if_splits)
next
  case (poll_pending i s cx io)
  then show ?case
    by (auto simp: parked_inv_def io_poll_ready_def wake_due_def waits_reader_def io_ready_def Let_def split: if_splits)
next
  case (cancel s P)
  then show ?case by (auto simp: parked_inv_def wake_due_def)
next
  case (clear s r g c io)
  then have io: "io_ready io = io_ready (rs_io s) AND NOT r" "io_readers io = io_readers (rs_io s)"
    "io_writers io = io_writers (rs_io s)" "io_registered io = io_registered (rs_io s)"
    by (auto simp: clear_store_def io_ready_def split: if_splits)
  then show ?case using clear by (auto simp: parked_inv_def wake_due_def dest!: and_nonzero_parts)
next
  case (clear_end s d a io ops failed)
  then show ?case using finish_update_same [OF clear_end(2)] by (auto simp: parked_inv_def wake_due_def)
next
  case (deregister s io ops d)
  then show ?case by (simp add: parked_inv_def)
qed

lemma rx_register_new:
  assumes "rx_register rx fd i True = Inr (rx', ops, Inr io)"
  shows "io = (io_new fd i (rx_next rx))\<lparr>io_events := i\<rparr>" "ops = [EpollAdd fd (i OR ERROR_EVENTS) (rx_next rx)]"
  using assms
  by (auto simp: rx_register_def next_token_def usize_checked_add_def update_interest_def desired_events_def io_new_def io_ready_def
      unpack_readiness_def Let_def split: if_splits)

lemma rs_reach_inv: "rs_reach s \<Longrightarrow> armed_inv s \<and> count_inv s \<and> parked_inv s"
proof (induction rule: rs_reach.induct)
  case (start rx fd i rx' ops io)
  then show ?case unfolding rx_register_new [OF start]
    by (simp add: armed_inv_def count_inv_def parked_inv_def io_new_def desired_events_def io_ready_def io_generation_def
        unpack_readiness_def)
next
  case (step s s')
  then show ?case using armed_step count_step parked_step by blast
qed

lemma u32_of_nat_stale: "c < n \<Longrightarrow> n < c + 2 ^ 32 \<Longrightarrow> (of_nat n :: u32) \<noteq> of_nat c"
  using word_of_nat_eq_0_iff [of "n - c", where 'a = 32] by (auto simp: of_nat_diff dest: dvd_imp_le)

text \<open>C33: No readiness is lost. Under every interleaving of callbacks, polls, clears, failing \<open>epoll_ctl\<close> calls and cancelled waits, whenever no
  section and no wake-up is under way, a task that still waits is waiting for something that is not ready, its waker is registered, and
  the loop monitors the descriptor for what the task waits for and for errors. And a guard that is older than the last event
  clears nothing, so the readiness that came after it stays (unless the 32-bit generation has wrapped around).\<close>

theorem reactor_no_lost_readiness:
  assumes "rs_reach s"
  shows "(rs_section s = Free \<and> rs_wakes s = [] \<and> (w, i) \<in> set (rs_parked s) \<longrightarrow>
            io_ready (rs_io s) AND (i OR ERROR_EVENTS) = 0 \<and>
            (w \<in> set (io_readers (rs_io s)) \<or> w \<in> set (io_writers (rs_io s))) \<and>
            (i AND io_interest (rs_io s) = i \<longrightarrow> (\<exists>m. rs_epoll s = Some m \<and> m AND (i OR ERROR_EVENTS) = i OR ERROR_EVENTS))) \<and>
         ((r, g, c) \<in> set (rs_guards s) \<and> c < rs_count s \<and> rs_count s < c + 2 ^ 32 \<longrightarrow> clear_store (rs_io s) r g = None)"
proof (intro conjI impI; (elim conjE)?)
  note inv = rs_reach_inv [OF assms]
  {
    assume idle: "rs_section s = Free" "rs_wakes s = []" and "(w, i) \<in> set (rs_parked s)"
    then have p: "interest_valid i" "io_registered (rs_io s)" "io_ready (rs_io s) AND (i OR ERROR_EVENTS) = 0"
      "waits_reader i \<longrightarrow> w \<in> set (io_readers (rs_io s))" "interest_is_writable i \<longrightarrow> w \<in> set (io_writers (rs_io s))"
      using inv by (auto simp: parked_inv_def wake_due_def)
    then show "io_ready (rs_io s) AND (i OR ERROR_EVENTS) = 0" by blast
    show "w \<in> set (io_readers (rs_io s)) \<or> w \<in> set (io_writers (rs_io s))" using p interest_waits by blast
    assume "i AND io_interest (rs_io s) = i"
    from desired_covers [OF p(3) this] have covers: "desired_events (rs_io s) AND i = i" .
    with p(1) have "desired_events (rs_io s) \<noteq> 0" by (auto simp: interest_valid_def)
    with inv idle p(2) have "rs_epoll s = Some (desired_events (rs_io s) OR ERROR_EVENTS)" by (simp add: armed_inv_def)
    then show "\<exists>m. rs_epoll s = Some m \<and> m AND (i OR ERROR_EVENTS) = i OR ERROR_EVENTS"
      using covers by (simp add: bit.disj_conj_distrib2 [symmetric])
  next
    assume "(r, g, c) \<in> set (rs_guards s)" "c < rs_count s" "rs_count s < c + 2 ^ 32"
    with inv show "clear_store (rs_io s) r g = None"
      using u32_of_nat_stale by (fastforce simp: count_inv_def clear_store_def)
  }
qed

text \<open>A descriptor that one task reads from, at rest.\<close>

definition rs_example_io :: scheduled_io where
  "rs_example_io = (io_new 3 (EPOLLIN OR EPOLLOUT) 1)\<lparr>io_events := EPOLLIN OR EPOLLOUT\<rparr>"

definition rs_example :: reactor_sys where
  "rs_example = \<lparr>rs_io = rs_example_io\<lparr>io_readers := [7]\<rparr>, rs_section = Free, rs_wakes = [], rs_parked = [(7, EPOLLIN)], rs_guards = [],
     rs_count = 0, rs_epoll = Some (EPOLLIN OR EPOLLOUT OR ERROR_EVENTS)\<rparr>"

lemma rs_example_reach: "rs_reach rs_example"
proof -
  let ?s0 = "rs_example\<lparr>rs_io := rs_example_io, rs_parked := []\<rparr>"
  have "rx_register \<lparr>rx_next = 1, rx_registrations = {}\<rparr> 3 (EPOLLIN OR EPOLLOUT) True =
      Inr (\<lparr>rx_next = 2, rx_registrations = {1}\<rparr>, [EpollAdd 3 (EPOLLIN OR EPOLLOUT OR ERROR_EVENTS) 1], Inr rs_example_io)"
    by (simp add: rx_register_def next_token_def usize_checked_add_def usize_max_def update_interest_def desired_events_def
        rs_example_io_def io_new_def io_ready_def unpack_readiness_def epoll_defs)
  from rs_reach.start [OF this] have "rs_reach ?s0" by (simp add: rs_example_def)
  moreover have "rs_step ?s0 rs_example"
    using rs_step.poll_pending [OF interest_valid_consts(1), of ?s0 7 "rs_example_io\<lparr>io_readers := [7]\<rparr>"]
    by (simp add: rs_example_def rs_example_io_def io_new_def io_poll_ready_def io_ready_def unpack_readiness_def
        interest_tests waiters_register_def epoll_defs)
  ultimately show ?thesis by (rule rs_reach.step)
qed

theorem reactor_no_lost_readiness_witness:
  "rs_reach rs_example \<and> (\<exists>m. rs_epoll rs_example = Some m \<and> m AND (EPOLLIN OR ERROR_EVENTS) = EPOLLIN OR ERROR_EVENTS)"
  using reactor_no_lost_readiness [OF rs_example_reach, of 7 EPOLLIN] rs_example_reach
  by (simp add: rs_example_def rs_example_io_def io_new_def bit.conj_disj_distrib)

section \<open>Retrying\<close>

text \<open>
  When \<open>epoll_ctl\<close> works, a poll of \<open>async_io\<close> goes round at most twice: an operation that would block clears what was observed, and
  the next round waits.
\<close>

lemma clear_observed:
  assumes "io_poll_ready io cx i = (io, Ready (Inr (r, g)))" "io_registered io"
  shows "\<exists>io' ops. io_clear_ready io r g True True = (io', ops, []) \<and> io_registered io' \<and>
         io_ready io' AND (i OR ERROR_EVENTS) = 0"
proof -
  from assms have r: "r = io_ready io AND (i OR ERROR_EVENTS)" "g = io_generation io"
    by (auto simp: io_poll_ready_def Let_def split: if_splits)
  let ?io = "io\<lparr>io_readiness := pack_readiness g (io_ready io AND NOT r)\<rparr>"
  obtain io' ops failed where f: "finish_update ?io True True = (io', ops, failed)" by (metis prod_cases3)
  have "\<not> failed" using f by (auto simp: finish_update_def update_interest_def Let_def split: if_splits)
  moreover have "(io_ready io AND NOT r) AND (i OR ERROR_EVENTS) = 0"
  proof -
    have "(x AND NOT (x AND m)) AND m = 0" for x m :: u32 by (rule bit_eqI) (auto simp: bit_simps)
    then show ?thesis unfolding r by blast
  qed
  ultimately show ?thesis using finish_update_same [OF f] f assms(2) r(2)
    by (auto simp: io_clear_ready_def clear_store_def io_ready_def)
qed

lemma async_io_poll_ends:
  assumes "io_registered (afd_state fd)" "afd_io fd = Some io"
  shows "\<exists>fd' res. async_io_poll (Suc (Suc fuel)) f fd i cx True True = Some (Inr (fd', res))"
proof (cases "io_ready (afd_state fd) AND (i OR ERROR_EVENTS) = 0")
  case True
  then show ?thesis by (simp add: poll_ready_interest_def io_poll_ready_def Let_def)
next
  case False
  then have p: "io_poll_ready (afd_state fd) cx i =
      (afd_state fd, Ready (Inr (io_ready (afd_state fd) AND (i OR ERROR_EVENTS), io_generation (afd_state fd))))"
    by (simp add: io_poll_ready_def)
  from clear_observed [OF p assms(1)] obtain st ops where
    st: "io_clear_ready (afd_state fd) (io_ready (afd_state fd) AND (i OR ERROR_EVENTS)) (io_generation (afd_state fd)) True True =
        (st, ops, [])" "io_ready st AND (i OR ERROR_EVENTS) = 0" by blast
  obtain io' res where f: "f io = (io', res)" by fastforce
  then show ?thesis using p st assms(2)
    by (auto simp: poll_ready_interest_def guard_try_io_def async_fd_get_ref_def guard_clear_ready_def io_poll_ready_def Let_def
        split: sum.split io_error.split)
qed

end
