(* ===== verification/Task_Runtime.thy ===== *)
theory Task_Runtime
  imports Oneshot
begin

text \<open>
  Spawned tasks (\<open>runtime/inner_runtime.rs\<close>, \<open>runtime/waker.rs\<close>, \<open>runtime/error.rs\<close>): the waker of a worker that blocks on a condition
  variable, the cancellation state that a task shares with its handles, the loop that polls a future, and \<open>JoinHandle\<close> over
  the oneshot channel.

  The future is not part of the model: a poll is its outcome. A task is a sequence of steps, each of them one access to a shared cell or one section
  under a lock, so that aborts, wake-ups and joins interleave with all of them.
\<close>

section \<open>Errors\<close>

datatype 'p join_error_kind = JoinCancelled | JoinPanic 'p | JoinOther string

record 'p task_join_error =
  je_id :: u64
  je_kind :: "'p join_error_kind"

type_synonym ('p, 'a) join_result = "'p task_join_error + 'a"

definition join_cancelled :: "u64 \<Rightarrow> 'p task_join_error" where
  "join_cancelled i = \<lparr>je_id = i, je_kind = JoinCancelled\<rparr>"

definition join_panic :: "u64 \<Rightarrow> 'p \<Rightarrow> 'p task_join_error" where
  "join_panic i payload = \<lparr>je_id = i, je_kind = JoinPanic payload\<rparr>"

definition join_other :: "u64 \<Rightarrow> string \<Rightarrow> 'p task_join_error" where
  "join_other i message = \<lparr>je_id = i, je_kind = JoinOther message\<rparr>"

definition je_is_cancelled :: "'p task_join_error \<Rightarrow> bool" where
  "je_is_cancelled e \<longleftrightarrow> (case je_kind e of JoinCancelled \<Rightarrow> True | _ \<Rightarrow> False)"

definition je_is_panic :: "'p task_join_error \<Rightarrow> bool" where
  "je_is_panic e \<longleftrightarrow> (case je_kind e of JoinPanic _ \<Rightarrow> True | _ \<Rightarrow> False)"

definition try_into_panic :: "'p task_join_error \<Rightarrow> 'p task_join_error + 'p" where
  "try_into_panic e = (case je_kind e of JoinPanic payload \<Rightarrow> Inr payload | _ \<Rightarrow> Inl e)"

definition into_panic :: "'p task_join_error \<Rightarrow> 'p panicky" where
  "into_panic e = (case try_into_panic e of Inr payload \<Rightarrow> Inr payload | Inl _ \<Rightarrow> Inl ''JoinError reason is not a panic'')"

text \<open>A payload is a string, of either kind, or something else.\<close>

datatype panic_payload = StaticStr string | OwnedString string | OtherPayload

fun panic_message :: "panic_payload \<Rightarrow> string" where
  "panic_message (StaticStr message) = message"
| "panic_message (OwnedString message) = message"
| "panic_message OtherPayload = ''task panicked with a non-string payload''"

datatype runtime_error = RtCancelled | RtPanicked string | RtTimeout | RtOther string

definition runtime_error_from :: "panic_payload task_join_error \<Rightarrow> runtime_error" where
  "runtime_error_from e = (case je_kind e of
     JoinCancelled \<Rightarrow> RtCancelled
   | JoinPanic payload \<Rightarrow> RtPanicked (panic_message payload)
   | JoinOther message \<Rightarrow> RtOther message)"

definition rt_is_cancelled :: "runtime_error \<Rightarrow> bool" where
  "rt_is_cancelled e \<longleftrightarrow> (case e of RtCancelled \<Rightarrow> True | _ \<Rightarrow> False)"

definition rt_is_panic :: "runtime_error \<Rightarrow> bool" where
  "rt_is_panic e \<longleftrightarrow> (case e of RtPanicked _ \<Rightarrow> True | _ \<Rightarrow> False)"

lemma runtime_error_from_kind:
  "rt_is_cancelled (runtime_error_from e) = je_is_cancelled e" "rt_is_panic (runtime_error_from e) = je_is_panic e"
  by (simp_all add: runtime_error_from_def rt_is_cancelled_def rt_is_panic_def je_is_cancelled_def je_is_panic_def
      split: join_error_kind.split)

section \<open>The waker of a worker\<close>

record waker_state =
  ws_woken :: bool

definition ws_new :: waker_state where
  "ws_new = \<lparr>ws_woken = False\<rparr>"

definition ws_wake :: "waker_state \<Rightarrow> waker_state" where
  "ws_wake s = s\<lparr>ws_woken := True\<rparr>"

definition reset_woken :: "waker_state \<Rightarrow> waker_state" where
  "reset_woken s = s\<lparr>ws_woken := False\<rparr>"

text \<open>\<open>wait\<close>: it returns at once when the flag is set (\<open>True\<close>) and otherwise blocks on the condition, and what it does when that returns.\<close>

definition ws_wait_begin :: "waker_state \<Rightarrow> waker_state \<times> bool" where
  "ws_wait_begin s = (if ws_woken s then (s\<lparr>ws_woken := False\<rparr>, True) else (s, False))"

definition ws_wait_end :: "waker_state \<Rightarrow> waker_state" where
  "ws_wait_end s = s\<lparr>ws_woken := False\<rparr>"

section \<open>The cancellation state\<close>

record task_globals =
  tg_next_id :: u64
  tg_active :: u64

record cancellation_state =
  cs_cancelled :: bool
  cs_finished :: bool
  cs_waker :: "waker option"
  cs_id :: u64

definition id_next :: "task_globals \<Rightarrow> task_globals \<times> u64" where
  "id_next g = (g\<lparr>tg_next_id := tg_next_id g + 1\<rparr>, tg_next_id g)"

definition cs_new :: "task_globals \<Rightarrow> task_globals \<times> cancellation_state" where
  "cs_new g =
     (let g = g\<lparr>tg_active := tg_active g + 1\<rparr>; (g, i) = id_next g
      in (g, \<lparr>cs_cancelled = False, cs_finished = False, cs_waker = None, cs_id = i\<rparr>))"

definition abort_store :: "cancellation_state \<Rightarrow> cancellation_state" where
  "abort_store s = s\<lparr>cs_cancelled := True\<rparr>"

definition abort_take :: "cancellation_state \<Rightarrow> cancellation_state \<times> waker list" where
  "abort_take s = (s\<lparr>cs_waker := None\<rparr>, olist (cs_waker s))"

definition cs_abort :: "cancellation_state \<Rightarrow> cancellation_state \<times> waker list" where
  "cs_abort s = abort_take (abort_store s)"

definition cs_register :: "cancellation_state \<Rightarrow> waker \<Rightarrow> cancellation_state" where
  "cs_register s waker =
     (if (case cs_waker s of None \<Rightarrow> True | Some registered \<Rightarrow> \<not> will_wake registered waker) then s\<lparr>cs_waker := Some waker\<rparr> else s)"

definition finish_swap :: "task_globals \<Rightarrow> cancellation_state \<Rightarrow> task_globals \<times> cancellation_state" where
  "finish_swap g s = (if cs_finished s then g else g\<lparr>tg_active := tg_active g - 1\<rparr>, s\<lparr>cs_finished := True\<rparr>)"

definition finish_take :: "cancellation_state \<Rightarrow> cancellation_state" where
  "finish_take s = s\<lparr>cs_waker := None\<rparr>"

definition cs_finish :: "task_globals \<Rightarrow> cancellation_state \<Rightarrow> task_globals \<times> cancellation_state" where
  "cs_finish g s = (let (g, s) = finish_swap g s in (g, finish_take s))"

lemma cs_finish_eq: "cs_finish g s = (if cs_finished s then g else g\<lparr>tg_active := tg_active g - 1\<rparr>, s\<lparr>cs_finished := True, cs_waker := None\<rparr>)"
  by (simp add: cs_finish_def finish_swap_def finish_take_def)

definition cs_drop :: "task_globals \<Rightarrow> cancellation_state \<Rightarrow> task_globals" where
  "cs_drop g s = (if cs_finished s then g else g\<lparr>tg_active := tg_active g - 1\<rparr>)"

definition num_alive_tasks :: "task_globals \<Rightarrow> u64" where
  "num_alive_tasks g = tg_active g"

text \<open>Whether a task finishes or is dropped before, the count of alive tasks goes up and down by one.\<close>

lemma alive_tasks_balanced:
  assumes "cs_new g = (g1, s)"
  shows "num_alive_tasks g1 = num_alive_tasks g + 1"
    "tg_active g2 = tg_active g1 \<Longrightarrow> num_alive_tasks (cs_drop g2 s) = num_alive_tasks g"
    "tg_active g2 = tg_active g1 \<Longrightarrow> cs_finish g2 s = (g3, s3) \<Longrightarrow> num_alive_tasks (cs_drop g3 s3) = num_alive_tasks g"
    "tg_active g2 = tg_active g1 \<Longrightarrow> cs_finish g2 s = (g3, s3) \<Longrightarrow> cs_finish g3 s3 = (g3, s3)"
  using assms by (auto simp: cs_new_def id_next_def cs_finish_eq cs_drop_def num_alive_tasks_def)

section \<open>Polling\<close>

text \<open>What a poll of the future, or the blocking closure, comes to.\<close>

datatype ('p, 'a) outcome = Completes 'a | Suspends | Panics 'p

text \<open>
  \<open>poll_blocking\<close>: the future is polled until it completes. \<open>env\<close> is what the other tasks do to the future while the thread waits.
  It runs for as long as the future does, so it has fuel.
\<close>

fun poll_blocking :: "nat \<Rightarrow> ('f \<Rightarrow> 'f \<times> 'a poll) \<Rightarrow> ('f \<Rightarrow> 'f) \<Rightarrow> 'f \<Rightarrow> 'a option" where
  "poll_blocking 0 poll env future = None"
| "poll_blocking (Suc fuel) poll env future = (case poll future of
     (_, Ready v) \<Rightarrow> Some v
   | (future, Pending) \<Rightarrow> poll_blocking fuel poll env (env future))"

text \<open>Where the runner of a task is, and its moves.\<close>

datatype ('p, 'a) runner =
  Submitted | Checking | Polling | Rechecking | Waiting | Blocked | Signalled
| Returned "('p, 'a) join_result" | Finishing "('p, 'a) join_result" | Published "('p, 'a) join_result" | Ended "('p, 'a) join_result"

definition poll_once_start :: "cancellation_state \<Rightarrow> waker \<Rightarrow> cancellation_state \<times> ('p, 'a) runner" where
  "poll_once_start cs waker = (cs_register cs waker, Checking)"

definition poll_once_check :: "cancellation_state \<Rightarrow> ('p, 'a) runner" where
  "poll_once_check cs = (if cs_cancelled cs then Returned (Inl (join_cancelled (cs_id cs))) else Polling)"

text \<open>A panic of the future unwinds to \<open>spawn_task\<close>, which turns it into an error.\<close>

fun poll_once_poll :: "u64 \<Rightarrow> ('p, 'a) outcome \<Rightarrow> ('p, 'a) runner" where
  "poll_once_poll i (Completes v) = Returned (Inr v)"
| "poll_once_poll i Suspends = Rechecking"
| "poll_once_poll i (Panics p) = Returned (Inl (join_panic i p))"

definition poll_once_recheck :: "cancellation_state \<Rightarrow> ('p, 'a) runner" where
  "poll_once_recheck cs = (if cs_cancelled cs then Returned (Inl (join_cancelled (cs_id cs))) else Waiting)"

definition poll_once_wait :: "waker_state \<Rightarrow> waker_state \<times> ('p, 'a) runner" where
  "poll_once_wait ws = (let (ws, now) = ws_wait_begin ws in (ws, if now then Checking else Blocked))"

definition poll_once_resume :: "waker_state \<Rightarrow> waker_state \<times> ('p, 'a) runner" where
  "poll_once_resume ws = (ws_wait_end ws, Checking)"

text \<open>A wake-up signals the condition: it releases a blocked runner.\<close>

definition runner_wake :: "waker_state \<Rightarrow> ('p, 'a) runner \<Rightarrow> waker_state \<times> ('p, 'a) runner" where
  "runner_wake ws pc = (ws_wake ws, case pc of Blocked \<Rightarrow> Signalled | _ \<Rightarrow> pc)"

text \<open>A blocking closure is cancelled only before it starts.\<close>

definition blocking_start :: "cancellation_state \<Rightarrow> ('p, 'a) runner" where
  "blocking_start cs = (if cs_cancelled cs then Returned (Inl (join_cancelled (cs_id cs))) else Polling)"

text \<open>The end of both: the state is finished, its waker removed, and then the result is sent.\<close>

definition runner_finish :: "task_globals \<Rightarrow> cancellation_state \<Rightarrow> ('p, 'a) join_result \<Rightarrow> task_globals \<times> cancellation_state \<times> ('p, 'a) runner" where
  "runner_finish g cs r = (let (g, cs) = finish_swap g cs in (g, cs, Finishing r))"

definition runner_forget :: "cancellation_state \<Rightarrow> ('p, 'a) join_result \<Rightarrow> cancellation_state \<times> ('p, 'a) runner" where
  "runner_forget cs r = (finish_take cs, Published r)"

definition runner_send ::
  "('p, 'a) join_result os_inner \<Rightarrow> ('p, 'a) join_result \<Rightarrow> ('p, 'a) join_result os_inner \<times> ('p, 'a) runner \<times> waker list" where
  "runner_send ch r = (let (ch, _, ws, _) = os_send ch True r in (ch, Ended r, ws))"

section \<open>Joining\<close>

definition join_handle_poll ::
  "('p, 'a) join_result os_inner \<Rightarrow> bool \<Rightarrow> u64 \<Rightarrow> waker \<Rightarrow> ('p, 'a) join_result os_inner \<times> bool \<times> ('p, 'a) join_result poll" where
  "join_handle_poll ch rx i cx = (case os_recv_poll ch rx cx of
     (ch, rx, Ready (Inr out)) \<Rightarrow> (ch, rx, Ready out)
   | (ch, rx, Ready (Inl _)) \<Rightarrow> (ch, rx, Ready (Inl (join_other i ''task result channel closed'')))
   | (ch, rx, Pending) \<Rightarrow> (ch, rx, Pending))"

text \<open>\<open>JoinFuture\<close> gives up the handle when it completes.\<close>

definition join_future_poll ::
  "('p, 'a) join_result os_inner \<Rightarrow> (bool \<times> u64) option \<Rightarrow> waker \<Rightarrow>
   (('p, 'a) join_result os_inner \<times> (bool \<times> u64) option \<times> ('p, 'a) join_result poll) panicky" where
  "join_future_poll ch handle cx = (case handle of
     None \<Rightarrow> Inl ''JoinFuture polled after completion''
   | Some (rx, i) \<Rightarrow> (case os_recv_poll ch rx cx of
       (ch, rx, Ready (Inr out)) \<Rightarrow> Inr (ch, None, Ready out)
     | (ch, rx, Ready (Inl _)) \<Rightarrow> Inr (ch, None, Ready (Inl (join_other i ''task result channel closed'')))
     | (ch, rx, Pending) \<Rightarrow> Inr (ch, Some (rx, i), Pending)))"

record yield_now =
  yn_yielded :: bool

definition yield_now_poll :: "yield_now \<Rightarrow> waker \<Rightarrow> yield_now \<times> unit poll \<times> waker list" where
  "yield_now_poll y cx = (if yn_yielded y then (y, Ready (), []) else (y\<lparr>yn_yielded := True\<rparr>, Pending, [cx]))"

section \<open>The identifier of the running task\<close>

definition task_id_enter :: "u64 option \<Rightarrow> u64 \<Rightarrow> u64 option \<times> u64 option" where
  "task_id_enter current i = (Some i, current)"

definition task_id_leave :: "u64 option \<Rightarrow> u64 option \<Rightarrow> u64 option" where
  "task_id_leave current previous = previous"

definition current_id :: "u64 option \<Rightarrow> u64 panicky" where
  "current_id current = (case current of None \<Rightarrow> Inl ''task::id() called outside a task'' | Some i \<Rightarrow> Inr i)"

section \<open>The life of a task\<close>

text \<open>
  A task, asynchronous or blocking, with its handles. \<open>tk_aborting\<close> counts the calls of \<open>abort\<close> that have stored the flag and not yet taken
  the waker; \<open>tk_woken\<close> tells whether the waker of the task was called since its last poll began; \<open>tk_outcomes\<close> are the
  outcomes so far, the last one first; \<open>tk_joined\<close> is what the handle returned, and \<open>tk_joiner\<close> who waits for it.
  The waker of the task is \<open>task_waker\<close>. A blocked runner may also wake up without being signalled.
\<close>

definition task_waker :: waker where
  "task_waker = 0"

record ('p, 'a) task_sys =
  tk_globals :: task_globals
  tk_cs :: cancellation_state
  tk_ws :: waker_state
  tk_pc :: "('p, 'a) runner"
  tk_blocking :: bool
  tk_chan :: "('p, 'a) join_result os_inner"
  tk_rx :: bool
  tk_aborting :: nat
  tk_woken :: bool
  tk_outcomes :: "('p, 'a) outcome list"
  tk_joined :: "('p, 'a) join_result option"
  tk_joiner :: "waker option"

inductive tk_step :: "('p, 'a) task_sys \<Rightarrow> ('p, 'a) task_sys \<Rightarrow> bool" where
  start: "tk_pc s = Submitted \<Longrightarrow> \<not> tk_blocking s \<Longrightarrow> poll_once_start (tk_cs s) task_waker = (cs, pc) \<Longrightarrow>
    tk_step s (s\<lparr>tk_cs := cs, tk_pc := pc\<rparr>)"
| start_blocking: "tk_pc s = Submitted \<Longrightarrow> tk_blocking s \<Longrightarrow> tk_step s (s\<lparr>tk_pc := blocking_start (tk_cs s)\<rparr>)"
| check: "tk_pc s = Checking \<Longrightarrow> tk_step s (s\<lparr>tk_pc := poll_once_check (tk_cs s), tk_woken := False\<rparr>)"
| poll: "tk_pc s = Polling \<Longrightarrow> (tk_blocking s \<longrightarrow> out \<noteq> Suspends) \<Longrightarrow>
    tk_step s (s\<lparr>tk_pc := poll_once_poll (cs_id (tk_cs s)) out, tk_outcomes := out # tk_outcomes s\<rparr>)"
| recheck: "tk_pc s = Rechecking \<Longrightarrow> tk_step s (s\<lparr>tk_pc := poll_once_recheck (tk_cs s)\<rparr>)"
| waits: "tk_pc s = Waiting \<Longrightarrow> poll_once_wait (tk_ws s) = (ws, pc) \<Longrightarrow> tk_step s (s\<lparr>tk_ws := ws, tk_pc := pc\<rparr>)"
| resume: "tk_pc s = Blocked \<or> tk_pc s = Signalled \<Longrightarrow> poll_once_resume (tk_ws s) = (ws, pc) \<Longrightarrow>
    tk_step s (s\<lparr>tk_ws := ws, tk_pc := pc\<rparr>)"
| finish: "tk_pc s = Returned r \<Longrightarrow> runner_finish (tk_globals s) (tk_cs s) r = (g, cs, pc) \<Longrightarrow>
    tk_step s (s\<lparr>tk_globals := g, tk_cs := cs, tk_pc := pc\<rparr>)"
| forget: "tk_pc s = Finishing r \<Longrightarrow> runner_forget (tk_cs s) r = (cs, pc) \<Longrightarrow> tk_step s (s\<lparr>tk_cs := cs, tk_pc := pc\<rparr>)"
| send: "tk_pc s = Published r \<Longrightarrow> runner_send (tk_chan s) r = (ch, pc, ws) \<Longrightarrow>
    tk_step s (s\<lparr>tk_chan := ch, tk_pc := pc,
      tk_joiner := (case tk_joiner s of None \<Rightarrow> None | Some w \<Rightarrow> if w \<in> set ws then None else Some w)\<rparr>)"
| wake: "runner_wake (tk_ws s) (tk_pc s) = (ws, pc) \<Longrightarrow> tk_step s (s\<lparr>tk_ws := ws, tk_pc := pc, tk_woken := True\<rparr>)"
| abort_stores: "tk_step s (s\<lparr>tk_cs := abort_store (tk_cs s), tk_aborting := tk_aborting s + 1\<rparr>)"
| abort_takes: "0 < tk_aborting s \<Longrightarrow> abort_take (tk_cs s) = (cs, wakers) \<Longrightarrow>
    (if wakers = [] then (tk_ws s, tk_pc s) else runner_wake (tk_ws s) (tk_pc s)) = (ws, pc) \<Longrightarrow>
    tk_step s (s\<lparr>tk_cs := cs, tk_ws := ws, tk_pc := pc, tk_aborting := tk_aborting s - 1\<rparr>)"
| join: "tk_rx s \<Longrightarrow> tk_joined s = None \<Longrightarrow> join_handle_poll (tk_chan s) True (cs_id (tk_cs s)) w = (ch, rx, res) \<Longrightarrow>
    tk_step s (s\<lparr>tk_chan := ch, tk_rx := rx,
      tk_joined := (case res of Ready r \<Rightarrow> Some r | Pending \<Rightarrow> None), tk_joiner := (case res of Ready _ \<Rightarrow> None | Pending \<Rightarrow> Some w)\<rparr>)"
| detach: "tk_rx s \<Longrightarrow> os_receiver_drop (tk_chan s) True = (ch, ws, b) \<Longrightarrow>
    tk_step s (s\<lparr>tk_chan := ch, tk_rx := False, tk_joiner := None\<rparr>)"

inductive tk_reach :: "task_globals \<Rightarrow> ('p, 'a) task_sys \<Rightarrow> bool" where
  spawn: "cs_new g = (g', cs) \<Longrightarrow>
    tk_reach g \<lparr>tk_globals = g', tk_cs = cs, tk_ws = ws_new, tk_pc = Submitted, tk_blocking = b, tk_chan = os_shared_new, tk_rx = True,
      tk_aborting = 0, tk_woken = False, tk_outcomes = [], tk_joined = None, tk_joiner = None\<rparr>"
| step: "tk_reach g s \<Longrightarrow> tk_step s s' \<Longrightarrow> tk_reach g s'"

text \<open>The parts of the invariant: who wakes the runner, what a result means, and where the result is.\<close>

definition tk_listens :: "('p, 'a) task_sys \<Rightarrow> bool" where
  "tk_listens s \<longleftrightarrow> \<not> tk_blocking s \<and> (\<not> cs_cancelled (tk_cs s) \<longrightarrow> cs_waker (tk_cs s) = Some task_waker)"

definition tk_abort_due :: "('p, 'a) task_sys \<Rightarrow> bool" where
  "tk_abort_due s \<longleftrightarrow> cs_waker (tk_cs s) = Some task_waker \<and> 0 < tk_aborting s"

definition tk_wake_inv :: "('p, 'a) task_sys \<Rightarrow> bool" where
  "tk_wake_inv s \<longleftrightarrow>
     (0 < tk_aborting s \<longrightarrow> cs_cancelled (tk_cs s)) \<and>
     (case tk_pc s of
        Checking \<Rightarrow> tk_listens s
      | Polling \<Rightarrow> tk_blocking s \<or> tk_listens s \<and> (tk_woken s \<longrightarrow> ws_woken (tk_ws s))
      | Rechecking \<Rightarrow> tk_listens s \<and> (tk_woken s \<longrightarrow> ws_woken (tk_ws s))
      | Waiting \<Rightarrow> tk_listens s \<and> (tk_woken s \<longrightarrow> ws_woken (tk_ws s)) \<and>
          (cs_cancelled (tk_cs s) \<longrightarrow> tk_abort_due s \<or> ws_woken (tk_ws s))
      | Blocked \<Rightarrow> tk_listens s \<and> \<not> tk_woken s \<and> (cs_cancelled (tk_cs s) \<longrightarrow> tk_abort_due s)
      | Signalled \<Rightarrow> tk_listens s
      | _ \<Rightarrow> True)"

definition result_ok :: "('p, 'a) task_sys \<Rightarrow> ('p, 'a) join_result \<Rightarrow> bool" where
  "result_ok s r \<longleftrightarrow> (case r of
     Inr v \<Rightarrow> \<exists>outs. tk_outcomes s = Completes v # outs
   | Inl e \<Rightarrow> je_id e = cs_id (tk_cs s) \<and> (case je_kind e of
       JoinCancelled \<Rightarrow> cs_cancelled (tk_cs s) \<and> (tk_blocking s \<longrightarrow> tk_outcomes s = [])
     | JoinPanic p \<Rightarrow> \<exists>outs. tk_outcomes s = Panics p # outs
     | JoinOther _ \<Rightarrow> False))"

definition tk_result_inv :: "('p, 'a) task_sys \<Rightarrow> bool" where
  "tk_result_inv s \<longleftrightarrow>
     (case tk_pc s of
        Returned r \<Rightarrow> result_ok s r \<and> \<not> cs_finished (tk_cs s)
      | Finishing r \<Rightarrow> result_ok s r \<and> cs_finished (tk_cs s)
      | Published r \<Rightarrow> result_ok s r \<and> cs_finished (tk_cs s)
      | Ended r \<Rightarrow> result_ok s r \<and> cs_finished (tk_cs s)
      | _ \<Rightarrow> \<not> cs_finished (tk_cs s) \<and> (tk_blocking s \<longrightarrow> tk_outcomes s = []))"

definition tk_chan_inv :: "('p, 'a) task_sys \<Rightarrow> bool" where
  "tk_chan_inv s \<longleftrightarrow>
     (case tk_pc s of
        Ended r \<Rightarrow> (tk_rx s \<longrightarrow> os_value (tk_chan s) = Some r) \<and> (tk_joined s = None \<or> tk_joined s = Some r \<and> \<not> tk_rx s) \<and> tk_joiner s = None
      | _ \<Rightarrow> os_value (tk_chan s) = None \<and> os_sender_alive (tk_chan s) \<and> tk_joined s = None \<and>
          (\<forall>w. tk_joiner s = Some w \<longrightarrow> tk_rx s \<and> os_recv_waker (tk_chan s) = Some w)) \<and>
     (tk_rx s \<longrightarrow> os_receiver_alive (tk_chan s))"

definition tk_active_inv :: "task_globals \<Rightarrow> ('p, 'a) task_sys \<Rightarrow> bool" where
  "tk_active_inv g s \<longleftrightarrow> num_alive_tasks (tk_globals s) = num_alive_tasks g + (if cs_finished (tk_cs s) then 0 else 1)"

lemmas tk_op_defs = poll_once_start_def blocking_start_def poll_once_check_def poll_once_recheck_def poll_once_wait_def
  poll_once_resume_def runner_finish_def runner_send_def runner_wake_def abort_store_def abort_take_def cs_register_def
  finish_swap_def runner_forget_def finish_take_def ws_wait_begin_def ws_wait_end_def ws_wake_def will_wake_def

lemmas tk_wake_defs = tk_wake_inv_def tk_listens_def tk_abort_due_def

lemma tk_wake_step: "tk_step s s' \<Longrightarrow> tk_wake_inv s \<Longrightarrow> tk_wake_inv s'"
proof (induction rule: tk_step.induct)
  case (start s cs pc)
  then show ?case by (auto simp: tk_wake_defs poll_once_start_def cs_register_def will_wake_def split: option.splits)
next
  case (start_blocking s)
  then show ?case by (auto simp: tk_wake_defs blocking_start_def)
next
  case (check s)
  then show ?case by (auto simp: tk_wake_defs poll_once_check_def)
next
  case (poll s out)
  then show ?case by (cases out) (auto simp: tk_wake_defs)
next
  case (recheck s)
  then show ?case by (auto simp: tk_wake_defs poll_once_recheck_def)
next
  case (waits s ws pc)
  then show ?case by (auto simp: tk_wake_defs poll_once_wait_def ws_wait_begin_def split: if_splits)
next
  case (resume s ws pc)
  then show ?case by (auto simp: tk_wake_defs poll_once_resume_def)
next
  case (finish s r g cs pc)
  then show ?case by (auto simp: tk_wake_defs runner_finish_def finish_swap_def)
next
  case (forget s r cs pc)
  then show ?case by (auto simp: tk_wake_defs runner_forget_def finish_take_def)
next
  case (send s r ch pc ws)
  then show ?case by (auto simp: tk_wake_defs runner_send_def split: prod.splits)
next
  case (wake s ws pc)
  then have eq: "ws = ws_wake (tk_ws s)" "pc = (case tk_pc s of Blocked \<Rightarrow> Signalled | _ \<Rightarrow> tk_pc s)"
    by (simp_all add: runner_wake_def)
  show ?case using wake(2) unfolding eq by (cases "tk_pc s") (auto simp: tk_wake_defs ws_wake_def)
next
  case (abort_stores s)
  then show ?case by (cases "tk_pc s") (auto simp: tk_wake_defs abort_store_def)
next
  case (abort_takes s cs wakers ws pc)
  then have eq: "cs = (tk_cs s)\<lparr>cs_waker := None\<rparr>"
    "ws = (if cs_waker (tk_cs s) = None then tk_ws s else ws_wake (tk_ws s))"
    "pc = (if cs_waker (tk_cs s) = None then tk_pc s else case tk_pc s of Blocked \<Rightarrow> Signalled | _ \<Rightarrow> tk_pc s)"
    by (auto simp: abort_take_def runner_wake_def split: if_splits)
  show ?case using abort_takes(1,4) unfolding eq
    by (cases "tk_pc s"; cases "cs_waker (tk_cs s)") (simp_all add: tk_wake_defs ws_wake_def)
next
  case (join s w ch rx res)
  then show ?case by (cases "tk_pc s") (simp_all add: tk_wake_defs)
next
  case (detach s ch ws b)
  then show ?case by (cases "tk_pc s") (simp_all add: tk_wake_defs)
qed

lemma runner_finish_eq: "runner_finish g cs r = (g', cs', pc) \<Longrightarrow> pc = Finishing r \<and> cs' = cs\<lparr>cs_finished := True\<rparr> \<and>
    tg_active g' = (if cs_finished cs then tg_active g else tg_active g - 1)"
  by (auto simp: runner_finish_def finish_swap_def split: if_splits)

lemma runner_wake_pc: "runner_wake ws pc = (ws', pc') \<Longrightarrow> pc' = (case pc of Blocked \<Rightarrow> Signalled | _ \<Rightarrow> pc)"
  by (simp add: runner_wake_def)

lemma result_ok_mono:
  assumes "result_ok s r" "cs_id (tk_cs s') = cs_id (tk_cs s)" "cs_cancelled (tk_cs s) \<longrightarrow> cs_cancelled (tk_cs s')"
    "tk_blocking s' = tk_blocking s" "tk_outcomes s' = tk_outcomes s"
  shows "result_ok s' r"
  using assms by (auto simp: result_ok_def split: sum.splits join_error_kind.splits)

lemma tk_result_step: "tk_step s s' \<Longrightarrow> tk_wake_inv s \<Longrightarrow> tk_result_inv s \<Longrightarrow> tk_result_inv s'"
proof (induction rule: tk_step.induct)
  case (start s cs pc)
  then show ?case by (auto simp: tk_result_inv_def poll_once_start_def cs_register_def split: if_splits)
next
  case (start_blocking s)
  then show ?case by (auto simp: tk_result_inv_def blocking_start_def result_ok_def join_cancelled_def)
next
  case (check s)
  then show ?case by (auto simp: tk_result_inv_def poll_once_check_def result_ok_def join_cancelled_def tk_wake_defs)
next
  case (poll s out)
  then show ?case by (cases out) (auto simp: tk_result_inv_def result_ok_def join_panic_def tk_wake_defs)
next
  case (recheck s)
  then show ?case by (auto simp: tk_result_inv_def poll_once_recheck_def result_ok_def join_cancelled_def tk_wake_defs)
next
  case (waits s ws pc)
  then show ?case by (auto simp: tk_result_inv_def poll_once_wait_def split: prod.splits if_splits)
next
  case (resume s ws pc)
  then show ?case by (auto simp: tk_result_inv_def poll_once_resume_def)
next
  case (finish s r g cs pc)
  then show ?case using runner_finish_eq [OF finish(2)] by (auto simp: tk_result_inv_def elim!: result_ok_mono)
next
  case (forget s r cs pc)
  then show ?case by (auto simp: tk_result_inv_def runner_forget_def finish_take_def elim!: result_ok_mono)
next
  case (send s r ch pc ws)
  then show ?case by (auto simp: tk_result_inv_def runner_send_def elim!: result_ok_mono split: prod.splits)
next
  case (wake s ws pc)
  show ?case using wake(3) unfolding runner_wake_pc [OF wake(1)]
    by (cases "tk_pc s") (auto simp: tk_result_inv_def elim!: result_ok_mono)
next
  case (abort_stores s)
  then show ?case
    by (cases "tk_pc s") (auto simp: tk_result_inv_def abort_store_def elim!: result_ok_mono)
next
  case (abort_takes s cs wakers ws pc)
  then have eq: "cs = (tk_cs s)\<lparr>cs_waker := None\<rparr>"
    "pc = (if cs_waker (tk_cs s) = None then tk_pc s else case tk_pc s of Blocked \<Rightarrow> Signalled | _ \<Rightarrow> tk_pc s)"
    by (auto simp: abort_take_def runner_wake_def split: if_splits)
  show ?case using abort_takes(5) unfolding eq
    by (cases "tk_pc s"; cases "cs_waker (tk_cs s)") (auto simp: tk_result_inv_def elim!: result_ok_mono)
next
  case (join s w ch rx res)
  then show ?case by (cases "tk_pc s") (auto simp: tk_result_inv_def elim!: result_ok_mono)
next
  case (detach s ch ws b)
  then show ?case by (cases "tk_pc s") (auto simp: tk_result_inv_def elim!: result_ok_mono)
qed

lemma tk_chan_step: "tk_step s s' \<Longrightarrow> tk_chan_inv s \<Longrightarrow> tk_chan_inv s'"
proof (induction rule: tk_step.induct)
  case (start s cs pc)
  then show ?case by (auto simp: tk_chan_inv_def poll_once_start_def)
next
  case (start_blocking s)
  then show ?case by (auto simp: tk_chan_inv_def blocking_start_def)
next
  case (check s)
  then show ?case by (auto simp: tk_chan_inv_def poll_once_check_def)
next
  case (poll s out)
  then show ?case by (cases out) (auto simp: tk_chan_inv_def)
next
  case (recheck s)
  then show ?case by (auto simp: tk_chan_inv_def poll_once_recheck_def)
next
  case (waits s ws pc)
  then show ?case by (auto simp: tk_chan_inv_def poll_once_wait_def split: prod.splits if_splits)
next
  case (resume s ws pc)
  then show ?case by (auto simp: tk_chan_inv_def poll_once_resume_def)
next
  case (finish s r g cs pc)
  then show ?case using runner_finish_eq [OF finish(2)] by (auto simp: tk_chan_inv_def)
next
  case (forget s r cs pc)
  then show ?case by (auto simp: tk_chan_inv_def runner_forget_def)
next
  case (send s r ch pc ws)
  then show ?case by (auto simp: tk_chan_inv_def runner_send_def os_send_def split: if_splits option.splits)
next
  case (wake s ws pc)
  show ?case using wake(2) unfolding runner_wake_pc [OF wake(1)] by (cases "tk_pc s") (simp_all add: tk_chan_inv_def)
next
  case (abort_stores s)
  then show ?case by (cases "tk_pc s") (simp_all add: tk_chan_inv_def)
next
  case (abort_takes s cs wakers ws pc)
  then have "pc = (if wakers = [] then tk_pc s else case tk_pc s of Blocked \<Rightarrow> Signalled | _ \<Rightarrow> tk_pc s)"
    by (auto simp: runner_wake_def split: if_splits)
  then show ?case using abort_takes(4) by (cases "tk_pc s") (simp_all add: tk_chan_inv_def)
next
  case (join s w ch rx res)
  then show ?case
    by (cases "tk_pc s") (auto simp: tk_chan_inv_def join_handle_poll_def os_recv_poll_def split: option.splits if_splits)
next
  case (detach s ch ws b)
  then show ?case by (cases "tk_pc s") (auto simp: tk_chan_inv_def os_receiver_drop_def)
qed

lemma tk_active_step: "tk_step s s' \<Longrightarrow> tk_active_inv g s \<Longrightarrow> tk_active_inv g s'"
proof (induction rule: tk_step.induct)
  case (finish s r g' cs pc)
  then show ?case using runner_finish_eq [OF finish(2)] by (auto simp: tk_active_inv_def num_alive_tasks_def)
qed (auto simp: tk_active_inv_def poll_once_start_def cs_register_def abort_store_def abort_take_def runner_forget_def finish_take_def
    split: if_splits option.splits)

lemma tk_reach_inv: "tk_reach g s \<Longrightarrow> tk_wake_inv s \<and> tk_result_inv s \<and> tk_chan_inv s \<and> tk_active_inv g s"
proof (induction rule: tk_reach.induct)
  case (spawn g g' cs b)
  then show ?case
    by (auto simp: tk_wake_inv_def tk_result_inv_def tk_chan_inv_def tk_active_inv_def num_alive_tasks_def os_shared_new_def cs_new_def
        id_next_def)
next
  case (step g s s')
  then show ?case using tk_wake_step tk_result_step tk_chan_step tk_active_step by blast
qed

text \<open>C34: The life of a spawned task. Under every interleaving of its runner with wake-ups, aborts, joins and the loss of its handle: a
  runner blocks only when its waker was not called since its last poll began, and not for an abort that is complete; what its handle
  returns is the one result the runner ended with, namely the value its last poll completed with, the payload its last
  poll panicked with, or that the task was cancelled, after an \<open>abort\<close> (for a blocking closure, one that came before it
  started), always with the task's own identifier; a task that waits for the result is woken when it is sent; and the
  task counts as alive until its result is about to be sent.\<close>

theorem task_lifecycle:
  assumes "tk_reach g s"
  shows "(tk_pc s = Blocked \<longrightarrow> \<not> tk_woken s \<and> (cs_cancelled (tk_cs s) \<longrightarrow> 0 < tk_aborting s \<and> cs_waker (tk_cs s) = Some task_waker)) \<and>
    (\<forall>r. tk_joined s = Some r \<longrightarrow> tk_pc s = Ended r \<and> (case r of
        Inr v \<Rightarrow> \<exists>outs. tk_outcomes s = Completes v # outs
      | Inl e \<Rightarrow> je_id e = cs_id (tk_cs s) \<and> (case je_kind e of
          JoinCancelled \<Rightarrow> cs_cancelled (tk_cs s) \<and> (tk_blocking s \<longrightarrow> tk_outcomes s = [])
        | JoinPanic p \<Rightarrow> \<exists>outs. tk_outcomes s = Panics p # outs
        | JoinOther _ \<Rightarrow> False))) \<and>
    (\<forall>r. tk_pc s = Ended r \<and> tk_rx s \<longrightarrow> (\<exists>ch. join_handle_poll (tk_chan s) True (cs_id (tk_cs s)) w = (ch, False, Ready r))) \<and>
    (\<forall>w r. tk_joiner s = Some w \<longrightarrow> w \<in> set (snd (snd (runner_send (tk_chan s) r)))) \<and>
    num_alive_tasks (tk_globals s) = num_alive_tasks g + (if cs_finished (tk_cs s) then 0 else 1)"
proof -
  have inv: "tk_wake_inv s" "tk_result_inv s" "tk_chan_inv s" "tk_active_inv g s" using tk_reach_inv [OF assms] by auto
  have ended: "tk_pc s = Ended r" if "tk_joined s = Some r" for r
    using inv(3) that by (cases "tk_pc s") (auto simp: tk_chan_inv_def)
  show ?thesis
  proof (intro conjI allI impI)
    fix r assume "tk_joined s = Some r"
    with ended show "tk_pc s = Ended r" by blast
    then have "result_ok s r" using inv(2) by (simp add: tk_result_inv_def)
    then show "case r of
        Inr v \<Rightarrow> \<exists>outs. tk_outcomes s = Completes v # outs
      | Inl e \<Rightarrow> je_id e = cs_id (tk_cs s) \<and> (case je_kind e of
          JoinCancelled \<Rightarrow> cs_cancelled (tk_cs s) \<and> (tk_blocking s \<longrightarrow> tk_outcomes s = [])
        | JoinPanic p \<Rightarrow> \<exists>outs. tk_outcomes s = Panics p # outs
        | JoinOther _ \<Rightarrow> False)" unfolding result_ok_def .
  next
    fix r assume "tk_pc s = Ended r \<and> tk_rx s"
    with inv(3) show "\<exists>ch. join_handle_poll (tk_chan s) True (cs_id (tk_cs s)) w = (ch, False, Ready r)"
      by (simp add: tk_chan_inv_def join_handle_poll_def os_recv_poll_def)
  next
    fix w r assume "tk_joiner s = Some w"
    with inv(3) show "w \<in> set (snd (snd (runner_send (tk_chan s) r)))"
      by (cases "tk_pc s") (auto simp: tk_chan_inv_def runner_send_def os_send_def)
  qed (use inv(1,4) in \<open>simp_all add: tk_wake_defs tk_active_inv_def\<close>)
qed

text \<open>A task that is polled once and waits; it blocks, and is aborted.\<close>

definition tk_example :: "(unit, nat) task_sys" where
  "tk_example = \<lparr>tk_globals = \<lparr>tg_next_id = 2, tg_active = 1\<rparr>,
     tk_cs = \<lparr>cs_cancelled = False, cs_finished = False, cs_waker = Some task_waker, cs_id = 1\<rparr>, tk_ws = ws_new, tk_pc = Blocked,
     tk_blocking = False, tk_chan = os_shared_new, tk_rx = True, tk_aborting = 0, tk_woken = False, tk_outcomes = [Suspends],
     tk_joined = None, tk_joiner = None\<rparr>"

lemma tk_example_reach: "tk_reach \<lparr>tg_next_id = 1, tg_active = 0\<rparr> tk_example"
proof -
  note d = tk_example_def ws_new_def cs_new_def id_next_def tk_op_defs
  let ?s0 = "tk_example\<lparr>tk_pc := Submitted, tk_cs := (tk_cs tk_example)\<lparr>cs_waker := None\<rparr>, tk_outcomes := []\<rparr>"
  let ?s1 = "tk_example\<lparr>tk_pc := Checking, tk_outcomes := []\<rparr>"
  let ?s2 = "tk_example\<lparr>tk_pc := Polling, tk_outcomes := []\<rparr>"
  let ?s3 = "tk_example\<lparr>tk_pc := Rechecking\<rparr>" and ?s4 = "tk_example\<lparr>tk_pc := Waiting\<rparr>"
  have r0: "tk_reach \<lparr>tg_next_id = 1, tg_active = 0\<rparr> ?s0"
    using tk_reach.spawn [of "\<lparr>tg_next_id = 1, tg_active = 0\<rparr>" "tk_globals ?s0" "tk_cs ?s0" False] by (simp add: d)
  have "tk_step ?s0 ?s1" using tk_step.start [of ?s0 "tk_cs ?s1" Checking] by (simp add: d)
  note r1 = tk_reach.step [OF r0 this]
  have "tk_step ?s1 ?s2" using tk_step.check [of ?s1] by (simp add: d)
  note r2 = tk_reach.step [OF r1 this]
  have "tk_step ?s2 ?s3" using tk_step.poll [of ?s2 Suspends] by (simp add: d)
  note r3 = tk_reach.step [OF r2 this]
  have "tk_step ?s3 ?s4" using tk_step.recheck [of ?s3] by (simp add: d)
  note r4 = tk_reach.step [OF r3 this]
  have "tk_step ?s4 tk_example" using tk_step.waits [of ?s4 "tk_ws tk_example" Blocked] by (simp add: d)
  with r4 show ?thesis by (rule tk_reach.step)
qed

theorem task_lifecycle_witness:
  "tk_reach \<lparr>tg_next_id = 1, tg_active = 0\<rparr> tk_example \<and> tk_pc tk_example = Blocked \<and> \<not> tk_woken tk_example \<and>
   num_alive_tasks (tk_globals tk_example) = 1"
  using task_lifecycle [OF tk_example_reach] tk_example_reach by (simp add: tk_example_def num_alive_tasks_def)

section \<open>Blocking on a future\<close>

text \<open>\<open>poll_blocking\<close> returns as soon as the future completes: with enough fuel, it returns what the first completing poll yields.\<close>

definition future_round :: "('f \<Rightarrow> 'f \<times> 'a poll) \<Rightarrow> ('f \<Rightarrow> 'f) \<Rightarrow> 'f \<Rightarrow> 'f" where
  "future_round poll env f = env (fst (poll f))"

lemma poll_blocking_returns:
  assumes "\<And>k. k < n \<Longrightarrow> snd (poll ((future_round poll env ^^ k) f)) = Pending"
    and "snd (poll ((future_round poll env ^^ n) f)) = Ready v"
  shows "poll_blocking (Suc (n + fuel)) poll env f = Some v"
  using assms
proof (induction n arbitrary: f)
  case 0
  then show ?case by (cases "poll f") auto
next
  case (Suc n)
  obtain f' where p: "poll f = (f', Pending)" using Suc.prems(1) [of 0] by (cases "poll f") auto
  have "poll_blocking (Suc (n + fuel)) poll env (future_round poll env f) = Some v"
  proof (rule Suc.IH)
    show "snd (poll ((future_round poll env ^^ k) (future_round poll env f))) = Pending" if "k < n" for k
      using Suc.prems(1) [of "Suc k"] that by (simp add: funpow_swap1)
    show "snd (poll ((future_round poll env ^^ n) (future_round poll env f))) = Ready v"
      using Suc.prems(2) by (simp add: funpow_swap1)
  qed
  then show ?case using p by (simp add: future_round_def)
qed

end
