(* ===== verification/Join_Set.thy ===== *)
theory Join_Set
  imports Task_Runtime Mpsc
begin

text \<open>
  \<open>JoinSet\<close> (\<open>task/join_set.rs\<close>): a set of tasks whose results arrive on an unbounded channel. Every task has a tracker, which waits for
  the task and sends its identifier and result. An abort handle is the identifier of its task; the operations that abort
  yield the list of the tasks they abort.
\<close>

record ('p, 'v) join_set =
  js_chan :: "(u64 \<times> ('p, 'v) join_result) mp_inner"
  js_pending :: nat
  js_abort_handles :: "u64 list"

definition js_new :: "('p, 'v) join_set" where
  "js_new = \<lparr>js_chan = unbounded_channel, js_pending = 0, js_abort_handles = []\<rparr>"

text \<open>\<open>insert\<close> clones the sender for the tracker, which drops it when it has sent the result.\<close>

definition js_insert :: "('p, 'v) join_set \<Rightarrow> u64 \<Rightarrow> ('p, 'v) join_set panicky" where
  "js_insert js i = (case usize_add (js_pending js) 1 of
     Inl e \<Rightarrow> Inl e
   | Inr pending \<Rightarrow> (case mp_sender_clone (js_chan js) of
       Inl e \<Rightarrow> Inl e
     | Inr ch \<Rightarrow> Inr (js\<lparr>js_abort_handles := js_abort_handles js @ [i], js_pending := pending, js_chan := ch\<rparr>)))"

definition track_task ::
  "(u64 \<times> ('p, 'v) join_result) mp_inner \<Rightarrow> u64 \<Rightarrow> ('p, 'v) join_result \<Rightarrow> ((u64 \<times> ('p, 'v) join_result) mp_inner \<times> waker list) panicky" where
  "track_task ch i out =
     (let (ch, _, ws, _) = unbounded_send ch (i, out) in
      case mp_sender_drop ch of Inl e \<Rightarrow> Inl e | Inr (ch, ws', _) \<Rightarrow> Inr (ch, ws @ ws'))"

definition swap_remove :: "nat \<Rightarrow> 'a list \<Rightarrow> 'a list" where
  "swap_remove i xs = (if Suc i = length xs then butlast xs else (butlast xs)[i := last xs])"

definition remove_abort_handle :: "('p, 'v) join_set \<Rightarrow> u64 \<Rightarrow> ('p, 'v) join_set" where
  "remove_abort_handle js i = (case position (\<lambda>handle. handle = i) (js_abort_handles js) of
     Some p \<Rightarrow> js\<lparr>js_abort_handles := swap_remove p (js_abort_handles js)\<rparr>
   | None \<Rightarrow> js)"

text \<open>The two arms that take a result: \<open>Ok\<close> carries the identifier.\<close>

definition js_take ::
  "('p, 'v) join_set \<Rightarrow> u64 \<Rightarrow> ('p, 'v) join_result \<Rightarrow> (('p, 'v) join_set \<times> ('p, u64 \<times> 'v) join_result) panicky" where
  "js_take js i out = (case usize_sub (js_pending js) 1 of
     Inl e \<Rightarrow> Inl e
   | Inr pending \<Rightarrow> Inr (remove_abort_handle (js\<lparr>js_pending := pending\<rparr>) i, map_sum (\<lambda>e. e) (\<lambda>v. (i, v)) out))"

definition try_join_next_with_id :: "('p, 'v) join_set \<Rightarrow> (('p, 'v) join_set \<times> ('p, u64 \<times> 'v) join_result option) panicky" where
  "try_join_next_with_id js =
     (if js_pending js = 0 then Inr (js, None)
      else (case unbounded_try_recv (js_chan js) of
        (ch, Inr (i, out), ws, b) \<Rightarrow> (case js_take (js\<lparr>js_chan := ch\<rparr>) i out of
          Inl e \<Rightarrow> Inl e
        | Inr (js, out) \<Rightarrow> Inr (js, Some out))
      | (ch, Inl _, ws, b) \<Rightarrow> Inr (js\<lparr>js_chan := ch\<rparr>, None)))"

definition try_join_next :: "('p, 'v) join_set \<Rightarrow> (('p, 'v) join_set \<times> ('p, 'v) join_result option) panicky" where
  "try_join_next js = (case try_join_next_with_id js of
     Inl e \<Rightarrow> Inl e
   | Inr (js, out) \<Rightarrow> Inr (js, map_option (map_sum (\<lambda>e. e) snd) out))"

definition poll_join_next_with_id ::
  "('p, 'v) join_set \<Rightarrow> waker \<Rightarrow> (('p, 'v) join_set \<times> ('p, u64 \<times> 'v) join_result option poll) panicky" where
  "poll_join_next_with_id js cx =
     (if js_pending js = 0 then Inr (js, Ready None)
      else (case poll_recv_shared (js_chan js) cx of
        (ch, Ready (Some (i, out)), ws, b) \<Rightarrow> (case js_take (js\<lparr>js_chan := ch\<rparr>) i out of
          Inl e \<Rightarrow> Inl e
        | Inr (js, out) \<Rightarrow> Inr (js, Ready (Some out)))
      | (ch, Ready None, ws, b) \<Rightarrow> Inr (js\<lparr>js_chan := ch\<rparr>, Ready None)
      | (ch, Pending, ws, b) \<Rightarrow> Inr (js\<lparr>js_chan := ch\<rparr>, Pending)))"

definition poll_join_next :: "('p, 'v) join_set \<Rightarrow> waker \<Rightarrow> (('p, 'v) join_set \<times> ('p, 'v) join_result option poll) panicky" where
  "poll_join_next js cx = (case poll_join_next_with_id js cx of
     Inl e \<Rightarrow> Inl e
   | Inr (js, out) \<Rightarrow> Inr (js, map_poll (map_option (map_sum (\<lambda>e. e) snd)) out))"

definition js_len :: "('p, 'v) join_set \<Rightarrow> nat" where
  "js_len js = js_pending js"

definition js_is_empty :: "('p, 'v) join_set \<Rightarrow> bool" where
  "js_is_empty js \<longleftrightarrow> js_pending js = 0"

definition abort_all :: "('p, 'v) join_set \<Rightarrow> u64 list" where
  "abort_all js = js_abort_handles js"

definition detach_all :: "('p, 'v) join_set \<Rightarrow> ('p, 'v) join_set" where
  "detach_all js = js\<lparr>js_abort_handles := []\<rparr>"

definition js_drop :: "('p, 'v) join_set \<Rightarrow> u64 list" where
  "js_drop js = abort_all js"

text \<open>The loops of \<open>join_all\<close> and \<open>shutdown\<close>: every result they take leaves one task less pending.\<close>

lemma js_take_pending: "js_take js i out = Inr (js', out') \<Longrightarrow> js_pending js' < js_pending js"
  by (auto simp: js_take_def usize_sub_def remove_abort_handle_def split: if_splits option.splits)

lemma poll_join_next_pending: "poll_join_next js cx = Inr (js', Ready (Some out)) \<Longrightarrow> js_pending js' < js_pending js"
  by (auto simp: poll_join_next_def poll_join_next_with_id_def split: sum.splits prod.splits poll.splits option.splits if_splits
      dest!: js_take_pending)

function join_all_poll ::
  "('p, 'v) join_set \<Rightarrow> 'v list \<Rightarrow> waker \<Rightarrow> (('p, 'v) join_set \<times> 'v list \<times> 'v list poll) panicky" where
  "join_all_poll js values cx = (case poll_join_next js cx of
     Inl e \<Rightarrow> Inl e
   | Inr (js, Pending) \<Rightarrow> Inr (js, values, Pending)
   | Inr (js, Ready None) \<Rightarrow> Inr (js, values, Ready values)
   | Inr (js, Ready (Some (Inr v))) \<Rightarrow> join_all_poll js (values @ [v]) cx
   | Inr (js, Ready (Some (Inl e))) \<Rightarrow> Inl ''task failed to join'')"
  by pat_completeness auto
termination
  by (relation "measure (\<lambda>(js, _). js_pending js)") (auto dest!: poll_join_next_pending)

declare join_all_poll.simps [simp del]

function shutdown_poll :: "('p, 'v) join_set \<Rightarrow> waker \<Rightarrow> (('p, 'v) join_set \<times> unit poll) panicky" where
  "shutdown_poll js cx = (case poll_join_next js cx of
     Inl e \<Rightarrow> Inl e
   | Inr (js, Pending) \<Rightarrow> Inr (js, Pending)
   | Inr (js, Ready None) \<Rightarrow> Inr (js, Ready ())
   | Inr (js, Ready (Some _)) \<Rightarrow> shutdown_poll js cx)"
  by pat_completeness auto
termination
  by (relation "measure (\<lambda>(js, _). js_pending js)") (auto dest!: poll_join_next_pending)

declare shutdown_poll.simps [simp del]

section \<open>Spawning and joining\<close>

text \<open>
  A set in use: tasks are inserted under fresh identifiers; trackers of running tasks send results; results are taken by \<open>try_join_next\<close> or
  by polling; and the tasks may be detached. \<open>jx_sent\<close> are the results sent and \<open>jx_returned\<close> those returned, in order.
\<close>

record ('p, 'v) js_sys =
  jx_js :: "('p, 'v) join_set"
  jx_running :: "u64 list"
  jx_spawned :: "u64 list"
  jx_sent :: "(u64 \<times> ('p, 'v) join_result) list"
  jx_returned :: "('p, u64 \<times> 'v) join_result list"
  jx_parked :: "waker option"
  jx_detached :: bool

inductive js_step :: "('p, 'v) js_sys \<Rightarrow> ('p, 'v) js_sys \<Rightarrow> bool" where
  insert: "i \<notin> set (jx_spawned s) \<Longrightarrow> js_insert (jx_js s) i = Inr js \<Longrightarrow>
    js_step s (s\<lparr>jx_js := js, jx_running := jx_running s @ [i], jx_spawned := jx_spawned s @ [i], jx_parked := None\<rparr>)"
| track: "i \<in> set (jx_running s) \<Longrightarrow> track_task (js_chan (jx_js s)) i out = Inr (ch, ws) \<Longrightarrow>
    js_step s (s\<lparr>jx_js := (jx_js s)\<lparr>js_chan := ch\<rparr>, jx_running := remove1 i (jx_running s), jx_sent := jx_sent s @ [(i, out)],
      jx_parked := (case jx_parked s of None \<Rightarrow> None | Some w \<Rightarrow> if w \<in> set ws then None else Some w)\<rparr>)"
| try_join: "try_join_next_with_id (jx_js s) = Inr (js, res) \<Longrightarrow>
    js_step s (s\<lparr>jx_js := js, jx_returned := jx_returned s @ olist res, jx_parked := None\<rparr>)"
| poll_join: "poll_join_next_with_id (jx_js s) w = Inr (js, res) \<Longrightarrow>
    js_step s (s\<lparr>jx_js := js, jx_returned := jx_returned s @ (case res of Ready (Some out) \<Rightarrow> [out] | _ \<Rightarrow> []),
      jx_parked := (case res of Pending \<Rightarrow> Some w | _ \<Rightarrow> None)\<rparr>)"
| detach: "js_step s (s\<lparr>jx_js := detach_all (jx_js s), jx_detached := True\<rparr>)"

inductive js_reach :: "('p, 'v) js_sys \<Rightarrow> bool" where
  start: "js_reach \<lparr>jx_js = js_new, jx_running = [], jx_spawned = [], jx_sent = [], jx_returned = [], jx_parked = None, jx_detached = False\<rparr>"
| step: "js_reach s \<Longrightarrow> js_step s s' \<Longrightarrow> js_reach s'"

definition with_id :: "u64 \<times> ('p, 'v) join_result \<Rightarrow> ('p, u64 \<times> 'v) join_result" where
  "with_id = (\<lambda>(i, out). map_sum (\<lambda>e. e) (\<lambda>v. (i, v)) out)"

definition js_queue :: "('p, 'v) js_sys \<Rightarrow> (u64 \<times> ('p, 'v) join_result) list" where
  "js_queue s = mp_queue (js_chan (jx_js s))"

definition js_inv :: "('p, 'v) js_sys \<Rightarrow> bool" where
  "js_inv s \<longleftrightarrow>
     (\<exists>taken. jx_sent s = taken @ js_queue s \<and> jx_returned s = map with_id taken) \<and>
     js_pending (jx_js s) = length (jx_running s) + length (js_queue s) \<and>
     mp_sender_count (js_chan (jx_js s)) = Suc (length (jx_running s)) \<and>
     mp_receiver_alive (js_chan (jx_js s)) \<and>
     distinct (jx_spawned s) \<and> mset (map fst (jx_sent s)) + mset (jx_running s) = mset (jx_spawned s) \<and>
     (\<not> jx_detached s \<longrightarrow> mset (js_abort_handles (jx_js s)) = mset (jx_running s) + mset (map fst (js_queue s))) \<and>
     mset (js_abort_handles (jx_js s)) \<subseteq># mset (jx_running s) + mset (map fst (js_queue s)) \<and>
     (\<forall>w. jx_parked s = Some w \<longrightarrow> js_queue s = [] \<and> mp_recv_waker (js_chan (jx_js s)) = Some w)"

lemma mset_swap_remove: "i < length xs \<Longrightarrow> mset (swap_remove i xs) = mset xs - {#xs ! i#}"
proof (induction xs rule: rev_induct)
  case (snoc x xs)
  then show ?case
    by (cases "i = length xs") (auto simp: swap_remove_def nth_append mset_update)
qed simp

lemma mset_remove_abort_handle: "mset (js_abort_handles (remove_abort_handle js i)) = mset (js_abort_handles js) - {#i#}"
proof (cases "position (\<lambda>handle. handle = i) (js_abort_handles js)")
  case None
  then show ?thesis by (simp add: remove_abort_handle_def del: position_None) (auto simp: diff_single_trivial)
next
  case (Some p)
  then show ?thesis using position_SomeD [OF Some] by (simp add: remove_abort_handle_def mset_swap_remove)
qed

text \<open>What a join does, by the state of the queue.\<close>

lemma js_take_eq: "0 < js_pending js \<Longrightarrow>
    js_take js i out = Inr (remove_abort_handle (js\<lparr>js_pending := js_pending js - 1\<rparr>) i, with_id (i, out))"
  by (simp add: js_take_def with_id_def)

lemma poll_join_eq:
  assumes "js_pending (jx_js s) \<noteq> 0" "mp_sender_count (js_chan (jx_js s)) \<noteq> 0" "mp_receiver_alive (js_chan (jx_js s))"
  shows "poll_join_next_with_id (jx_js s) w = (case js_queue s of
      (i, out) # q \<Rightarrow> Inr (remove_abort_handle ((jx_js s)\<lparr>js_chan := (js_chan (jx_js s))\<lparr>mp_queue := q, mp_send_wakers := []\<rparr>,
          js_pending := js_pending (jx_js s) - 1\<rparr>) i, Ready (Some (with_id (i, out))))
    | [] \<Rightarrow> Inr ((jx_js s)\<lparr>js_chan := (js_chan (jx_js s))\<lparr>mp_recv_waker := Some w\<rparr>\<rparr>, Pending))"
  using assms
  by (auto simp: poll_join_next_with_id_def poll_recv_shared_def pop_value_def wake_senders_def js_queue_def js_take_eq split: list.split)

lemma try_join_eq:
  assumes "js_pending (jx_js s) \<noteq> 0"
  shows "try_join_next_with_id (jx_js s) = (case js_queue s of
      (i, out) # q \<Rightarrow> Inr (remove_abort_handle ((jx_js s)\<lparr>js_chan := (js_chan (jx_js s))\<lparr>mp_queue := q\<rparr>,
          js_pending := js_pending (jx_js s) - 1\<rparr>) i, Some (with_id (i, out)))
    | [] \<Rightarrow> Inr (jx_js s, None))"
  using assms
  by (auto simp: try_join_next_with_id_def unbounded_try_recv_def unbounded_pop_def js_queue_def js_take_eq split: list.split)

lemma join_nothing_pending:
  "js_pending js = 0 \<Longrightarrow> try_join_next_with_id js = Inr (js, None)"
  "js_pending js = 0 \<Longrightarrow> poll_join_next_with_id js w = Inr (js, Ready None)"
  by (simp_all add: try_join_next_with_id_def poll_join_next_with_id_def)

lemma remove_abort_handle_same [simp]:
  "js_chan (remove_abort_handle js i) = js_chan js" "js_pending (remove_abort_handle js i) = js_pending js"
  by (simp_all add: remove_abort_handle_def split: option.split)

text \<open>Taking the front of the queue keeps the invariant.\<close>

lemma js_inv_take:
  assumes "js_inv s" "js_queue s = (i, out) # q" "mp_queue ch = q"
    "mp_sender_count ch = mp_sender_count (js_chan (jx_js s))" "mp_receiver_alive ch = mp_receiver_alive (js_chan (jx_js s))"
  shows "js_inv (s\<lparr>jx_js := remove_abort_handle ((jx_js s)\<lparr>js_chan := ch, js_pending := js_pending (jx_js s) - 1\<rparr>) i,
    jx_returned := jx_returned s @ [with_id (i, out)], jx_parked := None\<rparr>)"
proof -
  from assms(1,2) obtain taken where "jx_sent s = (taken @ [(i, out)]) @ q" "jx_returned s @ [with_id (i, out)] = map with_id (taken @ [(i, out)])"
    by (auto simp: js_inv_def)
  moreover have "mset (js_abort_handles (jx_js s)) \<subseteq># mset (jx_running s) + mset (map fst (js_queue s))"
    using assms(1) by (simp add: js_inv_def)
  then have "mset (js_abort_handles (jx_js s)) - {#i#} \<subseteq># mset (jx_running s) + mset (map fst q)"
    by (simp add: assms(2) subset_eq_diff_conv)
  ultimately show ?thesis using assms unfolding js_inv_def
    by (auto simp: js_queue_def mset_remove_abort_handle)
qed

lemma js_inv_step: "js_step s s' \<Longrightarrow> js_inv s \<Longrightarrow> js_inv s'"
proof (induction rule: js_step.induct)
  case (insert i s js)
  then show ?case
    by (auto simp: js_inv_def js_insert_def js_queue_def usize_add_def mp_sender_clone_def split: if_splits)
next
  case (track i s out ch ws)
  then have ch: "mp_queue ch = js_queue s @ [(i, out)]" "mp_sender_count ch = mp_sender_count (js_chan (jx_js s)) - 1"
    "mp_receiver_alive ch" "\<forall>w. mp_recv_waker (js_chan (jx_js s)) = Some w \<longrightarrow> w \<in> set ws"
    by (auto simp: js_inv_def track_task_def unbounded_send_def push_value_def mp_sender_drop_def js_queue_def recv_waker_list_def Let_def
        split: if_splits)
  have len: "length (remove1 i (jx_running s)) = length (jx_running s) - 1" "0 < length (jx_running s)"
    using track(1) by (auto simp: length_remove1)
  have "mset (jx_spawned s) = mset (map fst (jx_sent s)) + mset (jx_running s)" using track(3) by (simp add: js_inv_def)
  then have "i \<in># mset (jx_spawned s)" using track(1) by (simp only: union_iff set_mset_mset) blast
  then have spawned: "add_mset i (mset (jx_spawned s) - {#i#}) = mset (jx_spawned s)" by (rule insert_DiffM)
  show ?case using track(1,3) ch len unfolding js_inv_def
    by (auto simp: js_queue_def spawned split: option.splits)
next
  case (try_join s js res)
  show ?case
  proof (cases "js_pending (jx_js s) = 0 \<or> js_queue s = []")
    case True
    then have "js = jx_js s" "res = None"
      using try_join(1) try_join_eq [of s] join_nothing_pending(1) [of "jx_js s"] by (cases "js_pending (jx_js s) = 0"; simp)+
    then show ?thesis using try_join(2) by (simp add: js_inv_def js_queue_def)
  next
    case False
    then obtain i out q where "js_queue s = (i, out) # q" by (cases "js_queue s") auto
    then show ?thesis using js_inv_take [OF try_join(2)] try_join(1) False try_join_eq [of s] by auto
  qed
next
  case (poll_join s w js res)
  then have alive: "mp_sender_count (js_chan (jx_js s)) \<noteq> 0" "mp_receiver_alive (js_chan (jx_js s))" by (auto simp: js_inv_def)
  show ?case
  proof (cases "js_pending (jx_js s) = 0 \<or> js_queue s = []")
    case True
    then have "js = jx_js s \<and> res = Ready None \<or>
        js_queue s = [] \<and> res = Pending \<and> js = (jx_js s)\<lparr>js_chan := (js_chan (jx_js s))\<lparr>mp_recv_waker := Some w\<rparr>\<rparr>"
      using poll_join(1) poll_join_eq [OF _ alive, of w] join_nothing_pending(2) [of "jx_js s" w]
      by (cases "js_pending (jx_js s) = 0") auto
    then show ?thesis using poll_join(2) by (auto simp: js_inv_def js_queue_def)
  next
    case False
    then obtain i out q where "js_queue s = (i, out) # q" by (cases "js_queue s") auto
    then show ?thesis using js_inv_take [OF poll_join(2)] poll_join(1) False poll_join_eq [OF _ alive, of w] by auto
  qed
next
  case (detach s)
  then show ?case by (simp add: js_inv_def js_queue_def detach_all_def)
qed

lemma js_reach_inv: "js_reach s \<Longrightarrow> js_inv s"
proof (induction rule: js_reach.induct)
  case start
  show ?case by (simp add: js_inv_def js_new_def unbounded_channel_def shared_new_def js_queue_def)
next
  case (step s s')
  then show ?case by (blast intro: js_inv_step)
qed

text \<open>C35: A \<open>JoinSet\<close> returns the result of every task exactly once. In every run, the results returned are those the trackers sent, in that
  order and each for a different task; \<open>len\<close> is the number of tasks whose result has not been returned; a poll does not
  panic and reports the end exactly when no such task is left; whoever waits in a poll is woken by the next tracker; and
  dropping the set aborts exactly the tasks whose result has not been returned, unless they were detached.\<close>

theorem join_set_returns_each_once:
  assumes "js_reach s"
  shows "(\<exists>taken. jx_sent s = taken @ js_queue s \<and> jx_returned s = map with_id taken \<and> distinct (map fst (jx_sent s)) \<and>
        js_len (jx_js s) + length (jx_returned s) = length (jx_spawned s) \<and>
        (\<not> jx_detached s \<longrightarrow> set (js_drop (jx_js s)) = set (jx_spawned s) - fst ` set taken)) \<and>
    (\<exists>js res. poll_join_next_with_id (jx_js s) w = Inr (js, res) \<and>
        (res = Ready None \<longleftrightarrow> length (jx_returned s) = length (jx_spawned s))) \<and>
    (\<forall>w' i out. jx_parked s = Some w' \<longrightarrow> (\<exists>ch ws. track_task (js_chan (jx_js s)) i out = Inr (ch, ws) \<and> w' \<in> set ws))"
proof -
  have inv: "js_inv s" by (rule js_reach_inv [OF assms])
  then obtain taken where taken: "jx_sent s = taken @ js_queue s" "jx_returned s = map with_id taken" by (auto simp: js_inv_def)
  have perm: "mset (map fst taken @ map fst (js_queue s) @ jx_running s) = mset (jx_spawned s)"
    using inv by (simp add: js_inv_def taken(1) add.assoc)
  then have dist: "distinct (map fst taken @ map fst (js_queue s) @ jx_running s)"
    using inv mset_eq_imp_distinct_iff js_inv_def by blast
  have total: "js_len (jx_js s) + length (jx_returned s) = length (jx_spawned s)"
    using inv arg_cong [OF perm, of size] by (simp add: js_inv_def js_len_def taken(2))
  have drops: "set (js_drop (jx_js s)) = set (jx_spawned s) - fst ` set taken" if "\<not> jx_detached s"
  proof -
    from inv that have "mset (js_abort_handles (jx_js s)) = mset (jx_running s @ map fst (js_queue s))" by (simp add: js_inv_def)
    from mset_eq_setD [OF this] mset_eq_setD [OF perm] dist show ?thesis by (auto simp: js_drop_def abort_all_def)
  qed
  have polls: "\<exists>js res. poll_join_next_with_id (jx_js s) w = Inr (js, res) \<and> (res = Ready None \<longleftrightarrow> js_pending (jx_js s) = 0)"
    using inv poll_join_eq [of s w] join_nothing_pending(2) [of "jx_js s" w]
    by (cases "js_pending (jx_js s) = 0"; cases "js_queue s") (auto simp: js_inv_def)
  have wakes: "\<exists>ch ws. track_task (js_chan (jx_js s)) i out = Inr (ch, ws) \<and> w' \<in> set ws" if "jx_parked s = Some w'" for w' i out
    using inv that by (cases "jx_running s")
      (auto simp: js_inv_def track_task_def unbounded_send_def push_value_def mp_sender_drop_def recv_waker_list_def Let_def)
  show ?thesis using taken dist total drops polls wakes by (auto simp: js_len_def)
qed

text \<open>A set of one task that somebody waits for.\<close>

definition js_example :: "(unit, nat) js_sys" where
  "js_example = \<lparr>jx_js = \<lparr>js_chan = unbounded_channel\<lparr>mp_sender_count := 2, mp_recv_waker := Some 7\<rparr>, js_pending = 1, js_abort_handles = [5]\<rparr>,
     jx_running = [5], jx_spawned = [5], jx_sent = [], jx_returned = [], jx_parked = Some 7, jx_detached = False\<rparr>"

lemma js_example_reach: "js_reach js_example"
proof -
  let ?s0 = "\<lparr>jx_js = js_new, jx_running = [], jx_spawned = [], jx_sent = [], jx_returned = [], jx_parked = None, jx_detached = False\<rparr>
    :: (unit, nat) js_sys"
  let ?js1 = "(jx_js js_example)\<lparr>js_chan := unbounded_channel\<lparr>mp_sender_count := 2\<rparr>\<rparr>"
  let ?s1 = "js_example\<lparr>jx_js := ?js1, jx_parked := None\<rparr>"
  note d = js_example_def js_new_def unbounded_channel_def shared_new_def
  have "js_step ?s0 ?s1"
    using js_step.insert [of 5 ?s0 ?js1] by (simp add: d js_insert_def usize_add_def usize_max_def mp_sender_clone_def numeral_2_eq_2)
  from js_reach.step [OF js_reach.start this] have "js_reach ?s1" .
  moreover have "js_step ?s1 js_example"
    using js_step.poll_join [of ?s1 7 "jx_js js_example" Pending]
    by (simp add: d poll_join_next_with_id_def poll_recv_shared_def pop_value_def)
  ultimately show ?thesis by (rule js_reach.step)
qed

theorem join_set_returns_each_once_witness:
  "js_reach js_example \<and> (\<exists>ch ws. track_task (js_chan (jx_js js_example)) 5 (Inr 1) = Inr (ch, ws) \<and> 7 \<in> set ws)"
proof -
  have "jx_parked js_example = Some 7" by (simp add: js_example_def)
  with join_set_returns_each_once [OF js_example_reach] js_example_reach show ?thesis by blast
qed

text \<open>
  Detaching forgets the abort handles and nothing else: the tasks are still counted, so \<open>join_next\<close> and \<open>shutdown\<close> go on waiting for
  tasks that were let go.
\<close>

lemma detach_all_keeps_counting: "js_len (detach_all js) = js_len js \<and> js_drop (detach_all js) = []"
  by (simp add: js_len_def detach_all_def js_drop_def abort_all_def)

end
