(* ===== verification/Fs_File.thy ===== *)
theory Fs_File
  imports Io_BufRead
begin

text \<open>
  Files (\<open>fs.rs\<close>). A \<open>File\<close> runs its operations on the blocking pool, at most one at a time, and keeps what a read delivered beyond what its
  caller took. The operating system's file is a sequence of bytes and a position; how much of what is available one \<open>read\<close>
  returns is a parameter. The central notion is the file as its user sees it: the bytes and the position after everything the
  user has been told, whatever is still on its way.
\<close>

section \<open>The file of the operating system\<close>

record raw_file =
  rf_bytes :: "byte list"
  rf_pos :: nat

definition raw_seek :: "raw_file \<Rightarrow> seek_from \<Rightarrow> raw_file \<times> nat io_result" where
  "raw_seek f posn =
     (let target = (case posn of
          SeekStart n \<Rightarrow> int n
        | SeekEnd n \<Rightarrow> int (length (rf_bytes f)) + n
        | SeekCurrent n \<Rightarrow> int (rf_pos f) + n)
      in if target < 0 then (f, Inl (InvalidInput ''invalid seek'')) else (f\<lparr>rf_pos := nat target\<rparr>, Inr (nat target)))"

text \<open>Writing past the end fills the gap with zeros; writing nothing changes nothing.\<close>

definition raw_write :: "raw_file \<Rightarrow> byte list \<Rightarrow> raw_file" where
  "raw_write f bytes =
     (if bytes = [] then f
      else f\<lparr>rf_bytes := take (rf_pos f) (rf_bytes f @ replicate (rf_pos f - length (rf_bytes f)) 0) @ bytes @
                drop (rf_pos f + length bytes) (rf_bytes f),
              rf_pos := rf_pos f + length bytes\<rparr>)"

definition raw_read :: "(nat \<Rightarrow> nat \<Rightarrow> nat) \<Rightarrow> raw_file \<Rightarrow> nat \<Rightarrow> raw_file \<times> nat \<times> byte list" where
  "raw_read rd f capacity =
     (let rest = drop (rf_pos f) (rf_bytes f); amount = rd capacity (length rest)
      in (f\<lparr>rf_pos := rf_pos f + amount\<rparr>, amount, take amount rest @ replicate (capacity - amount) 0))"

text \<open>What \<open>read\<close> promises: no more than asked for and available, and something unless one of them is nothing.\<close>

definition rd_ok :: "(nat \<Rightarrow> nat \<Rightarrow> nat) \<Rightarrow> bool" where
  "rd_ok rd \<longleftrightarrow> (\<forall>capacity available. rd capacity available \<le> min capacity available \<and>
     (0 < capacity \<and> 0 < available \<longrightarrow> 0 < rd capacity available))"

section \<open>Blocking operations\<close>

text \<open>
  \<open>FileOperation\<close>: what the closure captured, and the state of the handle: \<open>None\<close> until the task ends, \<open>Inl\<close> when the task itself
  failed.
\<close>

type_synonym 'a handle = "(string + 'a io_result) option"

datatype file_operation =
  OpRead nat "(nat \<times> byte list) handle" | OpWrite nat "byte list" "nat handle" | OpSeek seek_from "nat handle"

datatype completed_operation =
  CompletedRead "(nat \<times> byte list) io_result" | CompletedWrite "nat io_result" | CompletedSeek "nat io_result"

text \<open>The closures, run on the file. A fault is the error of the call, for a write with the number of bytes that were written before it.\<close>

type_synonym fault = "(nat \<times> io_error) option"

definition run_read :: "(nat \<Rightarrow> nat \<Rightarrow> nat) \<Rightarrow> fault \<Rightarrow> raw_file \<Rightarrow> nat \<Rightarrow> raw_file \<times> (nat \<times> byte list) io_result" where
  "run_read rd fault f capacity = (case fault of
     Some (_, e) \<Rightarrow> (f, Inl e)
   | None \<Rightarrow> (let (f, amount, bytes) = raw_read rd f capacity in (f, Inr (amount, bytes))))"

definition run_write :: "fault \<Rightarrow> raw_file \<Rightarrow> nat \<Rightarrow> byte list \<Rightarrow> raw_file \<times> nat io_result" where
  "run_write fault f unread bytes =
     (case (if unread \<noteq> 0 then raw_seek f (SeekCurrent (- int unread)) else (f, Inr 0)) of
        (f, Inl e) \<Rightarrow> (f, Inl e)
      | (f, Inr _) \<Rightarrow> (case fault of
          Some (k, e) \<Rightarrow> (raw_write f (take k bytes), Inl e)
        | None \<Rightarrow> (raw_write f bytes, Inr (length bytes))))"

definition run_seek :: "fault \<Rightarrow> raw_file \<Rightarrow> seek_from \<Rightarrow> raw_file \<times> nat io_result" where
  "run_seek fault f posn = (case fault of Some (_, e) \<Rightarrow> (f, Inl e) | None \<Rightarrow> raw_seek f posn)"

record async_file =
  fl_inner :: raw_file
  fl_operation :: "file_operation option"
  fl_pending_seek :: "seek_from option"
  fl_max_buf_size :: nat
  fl_buffered_read :: "byte list"

definition file_from_inner :: "raw_file \<Rightarrow> async_file" where
  "file_from_inner f = \<lparr>fl_inner = f, fl_operation = None, fl_pending_seek = None, fl_max_buf_size = 2 * 1024 * 1024, fl_buffered_read = []\<rparr>"

definition set_max_buf_size :: "async_file \<Rightarrow> nat \<Rightarrow> async_file" where
  "set_max_buf_size f n = f\<lparr>fl_max_buf_size := max n 1\<rparr>"

text \<open>The worker runs the operation; a spawned one may have run by the time it is first polled (\<open>fast\<close>).\<close>

fun run_operation :: "(nat \<Rightarrow> nat \<Rightarrow> nat) \<Rightarrow> fault \<Rightarrow> raw_file \<Rightarrow> file_operation \<Rightarrow> raw_file \<times> file_operation" where
  "run_operation rd fault r (OpRead capacity None) = (let (r, res) = run_read rd fault r capacity in (r, OpRead capacity (Some (Inr res))))"
| "run_operation rd fault r (OpWrite unread bytes None) = (let (r, res) = run_write fault r unread bytes in (r, OpWrite unread bytes (Some (Inr res))))"
| "run_operation rd fault r (OpSeek posn None) = (let (r, res) = run_seek fault r posn in (r, OpSeek posn (Some (Inr res))))"
| "run_operation rd fault r op = (r, op)"

definition file_run :: "(nat \<Rightarrow> nat \<Rightarrow> nat) \<Rightarrow> fault \<Rightarrow> async_file \<Rightarrow> async_file" where
  "file_run rd fault f = (case fl_operation f of
     None \<Rightarrow> f
   | Some op \<Rightarrow> (let (r, op) = run_operation rd fault (fl_inner f) op in f\<lparr>fl_inner := r, fl_operation := Some op\<rparr>))"

definition file_spawn :: "(nat \<Rightarrow> nat \<Rightarrow> nat) \<Rightarrow> bool \<Rightarrow> async_file \<Rightarrow> file_operation \<Rightarrow> async_file" where
  "file_spawn rd fast f op = (let f = f\<lparr>fl_operation := Some op\<rparr> in if fast then file_run rd None f else f)"

definition join_result :: "string + 'a io_result \<Rightarrow> 'a io_result" where
  "join_result r = (case r of Inr res \<Rightarrow> res | Inl e \<Rightarrow> Inl (OtherError e))"

fun completed :: "file_operation \<Rightarrow> completed_operation option" where
  "completed (OpRead _ h) = map_option (\<lambda>r. CompletedRead (join_result r)) h"
| "completed (OpWrite _ _ h) = map_option (\<lambda>r. CompletedWrite (join_result r)) h"
| "completed (OpSeek _ h) = map_option (\<lambda>r. CompletedSeek (join_result r)) h"

definition poll_operation :: "async_file \<Rightarrow> async_file \<times> completed_operation option poll" where
  "poll_operation f = (case fl_operation f of
     None \<Rightarrow> (f, Ready None)
   | Some op \<Rightarrow> (case completed op of
       None \<Rightarrow> (f, Pending)
     | Some res \<Rightarrow> (f\<lparr>fl_operation := None\<rparr>, Ready (Some res))))"

fun finish_operation :: "async_file \<Rightarrow> completed_operation \<Rightarrow> (async_file \<times> unit io_result) panicky" where
  "finish_operation f (CompletedRead (Inr (amount, bytes))) = (case slice_range bytes 0 amount of
     Inl e \<Rightarrow> Inl e
   | Inr bytes \<Rightarrow> Inr (f\<lparr>fl_buffered_read := fl_buffered_read f @ bytes\<rparr>, Inr ()))"
| "finish_operation f (CompletedRead (Inl e)) = Inr (f, Inl e)"
| "finish_operation f (CompletedWrite (Inr _)) = Inr (f, Inr ())"
| "finish_operation f (CompletedWrite (Inl e)) = Inr (f, Inl e)"
| "finish_operation f (CompletedSeek (Inr _)) = Inr (f, Inr ())"
| "finish_operation f (CompletedSeek (Inl e)) = Inr (f, Inl e)"

section \<open>Reading\<close>

text \<open>Bytes that are already there go to the caller, one \<open>put_slice\<close> each.\<close>

fun put_each :: "read_buf \<Rightarrow> byte list \<Rightarrow> read_buf panicky" where
  "put_each buf [] = Inr buf"
| "put_each buf (byte # bytes) = (case put_slice buf [byte] of Inl e \<Rightarrow> Inl e | Inr buf \<Rightarrow> put_each buf bytes)"

definition is_eof :: "completed_operation \<Rightarrow> bool" where
  "is_eof op \<longleftrightarrow> (case op of CompletedRead (Inr (amount, _)) \<Rightarrow> amount = 0 | _ \<Rightarrow> False)"

text \<open>What the rounds of the loop decrease: an operation that is not a read, then no operation, then a read, then bytes to hand out.\<close>

definition read_rank :: "async_file \<Rightarrow> nat" where
  "read_rank f = (if fl_buffered_read f \<noteq> [] then 0 else case fl_operation f of
     None \<Rightarrow> 2 | Some (OpRead _ _) \<Rightarrow> 1 | Some _ \<Rightarrow> 3)"

definition start_read :: "(nat \<Rightarrow> nat \<Rightarrow> nat) \<Rightarrow> bool \<Rightarrow> async_file \<Rightarrow> nat \<Rightarrow> async_file" where
  "start_read rd fast this remaining =
     (if fl_operation this = None then file_spawn rd fast this (OpRead (min remaining (fl_max_buf_size this)) None) else this)"

lemma finish_keeps_operation: "finish_operation f op = Inr (f', res) \<Longrightarrow> fl_operation f' = fl_operation f"
  by (cases "(f, op)" rule: finish_operation.cases) (auto split: sum.splits)

lemma finish_read_rank:
  assumes "fl_buffered_read this = []" "poll_operation (start_read rd fast this n) = (this1, Ready (Some op))" "\<not> is_eof op"
    "finish_operation this1 op = Inr (this2, Inr u)"
  shows "read_rank this2 < read_rank this"
proof -
  have run: "\<exists>h. snd (run_operation rd None r (OpRead c None)) = OpRead c h" for r c
    by (simp add: run_read_def raw_read_def Let_def)
  have fresh: "\<exists>h. fl_operation (start_read rd fast this n) = Some (OpRead c h)"
    if "fl_operation this = None" "c = min n (fl_max_buf_size this)" for c
    using that run [of "fl_inner this" c]
    by (auto simp: start_read_def file_spawn_def file_run_def Let_def split: prod.splits)
  have same: "fl_buffered_read (start_read rd fast this n) = []" using assms(1)
    by (auto simp: start_read_def file_spawn_def file_run_def Let_def split: prod.splits option.splits)
  obtain o1 where o1: "fl_operation (start_read rd fast this n) = Some o1" "completed o1 = Some op"
    "this1 = (start_read rd fast this n)\<lparr>fl_operation := None\<rparr>"
    using assms(2) by (auto simp: poll_operation_def split: option.splits)
  show ?thesis
  proof (cases o1)
    case (OpRead c h)
    then obtain amount bytes where "op = CompletedRead (Inr (amount, bytes))" "0 < amount" "amount \<le> length bytes"
      "this2 = this1\<lparr>fl_buffered_read := take amount bytes\<rparr>"
      using assms(3,4) o1 same by (cases op rule: completed_operation.exhaust; auto simp: is_eof_def slice_range_def split: sum.splits if_splits)
    moreover have "0 < read_rank this" using assms(1) by (auto simp: read_rank_def split: option.split file_operation.split)
    moreover from calculation have "take amount bytes \<noteq> []" by auto
    ultimately show ?thesis by (simp add: read_rank_def)
  next
    case (OpWrite u b h)
    then have "fl_operation this = Some o1" using fresh o1(1) by (cases "fl_operation this") (auto simp: start_read_def)
    moreover have "fl_operation this2 = None" using finish_keeps_operation [OF assms(4)] o1(3) by simp
    ultimately show ?thesis using OpWrite assms(1) by (simp add: read_rank_def)
  next
    case (OpSeek p h)
    then have "fl_operation this = Some o1" using fresh o1(1) by (cases "fl_operation this") (auto simp: start_read_def)
    moreover have "fl_operation this2 = None" using finish_keeps_operation [OF assms(4)] o1(3) by simp
    ultimately show ?thesis using OpSeek assms(1) by (simp add: read_rank_def)
  qed
qed

function file_read_loop ::
  "(nat \<Rightarrow> nat \<Rightarrow> nat) \<Rightarrow> bool \<Rightarrow> async_file \<Rightarrow> read_buf \<Rightarrow> (async_file \<times> read_buf \<times> unit io_result poll) panicky" where
  "file_read_loop rd fast this buf =
     (if fl_buffered_read this \<noteq> [] then
        (let amount = min (rb_remaining buf) (length (fl_buffered_read this)) in
         case put_each buf (take amount (fl_buffered_read this)) of
           Inl e \<Rightarrow> Inl e
         | Inr buf \<Rightarrow> Inr (this\<lparr>fl_buffered_read := drop amount (fl_buffered_read this)\<rparr>, buf, Ready (Inr ())))
      else (case poll_operation (start_read rd fast this (rb_remaining buf)) of
        (this, Pending) \<Rightarrow> Inr (this, buf, Pending)
      | (this, Ready None) \<Rightarrow> Inl ''file operation missing''
      | (this, Ready (Some op)) \<Rightarrow> (case finish_operation this op of
          Inl e \<Rightarrow> Inl e
        | Inr (this, Inl e) \<Rightarrow> Inr (this, buf, Ready (Inl e))
        | Inr (this, Inr _) \<Rightarrow> if is_eof op then Inr (this, buf, Ready (Inr ())) else file_read_loop rd fast this buf)))"
  by pat_completeness auto
termination
  by (relation "measure (\<lambda>(_, _, this, _). read_rank this)") (auto intro!: finish_read_rank dest: sym)

declare file_read_loop.simps [simp del]

definition file_poll_read :: "(nat \<Rightarrow> nat \<Rightarrow> nat) \<Rightarrow> bool \<Rightarrow> async_file poll_read" where
  "file_poll_read rd fast this cx buf =
     (if rb_remaining buf = 0 then Inr (this, buf, Ready (Inr ())) else file_read_loop rd fast this buf)"

section \<open>Writing\<close>

text \<open>The loop that waits for what is under way; it finishes one operation at most.\<close>

function file_drain :: "async_file \<Rightarrow> (async_file \<times> unit io_result poll) panicky" where
  "file_drain this = (case poll_operation this of
     (this, Pending) \<Rightarrow> Inr (this, Pending)
   | (this, Ready None) \<Rightarrow> Inr (this, Ready (Inr ()))
   | (this', Ready (Some op)) \<Rightarrow> (case finish_operation this' op of
       Inl e \<Rightarrow> Inl e
     | Inr (this, Inl e) \<Rightarrow> Inr (this, Ready (Inl e))
     | Inr (this, Inr _) \<Rightarrow> file_drain this))"
  by pat_completeness auto

termination file_drain
  by (relation "measure (\<lambda>this. if fl_operation this = None then 0 else 1)")
    (auto simp: poll_operation_def split: option.splits dest!: finish_keeps_operation)

declare file_drain.simps [simp del]

definition file_poll_write :: "(nat \<Rightarrow> nat \<Rightarrow> nat) \<Rightarrow> bool \<Rightarrow> async_file \<Rightarrow> byte list \<Rightarrow> (async_file \<times> nat io_result poll) panicky" where
  "file_poll_write rd fast this buf = (case file_drain this of
     Inl e \<Rightarrow> Inl e
   | Inr (this, Pending) \<Rightarrow> Inr (this, Pending)
   | Inr (this, Ready (Inl e)) \<Rightarrow> Inr (this, Ready (Inl e))
   | Inr (this, Ready (Inr _)) \<Rightarrow>
       if buf = [] then Inr (this, Ready (Inr 0))
       else
         (let amount = min (length buf) (fl_max_buf_size this); bytes = take amount buf; unread = length (fl_buffered_read this);
              this = this\<lparr>fl_buffered_read := []\<rparr>
          in Inr (file_spawn rd fast this (OpWrite unread bytes None), Ready (Inr amount))))"

definition file_poll_flush :: "async_file \<Rightarrow> (async_file \<times> unit io_result poll) panicky" where
  "file_poll_flush this = file_drain this"

definition file_poll_shutdown :: "async_file \<Rightarrow> (async_file \<times> unit io_result poll) panicky" where
  "file_poll_shutdown this = file_poll_flush this"

section \<open>Seeking\<close>

definition file_start_seek :: "async_file \<Rightarrow> seek_from \<Rightarrow> async_file \<times> unit io_result" where
  "file_start_seek this posn =
     (if fl_pending_seek this \<noteq> None \<or> (case fl_operation this of Some (OpSeek _ _) \<Rightarrow> True | _ \<Rightarrow> False)
      then (this, Inl (OtherError ''another file seek is already in progress''))
      else (this\<lparr>fl_pending_seek := Some posn\<rparr>, Inr ()))"

text \<open>The start of the seek: an offset from the current position counts from what the user has read.\<close>

definition spawn_seek :: "(nat \<Rightarrow> nat \<Rightarrow> nat) \<Rightarrow> bool \<Rightarrow> async_file \<Rightarrow> async_file option" where
  "spawn_seek rd fast this =
     (let posn = (case fl_pending_seek this of None \<Rightarrow> SeekCurrent 0 | Some p \<Rightarrow> p) in
      case (case posn of
              SeekCurrent offset \<Rightarrow> map_option SeekCurrent (i64_checked_sub offset (int (length (fl_buffered_read this))))
            | _ \<Rightarrow> Some posn) of
        None \<Rightarrow> None
      | Some posn \<Rightarrow> Some (file_spawn rd fast (this\<lparr>fl_pending_seek := None, fl_buffered_read := []\<rparr>) (OpSeek posn None)))"

definition seek_rank :: "async_file \<Rightarrow> nat" where
  "seek_rank f = (case fl_operation f of None \<Rightarrow> 1 | Some (OpSeek _ _) \<Rightarrow> 0 | Some _ \<Rightarrow> 2)"

lemma spawn_seek_operation: "spawn_seek rd fast f = Some f' \<Longrightarrow> \<exists>p h. fl_operation f' = Some (OpSeek p h)"
  by (auto simp: spawn_seek_def file_spawn_def file_run_def run_seek_def Let_def split: option.splits seek_from.splits if_splits prod.splits)

lemma completed_seek: "completed op = Some (CompletedSeek r) \<longleftrightarrow> (\<exists>p h. op = OpSeek p (Some h) \<and> r = join_result h)"
  by (cases op) auto

function file_poll_complete :: "(nat \<Rightarrow> nat \<Rightarrow> nat) \<Rightarrow> bool \<Rightarrow> async_file \<Rightarrow> (async_file \<times> nat io_result poll) panicky" where
  "file_poll_complete rd fast this =
     (case (if fl_operation this = None then spawn_seek rd fast this else Some this) of
        None \<Rightarrow> Inr (this\<lparr>fl_pending_seek := None\<rparr>, Ready (Inl (InvalidInput ''seek offset overflow'')))
      | Some this1 \<Rightarrow> (case poll_operation this1 of
          (this2, Pending) \<Rightarrow> Inr (this2, Pending)
        | (this2, Ready None) \<Rightarrow> Inl ''file operation missing''
        | (this2, Ready (Some (CompletedSeek result))) \<Rightarrow> Inr (this2, Ready result)
        | (this2, Ready (Some other)) \<Rightarrow> (case finish_operation this2 other of
            Inl e \<Rightarrow> Inl e
          | Inr (this3, Inl e) \<Rightarrow> Inr (this3, Ready (Inl e))
          | Inr (this3, Inr _) \<Rightarrow> file_poll_complete rd fast this3)))"
  by pat_completeness auto

lemma finish_seek_rank:
  assumes "(if fl_operation this = None then spawn_seek rd fast this else Some this) = Some this1"
    "poll_operation this1 = (this2, Ready (Some op))" "\<forall>r. op \<noteq> CompletedSeek r" "finish_operation this2 op = Inr (this3, Inr u)"
  shows "seek_rank this3 < seek_rank this"
proof -
  from assms(2) obtain o1 where o1: "fl_operation this1 = Some o1" "completed o1 = Some op" "fl_operation this2 = None"
    by (auto simp: poll_operation_def split: option.splits)
  have "\<not> (\<exists>p h. o1 = OpSeek p h)" using o1(2) assms(3) by auto
  then have "fl_operation this \<noteq> None" using assms(1) o1(1) spawn_seek_operation by fastforce
  then have "fl_operation this = Some o1" using assms(1) o1(1) by auto
  moreover have "fl_operation this3 = None" using finish_keeps_operation [OF assms(4)] o1(3) by simp
  ultimately show ?thesis using \<open>\<not> (\<exists>p h. o1 = OpSeek p h)\<close> by (cases o1) (auto simp: seek_rank_def)
qed

termination file_poll_complete
  by (relation "measure (\<lambda>(_, _, this). seek_rank this)") (auto intro: finish_seek_rank [OF _ sym])

declare file_poll_complete.simps [simp del]

section \<open>Operations that own their buffers, and the way back to a standard file\<close>

text \<open>
  \<open>wait_for_operation\<close> sleeps until the operation under way has ended, but does not take its result. The receiver is borrowed shared
  for the whole call, so that no other operation starts meanwhile.
\<close>

definition wait_for_operation :: "async_file \<Rightarrow> bool" where
  "wait_for_operation f = (case fl_operation f of None \<Rightarrow> True | Some op \<Rightarrow> completed op \<noteq> None)"

definition read_owned ::
  "(nat \<Rightarrow> nat \<Rightarrow> nat) \<Rightarrow> fault \<Rightarrow> async_file \<Rightarrow> byte list \<Rightarrow> async_file \<times> (nat \<times> byte list) io_result poll" where
  "read_owned rd fault f buf =
     (if \<not> wait_for_operation f then (f, Pending)
      else (case run_read rd fault (fl_inner f) (length buf) of
        (r, Inl e) \<Rightarrow> (f\<lparr>fl_inner := r\<rparr>, Ready (Inl e))
      | (r, Inr (n, bytes)) \<Rightarrow> (f\<lparr>fl_inner := r\<rparr>, Ready (Inr (n, take n bytes @ drop n buf)))))"

text \<open>A fault of \<open>read_to_end\<close> comes after some bytes, which are lost with the vector.\<close>

definition read_to_end_owned :: "fault \<Rightarrow> async_file \<Rightarrow> async_file \<times> byte list io_result poll" where
  "read_to_end_owned fault f =
     (if \<not> wait_for_operation f then (f, Pending)
      else (let r = fl_inner f; rest = drop (rf_pos r) (rf_bytes r)
            in case fault of
              Some (k, e) \<Rightarrow> (f\<lparr>fl_inner := r\<lparr>rf_pos := rf_pos r + min k (length rest)\<rparr>\<rparr>, Ready (Inl e))
            | None \<Rightarrow> (f\<lparr>fl_inner := r\<lparr>rf_pos := rf_pos r + length rest\<rparr>\<rparr>, Ready (Inr rest))))"

definition write_all_owned :: "fault \<Rightarrow> async_file \<Rightarrow> byte list \<Rightarrow> async_file \<times> unit io_result poll" where
  "write_all_owned fault f bytes =
     (if \<not> wait_for_operation f then (f, Pending)
      else (case fault of
        Some (k, e) \<Rightarrow> (f\<lparr>fl_inner := raw_write (fl_inner f) (take k bytes)\<rparr>, Ready (Inl e))
      | None \<Rightarrow> (f\<lparr>fl_inner := raw_write (fl_inner f) bytes\<rparr>, Ready (Inr ()))))"

definition set_len :: "fault \<Rightarrow> async_file \<Rightarrow> nat \<Rightarrow> async_file \<times> unit io_result poll" where
  "set_len fault f n =
     (if \<not> wait_for_operation f then (f, Pending)
      else (case fault of
        Some (_, e) \<Rightarrow> (f, Ready (Inl e))
      | None \<Rightarrow> (let r = fl_inner f
                 in (f\<lparr>fl_inner := r\<lparr>rf_bytes := take n (rf_bytes r) @ replicate (n - length (rf_bytes r)) 0\<rparr>\<rparr>, Ready (Inr ())))))"

text \<open>\<open>shared\<close>: whether someone else still holds the reference counted inner file.\<close>

definition try_into_std :: "bool \<Rightarrow> async_file \<Rightarrow> async_file + raw_file" where
  "try_into_std shared f =
     (if fl_operation f \<noteq> None \<or> fl_buffered_read f \<noteq> [] \<or> shared then Inl f else Inr (fl_inner f))"

definition into_std :: "bool \<Rightarrow> async_file \<Rightarrow> async_file \<times> raw_file panicky poll" where
  "into_std shared f =
     (case (if fl_operation f = None then (f, Ready (Inr ()))
            else (case poll_operation f of
              (f, Pending) \<Rightarrow> (f, Pending)
            | (f, Ready None) \<Rightarrow> (f, Ready (Inl ''file operation missing''))
            | (f, Ready (Some op)) \<Rightarrow> (case finish_operation f op of
                Inl e \<Rightarrow> (f, Ready (Inl e))
              | Inr (f, _) \<Rightarrow> (f, Ready (Inr ()))))) of
        (f, Pending) \<Rightarrow> (f, Pending)
      | (f, Ready (Inl e)) \<Rightarrow> (f, Ready (Inl e))
      | (f, Ready (Inr _)) \<Rightarrow>
          (case (if fl_buffered_read f = [] then Inr f
                 else (case raw_seek (fl_inner f) (SeekCurrent (- int (length (fl_buffered_read f)))) of
                   (_, Inl _) \<Rightarrow> Inl ''failed to restore buffered file position''
                 | (r, Inr _) \<Rightarrow> Inr (f\<lparr>fl_inner := r, fl_buffered_read := []\<rparr>))) of
             Inl e \<Rightarrow> (f, Ready (Inl e))
           | Inr f \<Rightarrow> (case try_into_std shared f of
               Inl f \<Rightarrow> (f, Ready (Inl ''file still has outstanding references''))
             | Inr r \<Rightarrow> (f, Ready (Inr r)))))"

section \<open>The file as its user sees it\<close>

definition rewound :: "raw_file \<Rightarrow> nat \<Rightarrow> raw_file" where
  "rewound r n = r\<lparr>rf_pos := rf_pos r - n\<rparr>"

definition read_ahead :: "raw_file \<Rightarrow> byte list \<Rightarrow> bool" where
  "read_ahead r bytes \<longleftrightarrow> length bytes \<le> rf_pos r \<and> take (length bytes) (drop (rf_pos r - length bytes) (rf_bytes r)) = bytes"

fun op_logical :: "raw_file \<Rightarrow> file_operation \<Rightarrow> raw_file" where
  "op_logical r (OpRead _ (Some (Inr (Inr (n, _))))) = rewound r n"
| "op_logical r (OpRead _ _) = r"
| "op_logical r (OpWrite unread bytes None) = fst (run_write None r unread bytes)"
| "op_logical r (OpSeek posn None) = fst (raw_seek r posn)"
| "op_logical r _ = r"

definition file_logical :: "async_file \<Rightarrow> raw_file" where
  "file_logical f = (case fl_operation f of
     None \<Rightarrow> rewound (fl_inner f) (length (fl_buffered_read f))
   | Some op \<Rightarrow> op_logical (fl_inner f) op)"

definition succeeds :: "nat io_result \<Rightarrow> bool" where
  "succeeds res \<longleftrightarrow> (case res of Inr _ \<Rightarrow> True | Inl _ \<Rightarrow> False)"

fun op_inv :: "raw_file \<Rightarrow> file_operation \<Rightarrow> bool" where
  "op_inv r (OpRead c None) \<longleftrightarrow> 0 < c"
| "op_inv r (OpRead c (Some (Inr (Inr (n, bytes))))) \<longleftrightarrow>
     n \<le> length bytes \<and> read_ahead r (take n bytes) \<and> (n = 0 \<longrightarrow> length (rf_bytes r) \<le> rf_pos r)"
| "op_inv r (OpRead c _) \<longleftrightarrow> True"
| "op_inv r (OpWrite unread bytes None) \<longleftrightarrow> unread \<le> rf_pos r"
| "op_inv r (OpSeek posn None) \<longleftrightarrow> succeeds (snd (raw_seek r posn))"
| "op_inv r (OpWrite _ _ (Some h)) \<longleftrightarrow> True"
| "op_inv r (OpSeek _ (Some h)) \<longleftrightarrow> join_result h = Inr (rf_pos r)"

definition file_inv :: "async_file \<Rightarrow> bool" where
  "file_inv f \<longleftrightarrow> 0 < fl_max_buf_size f \<and> read_ahead (fl_inner f) (fl_buffered_read f) \<and>
     (case fl_operation f of None \<Rightarrow> True | Some op \<Rightarrow> fl_buffered_read f = [] \<and> op_inv (fl_inner f) op)"

text \<open>A write that was accepted and has not been run: the file before it and its bytes; and the error of one that has failed.\<close>

fun op_unwritten :: "raw_file \<Rightarrow> file_operation \<Rightarrow> (raw_file \<times> byte list) option" where
  "op_unwritten r (OpWrite unread bytes None) = Some (rewound r unread, bytes)"
| "op_unwritten r _ = None"

fun op_owed :: "file_operation \<Rightarrow> io_error option" where
  "op_owed (OpWrite _ _ (Some h)) = (case join_result h of Inl e \<Rightarrow> Some e | Inr _ \<Rightarrow> None)"
| "op_owed _ = None"

definition file_unwritten :: "async_file \<Rightarrow> (raw_file \<times> byte list) option" where
  "file_unwritten f = (case fl_operation f of None \<Rightarrow> None | Some op \<Rightarrow> op_unwritten (fl_inner f) op)"

definition file_owed :: "async_file \<Rightarrow> io_error option" where
  "file_owed f = (case fl_operation f of None \<Rightarrow> None | Some op \<Rightarrow> op_owed op)"

lemma idle_owes_nothing [simp]: "fl_operation f = None \<Longrightarrow> file_unwritten f = None" "fl_operation f = None \<Longrightarrow> file_owed f = None"
  by (simp_all add: file_unwritten_def file_owed_def)

lemma done_or_under_way: "completed op \<noteq> None \<Longrightarrow> op_unwritten r op = None" "completed op = None \<Longrightarrow> op_owed op = None"
  by (cases op rule: op_owed.cases; auto)+

text \<open>The worker may run at any time: nobody sees it. A read may fail; the file stays where it is.\<close>

lemma read_ahead_empty [simp]: "read_ahead r []"
  by (simp add: read_ahead_def)

lemma raw_read_ok:
  assumes "rd_ok rd" "0 < c" "raw_read rd r c = (r', n, bytes)"
  shows "op_inv r' (OpRead c (Some (Inr (Inr (n, bytes))))) \<and> rewound r' n = r"
proof -
  define rest where "rest = drop (rf_pos r) (rf_bytes r)"
  have n: "n = rd c (length rest)" "r' = r\<lparr>rf_pos := rf_pos r + n\<rparr>" "bytes = take n rest @ replicate (c - n) 0"
    using assms(3) by (auto simp: raw_read_def rest_def Let_def)
  have "n \<le> min c (length rest)" "length rest = 0 \<or> 0 < n" using assms(1,2) unfolding n(1) rd_ok_def by (blast, metis neq0_conv)
  then show ?thesis using n(2,3) by (auto simp: read_ahead_def rewound_def rest_def)
qed

lemma run_write_ok:
  assumes "u \<le> rf_pos r"
  shows "run_write None r u bytes = (raw_write (rewound r u) bytes, Inr (length bytes))"
  using assms by (auto simp: run_write_def raw_seek_def rewound_def nat_diff_distrib Let_def)

lemma raw_seek_pos: "raw_seek r posn = (r', Inr n) \<Longrightarrow> rf_pos r' = n"
  by (auto simp: raw_seek_def Let_def split: if_splits)

definition harmless :: "async_file \<Rightarrow> fault \<Rightarrow> bool" where
  "harmless f fault \<longleftrightarrow> fault = None \<or> (\<exists>c h. fl_operation f = Some (OpRead c h))"

lemma run_operation_keeps:
  assumes "rd_ok rd" "op_inv r op" "fault = None \<or> (\<exists>c h. op = OpRead c h)" "run_operation rd fault r op = (r', op')"
  shows "op_inv r' op' \<and> op_logical r' op' = op_logical r op"
proof (cases "(rd, fault, r, op)" rule: run_operation.cases)
  case (1 rd' fault' s c)
  then show ?thesis using assms raw_read_ok [OF assms(1), of c r]
    by (cases fault) (auto simp: run_read_def Let_def split: prod.splits)
next
  case (2 rd' fault' s u bytes)
  then show ?thesis using assms by (auto simp: run_write_ok)
next
  case (3 rd' fault' s posn)
  then show ?thesis using assms
    by (auto simp: run_seek_def join_result_def succeeds_def raw_seek_pos split: prod.splits sum.splits)
qed (use assms in auto)

lemma file_run_keeps:
  assumes "rd_ok rd" "file_inv f" "harmless f fault"
  shows "file_inv (file_run rd fault f) \<and> file_logical (file_run rd fault f) = file_logical f"
proof (cases "fl_operation f")
  case (Some op)
  obtain r' op' where run: "run_operation rd fault (fl_inner f) op = (r', op')" by (cases "run_operation rd fault (fl_inner f) op")
  have "op_inv r' op' \<and> op_logical r' op' = op_logical (fl_inner f) op"
    using assms(2,3) Some by (intro run_operation_keeps [OF assms(1) _ _ run]) (auto simp: file_inv_def harmless_def)
  then show ?thesis using Some run assms(2) by (simp add: file_run_def file_inv_def file_logical_def)
qed (use assms in \<open>simp add: file_run_def\<close>)

lemma file_run_same [simp]:
  "fl_pending_seek (file_run rd fault f) = fl_pending_seek f" "fl_max_buf_size (file_run rd fault f) = fl_max_buf_size f"
  by (auto simp: file_run_def split: option.split prod.split)

lemma file_spawn_keeps:
  assumes "rd_ok rd" "0 < fl_max_buf_size f" "fl_buffered_read f = []" "op_inv (fl_inner f) op"
  shows "file_inv (file_spawn rd fast f op) \<and> file_logical (file_spawn rd fast f op) = op_logical (fl_inner f) op \<and>
    fl_pending_seek (file_spawn rd fast f op) = fl_pending_seek f \<and> (\<exists>op'. fl_operation (file_spawn rd fast f op) = Some op')"
proof -
  define g where "g = f\<lparr>fl_operation := Some op\<rparr>"
  have "file_inv g" "file_logical g = op_logical (fl_inner f) op" "fl_pending_seek g = fl_pending_seek f" "fl_operation g = Some op"
    using assms by (simp_all add: g_def file_inv_def file_logical_def)
  moreover have "\<exists>op'. fl_operation (file_run rd None g) = Some op'"
    by (auto simp: file_run_def g_def split: prod.split)
  ultimately show ?thesis using file_run_keeps [OF assms(1), of g None]
    by (simp add: file_spawn_def g_def harmless_def Let_def)
qed

lemma start_read_keeps:
  assumes "rd_ok rd" "file_inv f" "fl_buffered_read f = []" "0 < n"
  shows "file_inv (start_read rd fast f n) \<and> file_logical (start_read rd fast f n) = file_logical f \<and>
    fl_pending_seek (start_read rd fast f n) = fl_pending_seek f \<and> file_unwritten (start_read rd fast f n) = file_unwritten f \<and>
    (\<exists>op. fl_operation (start_read rd fast f n) = Some op)"
proof (cases "fl_operation f")
  case None
  moreover have "0 < fl_max_buf_size f" using assms(2) by (simp add: file_inv_def)
  ultimately show ?thesis using assms file_spawn_keeps [OF assms(1), of f "OpRead (min n (fl_max_buf_size f)) None" fast]
    by (simp add: start_read_def file_logical_def rewound_def file_spawn_def file_run_def file_unwritten_def Let_def split: prod.split)
qed (use assms in \<open>simp add: start_read_def\<close>)

text \<open>A write that fails has left the first of its bytes, and its error waits for the next call.\<close>

lemma file_run_settles:
  assumes "rd_ok rd" "file_inv f" "harmless f fault"
  shows "file_unwritten (file_run rd fault f) = None" "file_owed (file_run rd fault f) = file_owed f"
  using assms(2,3)
  by (auto simp: file_run_def file_unwritten_def file_owed_def harmless_def file_inv_def run_write_ok run_read_def join_result_def Let_def
      split: option.splits prod.splits elim!: op_unwritten.elims run_operation.elims)

lemma write_failed_keeps:
  assumes "file_inv f" "file_unwritten f = Some (rb, bytes)"
  shows "file_inv (file_run rd (Some (k, e)) f) \<and> file_logical (file_run rd (Some (k, e)) f) = raw_write rb (take k bytes) \<and>
    file_unwritten (file_run rd (Some (k, e)) f) = None \<and> file_owed (file_run rd (Some (k, e)) f) = Some e"
proof -
  obtain u where op: "fl_operation f = Some (OpWrite u bytes None)" and rb: "rb = rewound (fl_inner f) u"
    using assms(2) by (auto simp: file_unwritten_def split: option.splits elim!: op_unwritten.elims)
  then have u: "u \<le> rf_pos (fl_inner f)" "0 < fl_max_buf_size f" "fl_buffered_read f = []" using assms(1) by (simp_all add: file_inv_def)
  then have "run_write (Some (k, e)) (fl_inner f) u bytes = (raw_write rb (take k bytes), Inl e)"
    by (auto simp: rb run_write_def raw_seek_def rewound_def nat_diff_distrib Let_def)
  then show ?thesis using op u by (simp add: file_run_def file_inv_def file_logical_def file_unwritten_def file_owed_def join_result_def)
qed

text \<open>Taking the result of an operation changes nothing for the user either.\<close>

definition ahead :: "async_file \<Rightarrow> byte list" where
  "ahead f = drop (rf_pos (file_logical f)) (rf_bytes (file_logical f))"

lemma take_result:
  assumes "file_inv f" "fl_operation f = Some op" "completed op = Some c"
  shows "\<exists>f' res. finish_operation (f\<lparr>fl_operation := None\<rparr>) c = Inr (f', res) \<and> file_inv f' \<and> file_logical f' = file_logical f \<and>
    fl_operation f' = None \<and> fl_pending_seek f' = fl_pending_seek f \<and> (is_eof c \<longrightarrow> ahead f = []) \<and>
    (\<forall>r. c = CompletedSeek r \<longrightarrow> r = Inr (rf_pos (file_logical f)))"
proof -
  have inv: "0 < fl_max_buf_size f" "fl_buffered_read f = []" "op_inv (fl_inner f) op" using assms(1,2) by (simp_all add: file_inv_def)
  show ?thesis
  proof (cases op)
    case (OpRead cap h)
    then obtain res where h: "h = Some res" "c = CompletedRead (join_result res)" using assms(3) by auto
    show ?thesis
    proof (cases "join_result res")
      case (Inl e)
      then show ?thesis using h OpRead inv assms(2)
        by (cases res) (auto simp: file_inv_def file_logical_def rewound_def is_eof_def join_result_def)
    next
      case (Inr nb)
      obtain n bytes where nb: "nb = (n, bytes)" by (cases nb)
      with Inr have res: "res = Inr (Inr (n, bytes))" by (cases res) (auto simp: join_result_def)
      with inv(3) OpRead h have ok: "n \<le> length bytes" "read_ahead (fl_inner f) (take n bytes)" "n = 0 \<longrightarrow> length (rf_bytes (fl_inner f)) \<le> rf_pos (fl_inner f)"
        by simp_all
      then have "slice_range bytes 0 n = Inr (take n bytes)" by (simp add: slice_range_def)
      with ok show ?thesis using inv OpRead h res assms(2)
        by (simp add: file_inv_def file_logical_def join_result_def is_eof_def ahead_def rewound_def)
    qed
  next
    case (OpWrite u bytes h)
    with assms(3) obtain res where res: "h = Some res" "c = CompletedWrite (join_result res)" by auto
    with OpWrite inv assms(2) show ?thesis
      by (cases "join_result res") (auto simp: file_inv_def file_logical_def rewound_def is_eof_def)
  next
    case (OpSeek posn h)
    with assms(3) inv(3) obtain res where "h = Some res" "c = CompletedSeek (Inr (rf_pos (fl_inner f)))" by auto
    with OpSeek inv assms(2) show ?thesis by (auto simp: file_inv_def file_logical_def rewound_def is_eof_def)
  qed
qed

lemma put_each_ok:
  assumes "rb_ok b" "length bytes \<le> rb_remaining b"
  shows "\<exists>b'. put_each b bytes = Inr b' \<and> rb_ok b' \<and> rb_capacity b' = rb_capacity b \<and> rb_initialized b \<le> rb_initialized b' \<and>
    rb_filled_bytes b' = rb_filled_bytes b @ bytes \<and> rb_filled b' = rb_filled b + length bytes"
  using assms
proof (induction bytes arbitrary: b)
  case (Cons x bytes)
  then have "length [x] \<le> rb_remaining b" by simp
  from put_slice_ok [OF Cons.prems(1) this] obtain b1 where b1: "put_slice b [x] = Inr b1" "rb_ok b1" "rb_capacity b1 = rb_capacity b"
    "rb_filled b1 = rb_filled b + 1" "rb_filled_bytes b1 = rb_filled_bytes b @ [x]" by auto
  from b1(1) have "rb_initialized b \<le> rb_initialized b1"
    by (auto simp: put_slice_def initialize_unfilled_to_def Let_def split: if_splits sum.splits)
  moreover have "length bytes \<le> rb_remaining b1" using Cons.prems b1 by (simp add: rb_remaining_def rb_capacity_def)
  ultimately show ?case using Cons.IH [OF b1(2)] b1 by fastforce
qed simp

definition moved_by :: "nat \<Rightarrow> async_file \<Rightarrow> async_file \<Rightarrow> bool" where
  "moved_by n f f' \<longleftrightarrow> file_logical f' = (file_logical f)\<lparr>rf_pos := rf_pos (file_logical f) + n\<rparr> \<and> fl_pending_seek f' = fl_pending_seek f \<and>
     file_unwritten f' = file_unwritten f \<and> file_owed f' = None"

lemma moved_by_nothing:
  "moved_by 0 f f' \<longleftrightarrow> file_logical f' = file_logical f \<and> fl_pending_seek f' = fl_pending_seek f \<and>
     file_unwritten f' = file_unwritten f \<and> file_owed f' = None"
  by (simp add: moved_by_def)

lemma hand_out:
  assumes "file_inv f" "fl_buffered_read f \<noteq> []" "rb_ok b" "0 < rb_remaining b" "n = min (rb_remaining b) (length (fl_buffered_read f))"
  defines "f' \<equiv> f\<lparr>fl_buffered_read := drop n (fl_buffered_read f)\<rparr>"
  shows "\<exists>b'. put_each b (take n (fl_buffered_read f)) = Inr b' \<and> file_inv f' \<and> moved_by (rb_filled b' - rb_filled b) f f' \<and>
    read_result (ahead f) b b' (Ready (Inr ())) (ahead f')"
proof -
  define buf r where "buf = fl_buffered_read f" and "r = fl_inner f"
  have op: "fl_operation f = None" using assms(1,2) by (auto simp: file_inv_def split: option.splits)
  have ra: "length buf \<le> rf_pos r" "take (length buf) (drop (rf_pos r - length buf) (rf_bytes r)) = buf"
    using assms(1) by (simp_all add: file_inv_def read_ahead_def buf_def r_def)
  have n: "0 < n" "n \<le> length buf" "n \<le> rb_remaining b" using assms(2,4,5) by (auto simp: buf_def)
  have log: "file_logical f = rewound r (length buf)" "file_logical f' = rewound r (length buf - n)"
    using op by (simp_all add: file_logical_def buf_def r_def f'_def)
  define c where "c = drop (rf_pos r - length buf) (rf_bytes r)"
  have c: "take (length buf) c = buf" using ra(2) by (simp add: c_def)
  then have lc: "length buf \<le> length c" by (metis length_take min.cobounded1)
  have ahead: "ahead f = c" "ahead f' = drop n c"
    using log ra(1) n by (simp_all add: ahead_def c_def rewound_def add.commute)
  have tn: "take n c = take n buf" using c n(2) by (metis min_absorb1 take_take)
  from put_each_ok [OF assms(3), of "take n buf"] n obtain b' where b': "put_each b (take n buf) = Inr b'" "rb_ok b'"
    "rb_capacity b' = rb_capacity b" "rb_initialized b \<le> rb_initialized b'" "rb_filled_bytes b' = rb_filled_bytes b @ take n buf"
    "rb_filled b' = rb_filled b + n" by auto
  have "drop n c = drop (rf_pos r - length (drop n buf)) (rf_bytes r)" using ra(1) n(2) by (simp add: c_def add.commute)
  moreover have "take (length (drop n buf)) (drop n c) = drop n buf" using c by (metis drop_take length_drop)
  ultimately have "read_ahead r (drop n buf)" using ra(1) unfolding read_ahead_def by simp
  then have "file_inv f'" using assms(1) op by (simp add: file_inv_def f'_def buf_def r_def)
  moreover have "moved_by (rb_filled b' - rb_filled b) f f'" using log ra(1) n b'(6) op by (simp add: moved_by_def rewound_def f'_def)
  moreover have "read_result c b b' (Ready (Inr ())) (drop n c)" using b' n lc tn by (auto simp: read_result_def reads_some_def)
  ultimately show ?thesis using b'(1) ahead by (simp add: buf_def)
qed

lemma file_read_loop_ok:
  assumes "rd_ok rd" "file_inv f" "rb_ok b" "0 < rb_remaining b"
  shows "\<exists>f' b' res. file_read_loop rd fast f b = Inr (f', b', res) \<and> file_inv f' \<and> moved_by (rb_filled b' - rb_filled b) f f' \<and>
    read_result (ahead f) b b' res (ahead f')"
  using assms(2)
proof (induction "read_rank f" arbitrary: f rule: less_induct)
  case less
  have same: "read_result (ahead f) b b res (ahead f)" if "res \<noteq> Ready (Inr ()) \<or> ahead f = []" for res
    using that assms(3) by (auto simp: read_result_def reads_some_def)
  show ?case
  proof (cases "fl_buffered_read f = []")
    case False
    from hand_out [OF less.prems False assms(3,4) refl] False show ?thesis
      by (subst file_read_loop.simps) (auto simp: Let_def)
  next
    case True
    define f1 where "f1 = start_read rd fast f (rb_remaining b)"
    have f1: "file_inv f1" "file_logical f1 = file_logical f" "fl_pending_seek f1 = fl_pending_seek f" "file_unwritten f1 = file_unwritten f"
      and "\<exists>op. fl_operation f1 = Some op"
      using start_read_keeps [OF assms(1) less.prems True assms(4)] by (simp_all add: f1_def)
    then obtain op where op: "fl_operation f1 = Some op" by blast
    have a1: "ahead f1 = ahead f" using f1 by (simp add: ahead_def)
    show ?thesis
    proof (cases "completed op")
      case None
      then have "file_read_loop rd fast f b = Inr (f1, b, Pending)" using True op
        by (subst file_read_loop.simps) (simp add: poll_operation_def f1_def [symmetric])
      moreover have "file_owed f1 = None" using op done_or_under_way(2) [OF None] by (simp add: file_owed_def)
      ultimately show ?thesis using f1 a1 same by (simp add: moved_by_nothing)
    next
      case (Some c)
      from take_result [OF f1(1) op Some] obtain f2 res where f2: "finish_operation (f1\<lparr>fl_operation := None\<rparr>) c = Inr (f2, res)"
        "file_inv f2" "file_logical f2 = file_logical f" "fl_pending_seek f2 = fl_pending_seek f" "is_eof c \<Longrightarrow> ahead f = []" "fl_operation f2 = None"
        using f1 a1 by auto
      have w: "file_unwritten f = None" using op Some done_or_under_way(1) [of op] f1(4) by (simp add: file_unwritten_def)
      have poll: "poll_operation f1 = (f1\<lparr>fl_operation := None\<rparr>, Ready (Some c))" using op Some by (simp add: poll_operation_def)
      have a2: "ahead f2 = ahead f" using f2 by (simp add: ahead_def)
      show ?thesis
      proof (cases "(\<exists>e. res = Inl e) \<or> is_eof c")
        case stop: True
        then have "\<exists>res'. file_read_loop rd fast f b = Inr (f2, b, Ready res') \<and> (res' \<noteq> Inr () \<or> ahead f = [])" using True poll f2
          by (subst file_read_loop.simps) (auto simp: f1_def [symmetric] split: sum.split)
        then show ?thesis using f2 a2 same w by (auto simp: moved_by_nothing)
      next
        case go: False
        then obtain u where u: "res = Inr u" by (cases res) auto
        have "read_rank f2 < read_rank f" using finish_read_rank [OF True poll [unfolded f1_def]] go f2(1) u by (auto simp: f1_def)
        from less.hyps [OF this f2(2)] show ?thesis using go u True poll f2 a2 w
          by (subst file_read_loop.simps) (simp add: f1_def [symmetric] moved_by_def)
      qed
    qed
  qed
qed

lemma file_drain_idle: "fl_operation f = None \<Longrightarrow> file_drain f = Inr (f, Ready (Inr ()))"
  by (subst file_drain.simps) (simp add: poll_operation_def)

lemma file_drain_ok:
  assumes "file_inv f"
  shows "\<exists>f' res. file_drain f = Inr (f', res) \<and> file_inv f' \<and> moved_by 0 f f' \<and> (res = Ready (Inr ()) \<longrightarrow> fl_operation f' = None)"
proof (cases "fl_operation f")
  case None
  then show ?thesis using assms by (simp add: file_drain_idle moved_by_nothing)
next
  case (Some op)
  show ?thesis
  proof (cases "completed op")
    case None
    then show ?thesis using assms Some done_or_under_way(2) [OF None]
      by (subst file_drain.simps) (simp add: poll_operation_def moved_by_nothing file_owed_def)
  next
    case c: (Some c)
    from take_result [OF assms Some c] obtain f2 res where f2: "finish_operation (f\<lparr>fl_operation := None\<rparr>) c = Inr (f2, res)"
      "file_inv f2" "moved_by 0 f f2" "fl_operation f2 = None"
      using done_or_under_way(1) [of op "fl_inner f"] Some c by (fastforce simp: moved_by_nothing file_unwritten_def)
    then show ?thesis using Some c file_drain_idle [OF f2(4)] by (subst file_drain.simps) (auto simp: poll_operation_def split: sum.split)
  qed
qed

text \<open>The error of a write is the result of the call that comes next, whichever it is.\<close>

lemma owed_reported:
  assumes "file_inv f" "file_owed f = Some e"
  shows "\<exists>f'. file_drain f = Inr (f', Ready (Inl e))"
    and "\<exists>f'. file_poll_write rd fast f buf = Inr (f', Ready (Inl e))"
    and "0 < rb_remaining b \<Longrightarrow> \<exists>f'. file_poll_read rd fast f cx b = Inr (f', b, Ready (Inl e))"
    and "\<exists>f'. file_poll_complete rd fast f = Inr (f', Ready (Inl e))"
proof -
  obtain u bytes h where op: "fl_operation f = Some (OpWrite u bytes (Some h))" "join_result h = Inl e"
    using assms(2) by (auto simp: file_owed_def split: option.splits sum.splits elim!: op_owed.elims)
  then have buf: "fl_buffered_read f = []" using assms(1) by (simp add: file_inv_def)
  have poll: "poll_operation f = (f\<lparr>fl_operation := None\<rparr>, Ready (Some (CompletedWrite (Inl e))))" using op by (simp add: poll_operation_def)
  then show drain: "\<exists>f'. file_drain f = Inr (f', Ready (Inl e))" by (subst file_drain.simps) simp
  show "\<exists>f'. file_poll_write rd fast f buf = Inr (f', Ready (Inl e))" using drain by (auto simp: file_poll_write_def)
  show "\<exists>f'. file_poll_complete rd fast f = Inr (f', Ready (Inl e))" using op(1) poll by (subst file_poll_complete.simps) simp
  show "\<exists>f'. file_poll_read rd fast f cx b = Inr (f', b, Ready (Inl e))" if "0 < rb_remaining b"
    using op(1) poll buf that by (subst file_poll_read_def, subst file_read_loop.simps) (simp add: start_read_def)
qed

lemma file_poll_write_ok:
  assumes "rd_ok rd" "file_inv f"
  shows "\<exists>f' res. file_poll_write rd fast f buf = Inr (f', res) \<and> file_inv f' \<and> fl_pending_seek f' = fl_pending_seek f \<and>
    file_owed f' = None \<and>
    (case res of Ready (Inr n) \<Rightarrow> n = min (length buf) (fl_max_buf_size f') \<and>
         (if buf = [] then moved_by 0 f f'
          else file_logical f' = raw_write (file_logical f) (take n buf) \<and> file_unwritten f' = (if fast then None else Some (file_logical f, take n buf)))
     | _ \<Rightarrow> moved_by 0 f f')"
proof -
  from file_drain_ok [OF assms(2)] obtain f1 res where f1: "file_drain f = Inr (f1, res)" "file_inv f1" "file_logical f1 = file_logical f"
    "fl_pending_seek f1 = fl_pending_seek f" "res = Ready (Inr ()) \<longrightarrow> fl_operation f1 = None" and m1: "moved_by 0 f f1"
    by (auto simp: moved_by_nothing)
  show ?thesis
  proof (cases "res = Ready (Inr ()) \<and> buf \<noteq> []")
    case False
    with f1(1,2,4) m1 show ?thesis by (auto simp: file_poll_write_def moved_by_nothing split: poll.splits sum.splits)
  next
    case True
    define n u where "n = min (length buf) (fl_max_buf_size f1)" and "u = length (fl_buffered_read f1)"
    define g where "g = f1\<lparr>fl_buffered_read := []\<rparr>"
    have u: "u \<le> rf_pos (fl_inner f1)" "file_logical f1 = rewound (fl_inner f1) u" "0 < fl_max_buf_size f1"
      using f1(2,5) True by (simp_all add: file_inv_def read_ahead_def u_def file_logical_def)
    then have "file_inv (file_spawn rd fast g (OpWrite u (take n buf) None)) \<and>
      file_logical (file_spawn rd fast g (OpWrite u (take n buf) None)) = raw_write (file_logical f) (take n buf) \<and>
      fl_pending_seek (file_spawn rd fast g (OpWrite u (take n buf) None)) = fl_pending_seek f"
      using file_spawn_keeps [OF assms(1), of g "OpWrite u (take n buf) None" fast] f1(3,4) by (simp add: g_def run_write_ok)
    moreover have "fl_max_buf_size (file_spawn rd fast g op) = fl_max_buf_size f1" for op by (simp add: file_spawn_def g_def Let_def)
    moreover have "file_owed (file_spawn rd fast g (OpWrite u (take n buf) None)) = None"
      "file_unwritten (file_spawn rd fast g (OpWrite u (take n buf) None)) = (if fast then None else Some (file_logical f, take n buf))"
      using u f1(3) by (simp_all add: file_spawn_def file_run_def file_owed_def file_unwritten_def g_def run_write_ok join_result_def Let_def)
    ultimately show ?thesis using True f1(1) by (simp add: file_poll_write_def Let_def n_def u_def g_def)
  qed
qed

text \<open>A seek takes effect when it is started; a result is the position the user now has.\<close>

definition valid_seek :: "raw_file \<Rightarrow> seek_from option \<Rightarrow> bool" where
  "valid_seek r posn = succeeds (snd (raw_seek r (case posn of None \<Rightarrow> SeekCurrent 0 | Some p \<Rightarrow> p)))"

definition after_seek :: "raw_file \<Rightarrow> seek_from option \<Rightarrow> seek_from option \<Rightarrow> raw_file" where
  "after_seek r before after = (case (before, after) of (Some p, None) \<Rightarrow> fst (raw_seek r p) | _ \<Rightarrow> r)"

lemma raw_seek_rewound:
  assumes "u \<le> rf_pos r"
  shows "raw_seek r (SeekCurrent (n - int u)) = (case raw_seek (rewound r u) (SeekCurrent n) of
    (r', Inr p) \<Rightarrow> (r', Inr p) | (r', Inl e) \<Rightarrow> (r, Inl e))"
  using assms by (auto simp: raw_seek_def rewound_def Let_def of_nat_diff algebra_simps)

lemma raw_seek_elsewhere:
  assumes "\<forall>n. p \<noteq> SeekCurrent n"
  shows "raw_seek r p = (case raw_seek (rewound r u) p of (r', Inr p) \<Rightarrow> (r', Inr p) | (r', Inl e) \<Rightarrow> (r, Inl e))"
  using assms by (cases p) (auto simp: raw_seek_def rewound_def Let_def)

lemma spawn_seek_ok:
  assumes "rd_ok rd" "file_inv f" "fl_operation f = None" "valid_seek (file_logical f) (fl_pending_seek f)" "spawn_seek rd fast f = Some f'"
  shows "file_inv f' \<and> fl_pending_seek f' = None \<and> file_logical f' = after_seek (file_logical f) (fl_pending_seek f) None"
proof -
  define u p where "u = length (fl_buffered_read f)" and "p = (case fl_pending_seek f of None \<Rightarrow> SeekCurrent 0 | Some p \<Rightarrow> p)"
  have u: "u \<le> rf_pos (fl_inner f)" "file_logical f = rewound (fl_inner f) u" "0 < fl_max_buf_size f"
    using assms(2,3) by (simp_all add: file_inv_def read_ahead_def u_def file_logical_def)
  obtain r' n where r': "raw_seek (file_logical f) p = (r', Inr n)" using assms(4)
    by (cases "raw_seek (file_logical f) p") (auto simp: valid_seek_def p_def succeeds_def split: sum.splits)
  obtain q where q: "f' = file_spawn rd fast (f\<lparr>fl_pending_seek := None, fl_buffered_read := []\<rparr>) (OpSeek q None)"
    and pq: "case p of SeekCurrent n \<Rightarrow> q = SeekCurrent (n - int u) | _ \<Rightarrow> q = p"
    using assms(5) by (auto simp: spawn_seek_def p_def [symmetric] u_def [symmetric] Let_def i64_checked_sub_def split: seek_from.splits option.splits if_splits)
  have "raw_seek (fl_inner f) q = (r', Inr n)"
    using pq r' raw_seek_rewound [OF u(1)] raw_seek_elsewhere [of p "fl_inner f" u] unfolding u(2) by (cases p) auto
  then have "file_inv f'" "fl_pending_seek f' = None" "file_logical f' = r'"
    using file_spawn_keeps [OF assms(1), of "f\<lparr>fl_pending_seek := None, fl_buffered_read := []\<rparr>" "OpSeek q None" fast] u(3)
    unfolding q by (simp_all add: succeeds_def)
  moreover have "r' = after_seek (file_logical f) (fl_pending_seek f) None"
    using r' by (cases "fl_pending_seek f") (auto simp: after_seek_def p_def raw_seek_def Let_def split: if_splits)
  ultimately show ?thesis by simp
qed

definition seek_outcome :: "async_file \<Rightarrow> async_file \<Rightarrow> nat io_result poll \<Rightarrow> bool" where
  "seek_outcome f f' res \<longleftrightarrow> file_unwritten f' = file_unwritten f \<and> file_owed f' = None \<and> (case res of
     Ready (Inl _) \<Rightarrow> file_logical f' = file_logical f
   | Pending \<Rightarrow> file_logical f' = after_seek (file_logical f) (fl_pending_seek f) (fl_pending_seek f')
   | Ready (Inr n) \<Rightarrow> file_logical f' = after_seek (file_logical f) (fl_pending_seek f) (fl_pending_seek f') \<and> n = rf_pos (file_logical f'))"

lemma after_seek_same [simp]: "after_seek r p p = r"
  by (auto simp: after_seek_def split: option.split)

lemma poll_under_way:
  assumes "file_inv f" "fl_operation f = Some (OpSeek p h)"
  shows "\<exists>f' res. file_poll_complete rd fast f = Inr (f', res) \<and> file_inv f' \<and> fl_pending_seek f' = fl_pending_seek f \<and>
    file_logical f' = file_logical f \<and> file_unwritten f' = None \<and> file_owed f' = None \<and> (case res of Pending \<Rightarrow> True | Ready x \<Rightarrow> x = Inr (rf_pos (file_logical f')))"
proof (cases h)
  case None
  then show ?thesis using assms by (subst file_poll_complete.simps) (simp add: poll_operation_def file_unwritten_def file_owed_def)
next
  case (Some x)
  then have c: "completed (OpSeek p h) = Some (CompletedSeek (join_result x))" by simp
  with assms Some show ?thesis
    by (subst file_poll_complete.simps) (auto simp: poll_operation_def file_inv_def file_logical_def rewound_def)
qed

lemma complete_idle:
  assumes "rd_ok rd" "file_inv f" "fl_operation f = None" "valid_seek (file_logical f) (fl_pending_seek f)"
  shows "\<exists>f' res. file_poll_complete rd fast f = Inr (f', res) \<and> file_inv f' \<and> seek_outcome f f' res"
proof (cases "spawn_seek rd fast f")
  case None
  then show ?thesis using assms
    by (subst file_poll_complete.simps) (simp add: seek_outcome_def file_inv_def file_logical_def)
next
  case (Some f1)
  then have f1: "file_inv f1" "fl_pending_seek f1 = None" "file_logical f1 = after_seek (file_logical f) (fl_pending_seek f) None"
    using spawn_seek_ok [OF assms] by simp_all
  from spawn_seek_operation [OF Some] obtain p h where op: "fl_operation f1 = Some (OpSeek p h)" by blast
  have "file_poll_complete rd fast f = file_poll_complete rd fast f1"
    using assms(3) Some op by (subst (1 2) file_poll_complete.simps) simp
  then show ?thesis using poll_under_way [OF f1(1) op, of rd fast] f1 idle_owes_nothing(1) [OF assms(3)]
    by (fastforce simp: seek_outcome_def split: poll.splits)
qed

lemma file_poll_complete_ok:
  assumes "rd_ok rd" "file_inv f" "valid_seek (file_logical f) (fl_pending_seek f)"
  shows "\<exists>f' res. file_poll_complete rd fast f = Inr (f', res) \<and> file_inv f' \<and> seek_outcome f f' res"
proof (cases "fl_operation f")
  case None
  then show ?thesis using complete_idle [OF assms(1,2) _ assms(3)] by blast
next
  case (Some op)
  show ?thesis
  proof (cases "completed op")
    case None
    then show ?thesis using assms Some done_or_under_way(2) [OF None]
      by (subst file_poll_complete.simps) (simp add: poll_operation_def seek_outcome_def file_owed_def)
  next
    case c: (Some c)
    from take_result [OF assms(2) Some c] obtain f2 res where f2: "finish_operation (f\<lparr>fl_operation := None\<rparr>) c = Inr (f2, res)"
      "file_inv f2" "file_logical f2 = file_logical f" "fl_operation f2 = None" "fl_pending_seek f2 = fl_pending_seek f" by auto
    have w: "file_unwritten f = None" using Some c done_or_under_way(1) [of op] by (simp add: file_unwritten_def)
    show ?thesis
    proof (cases "(\<exists>x. c = CompletedSeek x) \<or> (\<exists>e. res = Inl e)")
      case True
      show ?thesis
      proof (cases "\<exists>x. c = CompletedSeek x")
        case seek: True
        with c Some obtain p h where "fl_operation f = Some (OpSeek p h)" by (auto simp: completed_seek)
        from poll_under_way [OF assms(2) this, of rd fast] w show ?thesis by (fastforce simp: seek_outcome_def split: poll.splits)
      next
        case False
        with True f2 Some c w show ?thesis
          by (subst file_poll_complete.simps) (auto simp: poll_operation_def seek_outcome_def split: completed_operation.split)
      qed
    next
      case False
      then obtain y where "res = Inr y" by (cases res) auto
      then have "file_poll_complete rd fast f = file_poll_complete rd fast f2" using False f2(1) Some c
        by (subst file_poll_complete.simps) (auto simp: poll_operation_def split: completed_operation.split)
      moreover have "seek_outcome f2 = seek_outcome f" using f2(4) w unfolding seek_outcome_def f2(3,5) by simp
      ultimately show ?thesis using complete_idle [OF assms(1) f2(2,4), of fast] assms(3) f2 by simp
    qed
  qed
qed

lemma into_std_ok:
  assumes "file_inv f"
  shows "\<exists>f'. into_std False f = (f', if wait_for_operation f then Ready (Inr (file_logical f)) else Pending)"
proof -
  have idle: "\<exists>f'. into_std False g = (f', Ready (Inr (file_logical g)))" if g: "file_inv g" "fl_operation g = None" for g
  proof -
    define u where "u = length (fl_buffered_read g)"
    have "u \<le> rf_pos (fl_inner g)" using g by (simp add: file_inv_def read_ahead_def u_def)
    then have "raw_seek (fl_inner g) (SeekCurrent (- int u)) = (rewound (fl_inner g) u, Inr (rf_pos (fl_inner g) - u))"
      by (auto simp: raw_seek_def rewound_def Let_def nat_diff_distrib)
    then show ?thesis using g(2) by (auto simp: into_std_def try_into_std_def file_logical_def rewound_def u_def)
  qed
  show ?thesis
  proof (cases "fl_operation f")
    case None
    then show ?thesis using idle [OF assms] by (auto simp: wait_for_operation_def)
  next
    case (Some op)
    show ?thesis
    proof (cases "completed op")
      case None
      then show ?thesis using Some by (simp add: into_std_def poll_operation_def wait_for_operation_def)
    next
      case c: (Some c)
      from take_result [OF assms Some c] obtain g res where g: "finish_operation (f\<lparr>fl_operation := None\<rparr>) c = Inr (g, res)"
        "file_inv g" "file_logical g = file_logical f" "fl_operation g = None" by auto
      then have "into_std False f = into_std False g" using Some c by (simp add: into_std_def poll_operation_def)
      then show ?thesis using idle [OF g(2,4)] g(3) Some c by (auto simp: wait_for_operation_def)
    qed
  qed
qed

text \<open>A file is a reader of what lies ahead of its user, whichever way the pool schedules its work.\<close>

locale std_file =
  fixes rd :: "nat \<Rightarrow> nat \<Rightarrow> nat" and fast :: bool
  assumes reads: "rd_ok rd"

sublocale std_file \<subseteq> ahead: async_reader "file_poll_read rd fast" ahead file_inv
proof
  fix f b cx
  assume "file_inv f" "rb_ok b" "0 < rb_remaining b"
  with file_read_loop_ok [OF reads this]
  show "\<exists>f' b' res. file_poll_read rd fast f cx b = Inr (f', b', res) \<and> file_inv f' \<and> read_result (ahead f) b b' res (ahead f')"
    unfolding file_poll_read_def by (metis less_not_refl)
qed

lemma rd_ok_min: "rd_ok min"
  by (auto simp: rd_ok_def)

interpretation eager_file: std_file min True
  using rd_ok_min by unfold_locales

interpretation lazy_file: std_file min False
  using rd_ok_min by unfold_locales

section \<open>A file and the file it stands for\<close>

text \<open>
  What the user knows: a plain file that only sees what the user was told (bytes handed out, bytes accepted, seeks made); the last accepted write, as
  long as it has not been run, as the plain file before it and its bytes; and the error of a write that has failed and has not been reported.
\<close>

record plain_view =
  pv_file :: raw_file
  pv_unwritten :: "(raw_file \<times> byte list) option"
  pv_owed :: "io_error option"

definition plain_open :: "raw_file \<Rightarrow> plain_view" where
  "plain_open r = \<lparr>pv_file = r, pv_unwritten = None, pv_owed = None\<rparr>"

text \<open>
  The handle beside this view. The worker runs whenever it likes, and reads and writes may fail, writes after any part of their bytes, which then is
  what is left of them. Seeks do not fail: they stay within the file's start and the operating system makes them. The operations that own their
  buffers are not called; the section below shows what the other cases do.
\<close>

inductive file_system :: "(nat \<Rightarrow> nat \<Rightarrow> nat) \<Rightarrow> raw_file \<Rightarrow> async_file \<Rightarrow> plain_view \<Rightarrow> bool" for rd r0 where
  opened: "file_system rd r0 (file_from_inner r0) (plain_open r0)"
| resized: "file_system rd r0 f v \<Longrightarrow> file_system rd r0 (set_max_buf_size f n) v"
| ran: "file_system rd r0 f v \<Longrightarrow> harmless f fault \<Longrightarrow> file_system rd r0 (file_run rd fault f) (v\<lparr>pv_unwritten := None\<rparr>)"
| write_failed: "file_system rd r0 f v \<Longrightarrow> pv_unwritten v = Some (before, bytes) \<Longrightarrow>
    file_system rd r0 (file_run rd (Some (k, e)) f) \<lparr>pv_file = raw_write before (take k bytes), pv_unwritten = None, pv_owed = Some e\<rparr>"
| nothing_asked: "file_system rd r0 f v \<Longrightarrow> rb_remaining b = 0 \<Longrightarrow> file_poll_read rd fast f cx b = Inr (f', b', res) \<Longrightarrow> file_system rd r0 f' v"
| handed_out: "file_system rd r0 f v \<Longrightarrow> rb_ok b \<Longrightarrow> 0 < rb_remaining b \<Longrightarrow> file_poll_read rd fast f cx b = Inr (f', b', res) \<Longrightarrow>
    file_system rd r0 f' (v\<lparr>pv_file := (pv_file v)\<lparr>rf_pos := rf_pos (pv_file v) + (rb_filled b' - rb_filled b)\<rparr>, pv_owed := None\<rparr>)"
| accepted: "file_system rd r0 f v \<Longrightarrow> buf \<noteq> [] \<Longrightarrow> file_poll_write rd fast f buf = Inr (f', Ready (Inr n)) \<Longrightarrow>
    file_system rd r0 f' \<lparr>pv_file = raw_write (pv_file v) (take n buf), pv_unwritten = (if fast then None else Some (pv_file v, take n buf)), pv_owed = None\<rparr>"
| not_accepted: "file_system rd r0 f v \<Longrightarrow> file_poll_write rd fast f buf = Inr (f', res) \<Longrightarrow> buf = [] \<or> (\<forall>n. res \<noteq> Ready (Inr n)) \<Longrightarrow>
    file_system rd r0 f' (v\<lparr>pv_owed := None\<rparr>)"
| flushed: "file_system rd r0 f v \<Longrightarrow> file_poll_flush f = Inr (f', res) \<Longrightarrow> file_system rd r0 f' (v\<lparr>pv_owed := None\<rparr>)"
| seek_started: "file_system rd r0 f v \<Longrightarrow> file_start_seek f posn = (f', res) \<Longrightarrow> file_system rd r0 f' v"
| sought: "file_system rd r0 f v \<Longrightarrow> valid_seek (pv_file v) (fl_pending_seek f) \<Longrightarrow> file_poll_complete rd fast f = Inr (f', res) \<Longrightarrow>
    \<forall>e. res \<noteq> Ready (Inl e) \<Longrightarrow>
    file_system rd r0 f' (v\<lparr>pv_file := after_seek (pv_file v) (fl_pending_seek f) (fl_pending_seek f'), pv_owed := None\<rparr>)"
| not_sought: "file_system rd r0 f v \<Longrightarrow> valid_seek (pv_file v) (fl_pending_seek f) \<Longrightarrow>
    file_poll_complete rd fast f = Inr (f', Ready (Inl e)) \<Longrightarrow> file_system rd r0 f' (v\<lparr>pv_owed := None\<rparr>)"

lemma file_poll_read_ok:
  assumes "rd_ok rd" "file_inv f" "rb_ok b" "0 < rb_remaining b" "file_poll_read rd fast f cx b = Inr (f', b', res)"
  shows "file_inv f' \<and> moved_by (rb_filled b' - rb_filled b) f f' \<and> read_result (ahead f) b b' res (ahead f')"
  using file_read_loop_ok [OF assms(1-4), of fast] assms(4,5) by (auto simp: file_poll_read_def)

definition views :: "async_file \<Rightarrow> plain_view \<Rightarrow> bool" where
  "views f v \<longleftrightarrow> file_inv f \<and> v = \<lparr>pv_file = file_logical f, pv_unwritten = file_unwritten f, pv_owed = file_owed f\<rparr>"

lemma views_moved: "views f v \<Longrightarrow> file_inv f' \<Longrightarrow> moved_by 0 f f' \<Longrightarrow> views f' (v\<lparr>pv_owed := None\<rparr>)"
  by (simp add: views_def moved_by_nothing)

lemma file_system_views:
  assumes "rd_ok rd" "file_system rd r0 f v"
  shows "views f v"
  using assms(2)
proof induction
  case opened
  show ?case by (simp add: views_def plain_open_def file_inv_def file_logical_def file_from_inner_def rewound_def)
next
  case (resized f v n)
  then show ?case
    by (cases "fl_operation f") (auto simp: views_def file_inv_def file_logical_def set_max_buf_size_def file_unwritten_def file_owed_def)
next
  case (ran f v fault)
  then show ?case using file_run_keeps [OF assms(1)] file_run_settles [OF assms(1)] by (simp add: views_def)
next
  case (write_failed f v before bytes k e)
  then show ?case using write_failed_keeps [of f before bytes rd k e] by (simp add: views_def)
next
  case (nothing_asked f v b fast cx f' b' res)
  then show ?case by (simp add: file_poll_read_def)
next
  case (handed_out f v b fast cx f' b' res)
  then show ?case using file_poll_read_ok [OF assms(1) _ handed_out.hyps(2-4)] by (simp add: views_def moved_by_def)
next
  case (accepted f v buf fast f' n)
  then show ?case using file_poll_write_ok [OF assms(1), of f fast buf] by (simp add: views_def)
next
  case (not_accepted f v fast buf f' res)
  then have f: "file_inv f" by (simp add: views_def)
  from file_poll_write_ok [OF assms(1) this, of fast buf] not_accepted.hyps(2,3) have "file_inv f'" "moved_by 0 f f'"
    by (auto split: poll.splits sum.splits)
  then show ?case by (rule views_moved [OF not_accepted.IH])
next
  case (flushed f v f' res)
  then show ?case using file_drain_ok [of f] views_moved by (fastforce simp: file_poll_flush_def views_def)
next
  case (seek_started f v posn f' res)
  then show ?case
    by (cases "fl_operation f") (auto simp: views_def file_start_seek_def file_inv_def file_logical_def file_unwritten_def file_owed_def split: if_splits)
next
  case (sought f v fast f' res)
  then show ?case using file_poll_complete_ok [OF assms(1), of f fast] by (auto simp: views_def seek_outcome_def split: poll.splits sum.splits)
next
  case (not_sought f v fast f' e)
  then show ?case using file_poll_complete_ok [OF assms(1), of f fast] by (auto simp: views_def seek_outcome_def)
qed

lemma drained_bytes: "fl_operation f = None \<Longrightarrow> rf_bytes (fl_inner f) = rf_bytes (file_logical f)"
  by (simp add: file_logical_def rewound_def)

text \<open>C36: a handle on which reads, writes, flushes and seeks are polled in any order, however the pool schedules its work, stands for a plain file. The
  conditions are that no seek goes before the start of the file or fails in the operating system, that the operations with owned buffers are
  not used, and that the file is not shared when it is turned back; reads and writes may fail at any point. A read then hands out the bytes at the user's position of
  the plain file and something unless it is at its end. A write that is accepted changes the plain file at once; if it fails later, the
  plain file keeps the bytes that were written before the failure, and the error is owed: the next flush, write, seek or read that asks for something returns it and nothing else.
  A flush that succeeds leaves the bytes of the plain file in the file of the operating system and no error is owed, a seek that succeeds
  returns the user's position, and the standard file one gets back is the plain file.\<close>

theorem file_behaves_like_plain_file:
  assumes "rd_ok rd" "file_system rd r0 f v"
  shows "(\<forall>fast cx b f' b'. rb_ok b \<and> 0 < rb_remaining b \<and> file_poll_read rd fast f cx b = Inr (f', b', Ready (Inr ())) \<longrightarrow>
      reads_some (drop (rf_pos (pv_file v)) (rf_bytes (pv_file v))) b b' (drop (rf_pos (pv_file v) + (rb_filled b' - rb_filled b)) (rf_bytes (pv_file v)))) \<and>
    (\<forall>f'. file_poll_flush f = Inr (f', Ready (Inr ())) \<longrightarrow> rf_bytes (fl_inner f') = rf_bytes (pv_file v) \<and> pv_owed v = None) \<and>
    (\<forall>fast f' n. valid_seek (pv_file v) (fl_pending_seek f) \<and> file_poll_complete rd fast f = Inr (f', Ready (Inr n)) \<longrightarrow>
      n = rf_pos (after_seek (pv_file v) (fl_pending_seek f) (fl_pending_seek f'))) \<and>
    (\<exists>f'. into_std False f = (f', if wait_for_operation f then Ready (Inr (pv_file v)) else Pending)) \<and>
    (\<forall>e fast cx b buf. pv_owed v = Some e \<longrightarrow> (\<exists>f'. file_poll_flush f = Inr (f', Ready (Inl e))) \<and>
      (\<exists>f'. file_poll_write rd fast f buf = Inr (f', Ready (Inl e))) \<and> (\<exists>f'. file_poll_complete rd fast f = Inr (f', Ready (Inl e))) \<and>
      (0 < rb_remaining b \<longrightarrow> (\<exists>f'. file_poll_read rd fast f cx b = Inr (f', b, Ready (Inl e)))))"
    (is "?read \<and> ?flush \<and> ?seek \<and> ?std \<and> ?owed")
proof (intro conjI)
  have f: "file_inv f" "pv_file v = file_logical f" "pv_owed v = file_owed f" using file_system_views [OF assms] by (simp_all add: views_def)
  show ?read using file_poll_read_ok [OF assms(1) f(1)] f(2) by (fastforce simp: moved_by_def ahead_def read_result_def)
  have "file_owed f = None" if "file_poll_flush f = Inr (f', Ready (Inr ()))" for f'
    using owed_reported(1) [OF f(1)] that by (cases "file_owed f") (fastforce simp: file_poll_flush_def)+
  then show ?flush using file_drain_ok [OF f(1)] f(2,3) by (auto simp: file_poll_flush_def moved_by_nothing drained_bytes)
  show ?seek
  proof (intro allI impI, elim conjE)
    fix fast f' n
    assume "valid_seek (pv_file v) (fl_pending_seek f)" "file_poll_complete rd fast f = Inr (f', Ready (Inr n))"
    with file_poll_complete_ok [OF assms(1) f(1), of fast] f(2)
    show "n = rf_pos (after_seek (pv_file v) (fl_pending_seek f) (fl_pending_seek f'))" by (simp add: seek_outcome_def)
  qed
  show ?std using into_std_ok [OF f(1)] unfolding f(2) .
  show ?owed using owed_reported [OF f(1)] unfolding f(3) file_poll_flush_def by blast
qed

text \<open>A write of three bytes fails after the first: the plain file has one of them, and the error is owed.\<close>

definition sample_start :: raw_file where
  "sample_start = \<lparr>rf_bytes = [1, 2, 3], rf_pos = 1\<rparr>"

definition sample_file :: async_file where
  "sample_file = file_run min (Some (1, WouldBlock)) (fst (projr (file_poll_write min False (file_from_inner sample_start) [7, 8, 9])))"

definition sample_view :: plain_view where
  "sample_view = \<lparr>pv_file = \<lparr>rf_bytes = [1, 7, 3], rf_pos = 2\<rparr>, pv_unwritten = None, pv_owed = Some WouldBlock\<rparr>"

lemma sample_file_reached: "file_system min sample_start sample_file sample_view"
proof -
  let ?w = "file_poll_write min False (file_from_inner sample_start) [7, 8, 9]"
  have "?w = Inr (fst (projr ?w), Ready (Inr 3))"
    by (simp add: file_poll_write_def file_drain_idle file_from_inner_def)
  from file_system.write_failed [OF file_system.accepted [OF file_system.opened _ this], of sample_start "[7, 8, 9]" 1 WouldBlock]
  show ?thesis by (simp add: sample_file_def sample_view_def plain_open_def raw_write_def sample_start_def numeral_eq_Suc)
qed

theorem file_behaves_like_plain_file_witness:
  "rd_ok min \<and> file_system min sample_start sample_file sample_view \<and>
    (\<exists>f'. into_std False sample_file = (f', if wait_for_operation sample_file then Ready (Inr \<lparr>rf_bytes = [1, 7, 3], rf_pos = 2\<rparr>) else Pending)) \<and>
    (\<exists>f'. file_poll_flush sample_file = Inr (f', Ready (Inl WouldBlock)))"
proof -
  have v: "pv_owed sample_view = Some WouldBlock" "pv_file sample_view = \<lparr>rf_bytes = [1, 7, 3], rf_pos = 2\<rparr>" by (simp_all add: sample_view_def)
  from file_behaves_like_plain_file [OF rd_ok_min sample_file_reached, unfolded v] rd_ok_min sample_file_reached show ?thesis by blast
qed

section \<open>Where the position is lost\<close>

text \<open>
  A seek that fails drops the bytes that were read ahead: the user's position jumps over them. The operations on owned buffers take the position of
  the operating system, which is ahead of the user's by the bytes read ahead.
\<close>

lemma failed_seek_skips:
  assumes "fl_operation f = None" "fl_pending_seek f = Some (SeekEnd n)" "int (length (rf_bytes (fl_inner f))) + n < 0"
  shows "\<exists>f'. file_poll_complete rd True f = Inr (f', Ready (Inl (InvalidInput ''invalid seek''))) \<and> file_logical f' = fl_inner f"
  using assms by (subst file_poll_complete.simps)
    (simp add: spawn_seek_def file_spawn_def file_run_def run_seek_def raw_seek_def poll_operation_def join_result_def file_logical_def rewound_def)

lemma owned_operations_skip:
  assumes "file_inv f" "fl_operation f = None"
  shows "\<exists>f'. write_all_owned None f bytes = (f', Ready (Inr ())) \<and>
      fl_inner f' = raw_write ((file_logical f)\<lparr>rf_pos := rf_pos (file_logical f) + length (fl_buffered_read f)\<rparr>) bytes"
    and "\<exists>f'. read_to_end_owned None f = (f', Ready (Inr (drop (length (fl_buffered_read f)) (ahead f))))"
proof -
  have "(file_logical f)\<lparr>rf_pos := rf_pos (file_logical f) + length (fl_buffered_read f)\<rparr> = fl_inner f"
    using assms by (simp add: file_inv_def read_ahead_def file_logical_def rewound_def)
  then show "\<exists>f'. write_all_owned None f bytes = (f', Ready (Inr ())) \<and>
      fl_inner f' = raw_write ((file_logical f)\<lparr>rf_pos := rf_pos (file_logical f) + length (fl_buffered_read f)\<rparr>) bytes"
    using assms(2) by (simp add: write_all_owned_def wait_for_operation_def)
  show "\<exists>f'. read_to_end_owned None f = (f', Ready (Inr (drop (length (fl_buffered_read f)) (ahead f))))"
    using assms by (simp add: Let_def read_to_end_owned_def wait_for_operation_def ahead_def file_inv_def read_ahead_def file_logical_def rewound_def)
qed

section \<open>Directories\<close>

text \<open>
  \<open>ReadDir\<close>: what the iterator of the operating system still has, each entry possibly an error, and the operation under way. \<open>dir_run\<close> is the
  closure, run by the worker.
\<close>

record 'e read_dir =
  dir_inner :: "'e io_result list"
  dir_operation :: "'e option handle option"

definition dir_run :: "'e read_dir \<Rightarrow> 'e read_dir" where
  "dir_run d = (case dir_operation d of
     Some None \<Rightarrow> (case dir_inner d of
         [] \<Rightarrow> d\<lparr>dir_operation := Some (Some (Inr (Inr None)))\<rparr>
       | Inr entry # rest \<Rightarrow> d\<lparr>dir_inner := rest, dir_operation := Some (Some (Inr (Inr (Some entry))))\<rparr>
       | Inl e # rest \<Rightarrow> d\<lparr>dir_inner := rest, dir_operation := Some (Some (Inr (Inl e)))\<rparr>)
   | _ \<Rightarrow> d)"

definition poll_next_entry :: "bool \<Rightarrow> 'e read_dir \<Rightarrow> 'e read_dir \<times> 'e option io_result poll" where
  "poll_next_entry fast d =
     (let d = (if dir_operation d = None then (let d = d\<lparr>dir_operation := Some None\<rparr> in if fast then dir_run d else d) else d)
      in case dir_operation d of
        Some (Some result) \<Rightarrow> (d\<lparr>dir_operation := None\<rparr>, Ready (join_result result))
      | _ \<Rightarrow> (d, Pending))"

definition dir_rest :: "'e read_dir \<Rightarrow> 'e io_result list" where
  "dir_rest d = (case dir_operation d of
     Some (Some (Inr (Inr (Some entry)))) \<Rightarrow> Inr entry # dir_inner d
   | Some (Some (Inr (Inl e))) \<Rightarrow> Inl e # dir_inner d
   | _ \<Rightarrow> dir_inner d)"

definition dir_inv :: "'e read_dir \<Rightarrow> bool" where
  "dir_inv d \<longleftrightarrow> (case dir_operation d of
     Some (Some (Inl _)) \<Rightarrow> False
   | Some (Some (Inr (Inr None))) \<Rightarrow> dir_inner d = []
   | _ \<Rightarrow> True)"

lemma dir_run_keeps: "dir_inv d \<Longrightarrow> dir_inv (dir_run d) \<and> dir_rest (dir_run d) = dir_rest d"
  by (auto simp: dir_run_def dir_inv_def dir_rest_def split: option.splits list.splits sum.splits)

text \<open>Every entry is returned once and in order, also when a call is dropped while its operation is under way.\<close>

lemma poll_next_entry_ok:
  assumes "dir_inv d" "poll_next_entry fast d = (d', res)"
  shows "dir_inv d' \<and> (case res of
      Pending \<Rightarrow> dir_rest d' = dir_rest d
    | Ready (Inr None) \<Rightarrow> dir_rest d = [] \<and> dir_rest d' = []
    | Ready (Inr (Some entry)) \<Rightarrow> dir_rest d = Inr entry # dir_rest d'
    | Ready (Inl e) \<Rightarrow> dir_rest d = Inl e # dir_rest d')"
proof -
  define g where "g = (if dir_operation d = None then (let d = d\<lparr>dir_operation := Some None\<rparr> in if fast then dir_run d else d) else d)"
  have "dir_inv (d\<lparr>dir_operation := Some None\<rparr>)" "dir_operation d = None \<Longrightarrow> dir_rest (d\<lparr>dir_operation := Some None\<rparr>) = dir_rest d"
    by (simp_all add: dir_inv_def dir_rest_def)
  then have g: "dir_inv g" "dir_rest g = dir_rest d" using assms(1) dir_run_keeps [of "d\<lparr>dir_operation := Some None\<rparr>"]
    by (auto simp: g_def Let_def)
  have "poll_next_entry fast d = (case dir_operation g of
      Some (Some result) \<Rightarrow> (g\<lparr>dir_operation := None\<rparr>, Ready (join_result result)) | _ \<Rightarrow> (g, Pending))"
    unfolding poll_next_entry_def g_def Let_def ..
  with assms(2) g(1) show ?thesis unfolding g(2) [symmetric]
    by (auto simp: dir_inv_def dir_rest_def join_result_def split: option.splits sum.splits)
qed

end
