(* ===== verification/Unix_Signal.thy ===== *)
theory Unix_Signal
  imports Reactor
begin

text \<open>
  Unix signals (\<open>signal/unix.rs\<close>). The handler writes the number of the signal to a socket; whoever polls a listener drains the socket, counts each
  occurrence and wakes the listeners of that signal. Any number of tasks do this at once: the counters are atomics, the lists of waiters
  have a lock, and the readiness of the socket is that of \<open>Reactor\<close>.
\<close>

unbundle bit_operations_syntax

section \<open>The driver\<close>

definition MAX_SIGNALS :: nat where "MAX_SIGNALS = 64"
definition SIG_KILL :: int where "SIG_KILL = 9"
definition SIG_STOP :: int where "SIG_STOP = 19"

text \<open>\<open>sd_pipe\<close> is what the kernel holds for the reader.\<close>

record signal_driver =
  sd_reader :: scheduled_io
  sd_pipe :: "byte list"
  sd_installed :: "bool list"
  sd_generation :: "u64 list"
  sd_waiters :: "waker list list"

definition signal_driver_new :: "scheduled_io \<Rightarrow> signal_driver" where
  "signal_driver_new reader = \<lparr>sd_reader = reader, sd_pipe = [], sd_installed = replicate MAX_SIGNALS False,
     sd_generation = replicate MAX_SIGNALS 0, sd_waiters = replicate MAX_SIGNALS []\<rparr>"

text \<open>A write to a full socket is ignored.\<close>

definition signal_handler :: "nat \<Rightarrow> int \<Rightarrow> byte list \<Rightarrow> int \<Rightarrow> byte list" where
  "signal_handler room fd pipe signal = (if fd < 0 then pipe else if length pipe < room then pipe @ [word_of_int signal] else pipe)"

text \<open>
  Installing a handler has two steps: the swap of the flag, after which a second caller returns \<open>Ok\<close>, and \<open>signal(2)\<close>, which takes the
  flag back when it fails. \<open>Inr True\<close> says that the flag was set before.
\<close>

definition install_claim :: "signal_driver \<Rightarrow> int \<Rightarrow> (signal_driver \<times> bool io_result) panicky" where
  "install_claim d signal =
     (if signal \<le> 0 \<or> MAX_SIGNALS \<le> nat signal \<or> signal = SIG_KILL \<or> signal = SIG_STOP
      then Inr (d, Inl (InvalidInput ''signal cannot be intercepted''))
      else if length (sd_installed d) \<le> nat signal then Inl ''index out of bounds''
      else Inr (d\<lparr>sd_installed := (sd_installed d)[nat signal := True]\<rparr>, Inr (sd_installed d ! nat signal)))"

definition install_finish :: "signal_driver \<Rightarrow> int \<Rightarrow> bool \<Rightarrow> signal_driver \<times> unit io_result" where
  "install_finish d signal os_ok =
     (if os_ok then (d, Inr ())
      else (d\<lparr>sd_installed := (sd_installed d)[nat signal := False]\<rparr>, Inl (OtherError ''last os error'')))"

definition install :: "signal_driver \<Rightarrow> int \<Rightarrow> bool \<Rightarrow> (signal_driver \<times> unit io_result) panicky" where
  "install d signal os_ok = (case install_claim d signal of
     Inl e \<Rightarrow> Inl e
   | Inr (d, Inl e) \<Rightarrow> Inr (d, Inl e)
   | Inr (d, Inr True) \<Rightarrow> Inr (d, Inr ())
   | Inr (d, Inr False) \<Rightarrow> Inr (install_finish d signal os_ok))"

text \<open>\<open>fault\<close> is the error of a \<open>read\<close> that fails otherwise than for want of data; it takes nothing from the socket.\<close>

definition drain_read :: "io_error option \<Rightarrow> signal_driver \<Rightarrow> signal_driver \<times> byte list io_result" where
  "drain_read fault d = (case fault of
     Some e \<Rightarrow> (d, Inl e)
   | None \<Rightarrow> if sd_pipe d = [] then (d, Inl WouldBlock)
             else (d\<lparr>sd_pipe := drop 128 (sd_pipe d)\<rparr>, Inr (take 128 (sd_pipe d))))"

definition drain_count :: "signal_driver \<Rightarrow> nat \<Rightarrow> signal_driver" where
  "drain_count d index = d\<lparr>sd_generation := (sd_generation d)[index := sd_generation d ! index + 1]\<rparr>"

definition drain_take :: "signal_driver \<Rightarrow> nat \<Rightarrow> signal_driver \<times> waker list" where
  "drain_take d index = (d\<lparr>sd_waiters := (sd_waiters d)[index := []]\<rparr>, sd_waiters d ! index)"

fun drain_signals :: "signal_driver \<Rightarrow> byte list \<Rightarrow> signal_driver \<times> waker list" where
  "drain_signals d [] = (d, [])"
| "drain_signals d (signal # signals) =
     (let index = unat signal in
      if MAX_SIGNALS \<le> index then drain_signals d signals
      else (let (d, ws) = drain_take (drain_count d index) index; (d, ws') = drain_signals d signals in (d, ws @ ws')))"

text \<open>The loop goes on for as long as signals arrive, so it has fuel; \<open>fault n\<close> is the error of the \<open>read\<close> with fuel \<open>n\<close> left.\<close>

fun drain :: "nat \<Rightarrow> (nat \<Rightarrow> io_error option) \<Rightarrow> signal_driver \<Rightarrow> waker \<Rightarrow> bool \<Rightarrow> bool \<Rightarrow> (signal_driver \<times> waker list \<times> unit io_result) option" where
  "drain 0 fault d cx del_ok add_ok = None"
| "drain (Suc fuel) fault d cx del_ok add_ok = (case drain_read (fault fuel) d of
     (d, Inr signals) \<Rightarrow>
       (let (d, ws) = drain_signals d signals
        in map_option (\<lambda>(d, ws', res). (d, ws @ ws', res)) (drain fuel fault d cx del_ok add_ok))
   | (d, Inl WouldBlock) \<Rightarrow> (case io_poll_ready (sd_reader d) cx EPOLLIN of
         (io, Ready (Inr (ready, generation))) \<Rightarrow>
           (let (io, _, ws) = io_clear_ready io ready generation del_ok add_ok
            in map_option (\<lambda>(d, ws', res). (d, ws @ ws', res)) (drain fuel fault (d\<lparr>sd_reader := io\<rparr>) cx del_ok add_ok))
       | (io, Ready (Inl e)) \<Rightarrow> Some (d\<lparr>sd_reader := io\<rparr>, [], Inl e)
       | (io, Pending) \<Rightarrow> Some (d\<lparr>sd_reader := io\<rparr>, [], Inr ()))
   | (d, Inl e) \<Rightarrow> Some (d, [], Inl e))"

definition signal_register :: "signal_driver \<Rightarrow> nat \<Rightarrow> waker \<Rightarrow> signal_driver" where
  "signal_register d signal waker = d\<lparr>sd_waiters := (sd_waiters d)[signal := waiters_register (sd_waiters d ! signal) waker]\<rparr>"

section \<open>Listeners\<close>

record signal_listener =
  sg_signal :: nat
  sg_seen :: u64

definition listener_new :: "signal_driver \<Rightarrow> int \<Rightarrow> signal_listener" where
  "listener_new d kind = \<lparr>sg_signal = nat kind, sg_seen = sd_generation d ! nat kind\<rparr>"

definition signal :: "signal_driver \<Rightarrow> int \<Rightarrow> bool \<Rightarrow> (signal_driver \<times> signal_listener io_result) panicky" where
  "signal d kind os_ok = (case install d kind os_ok of
     Inl e \<Rightarrow> Inl e
   | Inr (d, Inl e) \<Rightarrow> Inr (d, Inl e)
   | Inr (d, Inr _) \<Rightarrow> Inr (d, Inr (listener_new d kind)))"

definition recv_check :: "signal_driver \<Rightarrow> signal_listener \<Rightarrow> signal_listener option" where
  "recv_check d s = (if sd_generation d ! sg_signal s \<noteq> sg_seen s then Some (s\<lparr>sg_seen := sg_seen s + 1\<rparr>) else None)"

definition signal_poll_recv ::
  "nat \<Rightarrow> (nat \<Rightarrow> io_error option) \<Rightarrow> signal_driver \<Rightarrow> signal_listener \<Rightarrow> waker \<Rightarrow> bool \<Rightarrow> bool \<Rightarrow> (signal_driver \<times> signal_listener \<times> waker list \<times> unit option poll) option" where
  "signal_poll_recv fuel fault d s cx del_ok add_ok = (case drain fuel fault d cx del_ok add_ok of
     None \<Rightarrow> None
   | Some (d, ws, Inl _) \<Rightarrow> Some (d, s, ws, Ready None)
   | Some (d, ws, Inr _) \<Rightarrow> (case recv_check d s of
       Some s \<Rightarrow> Some (d, s, ws, Ready (Some ()))
     | None \<Rightarrow>
         (let d = signal_register d (sg_signal s) cx in
          case recv_check d s of
            Some s \<Rightarrow> Some (d, s, ws, Ready (Some ()))
          | None \<Rightarrow> Some (d, s, ws, Pending))))"

text \<open>With a working \<open>epoll_ctl\<close>, no failing \<open>read\<close> and nothing arriving meanwhile the loop ends.\<close>

lemma drain_signals_same:
  assumes "drain_signals d signals = (d', ws)"
  shows "sd_reader d' = sd_reader d \<and> sd_pipe d' = sd_pipe d"
  using assms
proof (induction signals arbitrary: d ws)
  case (Cons b signals)
  show ?case
  proof (cases "MAX_SIGNALS \<le> unat b")
    case False
    define e where "e = fst (drain_take (drain_count d (unat b)) (unat b))"
    from False Cons.prems have "drain_signals e signals = (d', snd (drain_signals e signals))"
      by (simp add: e_def Let_def split: prod.splits)
    from Cons.IH [OF this] show ?thesis by (simp add: e_def drain_take_def drain_count_def)
  qed (use Cons in simp)
qed simp

lemma drain_ends:
  assumes "io_registered (sd_reader d)" "length (sd_pipe d) + 2 \<le> fuel"
  shows "\<exists>d' ws. drain fuel (\<lambda>_. None) d cx True True = Some (d', ws, Inr ()) \<and> sd_pipe d' = []"
  using assms
proof (induction fuel arbitrary: d)
  case (Suc fuel)
  show ?case
  proof (cases "sd_pipe d = []")
    case False
    then have len: "length (drop 128 (sd_pipe d)) < length (sd_pipe d)" by simp
    obtain d' ws where d': "drain_signals (d\<lparr>sd_pipe := drop 128 (sd_pipe d)\<rparr>) (take 128 (sd_pipe d)) = (d', ws)" by fastforce
    have same: "sd_reader d' = sd_reader d" "sd_pipe d' = drop 128 (sd_pipe d)" using drain_signals_same [OF d'] by simp_all
    have "\<exists>d'' ws'. drain fuel (\<lambda>_. None) d' cx True True = Some (d'', ws', Inr ()) \<and> sd_pipe d'' = []"
      using Suc.prems len by (intro Suc.IH) (simp_all add: same)
    then obtain d'' ws' where "drain fuel (\<lambda>_. None) d' cx True True = Some (d'', ws', Inr ())" "sd_pipe d'' = []" by blast
    then show ?thesis using False d' by (simp add: drain_read_def)
  next
    case True
    then obtain f where f: "fuel = Suc f" using Suc.prems by (cases fuel) auto
    show ?thesis
    proof (cases "io_ready (sd_reader d) AND (EPOLLIN OR ERROR_EVENTS) = 0")
      case z: True
      then show ?thesis using True by (simp add: drain_read_def io_poll_ready_def Let_def)
    next
      case False
      then have p: "io_poll_ready (sd_reader d) cx EPOLLIN =
          (sd_reader d, Ready (Inr (io_ready (sd_reader d) AND (EPOLLIN OR ERROR_EVENTS), io_generation (sd_reader d))))"
        by (simp add: io_poll_ready_def)
      from clear_observed [OF p Suc.prems(1)] obtain io' ops where
        c: "io_clear_ready (sd_reader d) (io_ready (sd_reader d) AND (EPOLLIN OR ERROR_EVENTS)) (io_generation (sd_reader d)) True True = (io', ops, [])"
        "io_ready io' AND (EPOLLIN OR ERROR_EVENTS) = 0" by blast
      then have "drain fuel (\<lambda>_. None) (d\<lparr>sd_reader := io'\<rparr>) cx True True = Some (d\<lparr>sd_reader := fst (io_poll_ready io' cx EPOLLIN)\<rparr>, [], Inr ())"
        using True unfolding f by (simp add: drain_read_def io_poll_ready_def Let_def)
      then show ?thesis using True p c by (simp add: drain_read_def)
    qed
  qed
qed simp

section \<open>Listeners that run at once\<close>

text \<open>
  Each listener is polled by some task; \<open>sl_pc\<close> is where its poll is. \<open>sl_woken\<close> says that the waker of its last poll has been called since,
  \<open>sl_start\<close> and \<open>sl_received\<close> count the occurrences before it was made and those it returned; \<open>sy_accepted\<close> counts what the handlers
  wrote and \<open>sy_count\<close> what was counted. The three parts of \<open>signal\<close> (the swap, \<open>signal(2)\<close>, the reading of the generation) are steps of
  their own, in any order: this allows what callers that race for one signal do, and more.
\<close>

datatype recv_pc =
  Idle | Draining | Counting "byte list" | Waking byte "byte list" | Blocked | Clearing ready u32 | Checking | Registering | Rechecking | Parked

record sig_task =
  sl_listener :: signal_listener
  sl_waker :: waker
  sl_pc :: recv_pc
  sl_woken :: bool
  sl_start :: nat
  sl_received :: nat

record sig_sys =
  sy_driver :: signal_driver
  sy_tasks :: "sig_task list"
  sy_count :: "nat \<Rightarrow> nat"
  sy_accepted :: "nat \<Rightarrow> nat"

definition wake_tasks :: "waker list \<Rightarrow> sig_task list \<Rightarrow> sig_task list" where
  "wake_tasks ws ts = map (\<lambda>t. if sl_waker t \<in> set ws then t\<lparr>sl_woken := True\<rparr> else t) ts"

inductive sig_step :: "sig_sys \<Rightarrow> sig_sys \<Rightarrow> bool" where
  arrive: "n < MAX_SIGNALS \<Longrightarrow> length (sd_pipe d) < room \<Longrightarrow> 0 \<le> fd \<Longrightarrow>
    sig_step \<lparr>sy_driver = d, sy_tasks = ts, sy_count = c, sy_accepted = a\<rparr>
      \<lparr>sy_driver = d\<lparr>sd_pipe := signal_handler room fd (sd_pipe d) (int n)\<rparr>, sy_tasks = ts, sy_count = c, sy_accepted = a(n := Suc (a n))\<rparr>"
| callback: "io_callback (sd_reader d) events del_ok add_ok = (io, ops, ws) \<Longrightarrow>
    sig_step \<lparr>sy_driver = d, sy_tasks = ts, sy_count = c, sy_accepted = a\<rparr>
      \<lparr>sy_driver = d\<lparr>sd_reader := io\<rparr>, sy_tasks = wake_tasks ws ts, sy_count = c, sy_accepted = a\<rparr>"
| claim: "install_claim d kind = Inr (d', Inr before) \<Longrightarrow>
    sig_step \<lparr>sy_driver = d, sy_tasks = ts, sy_count = c, sy_accepted = a\<rparr>
      \<lparr>sy_driver = d', sy_tasks = ts, sy_count = c, sy_accepted = a\<rparr>"
| installed: "install_finish d kind os_ok = (d', r) \<Longrightarrow>
    sig_step \<lparr>sy_driver = d, sy_tasks = ts, sy_count = c, sy_accepted = a\<rparr>
      \<lparr>sy_driver = d', sy_tasks = ts, sy_count = c, sy_accepted = a\<rparr>"
| listen: "0 < kind \<Longrightarrow> nat kind < MAX_SIGNALS \<Longrightarrow> l = listener_new d kind \<Longrightarrow>
    sig_step \<lparr>sy_driver = d, sy_tasks = ts, sy_count = c, sy_accepted = a\<rparr>
      \<lparr>sy_driver = d, sy_tasks = ts @ [\<lparr>sl_listener = l, sl_waker = w, sl_pc = Idle, sl_woken = False, sl_start = c (sg_signal l), sl_received = 0\<rparr>],
       sy_count = c, sy_accepted = a\<rparr>"
| poll: "k < length ts \<Longrightarrow> sl_pc (ts ! k) \<in> {Idle, Parked} \<Longrightarrow>
    sig_step \<lparr>sy_driver = d, sy_tasks = ts, sy_count = c, sy_accepted = a\<rparr>
      \<lparr>sy_driver = d, sy_tasks = ts[k := (ts ! k)\<lparr>sl_pc := Draining, sl_waker := w, sl_woken := False\<rparr>], sy_count = c, sy_accepted = a\<rparr>"
| got: "k < length ts \<Longrightarrow> sl_pc (ts ! k) = Draining \<Longrightarrow> drain_read fault d = (d', Inr bytes) \<Longrightarrow>
    sig_step \<lparr>sy_driver = d, sy_tasks = ts, sy_count = c, sy_accepted = a\<rparr>
      \<lparr>sy_driver = d', sy_tasks = ts[k := (ts ! k)\<lparr>sl_pc := Counting bytes\<rparr>], sy_count = c, sy_accepted = a\<rparr>"
| empty: "k < length ts \<Longrightarrow> sl_pc (ts ! k) = Draining \<Longrightarrow> drain_read fault d = (d', Inl WouldBlock) \<Longrightarrow>
    sig_step \<lparr>sy_driver = d, sy_tasks = ts, sy_count = c, sy_accepted = a\<rparr>
      \<lparr>sy_driver = d', sy_tasks = ts[k := (ts ! k)\<lparr>sl_pc := Blocked\<rparr>], sy_count = c, sy_accepted = a\<rparr>"
| failed: "k < length ts \<Longrightarrow> sl_pc (ts ! k) = Draining \<Longrightarrow> drain_read fault d = (d', Inl e) \<Longrightarrow> e \<noteq> WouldBlock \<Longrightarrow>
    sig_step \<lparr>sy_driver = d, sy_tasks = ts, sy_count = c, sy_accepted = a\<rparr>
      \<lparr>sy_driver = d', sy_tasks = ts[k := (ts ! k)\<lparr>sl_pc := Idle\<rparr>], sy_count = c, sy_accepted = a\<rparr>"
| closed: "k < length ts \<Longrightarrow> sl_pc (ts ! k) = Blocked \<Longrightarrow> io_poll_ready (sd_reader d) (sl_waker (ts ! k)) EPOLLIN = (io, Ready (Inl e)) \<Longrightarrow>
    sig_step \<lparr>sy_driver = d, sy_tasks = ts, sy_count = c, sy_accepted = a\<rparr>
      \<lparr>sy_driver = d\<lparr>sd_reader := io\<rparr>, sy_tasks = ts[k := (ts ! k)\<lparr>sl_pc := Idle\<rparr>], sy_count = c, sy_accepted = a\<rparr>"
| skip: "k < length ts \<Longrightarrow> sl_pc (ts ! k) = Counting (b # bs) \<Longrightarrow> MAX_SIGNALS \<le> unat b \<Longrightarrow>
    sig_step \<lparr>sy_driver = d, sy_tasks = ts, sy_count = c, sy_accepted = a\<rparr>
      \<lparr>sy_driver = d, sy_tasks = ts[k := (ts ! k)\<lparr>sl_pc := Counting bs\<rparr>], sy_count = c, sy_accepted = a\<rparr>"
| count: "k < length ts \<Longrightarrow> sl_pc (ts ! k) = Counting (b # bs) \<Longrightarrow> unat b < MAX_SIGNALS \<Longrightarrow>
    sig_step \<lparr>sy_driver = d, sy_tasks = ts, sy_count = c, sy_accepted = a\<rparr>
      \<lparr>sy_driver = drain_count d (unat b), sy_tasks = ts[k := (ts ! k)\<lparr>sl_pc := Waking b bs\<rparr>],
       sy_count = c(unat b := Suc (c (unat b))), sy_accepted = a\<rparr>"
| wake: "k < length ts \<Longrightarrow> sl_pc (ts ! k) = Waking b bs \<Longrightarrow> drain_take d (unat b) = (d', ws) \<Longrightarrow>
    sig_step \<lparr>sy_driver = d, sy_tasks = ts, sy_count = c, sy_accepted = a\<rparr>
      \<lparr>sy_driver = d', sy_tasks = wake_tasks ws (ts[k := (ts ! k)\<lparr>sl_pc := Counting bs\<rparr>]), sy_count = c, sy_accepted = a\<rparr>"
| again: "k < length ts \<Longrightarrow> sl_pc (ts ! k) = Counting [] \<Longrightarrow>
    sig_step \<lparr>sy_driver = d, sy_tasks = ts, sy_count = c, sy_accepted = a\<rparr>
      \<lparr>sy_driver = d, sy_tasks = ts[k := (ts ! k)\<lparr>sl_pc := Draining\<rparr>], sy_count = c, sy_accepted = a\<rparr>"
| ready: "k < length ts \<Longrightarrow> sl_pc (ts ! k) = Blocked \<Longrightarrow> io_poll_ready (sd_reader d) (sl_waker (ts ! k)) EPOLLIN = (io, Ready (Inr (r, g))) \<Longrightarrow>
    sig_step \<lparr>sy_driver = d, sy_tasks = ts, sy_count = c, sy_accepted = a\<rparr>
      \<lparr>sy_driver = d\<lparr>sd_reader := io\<rparr>, sy_tasks = ts[k := (ts ! k)\<lparr>sl_pc := Clearing r g\<rparr>], sy_count = c, sy_accepted = a\<rparr>"
| clear: "k < length ts \<Longrightarrow> sl_pc (ts ! k) = Clearing r g \<Longrightarrow> io_clear_ready (sd_reader d) r g del_ok add_ok = (io, ops, ws) \<Longrightarrow>
    sig_step \<lparr>sy_driver = d, sy_tasks = ts, sy_count = c, sy_accepted = a\<rparr>
      \<lparr>sy_driver = d\<lparr>sd_reader := io\<rparr>, sy_tasks = wake_tasks ws (ts[k := (ts ! k)\<lparr>sl_pc := Draining\<rparr>]), sy_count = c, sy_accepted = a\<rparr>"
| wait: "k < length ts \<Longrightarrow> sl_pc (ts ! k) = Blocked \<Longrightarrow> io_poll_ready (sd_reader d) (sl_waker (ts ! k)) EPOLLIN = (io, Pending) \<Longrightarrow>
    sig_step \<lparr>sy_driver = d, sy_tasks = ts, sy_count = c, sy_accepted = a\<rparr>
      \<lparr>sy_driver = d\<lparr>sd_reader := io\<rparr>, sy_tasks = ts[k := (ts ! k)\<lparr>sl_pc := Checking\<rparr>], sy_count = c, sy_accepted = a\<rparr>"
| hit: "k < length ts \<Longrightarrow> sl_pc (ts ! k) \<in> {Checking, Rechecking} \<Longrightarrow> recv_check d (sl_listener (ts ! k)) = Some l \<Longrightarrow>
    sig_step \<lparr>sy_driver = d, sy_tasks = ts, sy_count = c, sy_accepted = a\<rparr>
      \<lparr>sy_driver = d, sy_tasks = ts[k := (ts ! k)\<lparr>sl_listener := l, sl_pc := Idle, sl_received := Suc (sl_received (ts ! k))\<rparr>],
       sy_count = c, sy_accepted = a\<rparr>"
| miss: "k < length ts \<Longrightarrow> sl_pc (ts ! k) = Checking \<Longrightarrow> recv_check d (sl_listener (ts ! k)) = None \<Longrightarrow>
    sig_step \<lparr>sy_driver = d, sy_tasks = ts, sy_count = c, sy_accepted = a\<rparr>
      \<lparr>sy_driver = d, sy_tasks = ts[k := (ts ! k)\<lparr>sl_pc := Registering\<rparr>], sy_count = c, sy_accepted = a\<rparr>"
| register: "k < length ts \<Longrightarrow> sl_pc (ts ! k) = Registering \<Longrightarrow>
    sig_step \<lparr>sy_driver = d, sy_tasks = ts, sy_count = c, sy_accepted = a\<rparr>
      \<lparr>sy_driver = signal_register d (sg_signal (sl_listener (ts ! k))) (sl_waker (ts ! k)),
       sy_tasks = ts[k := (ts ! k)\<lparr>sl_pc := Rechecking\<rparr>], sy_count = c, sy_accepted = a\<rparr>"
| park: "k < length ts \<Longrightarrow> sl_pc (ts ! k) = Rechecking \<Longrightarrow> recv_check d (sl_listener (ts ! k)) = None \<Longrightarrow>
    sig_step \<lparr>sy_driver = d, sy_tasks = ts, sy_count = c, sy_accepted = a\<rparr>
      \<lparr>sy_driver = d, sy_tasks = ts[k := (ts ! k)\<lparr>sl_pc := Parked\<rparr>], sy_count = c, sy_accepted = a\<rparr>"

text \<open>The driver starts with a reader that has just been registered.\<close>

inductive sig_reach :: "sig_sys \<Rightarrow> bool" where
  start: "rx_register rx fd EPOLLIN add_ok = Inr (rx', ops, Inr io) \<Longrightarrow>
    sig_reach \<lparr>sy_driver = signal_driver_new io, sy_tasks = [], sy_count = (\<lambda>_. 0), sy_accepted = (\<lambda>_. 0)\<rparr>"
| step: "sig_reach s \<Longrightarrow> sig_step s s' \<Longrightarrow> sig_reach s'"

section \<open>Nothing is lost\<close>

definition reader_inv :: "scheduled_io \<Rightarrow> bool" where
  "reader_inv io \<longleftrightarrow> io_registered io \<and> io_interest io = EPOLLIN \<and> io_events io = desired_events io"

definition driver_inv :: "signal_driver \<Rightarrow> (nat \<Rightarrow> nat) \<Rightarrow> bool" where
  "driver_inv d c \<longleftrightarrow> reader_inv (sd_reader d) \<and> length (sd_generation d) = MAX_SIGNALS \<and> length (sd_waiters d) = MAX_SIGNALS \<and>
     (\<forall>i < MAX_SIGNALS. sd_generation d ! i = of_nat (c i))"

definition sock_wait :: "scheduled_io \<Rightarrow> waker \<Rightarrow> bool" where
  "sock_wait io w \<longleftrightarrow> w \<in> set (io_readers io) \<and> io_ready io AND (EPOLLIN OR ERROR_EVENTS) = 0"

definition to_wake :: "sig_task list \<Rightarrow> nat set" where
  "to_wake ts = {i. \<exists>b bs. Waking b bs \<in> sl_pc ` set ts \<and> i = unat b}"

abbreviation sl_signal :: "sig_task \<Rightarrow> nat" where
  "sl_signal t \<equiv> sg_signal (sl_listener t)"

definition waits :: "signal_driver \<Rightarrow> nat set \<Rightarrow> sig_task \<Rightarrow> bool" where
  "waits d ws t \<longleftrightarrow>
     (sl_pc t \<in> {Checking, Registering, Rechecking, Parked} \<longrightarrow> sock_wait (sd_reader d) (sl_waker t)) \<and>
     (sl_pc t \<in> {Rechecking, Parked} \<longrightarrow> sl_waker t \<in> set (sd_waiters d ! sl_signal t)) \<and>
     (sl_pc t = Parked \<longrightarrow> sd_generation d ! sl_signal t = sg_seen (sl_listener t) \<or> sl_signal t \<in> ws)"

definition counts :: "(nat \<Rightarrow> nat) \<Rightarrow> sig_task \<Rightarrow> bool" where
  "counts c t \<longleftrightarrow> sl_signal t < MAX_SIGNALS \<and> sg_seen (sl_listener t) = of_nat (sl_start t + sl_received t) \<and>
     sl_start t + sl_received t \<le> c (sl_signal t)"

definition occ :: "nat \<Rightarrow> byte list \<Rightarrow> nat" where
  "occ i bytes = length (filter (\<lambda>b. unat b = i) bytes)"

fun held_bytes :: "recv_pc \<Rightarrow> byte list" where
  "held_bytes (Counting bs) = bs"
| "held_bytes (Waking _ bs) = bs"
| "held_bytes _ = []"

definition sig_inv :: "sig_sys \<Rightarrow> bool" where
  "sig_inv s \<longleftrightarrow> driver_inv (sy_driver s) (sy_count s) \<and>
     (\<forall>t \<in> set (sy_tasks s). counts (sy_count s) t \<and> (sl_woken t \<or> waits (sy_driver s) (to_wake (sy_tasks s)) t)) \<and>
     (\<forall>i < MAX_SIGNALS. sy_accepted s i = sy_count s i + occ i (sd_pipe (sy_driver s)) + (\<Sum>t\<leftarrow>sy_tasks s. occ i (held_bytes (sl_pc t))))"

lemma wake_ready_keeps:
  assumes "wake_ready io = (io', ws)" "reader_inv io"
  shows "reader_inv io' \<and> (w \<in> set (io_readers io) \<longrightarrow> w \<in> set ws \<or> sock_wait io' w)"
  using assms by (auto simp: wake_ready_def wake_ready_take_def Let_def reader_inv_def sock_wait_def desired_events_def io_ready_def and_or_zero)

lemma finish_update_inv:
  assumes "finish_update io d a = (io', ops, failed)" "io_registered io" "io_interest io = EPOLLIN"
  shows "reader_inv io'"
  using finish_update_same [OF assms(1)] assms(2,3) by (simp add: reader_inv_def)

lemma callback_keeps:
  assumes "io_callback io events d a = (io', ops, ws)" "reader_inv io"
  shows "reader_inv io' \<and> (sock_wait io w \<longrightarrow> w \<in> set ws \<or> sock_wait io' w)"
proof -
  define io1 where "io1 = io\<lparr>io_readiness := pack_readiness (io_generation io + 1) (io_ready io OR events)\<rparr>"
  obtain io2 ops2 failed where f: "finish_update io1 d a = (io2, ops2, failed)" by (metis prod_cases3)
  have "reader_inv io2" using finish_update_inv [OF f] assms(2) by (simp add: io1_def reader_inv_def)
  moreover have "wake_ready io2 = (io', ws)" using assms f
    by (auto simp: io_callback_def callback_store_def reader_inv_def io1_def split: prod.splits)
  moreover have "io_readers io2 = io_readers io" using finish_update_same(1) [OF f] by (simp add: io1_def)
  ultimately show ?thesis using wake_ready_keeps [of io2 io' ws w] by (simp add: sock_wait_def)
qed

lemma clear_keeps:
  assumes "io_clear_ready io r g d a = (io', ops, ws)" "reader_inv io"
  shows "reader_inv io' \<and> (sock_wait io w \<longrightarrow> w \<in> set ws \<or> sock_wait io' w)"
proof (cases "io_generation io = g")
  case True
  define io1 where "io1 = io\<lparr>io_readiness := pack_readiness g (io_ready io AND NOT r)\<rparr>"
  obtain io2 ops2 failed where f: "finish_update io1 d a = (io2, ops2, failed)" by (metis prod_cases3)
  have inv: "reader_inv io2" using finish_update_inv [OF f] assms(2) by (simp add: io1_def reader_inv_def)
  have rd: "io_readers io2 = io_readers io" using finish_update_same(1) [OF f] by (simp add: io1_def)
  have res: "(if failed then wake_ready io2 else (io2, [])) = (io', ws)" using assms f True
    by (auto simp: io_clear_ready_def clear_store_def reader_inv_def io1_def split: prod.splits if_splits)
  show ?thesis
  proof (cases failed)
    case True
    with res inv rd wake_ready_keeps [of io2 io' ws w] show ?thesis by (simp add: sock_wait_def)
  next
    case False
    have "(x AND NOT r) AND m = (x AND m) AND NOT r" for x m :: u32 by (simp only: ac_simps)
    moreover have "io_ready io2 = io_ready io AND NOT r" using finish_update_same(5) [OF f] False by (simp add: io1_def io_ready_def)
    ultimately show ?thesis using res False inv rd by (auto simp: sock_wait_def)
  qed
next
  case False
  then show ?thesis using assms by (auto simp: io_clear_ready_def clear_store_def reader_inv_def)
qed

lemma poll_ready_keeps:
  assumes "io_poll_ready io v EPOLLIN = (io', res)" "reader_inv io"
  shows "reader_inv io' \<and> (sock_wait io w \<longrightarrow> sock_wait io' w) \<and> (res = Pending \<longrightarrow> sock_wait io' v)"
proof -
  have "interest_is_readable EPOLLIN" "\<not> interest_is_writable EPOLLIN" by (simp_all add: interest_tests epoll_defs)
  then show ?thesis using assms
    by (auto simp: io_poll_ready_def Let_def reader_inv_def sock_wait_def desired_events_def io_ready_def split: if_splits)
qed

text \<open>The steps on the driver, and what they leave of a waiting task.\<close>

lemma wake_tasks_pc: "map (\<lambda>t. f (sl_pc t)) (wake_tasks ws ts) = map (\<lambda>t. f (sl_pc t)) ts"
  by (auto simp: wake_tasks_def)

lemma to_wake_I: "t \<in> set ts \<Longrightarrow> sl_pc t = Waking b bs \<Longrightarrow> unat b \<in> to_wake ts"
  unfolding to_wake_def by (rule CollectI, rule exI [of _ b], rule exI [of _ bs]) (metis imageI)

lemma to_wake_E:
  assumes "i \<in> to_wake ts"
  obtains t b bs where "t \<in> set ts" "sl_pc t = Waking b bs" "i = unat b"
  using assms unfolding to_wake_def by (elim CollectE exE conjE imageE) (metis (no_types))

lemma to_wake_wake [simp]: "to_wake (wake_tasks ws ts) = to_wake ts"
proof -
  have "set (map sl_pc (wake_tasks ws ts)) = set (map sl_pc ts)" by (rule arg_cong [OF wake_tasks_pc [of "\<lambda>pc. pc"]])
  then show ?thesis by (simp add: to_wake_def)
qed

lemma to_wake_update:
  assumes "k < length ts" "i \<in> to_wake ts" "\<And>b bs. sl_pc (ts ! k) = Waking b bs \<Longrightarrow> i \<noteq> unat b"
  shows "i \<in> to_wake (ts[k := t])"
proof -
  from assms(2) obtain u b bs where u: "u \<in> set ts" "sl_pc u = Waking b bs" "i = unat b" by (rule to_wake_E)
  then obtain j where j: "j < length ts" "ts ! j = u" by (auto simp: in_set_conv_nth)
  have "j \<noteq> k" using assms(3) u j by blast
  then have "u \<in> set (ts[k := t])" using j by (metis length_list_update nth_list_update_neq nth_mem)
  then show ?thesis using u to_wake_I by blast
qed

lemma to_wake_self: "k < length ts \<Longrightarrow> sl_pc t = Waking b bs \<Longrightarrow> unat b \<in> to_wake (ts[k := t])"
  by (rule to_wake_I [OF set_update_memI])

definition tasks_ok :: "signal_driver \<Rightarrow> (nat \<Rightarrow> nat) \<Rightarrow> sig_task list \<Rightarrow> nat set \<Rightarrow> bool" where
  "tasks_ok d c ts ws \<longleftrightarrow> (\<forall>t \<in> set ts. counts c t \<and> (sl_woken t \<or> waits d ws t))"

lemma tasks_ok_step:
  assumes "tasks_ok d c ts ws" "counts c' t" "sl_woken t \<or> waits d' ws' t"
    and "\<And>i. c i \<le> c' i"
    and "\<And>u. u \<in> set ts \<Longrightarrow> counts c u \<Longrightarrow> waits d ws u \<Longrightarrow> waits d' ws' u"
  shows "tasks_ok d' c' (ts[k := t]) ws'"
proof -
  have "counts c u \<Longrightarrow> counts c' u" for u using assms(4) [of "sl_signal u"] by (auto simp: counts_def)
  then show ?thesis using assms set_update_subset_insert [of ts k t] unfolding tasks_ok_def by blast
qed

lemma tasks_ok_wake:
  assumes "tasks_ok d c ts ws" "\<And>u. u \<in> set ts \<Longrightarrow> counts c u \<Longrightarrow> waits d ws u \<Longrightarrow> sl_waker u \<in> set wakers \<or> waits d' ws' u"
  shows "tasks_ok d' c (wake_tasks wakers ts) ws'"
  using assms unfolding tasks_ok_def wake_tasks_def by (auto simp: counts_def split: if_splits)

lemma waits_mono: "waits d ws t \<Longrightarrow> ws \<subseteq> ws' \<Longrightarrow> waits d ws' t"
  by (auto simp: waits_def)

lemma waits_reader:
  assumes "waits d ws t" "sock_wait (sd_reader d) (sl_waker t) \<longrightarrow> w \<or> sock_wait io (sl_waker t)"
  shows "w \<or> waits (d\<lparr>sd_reader := io\<rparr>) ws t"
  using assms by (auto simp: waits_def)

lemma to_wake_grows: "k < length ts \<Longrightarrow> \<forall>b bs. sl_pc (ts ! k) \<noteq> Waking b bs \<Longrightarrow> to_wake ts \<subseteq> to_wake (ts[k := t])"
  using to_wake_update [of k ts _ t] by blast

lemma occ_simps [simp]:
  "occ i [] = 0" "occ i (b # bs) = (if unat b = i then Suc (occ i bs) else occ i bs)" "occ i (bs @ bs') = occ i bs + occ i bs'"
  by (simp_all add: occ_def)

definition total_ok :: "sig_sys \<Rightarrow> bool" where
  "total_ok s \<longleftrightarrow> (\<forall>i < MAX_SIGNALS. sy_accepted s i = sy_count s i + occ i (sd_pipe (sy_driver s)) + (\<Sum>t\<leftarrow>sy_tasks s. occ i (held_bytes (sl_pc t))))"

lemma sig_inv_parts: "sig_inv s \<longleftrightarrow> driver_inv (sy_driver s) (sy_count s) \<and> tasks_ok (sy_driver s) (sy_count s) (sy_tasks s) (to_wake (sy_tasks s)) \<and> total_ok s"
  by (simp add: sig_inv_def tasks_ok_def total_ok_def)

lemma sum_held_update:
  assumes "k < length ts"
  shows "(\<Sum>t\<leftarrow>ts[k := t]. occ i (held_bytes (sl_pc t))) + occ i (held_bytes (sl_pc (ts ! k))) =
    (\<Sum>t\<leftarrow>ts. occ i (held_bytes (sl_pc t))) + occ i (held_bytes (sl_pc t))"
proof -
  let ?f = "\<lambda>t. occ i (held_bytes (sl_pc t))"
  have "?f (ts ! k) \<le> sum_list (map ?f ts)" using assms by (intro member_le_sum_list) auto
  then show ?thesis using assms by (simp add: map_update sum_list_update)
qed

lemma sum_held_wake [simp]: "(\<Sum>t\<leftarrow>wake_tasks ws ts. occ i (held_bytes (sl_pc t))) = (\<Sum>t\<leftarrow>ts. occ i (held_bytes (sl_pc t)))"
  using wake_tasks_pc [of "\<lambda>pc. occ i (held_bytes pc)" ws ts] by (rule arg_cong)

lemma occ_take_drop: "occ i (take n bs) + occ i (drop n bs) = occ i bs"
  by (metis append_take_drop_id occ_simps(3))

lemma total_task:
  assumes "total_ok \<lparr>sy_driver = d, sy_tasks = ts, sy_count = c, sy_accepted = a\<rparr>" "k < length ts"
    "\<And>i. i < MAX_SIGNALS \<Longrightarrow> c i + occ i (sd_pipe d) + occ i (held_bytes (sl_pc (ts ! k))) = c' i + occ i (sd_pipe d') + occ i (held_bytes (sl_pc t))"
  shows "total_ok \<lparr>sy_driver = d', sy_tasks = ts[k := t], sy_count = c', sy_accepted = a\<rparr>"
  unfolding total_ok_def sig_sys.simps
proof (intro allI impI)
  fix i
  assume i: "i < MAX_SIGNALS"
  show "a i = c' i + occ i (sd_pipe d') + (\<Sum>t\<leftarrow>ts[k := t]. occ i (held_bytes (sl_pc t)))"
    using assms(1) i assms(3) [OF i] sum_held_update [OF assms(2), of i t] by (simp add: total_ok_def)
qed

lemma total_wake:
  "total_ok \<lparr>sy_driver = d, sy_tasks = wake_tasks ws ts, sy_count = c, sy_accepted = a\<rparr> =
   total_ok \<lparr>sy_driver = d, sy_tasks = ts, sy_count = c, sy_accepted = a\<rparr>"
  by (simp add: total_ok_def)

lemma total_step:
  assumes "sig_step s s'" "total_ok s"
  shows "total_ok s'"
  using assms
proof (induction rule: sig_step.induct)
  case (arrive n d room fd ts c a)
  have "unat (word_of_int (int n) :: byte) = n" using arrive(1) by (simp add: MAX_SIGNALS_def unat_of_nat)
  then show ?case using arrive by (auto simp: total_ok_def signal_handler_def)
next
  case (claim d kind d' before ts c a)
  then show ?case by (auto simp: total_ok_def install_claim_def split: if_splits)
next
  case (installed d kind os_ok d' r ts c a)
  then show ?case by (auto simp: total_ok_def install_finish_def split: if_splits)
next
  case (listen kind l d ts c a w)
  then show ?case by (simp add: total_ok_def)
next
  case (failed k ts fault d d' e c a)
  then show ?case by (intro total_task [OF failed(5,1)]) (auto simp: drain_read_def split: if_splits option.splits)
next
  case (closed k ts d io e c a)
  then show ?case by (intro total_task [OF closed(4,1)]) auto
next
  case (got k ts fault d d' bytes c a)
  have "occ i (sd_pipe d) = occ i (sd_pipe d') + occ i bytes" for i
    using got(3) occ_take_drop [of i 128 "sd_pipe d"] by (auto simp: drain_read_def split: if_splits option.splits)
  then show ?case using got by (intro total_task [OF got(4,1)]) simp
next
  case (callback d events del_ok add_ok io ops ws ts c a)
  then show ?case by (simp add: total_ok_def)
next
  case (poll k ts w d c a)
  then show ?case by (intro total_task [OF poll(3,1)]) (auto)
next
  case (empty k ts fault d d' c a)
  then show ?case by (intro total_task [OF empty(4,1)]) (auto simp: drain_read_def split: if_splits option.splits)
next
  case (skip k ts b bs d c a)
  then show ?case by (intro total_task [OF skip(4,1)]) (auto split: if_splits)
next
  case (count k ts b bs d c a)
  then show ?case by (intro total_task [OF count(4,1)]) (auto simp: drain_count_def)
next
  case (wake k ts b bs d d' ws c a)
  then show ?case unfolding total_wake by (intro total_task [OF wake(4,1)]) (auto simp: drain_take_def)
next
  case (again k ts d c a)
  then show ?case by (intro total_task [OF again(3,1)]) (auto)
next
  case (ready k ts d io r g c a)
  then show ?case by (intro total_task [OF ready(4,1)]) (auto)
next
  case (clear k ts r g d del_ok add_ok io ops ws c a)
  then show ?case unfolding total_wake by (intro total_task [OF clear(4,1)]) (auto)
next
  case (wait k ts d io c a)
  then show ?case by (intro total_task [OF wait(4,1)]) (auto)
next
  case (hit k ts d l c a)
  then show ?case by (intro total_task [OF hit(4,1)]) (auto)
next
  case (miss k ts d c a)
  then show ?case by (intro total_task [OF miss(4,1)]) (auto)
next
  case (register k ts d c a)
  then show ?case by (intro total_task [OF register(3,1)]) (auto simp: signal_register_def)
next
  case (park k ts d c a)
  then show ?case by (intro total_task [OF park(4,1)]) (auto)
qed

lemma driver_step:
  assumes "sig_step s s'" "driver_inv (sy_driver s) (sy_count s)"
  shows "driver_inv (sy_driver s') (sy_count s')"
  using assms
proof (induction rule: sig_step.induct)
  case (callback d events del_ok add_ok io ops ws ts c a)
  then show ?case using callback_keeps [OF callback(1)] by (auto simp: driver_inv_def)
next
  case (claim d kind d' before ts c a)
  then show ?case by (auto simp: driver_inv_def install_claim_def split: if_splits)
next
  case (installed d kind os_ok d' r ts c a)
  then show ?case by (auto simp: driver_inv_def install_finish_def split: if_splits)
next
  case (failed k ts fault d d' e c a)
  then show ?case by (auto simp: driver_inv_def drain_read_def split: if_splits option.splits)
next
  case (closed k ts d io e c a)
  then show ?case using poll_ready_keeps [OF closed(3)] by (auto simp: driver_inv_def)
next
  case (got k ts fault d d' bytes c a)
  then show ?case by (auto simp: driver_inv_def drain_read_def split: if_splits option.splits)
next
  case (empty k ts fault d d' c a)
  then show ?case by (auto simp: driver_inv_def drain_read_def split: if_splits option.splits)
next
  case (ready k ts d io r g c a)
  then show ?case using poll_ready_keeps [OF ready(3)] by (auto simp: driver_inv_def)
next
  case (clear k ts r g d del_ok add_ok io ops ws c a)
  then show ?case using clear_keeps [OF clear(3)] by (auto simp: driver_inv_def)
next
  case (wait k ts d io c a)
  then show ?case using poll_ready_keeps [OF wait(3)] by (auto simp: driver_inv_def)
next
  case (count k ts b bs d c a)
  then show ?case by (auto simp: driver_inv_def drain_count_def nth_list_update)
next
  case (wake k ts b bs d d' ws c a)
  then show ?case by (auto simp: driver_inv_def drain_take_def)
qed (auto simp: driver_inv_def signal_register_def)

text \<open>Steps of one task that leave the driver and what the others wait for.\<close>

lemma tasks_ok_at: "tasks_ok d c ts ws \<Longrightarrow> k < length ts \<Longrightarrow> counts c (ts ! k) \<and> (sl_woken (ts ! k) \<or> waits d ws (ts ! k))"
  by (simp add: tasks_ok_def)

lemma tasks_ok_self:
  assumes "tasks_ok d c ts (to_wake ts)" "k < length ts" "\<forall>b bs. sl_pc (ts ! k) \<noteq> Waking b bs"
    "counts c t" "sl_woken t \<or> waits d' (to_wake (ts[k := t])) t"
    "\<And>u. waits d (to_wake ts) u \<Longrightarrow> waits d' (to_wake ts) u"
  shows "tasks_ok d' c (ts[k := t]) (to_wake (ts[k := t]))"
  using assms(4-6) waits_mono [OF _ to_wake_grows [OF assms(2,3)]] by (intro tasks_ok_step [OF assms(1)]) auto

lemma counts_pc [simp]:
  "counts c (t\<lparr>sl_pc := p\<rparr>) = counts c t" "counts c (t\<lparr>sl_pc := p, sl_waker := w, sl_woken := b\<rparr>) = counts c t"
  by (simp_all add: counts_def)

lemma waits_nothing: "sl_pc t \<notin> {Checking, Registering, Rechecking, Parked} \<Longrightarrow> waits d ws t"
  by (auto simp: waits_def)

lemma recv_check_count:
  assumes "recv_check d (sl_listener t) = Some l" "driver_inv d c" "counts c t"
  shows "counts c (t\<lparr>sl_listener := l, sl_pc := Idle, sl_received := Suc (sl_received t)\<rparr>)"
proof -
  from assms(1) have l: "l = (sl_listener t)\<lparr>sg_seen := sg_seen (sl_listener t) + 1\<rparr>" "sd_generation d ! sl_signal t \<noteq> sg_seen (sl_listener t)"
    by (auto simp: recv_check_def split: if_splits)
  moreover have "sd_generation d ! sl_signal t = of_nat (c (sl_signal t))" "sg_seen (sl_listener t) = of_nat (sl_start t + sl_received t)"
    using assms(2,3) by (simp_all add: driver_inv_def counts_def)
  ultimately have "sl_start t + sl_received t \<noteq> c (sl_signal t)" by metis
  then show ?thesis using assms(3) l(1) by (simp add: counts_def add.commute)
qed

lemma waits_count:
  assumes "waits d ws t" "ws \<subseteq> ws'" "i \<in> ws'"
  shows "waits (drain_count d i) ws' t"
proof (cases "sl_signal t = i")
  case False
  then show ?thesis using assms(1,2) by (auto simp: waits_def drain_count_def)
qed (use assms in \<open>simp add: waits_def drain_count_def\<close>)

lemma waits_take:
  assumes "waits d ws t" "drain_take d i = (d', wakers)" "ws - {i} \<subseteq> ws'"
  shows "sl_waker t \<in> set wakers \<or> waits d' ws' t"
proof (cases "sl_signal t = i")
  case True
  have d': "d' = d\<lparr>sd_waiters := (sd_waiters d)[i := []]\<rparr>" "wakers = sd_waiters d ! i" using assms(2) by (simp_all add: drain_take_def)
  show ?thesis
  proof (cases "sl_pc t \<in> {Rechecking, Parked}")
    case False
    then show ?thesis using assms(1) by (simp add: waits_def d'(1))
  qed (use assms(1) True d'(2) in \<open>simp add: waits_def\<close>)
next
  case False
  then show ?thesis using assms by (auto simp: waits_def drain_take_def)
qed

lemma waits_register:
  assumes "waits d ws t" "driver_inv d c" "counts c t"
  shows "waits (signal_register d i w) ws t"
proof -
  have "set (sd_waiters d ! sl_signal t) \<subseteq> set ((sd_waiters d)[i := waiters_register (sd_waiters d ! i) w] ! sl_signal t)"
    using assms(2,3) by (cases "sl_signal t = i") (auto simp: driver_inv_def counts_def)
  then show ?thesis using assms(1) by (auto simp: waits_def signal_register_def)
qed

lemma tasks_step:
  assumes "sig_step s s'" "driver_inv (sy_driver s) (sy_count s)" "tasks_ok (sy_driver s) (sy_count s) (sy_tasks s) (to_wake (sy_tasks s))"
  shows "tasks_ok (sy_driver s') (sy_count s') (sy_tasks s') (to_wake (sy_tasks s'))"
  using assms
proof (induction rule: sig_step.induct)
  case (arrive n d room fd ts c a)
  then show ?case by (simp add: tasks_ok_def waits_def)
next
  case (callback d events del_ok add_ok io ops ws ts c a)
  have inv: "reader_inv (sd_reader d)" using callback(2) by (simp add: driver_inv_def)
  show ?case unfolding sig_sys.simps to_wake_wake
    by (rule tasks_ok_wake [OF callback(3) [unfolded sig_sys.simps]]) (use waits_reader callback_keeps [OF callback(1) inv] in blast)
next
  case (claim d kind d' before ts c a)
  then show ?case by (auto simp: tasks_ok_def waits_def install_claim_def split: if_splits)
next
  case (installed d kind os_ok d' r ts c a)
  then show ?case by (auto simp: tasks_ok_def waits_def install_finish_def split: if_splits)
next
  case (listen kind l d ts c a w)
  then have l: "sg_signal l < MAX_SIGNALS" "sg_seen l = sd_generation d ! sg_signal l" by (simp_all add: listener_new_def)
  have w: "to_wake (ts @ [u]) = to_wake ts" if "sl_pc u = Idle" for u using that by (simp add: to_wake_def)
  show ?case using listen(4,5) l by (simp add: tasks_ok_def w waits_nothing driver_inv_def) (simp add: counts_def)
next
  case (failed k ts fault d d' e c a)
  then have "d' = d" by (auto simp: drain_read_def split: if_splits option.splits)
  then show ?case unfolding sig_sys.simps using failed tasks_ok_at [of d c ts "to_wake ts" k] by (intro tasks_ok_self [OF failed(6) [unfolded sig_sys.simps] failed(1)]) (auto simp: waits_nothing)
next
  case (closed k ts d io e c a)
  have "waits d ws u \<Longrightarrow> waits (d\<lparr>sd_reader := io\<rparr>) ws u" for ws u
    using poll_ready_keeps [OF closed(3)] closed(4) waits_reader [of d ws u False io] by (auto simp: driver_inv_def)
  then show ?case unfolding sig_sys.simps using closed tasks_ok_at [of d c ts "to_wake ts" k] by (intro tasks_ok_self [OF closed(5) [unfolded sig_sys.simps] closed(1)]) (auto simp: waits_nothing)
next
  case (poll k ts d c a w)
  then show ?case unfolding sig_sys.simps using tasks_ok_at [of d c ts "to_wake ts" k] by (intro tasks_ok_self [OF poll(4) [unfolded sig_sys.simps] poll(1)]) (auto simp: waits_nothing)
next
  case (got k ts fault d d' bytes c a)
  then have "waits d ws u \<Longrightarrow> waits d' ws u" for ws u by (auto simp: drain_read_def waits_def split: if_splits option.splits)
  then show ?case unfolding sig_sys.simps using got tasks_ok_at [of d c ts "to_wake ts" k] by (intro tasks_ok_self [OF got(5) [unfolded sig_sys.simps] got(1)]) (auto simp: waits_nothing)
next
  case (empty k ts fault d d' c a)
  then have "d' = d" by (auto simp: drain_read_def split: if_splits option.splits)
  then show ?case unfolding sig_sys.simps using empty tasks_ok_at [of d c ts "to_wake ts" k] by (intro tasks_ok_self [OF empty(5) [unfolded sig_sys.simps] empty(1)]) (auto simp: waits_nothing)
next
  case (skip k ts b bs d c a)
  then show ?case unfolding sig_sys.simps using tasks_ok_at [of d c ts "to_wake ts" k] by (intro tasks_ok_self [OF skip(5) [unfolded sig_sys.simps] skip(1)]) (auto simp: waits_nothing)
next
  case (count k ts b bs d c a)
  let ?ts = "ts[k := (ts ! k)\<lparr>sl_pc := Waking b bs\<rparr>]"
  have w: "to_wake ts \<subseteq> to_wake ?ts" "unat b \<in> to_wake ?ts"
    using to_wake_grows [OF count(1)] to_wake_self [OF count(1)] count(2) by simp_all
  show ?case unfolding sig_sys.simps
  proof (rule tasks_ok_step [OF count(5) [unfolded sig_sys.simps]])
    show "counts (c(unat b := Suc (c (unat b)))) ((ts ! k)\<lparr>sl_pc := Waking b bs\<rparr>)"
      using tasks_ok_at [OF count(5) [unfolded sig_sys.simps] count(1)] by (auto simp: counts_def)
  qed (use w waits_count in \<open>auto simp: waits_nothing\<close>)
next
  case (wake k ts b bs d d' ws c a)
  let ?ts = "ts[k := (ts ! k)\<lparr>sl_pc := Counting bs\<rparr>]"
  have w: "to_wake ts - {unat b} \<subseteq> to_wake ?ts" using to_wake_update [OF wake(1)] wake(2) by auto
  have "tasks_ok d c ?ts (to_wake ts)" using tasks_ok_at [OF wake(5) [unfolded sig_sys.simps] wake(1)]
    by (intro tasks_ok_step [OF wake(5) [unfolded sig_sys.simps]]) (auto simp: waits_nothing)
  then show ?case unfolding sig_sys.simps to_wake_wake by (rule tasks_ok_wake) (rule waits_take [OF _ wake(3) w])
next
  case (again k ts d c a)
  then show ?case unfolding sig_sys.simps using tasks_ok_at [of d c ts "to_wake ts" k] by (intro tasks_ok_self [OF again(4) [unfolded sig_sys.simps] again(1)]) (auto simp: waits_nothing)
next
  case (ready k ts d io r g c a)
  have "waits d ws u \<Longrightarrow> waits (d\<lparr>sd_reader := io\<rparr>) ws u" for ws u
    using poll_ready_keeps [OF ready(3)] ready(4) waits_reader [of d ws u False io] by (auto simp: driver_inv_def)
  then show ?case unfolding sig_sys.simps using ready tasks_ok_at [of d c ts "to_wake ts" k] by (intro tasks_ok_self [OF ready(5) [unfolded sig_sys.simps] ready(1)]) (auto simp: waits_nothing)
next
  case (clear k ts r g d del_ok add_ok io ops ws c a)
  have inv: "reader_inv (sd_reader d)" using clear(4) by (simp add: driver_inv_def)
  have "tasks_ok d c (ts[k := (ts ! k)\<lparr>sl_pc := Draining\<rparr>]) (to_wake (ts[k := (ts ! k)\<lparr>sl_pc := Draining\<rparr>]))"
    using clear tasks_ok_at [of d c ts "to_wake ts" k] by (intro tasks_ok_self [OF clear(5) [unfolded sig_sys.simps] clear(1)]) (auto simp: waits_nothing)
  then show ?case unfolding sig_sys.simps to_wake_wake by (rule tasks_ok_wake) (use waits_reader clear_keeps [OF clear(3) inv] in auto)
next
  case (wait k ts d io c a)
  have keep: "waits d ws u \<Longrightarrow> waits (d\<lparr>sd_reader := io\<rparr>) ws u" for ws u
    using poll_ready_keeps [OF wait(3)] wait(4) waits_reader [of d ws u False io] by (auto simp: driver_inv_def)
  have "sock_wait io (sl_waker (ts ! k))" using poll_ready_keeps [OF wait(3)] wait(4) by (simp add: driver_inv_def)
  then show ?case unfolding sig_sys.simps using wait keep tasks_ok_at [of d c ts "to_wake ts" k]
    by (intro tasks_ok_self [OF wait(5) [unfolded sig_sys.simps] wait(1)]) (auto simp: waits_def)
next
  case (hit k ts d l c a)
  then show ?case unfolding sig_sys.simps using tasks_ok_at [of d c ts "to_wake ts" k] recv_check_count [OF hit(3)]
    by (intro tasks_ok_self [OF hit(5) [unfolded sig_sys.simps] hit(1)]) (auto simp: waits_nothing)
next
  case (miss k ts d c a)
  then show ?case unfolding sig_sys.simps using tasks_ok_at [of d c ts "to_wake ts" k] by (intro tasks_ok_self [OF miss(5) [unfolded sig_sys.simps] miss(1)]) (auto simp: waits_def)
next
  case (register k ts d c a)
  let ?t = "(ts ! k)\<lparr>sl_pc := Rechecking\<rparr>" and ?d = "signal_register d (sl_signal (ts ! k)) (sl_waker (ts ! k))"
  have t: "counts c (ts ! k)" "sl_woken (ts ! k) \<or> waits d (to_wake ts) (ts ! k)" using tasks_ok_at [OF register(4) [unfolded sig_sys.simps] register(1)] by simp_all
  have d: "driver_inv d c" using register(3) by simp
  have "waits ?d ws ?t" if "waits d ws (ts ! k)" for ws
    using waits_register [OF that d t(1)] d t(1) register(2) by (auto simp: waits_def signal_register_def driver_inv_def counts_def)
  then have self: "sl_woken ?t \<or> waits ?d (to_wake ts) ?t" using t(2) by auto
  have grow: "to_wake ts \<subseteq> to_wake (ts[k := ?t])" using to_wake_grows [OF register(1)] register(2) by simp
  show ?case unfolding sig_sys.simps
  proof (rule tasks_ok_step [OF register(4) [unfolded sig_sys.simps]])
    show "sl_woken ?t \<or> waits ?d (to_wake (ts[k := ?t])) ?t" using self waits_mono [OF _ grow] by blast
    show "waits ?d (to_wake (ts[k := ?t])) u" if "counts c u" "waits d (to_wake ts) u" for u
      using waits_mono [OF waits_register [OF that(2) d that(1)] grow] .
  qed (use t in simp_all)
next
  case (park k ts d c a)
  then show ?case unfolding sig_sys.simps using tasks_ok_at [of d c ts "to_wake ts" k]
    by (intro tasks_ok_self [OF park(5) [unfolded sig_sys.simps] park(1)]) (auto simp: waits_def recv_check_def split: if_splits)
qed

lemma sig_reach_inv: "sig_reach s \<Longrightarrow> sig_inv s"
proof (induction rule: sig_reach.induct)
  case (start rx fd add_ok rx' ops io)
  then have "reader_inv io"
    by (auto simp: rx_register_def Let_def io_new_def reader_inv_def update_interest_def desired_events_def io_ready_def
        unpack_readiness_def split: if_splits sum.splits prod.splits)
  then show ?case by (simp add: sig_inv_def driver_inv_def signal_driver_new_def)
next
  case (step s s')
  then show ?case unfolding sig_inv_parts using driver_step tasks_step total_step by blast
qed

text \<open>C37: no signal that reached the socket is lost, whichever tasks drain it and whichever of their reads fail. Every occurrence is counted once, or still in the socket or in
  the hands of a task that counts it; a listener returns at most the occurrences since it was made; and a listener that waits has
  returned all that were counted, unless its wake-up is under way, is in the list that the next occurrence wakes, and in that of the
  readiness of the socket, which is monitored.\<close>

theorem signals_not_lost:
  assumes "sig_reach s" "t \<in> set (sy_tasks s)"
  shows "(\<forall>i < MAX_SIGNALS. sy_accepted s i = sy_count s i + occ i (sd_pipe (sy_driver s)) + (\<Sum>t\<leftarrow>sy_tasks s. occ i (held_bytes (sl_pc t)))) \<and>
    sl_start t + sl_received t \<le> sy_count s (sl_signal t) \<and>
    (sl_pc t = Parked \<and> \<not> sl_woken t \<longrightarrow>
       ((of_nat (sl_start t + sl_received t) :: u64) = of_nat (sy_count s (sl_signal t)) \<or> sl_signal t \<in> to_wake (sy_tasks s)) \<and>
       sl_waker t \<in> set (sd_waiters (sy_driver s) ! sl_signal t) \<and>
       sl_waker t \<in> set (io_readers (sd_reader (sy_driver s))) \<and> io_events (sd_reader (sy_driver s)) AND EPOLLIN = EPOLLIN)"
proof -
  have inv: "driver_inv (sy_driver s) (sy_count s)" "counts (sy_count s) t" "sl_woken t \<or> waits (sy_driver s) (to_wake (sy_tasks s)) t"
    using sig_reach_inv [OF assms(1)] assms(2) by (auto simp: sig_inv_def)
  have "io_events (sd_reader (sy_driver s)) AND EPOLLIN = EPOLLIN" if "sock_wait (sd_reader (sy_driver s)) (sl_waker t)"
    using that inv(1) desired_covers [of "sd_reader (sy_driver s)" EPOLLIN] by (simp add: sock_wait_def driver_inv_def reader_inv_def)
  moreover have "sd_generation (sy_driver s) ! sl_signal t = of_nat (sy_count s (sl_signal t))"
    using inv(1,2) by (simp add: driver_inv_def counts_def)
  ultimately show ?thesis using inv(2,3) sig_reach_inv [OF assms(1)] by (auto simp: waits_def counts_def sock_wait_def sig_inv_def)
qed

definition sig_example_driver :: signal_driver where
  "sig_example_driver = (signal_driver_new ((io_new 3 EPOLLIN 0)\<lparr>io_events := EPOLLIN\<rparr>))\<lparr>sd_installed := (replicate 64 False)[2 := True]\<rparr>"

definition sig_example_task :: "recv_pc \<Rightarrow> sig_task" where
  "sig_example_task pc = \<lparr>sl_listener = \<lparr>sg_signal = 2, sg_seen = 0\<rparr>, sl_waker = 5, sl_pc = pc, sl_woken = False, sl_start = 0, sl_received = 0\<rparr>"

definition sig_example :: sig_sys where
  "sig_example = \<lparr>sy_driver = signal_register (sig_example_driver\<lparr>sd_reader := (io_new 3 EPOLLIN 0)\<lparr>io_events := EPOLLIN, io_readers := [5]\<rparr>\<rparr>) 2 5,
     sy_tasks = [sig_example_task Parked], sy_count = (\<lambda>_. 0), sy_accepted = (\<lambda>_. 0)\<rparr>"

lemma sig_example_reach: "sig_reach sig_example"
proof -
  let ?d = sig_example_driver and ?s = "\<lambda>d pc. \<lparr>sy_driver = d, sy_tasks = [sig_example_task pc], sy_count = (\<lambda>_. 0), sy_accepted = (\<lambda>_. 0)\<rparr>"
  let ?io = "(io_new 3 EPOLLIN 0)\<lparr>io_events := EPOLLIN\<rparr>"
  have "rx_register \<lparr>rx_next = 0, rx_registrations = {}\<rparr> 3 EPOLLIN True = Inr (\<lparr>rx_next = 1, rx_registrations = {0}\<rparr>, [EpollAdd 3 (EPOLLIN OR ERROR_EVENTS) 0], Inr ?io)"
    by (simp add: rx_register_def next_token_def usize_checked_add_def usize_max_def update_interest_def desired_events_def io_new_def io_ready_def
        unpack_readiness_def epoll_defs Let_def)
  note r0 = sig_reach.start [OF this]
  have "install_claim (signal_driver_new ?io) 2 = Inr (?d, Inr False)"
    by (simp add: install_claim_def signal_driver_new_def sig_example_driver_def MAX_SIGNALS_def SIG_KILL_def SIG_STOP_def)
  note r' = sig_reach.step [OF r0 sig_step.claim [OF this]]
  have "listener_new ?d 2 = \<lparr>sg_signal = 2, sg_seen = 0\<rparr>"
    by (simp add: listener_new_def sig_example_driver_def signal_driver_new_def MAX_SIGNALS_def)
  with sig_reach.step [OF r' sig_step.listen [of 2 _ _ _ _ _ 5]] have r1: "sig_reach (?s ?d Idle)"
    by (simp add: sig_example_task_def MAX_SIGNALS_def)
  from sig_reach.step [OF r1 sig_step.poll [of 0 _ ?d _ _ 5]] have r2: "sig_reach (?s ?d Draining)" by (simp add: sig_example_task_def)
  have "drain_read None ?d = (?d, Inl WouldBlock)" by (simp add: drain_read_def sig_example_driver_def signal_driver_new_def)
  from sig_reach.step [OF r2 sig_step.empty [OF _ _ this, of 0]] have r3: "sig_reach (?s ?d Blocked)" by (simp add: sig_example_task_def)
  let ?d1 = "?d\<lparr>sd_reader := ?io\<lparr>io_readers := [5]\<rparr>\<rparr>"
  have "io_poll_ready (sd_reader ?d) 5 EPOLLIN = (?io\<lparr>io_readers := [5]\<rparr>, Pending)"
    by (simp add: sig_example_driver_def signal_driver_new_def io_poll_ready_def io_new_def io_ready_def unpack_readiness_def
        interest_tests epoll_defs waiters_register_def)
  with sig_reach.step [OF r3 sig_step.wait [of 0 _ ?d]] have r4: "sig_reach (?s ?d1 Checking)" by (simp add: sig_example_task_def)
  have c: "recv_check ?d1 \<lparr>sg_signal = 2, sg_seen = 0\<rparr> = None" "recv_check (signal_register ?d1 2 5) \<lparr>sg_signal = 2, sg_seen = 0\<rparr> = None"
    by (simp_all add: recv_check_def signal_register_def sig_example_driver_def signal_driver_new_def MAX_SIGNALS_def)
  with sig_reach.step [OF r4 sig_step.miss [of 0 _ ?d1]] have r5: "sig_reach (?s ?d1 Registering)" by (simp add: sig_example_task_def)
  with sig_reach.step [OF r5 sig_step.register [of 0 _ ?d1]] have r6: "sig_reach (?s (signal_register ?d1 2 5) Rechecking)"
    by (simp add: sig_example_task_def)
  with c sig_reach.step [OF r6 sig_step.park [of 0 _ "signal_register ?d1 2 5"]] show ?thesis by (simp add: sig_example_task_def sig_example_def)
qed

theorem signals_not_lost_witness:
  "sig_reach sig_example \<and> sl_pc (sig_example_task Parked) = Parked \<and> 5 \<in> set (sd_waiters (sy_driver sig_example) ! 2) \<and>
   5 \<in> set (io_readers (sd_reader (sy_driver sig_example))) \<and> io_events (sd_reader (sy_driver sig_example)) AND EPOLLIN = EPOLLIN"
proof -
  have "sig_example_task Parked \<in> set (sy_tasks sig_example)" by (simp add: sig_example_def)
  from signals_not_lost [OF sig_example_reach this] sig_example_reach show ?thesis by (simp add: sig_example_task_def)
qed

end
