(* ===== verification/Net_Stream.thy ===== *)
theory Net_Stream
  imports Reactor Io_Copy
begin

text \<open>
  Sockets (\<open>net.rs\<close>, \<open>net_unix.rs\<close>). A socket is an \<open>AsyncFd\<close>; every operation tries a non-blocking call of the operating system
  and, when that would block, waits for readiness, clears it and tries again. The calls are parameters that act on the state \<open>'io\<close> of the
  socket in the kernel, in which what will still arrive is fixed. An operation polled once is a step here; the interleaving of the
  readiness it uses with the loop thread is the subject of \<open>Reactor\<close>.
\<close>

unbundle bit_operations_syntax

type_synonym 'io sys_read = "'io \<Rightarrow> nat \<Rightarrow> 'io \<times> byte list io_result"
type_synonym 'io sys_write = "'io \<Rightarrow> byte list \<Rightarrow> 'io \<times> nat io_result"
type_synonym ('io, 'r) net_poll = "('io async_fd \<times> 'r io_result poll) panicky option"

section \<open>The loop\<close>

text \<open>\<open>UdpSocket::poll_io\<close>. It goes on while the descriptor keeps becoming ready, so it has fuel.\<close>

fun poll_io :: "nat \<Rightarrow> ('io \<Rightarrow> 'io \<times> 'r io_result) \<Rightarrow> 'io async_fd \<Rightarrow> waker \<Rightarrow> interest \<Rightarrow> bool \<Rightarrow> bool \<Rightarrow> ('io, 'r) net_poll" where
  "poll_io 0 operation inner cx i del_ok add_ok = None"
| "poll_io (Suc fuel) operation inner cx i del_ok add_ok = (case async_fd_get_ref inner of
     Inl e \<Rightarrow> Some (Inl e)
   | Inr io \<Rightarrow> (case operation io of
       (io, Inl WouldBlock) \<Rightarrow>
         (case poll_ready_interest (inner\<lparr>afd_io := Some io\<rparr>) cx (if interest_is_readable i then EPOLLIN else EPOLLOUT) of
            (inner, Ready (Inr guard)) \<Rightarrow>
              (let (inner, _, _, _) = guard_clear_ready inner guard del_ok add_ok in poll_io fuel operation inner cx i del_ok add_ok)
          | (inner, Ready (Inl error)) \<Rightarrow> Some (Inr (inner, Ready (Inl error)))
          | (inner, Pending) \<Rightarrow> Some (Inr (inner, Pending)))
     | (io, result) \<Rightarrow> Some (Inr (inner\<lparr>afd_io := Some io\<rparr>, Ready result))))"

definition poll_stream_io :: "nat \<Rightarrow> ('io \<Rightarrow> 'io \<times> 'r io_result) \<Rightarrow> 'io async_fd \<Rightarrow> waker \<Rightarrow> interest \<Rightarrow> bool \<Rightarrow> bool \<Rightarrow> ('io, 'r) net_poll" where
  "poll_stream_io = poll_io"

section \<open>Streams\<close>

text \<open>The loops of \<open>TcpStream::poll_read_slice\<close> and \<open>poll_write_slice\<close> are that of \<open>poll_io\<close> with the direction fixed.\<close>

definition poll_read_slice :: "nat \<Rightarrow> 'io sys_read \<Rightarrow> 'io async_fd \<Rightarrow> waker \<Rightarrow> nat \<Rightarrow> bool \<Rightarrow> bool \<Rightarrow> ('io, byte list) net_poll" where
  "poll_read_slice fuel sys_read inner cx len del_ok add_ok = poll_io fuel (\<lambda>io. sys_read io len) inner cx EPOLLIN del_ok add_ok"

definition poll_write_slice :: "nat \<Rightarrow> 'io sys_write \<Rightarrow> 'io async_fd \<Rightarrow> waker \<Rightarrow> byte list \<Rightarrow> bool \<Rightarrow> bool \<Rightarrow> ('io, nat) net_poll" where
  "poll_write_slice fuel sys_write inner cx buf del_ok add_ok = poll_io fuel (\<lambda>io. sys_write io buf) inner cx EPOLLOUT del_ok add_ok"

text \<open>The call stores the bytes in the slice it was given; then they are marked as filled.\<close>

definition fill_unfilled :: "read_buf \<Rightarrow> byte list \<Rightarrow> read_buf panicky" where
  "fill_unfilled buf bytes = advance (buf\<lparr>rb_buf := overwrite (rb_buf buf) (rb_filled buf) (map Some bytes)\<rparr>) (length bytes)"

definition tcp_poll_read ::
  "nat \<Rightarrow> 'io sys_read \<Rightarrow> 'io async_fd \<Rightarrow> waker \<Rightarrow> read_buf \<Rightarrow> bool \<Rightarrow> bool \<Rightarrow> ('io async_fd \<times> read_buf \<times> unit io_result poll) panicky option" where
  "tcp_poll_read fuel sys_read inner cx buf del_ok add_ok = (case initialize_unfilled buf of
     Inl e \<Rightarrow> Some (Inl e)
   | Inr buf \<Rightarrow> (case poll_read_slice fuel sys_read inner cx (rb_remaining buf) del_ok add_ok of
       None \<Rightarrow> None
     | Some (Inl e) \<Rightarrow> Some (Inl e)
     | Some (Inr (inner, Ready (Inr bytes))) \<Rightarrow> (case fill_unfilled buf bytes of
         Inl e \<Rightarrow> Some (Inl e)
       | Inr buf \<Rightarrow> Some (Inr (inner, buf, Ready (Inr ()))))
     | Some (Inr (inner, Ready (Inl e))) \<Rightarrow> Some (Inr (inner, buf, Ready (Inl e)))
     | Some (Inr (inner, Pending)) \<Rightarrow> Some (Inr (inner, buf, Pending))))"

definition tcp_poll_write :: "nat \<Rightarrow> 'io sys_write \<Rightarrow> 'io async_fd \<Rightarrow> waker \<Rightarrow> byte list \<Rightarrow> bool \<Rightarrow> bool \<Rightarrow> ('io, nat) net_poll" where
  "tcp_poll_write = poll_write_slice"

definition tcp_poll_flush :: "'io async_fd \<Rightarrow> 'io async_fd \<times> unit io_result poll" where
  "tcp_poll_flush inner = (inner, Ready (Inr ()))"

definition tcp_poll_shutdown :: "('io \<Rightarrow> 'io \<times> unit io_result) \<Rightarrow> 'io async_fd \<Rightarrow> ('io async_fd \<times> unit io_result poll) panicky" where
  "tcp_poll_shutdown sys_shutdown inner = (case async_fd_get_ref inner of
     Inl e \<Rightarrow> Inl e
   | Inr io \<Rightarrow> (let (io, result) = sys_shutdown io in Inr (inner\<lparr>afd_io := Some io\<rparr>, Ready result)))"

definition poll_tcp_peek ::
  "nat \<Rightarrow> 'io sys_read \<Rightarrow> 'io async_fd \<Rightarrow> waker \<Rightarrow> read_buf \<Rightarrow> bool \<Rightarrow> bool \<Rightarrow> ('io async_fd \<times> read_buf \<times> nat io_result poll) panicky option" where
  "poll_tcp_peek fuel sys_peek inner cx buf del_ok add_ok = (case initialize_unfilled buf of
     Inl e \<Rightarrow> Some (Inl e)
   | Inr buf \<Rightarrow> (case poll_io fuel (\<lambda>io. sys_peek io (rb_remaining buf)) inner cx EPOLLIN del_ok add_ok of
       None \<Rightarrow> None
     | Some (Inl e) \<Rightarrow> Some (Inl e)
     | Some (Inr (inner, Ready (Inr bytes))) \<Rightarrow> (case fill_unfilled buf bytes of
         Inl e \<Rightarrow> Some (Inl e)
       | Inr buf \<Rightarrow> Some (Inr (inner, buf, Ready (Inr (length bytes)))))
     | Some (Inr (inner, Ready (Inl e))) \<Rightarrow> Some (Inr (inner, buf, Ready (Inl e)))
     | Some (Inr (inner, Pending)) \<Rightarrow> Some (Inr (inner, buf, Pending))))"

text \<open>The owned halves poll with the same loops.\<close>

definition poll_tcp_read ::
  "nat \<Rightarrow> 'io sys_read \<Rightarrow> 'io async_fd \<Rightarrow> waker \<Rightarrow> read_buf \<Rightarrow> bool \<Rightarrow> bool \<Rightarrow> ('io async_fd \<times> read_buf \<times> unit io_result poll) panicky option" where
  "poll_tcp_read fuel sys_read inner cx buf del_ok add_ok = (case initialize_unfilled buf of
     Inl e \<Rightarrow> Some (Inl e)
   | Inr buf \<Rightarrow> (case poll_io fuel (\<lambda>io. sys_read io (rb_remaining buf)) inner cx EPOLLIN del_ok add_ok of
       None \<Rightarrow> None
     | Some (Inl e) \<Rightarrow> Some (Inl e)
     | Some (Inr (inner, Ready (Inr bytes))) \<Rightarrow> (case fill_unfilled buf bytes of
         Inl e \<Rightarrow> Some (Inl e)
       | Inr buf \<Rightarrow> Some (Inr (inner, buf, Ready (Inr ()))))
     | Some (Inr (inner, Ready (Inl e))) \<Rightarrow> Some (Inr (inner, buf, Ready (Inl e)))
     | Some (Inr (inner, Pending)) \<Rightarrow> Some (Inr (inner, buf, Pending))))"

definition poll_tcp_write :: "nat \<Rightarrow> 'io sys_write \<Rightarrow> 'io async_fd \<Rightarrow> waker \<Rightarrow> byte list \<Rightarrow> bool \<Rightarrow> bool \<Rightarrow> ('io, nat) net_poll" where
  "poll_tcp_write fuel sys_write inner cx buf del_ok add_ok = poll_io fuel (\<lambda>io. sys_write io buf) inner cx EPOLLOUT del_ok add_ok"

text \<open>The futures on owned buffers; what they have done so far is kept between polls.\<close>

fun read_to_end_owned_poll ::
  "nat \<Rightarrow> nat \<Rightarrow> 'io sys_read \<Rightarrow> 'io async_fd \<Rightarrow> waker \<Rightarrow> byte list \<Rightarrow> bool \<Rightarrow> bool \<Rightarrow>
   ('io async_fd \<times> byte list \<times> byte list io_result poll) panicky option" where
  "read_to_end_owned_poll 0 fuel sys_read inner cx result del_ok add_ok = None"
| "read_to_end_owned_poll (Suc rounds) fuel sys_read inner cx result del_ok add_ok =
     (case poll_read_slice fuel sys_read inner cx (8 * 1024) del_ok add_ok of
        None \<Rightarrow> None
      | Some (Inl e) \<Rightarrow> Some (Inl e)
      | Some (Inr (inner, Pending)) \<Rightarrow> Some (Inr (inner, result, Pending))
      | Some (Inr (inner, Ready (Inl e))) \<Rightarrow> Some (Inr (inner, result, Ready (Inl e)))
      | Some (Inr (inner, Ready (Inr bytes))) \<Rightarrow>
          if bytes = [] then Some (Inr (inner, result, Ready (Inr result)))
          else read_to_end_owned_poll rounds fuel sys_read inner cx (result @ bytes) del_ok add_ok)"

fun write_all_owned_poll ::
  "nat \<Rightarrow> nat \<Rightarrow> 'io sys_write \<Rightarrow> 'io async_fd \<Rightarrow> waker \<Rightarrow> byte list \<Rightarrow> nat \<Rightarrow> bool \<Rightarrow> bool \<Rightarrow>
   ('io async_fd \<times> nat \<times> unit io_result poll) panicky option" where
  "write_all_owned_poll 0 fuel sys_write inner cx data written del_ok add_ok = None"
| "write_all_owned_poll (Suc rounds) fuel sys_write inner cx data written del_ok add_ok =
     (if \<not> written < length data then Some (Inr (inner, written, Ready (Inr ())))
      else (case poll_write_slice fuel sys_write inner cx (drop written data) del_ok add_ok of
        None \<Rightarrow> None
      | Some (Inl e) \<Rightarrow> Some (Inl e)
      | Some (Inr (inner, Pending)) \<Rightarrow> Some (Inr (inner, written, Pending))
      | Some (Inr (inner, Ready (Inl e))) \<Rightarrow> Some (Inr (inner, written, Ready (Inl e)))
      | Some (Inr (inner, Ready (Inr n))) \<Rightarrow>
          if n = 0 then Some (Inr (inner, written, Ready (Inl (WriteZero ''failed to write whole buffer''))))
          else write_all_owned_poll rounds fuel sys_write inner cx data (written + n) del_ok add_ok))"

text \<open>
  \<open>try_read_buf\<close> hands the spare capacity of a vector to a read. Taking memory that was never written for bytes is undefined, here a
  failure. The version of \<open>net.rs\<close> zeroes the memory first, that of \<open>net_unix.rs\<close> does not.
\<close>

definition as_bytes :: "byte option list \<Rightarrow> byte list panicky" where
  "as_bytes chunk = (if None \<in> set chunk then Inl ''uninitialised memory'' else Inr (map the chunk))"

definition store_read :: "byte list \<Rightarrow> byte option list \<Rightarrow> (byte list \<Rightarrow> byte list io_result) \<Rightarrow> byte list io_result" where
  "store_read filled chunk operation = (case operation (map the chunk) of Inl e \<Rightarrow> Inl e | Inr bytes \<Rightarrow> Inr (filled @ bytes))"

definition try_read_buf :: "byte list \<Rightarrow> byte option list \<Rightarrow> (byte list \<Rightarrow> byte list io_result) \<Rightarrow> byte list io_result panicky" where
  "try_read_buf filled chunk operation =
     (let chunk = replicate (length chunk) (Some 0) in
      case as_bytes chunk of Inl e \<Rightarrow> Inl e | Inr _ \<Rightarrow> Inr (store_read filled chunk operation))"

definition unix_try_read_buf :: "byte list \<Rightarrow> byte option list \<Rightarrow> (byte list \<Rightarrow> byte list io_result) \<Rightarrow> byte list io_result panicky" where
  "unix_try_read_buf filled chunk operation =
     (case as_bytes chunk of Inl e \<Rightarrow> Inl e | Inr _ \<Rightarrow> Inr (store_read filled chunk operation))"

section \<open>Halves\<close>

text \<open>The halves share the descriptor through an \<open>Arc\<close>, here its address; the results say whether the write side is shut down.\<close>

record owned_read_half = orh_inner :: nat
record owned_write_half = owh_inner :: "nat option"
record tcp_stream = ts_inner :: nat

definition into_split :: "tcp_stream \<Rightarrow> owned_read_half \<times> owned_write_half" where
  "into_split t = (\<lparr>orh_inner = ts_inner t\<rparr>, \<lparr>owh_inner = Some (ts_inner t)\<rparr>)"

definition write_half_drop :: "owned_write_half \<Rightarrow> nat list" where
  "write_half_drop w = (case owh_inner w of Some inner \<Rightarrow> [inner] | None \<Rightarrow> [])"

definition write_half_forget :: "owned_write_half \<Rightarrow> nat list" where
  "write_half_forget w = write_half_drop (w\<lparr>owh_inner := None\<rparr>)"

definition reunite :: "owned_read_half \<Rightarrow> owned_write_half \<Rightarrow> nat list \<times> ((owned_read_half \<times> owned_write_half) + tcp_stream)" where
  "reunite r w =
     (if owh_inner w = Some (orh_inner r) then (write_half_drop (w\<lparr>owh_inner := None\<rparr>), Inr \<lparr>ts_inner = orh_inner r\<rparr>)
      else ([], Inl (r, w)))"

definition tcp_into_std :: "nat \<Rightarrow> 'io async_fd \<Rightarrow> reactor \<Rightarrow> (reactor \<times> 'io io_result) panicky" where
  "tcp_into_std strong inner rx =
     (if strong = 1 then (case async_fd_into_inner rx inner of Inl e \<Rightarrow> Inl e | Inr (rx, _, io) \<Rightarrow> Inr (rx, Inr io))
      else Inr (rx, Inl (OtherError ''TCP stream is still shared by an owned split half'')))"

section \<open>Connecting, binding and accepting\<close>

definition no_addresses :: io_error where
  "no_addresses = InvalidInput ''address resolved to no socket addresses''"

text \<open>\<open>from_std\<close> makes the socket non-blocking and registers it; its outcome is a function of the socket.\<close>

fun first_of :: "('a \<Rightarrow> 's io_result) \<Rightarrow> ('s \<Rightarrow> 't io_result) \<Rightarrow> 'a list \<Rightarrow> io_error option \<Rightarrow> 't io_result" where
  "first_of attempt from_std [] last_error = Inl (case last_error of Some e \<Rightarrow> e | None \<Rightarrow> no_addresses)"
| "first_of attempt from_std (address # addresses) last_error = (case attempt address of
     Inr stream \<Rightarrow> from_std stream
   | Inl error \<Rightarrow> first_of attempt from_std addresses (Some error))"

definition tcp_connect :: "'a list io_result \<Rightarrow> ('a \<Rightarrow> 's io_result) \<Rightarrow> ('s \<Rightarrow> 't io_result) \<Rightarrow> 't io_result" where
  "tcp_connect resolved connect_addr from_std = (case resolved of Inl e \<Rightarrow> Inl e | Inr addresses \<Rightarrow> first_of connect_addr from_std addresses None)"

definition tcp_bind :: "'a list io_result \<Rightarrow> ('a \<Rightarrow> 's io_result) \<Rightarrow> ('s \<Rightarrow> 't io_result) \<Rightarrow> 't io_result" where
  "tcp_bind resolved bind_addr from_std = (case resolved of Inl e \<Rightarrow> Inl e | Inr addresses \<Rightarrow> first_of bind_addr from_std addresses None)"

text \<open>\<open>resolve\<close> looks the names up on a task of the pool; the lookups are parameters.\<close>

datatype 'a address_query = QueryReady "'a list" | QueryHost string | QueryHostPort string nat

definition resolve_query :: "(string \<Rightarrow> 'a list io_result) \<Rightarrow> (string \<Rightarrow> nat \<Rightarrow> 'a list io_result) \<Rightarrow> 'a address_query \<Rightarrow> 'a list io_result" where
  "resolve_query lookup lookup_port query = (case query of
     QueryReady addresses \<Rightarrow> Inr addresses
   | QueryHost host \<Rightarrow> lookup host
   | QueryHostPort host port \<Rightarrow> lookup_port host port)"

definition resolve :: "string + 'a list io_result \<Rightarrow> 'a list io_result" where
  "resolve task = (case task of Inr result \<Rightarrow> result | Inl error \<Rightarrow> Inl (OtherError error))"

definition udp_target :: "'a list io_result \<Rightarrow> 'a io_result" where
  "udp_target resolved = (case resolved of Inl e \<Rightarrow> Inl e | Inr [] \<Rightarrow> Inl no_addresses | Inr (address # _) \<Rightarrow> Inr address)"

text \<open>
  A connection that is in progress is waited for; then the pending error of the socket decides. \<open>connect_addr\<close> up to the wait, and after
  it; \<open>err\<close> is the error of \<open>connect\<close>, with its number.
\<close>

datatype 's connecting = Connected 's | InProgress 's

definition EINPROGRESS :: int where "EINPROGRESS = 115"
definition EALREADY :: int where "EALREADY = 114"

definition connect_addr_start :: "io_error + 's \<Rightarrow> (io_error \<times> int) option \<Rightarrow> 's connecting io_result" where
  "connect_addr_start socket connect = (case socket of
     Inl e \<Rightarrow> Inl e
   | Inr stream \<Rightarrow> (case connect of
       None \<Rightarrow> Inr (Connected stream)
     | Some (error, errno) \<Rightarrow>
         if \<not> (errno = EINPROGRESS \<or> errno = EALREADY) \<and> error \<noteq> WouldBlock then Inl error else Inr (InProgress stream)))"

definition connect_addr_finish :: "'s \<Rightarrow> io_error option io_result \<Rightarrow> 's io_result" where
  "connect_addr_finish stream take_error = (case take_error of
     Inl e \<Rightarrow> Inl e
   | Inr (Some error) \<Rightarrow> Inl error
   | Inr None \<Rightarrow> Inr stream)"

definition try_accept :: "('io \<Rightarrow> 'io \<times> ('s \<times> 'a) io_result) \<Rightarrow> ('s \<Rightarrow> 't io_result) \<Rightarrow> 'io \<Rightarrow> 'io \<times> ('t \<times> 'a) io_result" where
  "try_accept sys_accept from_std io = (case sys_accept io of
     (io, Inl e) \<Rightarrow> (io, Inl e)
   | (io, Inr (stream, address)) \<Rightarrow> (io, case from_std stream of Inl e \<Rightarrow> Inl e | Inr stream \<Rightarrow> Inr (stream, address)))"

definition poll_accept ::
  "nat \<Rightarrow> ('io \<Rightarrow> 'io \<times> ('s \<times> 'a) io_result) \<Rightarrow> ('s \<Rightarrow> 't io_result) \<Rightarrow> 'io async_fd \<Rightarrow> waker \<Rightarrow> bool \<Rightarrow> bool \<Rightarrow> ('io, 't \<times> 'a) net_poll" where
  "poll_accept fuel sys_accept from_std inner cx del_ok add_ok = poll_io fuel (try_accept sys_accept from_std) inner cx EPOLLIN del_ok add_ok"

section \<open>Datagrams\<close>

type_synonym ('io, 'a) sys_recv_from = "'io \<Rightarrow> nat \<Rightarrow> 'io \<times> (byte list \<times> 'a) io_result"

definition poll_recv_from :: "nat \<Rightarrow> ('io, 'a) sys_recv_from \<Rightarrow> 'io async_fd \<Rightarrow> waker \<Rightarrow> nat \<Rightarrow> bool \<Rightarrow> bool \<Rightarrow> ('io, byte list \<times> 'a) net_poll" where
  "poll_recv_from fuel sys_recv_from inner cx len del_ok add_ok = poll_io fuel (\<lambda>io. sys_recv_from io len) inner cx EPOLLIN del_ok add_ok"

definition poll_send_to ::
  "nat \<Rightarrow> ('io \<Rightarrow> byte list \<Rightarrow> 'a \<Rightarrow> 'io \<times> nat io_result) \<Rightarrow> 'io async_fd \<Rightarrow> waker \<Rightarrow> byte list \<Rightarrow> 'a \<Rightarrow> bool \<Rightarrow> bool \<Rightarrow> ('io, nat) net_poll" where
  "poll_send_to fuel sys_send_to inner cx buf addr del_ok add_ok = poll_io fuel (\<lambda>io. sys_send_to io buf addr) inner cx EPOLLOUT del_ok add_ok"

definition poll_recv_slice :: "nat \<Rightarrow> 'io sys_read \<Rightarrow> 'io async_fd \<Rightarrow> waker \<Rightarrow> nat \<Rightarrow> bool \<Rightarrow> bool \<Rightarrow> ('io, byte list) net_poll" where
  "poll_recv_slice fuel sys_recv inner cx len del_ok add_ok = poll_io fuel (\<lambda>io. sys_recv io len) inner cx EPOLLIN del_ok add_ok"

definition poll_send :: "nat \<Rightarrow> 'io sys_write \<Rightarrow> 'io async_fd \<Rightarrow> waker \<Rightarrow> byte list \<Rightarrow> bool \<Rightarrow> bool \<Rightarrow> ('io, nat) net_poll" where
  "poll_send fuel sys_send inner cx buf del_ok add_ok = poll_io fuel (\<lambda>io. sys_send io buf) inner cx EPOLLOUT del_ok add_ok"

definition poll_recv ::
  "nat \<Rightarrow> 'io sys_read \<Rightarrow> 'io async_fd \<Rightarrow> waker \<Rightarrow> read_buf \<Rightarrow> bool \<Rightarrow> bool \<Rightarrow> ('io async_fd \<times> read_buf \<times> unit io_result poll) panicky option" where
  "poll_recv fuel sys_recv inner cx buf del_ok add_ok = (case initialize_unfilled buf of
     Inl e \<Rightarrow> Some (Inl e)
   | Inr buf \<Rightarrow> (case poll_recv_slice fuel sys_recv inner cx (rb_remaining buf) del_ok add_ok of
       None \<Rightarrow> None
     | Some (Inl e) \<Rightarrow> Some (Inl e)
     | Some (Inr (inner, Ready (Inr bytes))) \<Rightarrow> (case fill_unfilled buf bytes of
         Inl e \<Rightarrow> Some (Inl e)
       | Inr buf \<Rightarrow> Some (Inr (inner, buf, Ready (Inr ()))))
     | Some (Inr (inner, Ready (Inl e))) \<Rightarrow> Some (Inr (inner, buf, Ready (Inl e)))
     | Some (Inr (inner, Pending)) \<Rightarrow> Some (Inr (inner, buf, Pending))))"

definition udp_poll_peek ::
  "nat \<Rightarrow> 'io sys_read \<Rightarrow> 'io async_fd \<Rightarrow> waker \<Rightarrow> read_buf \<Rightarrow> bool \<Rightarrow> bool \<Rightarrow> ('io async_fd \<times> read_buf \<times> unit io_result poll) panicky option" where
  "udp_poll_peek fuel sys_peek inner cx buf del_ok add_ok = poll_recv fuel sys_peek inner cx buf del_ok add_ok"

definition poll_peek_sender :: "nat \<Rightarrow> ('io, 'a) sys_recv_from \<Rightarrow> 'io async_fd \<Rightarrow> waker \<Rightarrow> bool \<Rightarrow> bool \<Rightarrow> ('io, 'a) net_poll" where
  "poll_peek_sender fuel sys_peek_from inner cx del_ok add_ok =
     poll_io fuel (\<lambda>io. let (io, result) = sys_peek_from io 0 in (io, map_sum (\<lambda>e. e) snd result)) inner cx EPOLLIN del_ok add_ok"

definition poll_peek_from ::
  "nat \<Rightarrow> ('io, 'a) sys_recv_from \<Rightarrow> 'io async_fd \<Rightarrow> waker \<Rightarrow> read_buf \<Rightarrow> bool \<Rightarrow> bool \<Rightarrow> ('io async_fd \<times> read_buf \<times> 'a io_result poll) panicky option" where
  "poll_peek_from fuel sys_peek_from inner cx buf del_ok add_ok = (case initialize_unfilled buf of
     Inl e \<Rightarrow> Some (Inl e)
   | Inr buf \<Rightarrow> (case poll_io fuel (\<lambda>io. sys_peek_from io (rb_remaining buf)) inner cx EPOLLIN del_ok add_ok of
       None \<Rightarrow> None
     | Some (Inl e) \<Rightarrow> Some (Inl e)
     | Some (Inr (inner, Ready (Inr (bytes, address)))) \<Rightarrow> (case fill_unfilled buf bytes of
         Inl e \<Rightarrow> Some (Inl e)
       | Inr buf \<Rightarrow> Some (Inr (inner, buf, Ready (Inr address))))
     | Some (Inr (inner, Ready (Inl e))) \<Rightarrow> Some (Inr (inner, buf, Ready (Inl e)))
     | Some (Inr (inner, Pending)) \<Rightarrow> Some (Inr (inner, buf, Pending))))"

section \<open>Options\<close>

definition set_socket_int :: "nat \<Rightarrow> bool \<Rightarrow> unit io_result" where
  "set_socket_int v os_ok =
     (if 2 ^ 31 \<le> v then Inl (InvalidInput ''socket value is too large'')
      else if os_ok then Inr () else Inl (OtherError ''last os error''))"

definition IFNAMSIZ :: nat where "IFNAMSIZ = 16"

definition bind_socket_device :: "byte list option \<Rightarrow> bool \<Rightarrow> byte list io_result" where
  "bind_socket_device interface os_ok =
     (let interface = (case interface of None \<Rightarrow> [] | Some name \<Rightarrow> name) in
      if 0 \<in> set interface \<or> IFNAMSIZ \<le> length interface then Inl (InvalidInput ''invalid network interface name'')
      else (let interface = (if interface \<noteq> [] then interface @ [0] else interface) in
            if os_ok then Inr interface else Inl (OtherError ''last os error'')))"

definition socket_device :: "byte list io_result \<Rightarrow> byte list option io_result" where
  "socket_device device = (case device of
     Inl e \<Rightarrow> Inl e
   | Inr device \<Rightarrow>
       (let device = (if device \<noteq> [] \<and> last device = 0 then butlast device else device)
        in Inr (if device \<noteq> [] then Some device else None)))"

definition socket_addr :: "nat \<Rightarrow> byte list \<Rightarrow> (byte list \<times> nat) io_result" where
  "socket_addr sun_path_len bytes =
     (if 0 \<in> set bytes then Inl (InvalidInput ''Unix socket path contains a NUL byte'')
      else if sun_path_len \<le> length bytes then Inl (InvalidInput ''Unix socket path is too long'')
      else Inr (bytes @ replicate (sun_path_len - length bytes) 0, 2 + length bytes + 1))"

section \<open>Immediate attempts\<close>

definition tcp_try_read :: "'io sys_read \<Rightarrow> 'io async_fd \<Rightarrow> nat \<Rightarrow> ('io async_fd \<times> byte list io_result) panicky" where
  "tcp_try_read sys_read inner len = (case async_fd_get_ref inner of
     Inl e \<Rightarrow> Inl e
   | Inr io \<Rightarrow> (let (io, result) = sys_read io len in Inr (inner\<lparr>afd_io := Some io\<rparr>, result)))"

definition tcp_try_write :: "'io sys_write \<Rightarrow> 'io async_fd \<Rightarrow> byte list \<Rightarrow> ('io async_fd \<times> nat io_result) panicky" where
  "tcp_try_write sys_write inner buf = (case async_fd_get_ref inner of
     Inl e \<Rightarrow> Inl e
   | Inr io \<Rightarrow> (let (io, result) = sys_write io buf in Inr (inner\<lparr>afd_io := Some io\<rparr>, result)))"

text \<open>The guard that \<open>readable\<close> gets is dropped, which clears nothing.\<close>

definition tcp_readable_poll :: "'io async_fd \<Rightarrow> waker \<Rightarrow> 'io async_fd \<times> unit io_result poll" where
  "tcp_readable_poll inner cx = (case poll_ready_interest inner cx EPOLLIN of (inner, res) \<Rightarrow> (inner, map_poll (map_sum (\<lambda>e. e) (\<lambda>_. ())) res))"

section \<open>Unix sockets and pipes\<close>

definition unix_poll_read_slice :: "nat \<Rightarrow> 'io sys_read \<Rightarrow> 'io async_fd \<Rightarrow> waker \<Rightarrow> nat \<Rightarrow> bool \<Rightarrow> bool \<Rightarrow> ('io, byte list) net_poll" where
  "unix_poll_read_slice fuel sys_read inner cx len del_ok add_ok = poll_stream_io fuel (\<lambda>io. sys_read io len) inner cx EPOLLIN del_ok add_ok"

definition unix_poll_write_slice :: "nat \<Rightarrow> 'io sys_write \<Rightarrow> 'io async_fd \<Rightarrow> waker \<Rightarrow> byte list \<Rightarrow> bool \<Rightarrow> bool \<Rightarrow> ('io, nat) net_poll" where
  "unix_poll_write_slice fuel sys_write inner cx buf del_ok add_ok = poll_stream_io fuel (\<lambda>io. sys_write io buf) inner cx EPOLLOUT del_ok add_ok"

definition unix_poll_read ::
  "nat \<Rightarrow> 'io sys_read \<Rightarrow> 'io async_fd \<Rightarrow> waker \<Rightarrow> read_buf \<Rightarrow> bool \<Rightarrow> bool \<Rightarrow> ('io async_fd \<times> read_buf \<times> unit io_result poll) panicky option" where
  "unix_poll_read fuel sys_read inner cx buf del_ok add_ok = (case initialize_unfilled buf of
     Inl e \<Rightarrow> Some (Inl e)
   | Inr buf \<Rightarrow> (case unix_poll_read_slice fuel sys_read inner cx (rb_remaining buf) del_ok add_ok of
       None \<Rightarrow> None
     | Some (Inl e) \<Rightarrow> Some (Inl e)
     | Some (Inr (inner, Ready (Inr bytes))) \<Rightarrow> (case fill_unfilled buf bytes of
         Inl e \<Rightarrow> Some (Inl e)
       | Inr buf \<Rightarrow> Some (Inr (inner, buf, Ready (Inr ()))))
     | Some (Inr (inner, Ready (Inl e))) \<Rightarrow> Some (Inr (inner, buf, Ready (Inl e)))
     | Some (Inr (inner, Pending)) \<Rightarrow> Some (Inr (inner, buf, Pending))))"

definition unix_poll_accept ::
  "nat \<Rightarrow> ('io \<Rightarrow> 'io \<times> ('s \<times> 'a) io_result) \<Rightarrow> ('s \<Rightarrow> 't io_result) \<Rightarrow> 'io async_fd \<Rightarrow> waker \<Rightarrow> bool \<Rightarrow> bool \<Rightarrow> ('io, 't \<times> 'a) net_poll" where
  "unix_poll_accept fuel sys_accept from_std inner cx del_ok add_ok = (case poll_io fuel sys_accept inner cx EPOLLIN del_ok add_ok of
     None \<Rightarrow> None
   | Some (Inl e) \<Rightarrow> Some (Inl e)
   | Some (Inr (inner, Ready (Inr (stream, address)))) \<Rightarrow>
       Some (Inr (inner, Ready (case from_std stream of Inl e \<Rightarrow> Inl e | Inr stream \<Rightarrow> Inr (stream, address))))
   | Some (Inr (inner, Ready (Inl e))) \<Rightarrow> Some (Inr (inner, Ready (Inl e)))
   | Some (Inr (inner, Pending)) \<Rightarrow> Some (Inr (inner, Pending)))"

definition unix_reunite :: "owned_read_half \<Rightarrow> owned_write_half \<Rightarrow> nat list \<times> ((owned_read_half \<times> owned_write_half) + tcp_stream)" where
  "unix_reunite r w =
     (if owh_inner w = Some (orh_inner r) then (write_half_drop (w\<lparr>owh_inner := None\<rparr>), Inr \<lparr>ts_inner = orh_inner r\<rparr>)
      else ([], Inl (r, w)))"

definition connect_fd_start :: "('a \<times> nat) io_result \<Rightarrow> (io_error \<times> int) option \<Rightarrow> 's \<Rightarrow> ('s \<Rightarrow> 't io_result) \<Rightarrow> 't connecting io_result" where
  "connect_fd_start address connect stream from_std = (case address of
     Inl e \<Rightarrow> Inl e
   | Inr _ \<Rightarrow> (case connect of
       None \<Rightarrow> (case from_std stream of Inl e \<Rightarrow> Inl e | Inr t \<Rightarrow> Inr (Connected t))
     | Some (error, errno) \<Rightarrow>
         if \<not> (errno = EINPROGRESS \<or> errno = EALREADY) \<and> error \<noteq> WouldBlock then Inl error
         else (case from_std stream of Inl e \<Rightarrow> Inl e | Inr t \<Rightarrow> Inr (InProgress t))))"

definition poll_datagram_io :: "nat \<Rightarrow> ('io \<Rightarrow> 'io \<times> 'r io_result) \<Rightarrow> 'io async_fd \<Rightarrow> waker \<Rightarrow> interest \<Rightarrow> bool \<Rightarrow> bool \<Rightarrow> ('io, 'r) net_poll" where
  "poll_datagram_io = poll_io"

definition unix_poll_send :: "nat \<Rightarrow> 'io sys_write \<Rightarrow> 'io async_fd \<Rightarrow> waker \<Rightarrow> byte list \<Rightarrow> bool \<Rightarrow> bool \<Rightarrow> ('io, nat) net_poll" where
  "unix_poll_send fuel sys_send inner cx buf del_ok add_ok = poll_datagram_io fuel (\<lambda>io. sys_send io buf) inner cx EPOLLOUT del_ok add_ok"

definition unix_poll_recv ::
  "nat \<Rightarrow> 'io sys_read \<Rightarrow> 'io async_fd \<Rightarrow> waker \<Rightarrow> read_buf \<Rightarrow> bool \<Rightarrow> bool \<Rightarrow> ('io async_fd \<times> read_buf \<times> unit io_result poll) panicky option" where
  "unix_poll_recv fuel sys_recv inner cx buf del_ok add_ok = (case initialize_unfilled buf of
     Inl e \<Rightarrow> Some (Inl e)
   | Inr buf \<Rightarrow> (case poll_datagram_io fuel (\<lambda>io. sys_recv io (rb_remaining buf)) inner cx EPOLLIN del_ok add_ok of
       None \<Rightarrow> None
     | Some (Inl e) \<Rightarrow> Some (Inl e)
     | Some (Inr (inner, Ready (Inr bytes))) \<Rightarrow> (case fill_unfilled buf bytes of
         Inl e \<Rightarrow> Some (Inl e)
       | Inr buf \<Rightarrow> Some (Inr (inner, buf, Ready (Inr ()))))
     | Some (Inr (inner, Ready (Inl e))) \<Rightarrow> Some (Inr (inner, buf, Ready (Inl e)))
     | Some (Inr (inner, Pending)) \<Rightarrow> Some (Inr (inner, buf, Pending))))"

text \<open>Opening the end of a named pipe: what is asked of the operating system, and whether the file is accepted.\<close>

record pipe_open_options =
  po_read_write :: bool
  po_unchecked :: bool

definition pipe_open :: "pipe_open_options \<Rightarrow> bool \<Rightarrow> (bool \<Rightarrow> bool \<Rightarrow> 'fd io_result) \<Rightarrow> ('fd \<Rightarrow> bool io_result) \<Rightarrow> 'fd io_result" where
  "pipe_open opts sender os_open is_pipe =
     (case os_open (\<not> sender \<or> po_read_write opts) (sender \<or> po_read_write opts) of
        Inl e \<Rightarrow> Inl e
      | Inr fd \<Rightarrow>
          if po_unchecked opts then Inr fd
          else (case is_pipe fd of
            Inl e \<Rightarrow> Inl e
          | Inr True \<Rightarrow> Inr fd
          | Inr False \<Rightarrow> Inl (InvalidInput ''not a pipe'')))"

text \<open>The access mask depends on the C library, so it is a parameter.\<close>

definition O_RDONLY :: int where "O_RDONLY = 0"
definition O_WRONLY :: int where "O_WRONLY = 1"
definition O_RDWR :: int where "O_RDWR = 2"

definition checked_file :: "int \<Rightarrow> bool io_result \<Rightarrow> int io_result \<Rightarrow> bool \<Rightarrow> unit io_result \<Rightarrow> unit io_result" where
  "checked_file O_ACCMODE is_pipe file_flags write nonblocking = (case is_pipe of
     Inl e \<Rightarrow> Inl e
   | Inr False \<Rightarrow> Inl (InvalidInput ''not a pipe'')
   | Inr True \<Rightarrow> (case file_flags of
       Inl e \<Rightarrow> Inl e
     | Inr flags \<Rightarrow>
         (let access = flags AND O_ACCMODE;
              valid = (if write then access = O_WRONLY \<or> access = O_RDWR else access = O_RDONLY \<or> access = O_RDWR) in
          if \<not> valid then Inl (InvalidInput (if write then ''pipe is not open for writing'' else ''pipe is not open for reading''))
          else nonblocking)))"

definition pipe_try_write :: "'io sys_write \<Rightarrow> 'io async_fd \<Rightarrow> byte list \<Rightarrow> bool \<Rightarrow> bool \<Rightarrow> ('io async_fd \<times> nat io_result \<times> waker list) panicky" where
  "pipe_try_write sys_write inner buf del_ok add_ok = async_fd_try_io (\<lambda>io. sys_write io buf) inner EPOLLOUT del_ok add_ok"

definition pipe_try_read :: "'io sys_read \<Rightarrow> 'io async_fd \<Rightarrow> nat \<Rightarrow> bool \<Rightarrow> bool \<Rightarrow> ('io async_fd \<times> byte list io_result \<times> waker list) panicky" where
  "pipe_try_read sys_read inner len del_ok add_ok = async_fd_try_io (\<lambda>io. sys_read io len) inner EPOLLIN del_ok add_ok"

definition fifo_poll_write :: "nat \<Rightarrow> 'io sys_write \<Rightarrow> 'io async_fd \<Rightarrow> waker \<Rightarrow> byte list \<Rightarrow> bool \<Rightarrow> bool \<Rightarrow> ('io, nat) net_poll" where
  "fifo_poll_write fuel sys_write inner cx buf del_ok add_ok = poll_io fuel (\<lambda>io. sys_write io buf) inner cx EPOLLOUT del_ok add_ok"

definition fifo_poll_read ::
  "nat \<Rightarrow> 'io sys_read \<Rightarrow> 'io async_fd \<Rightarrow> waker \<Rightarrow> read_buf \<Rightarrow> bool \<Rightarrow> bool \<Rightarrow> ('io async_fd \<times> read_buf \<times> unit io_result poll) panicky option" where
  "fifo_poll_read fuel sys_read inner cx buf del_ok add_ok = (case initialize_unfilled buf of
     Inl e \<Rightarrow> Some (Inl e)
   | Inr buf \<Rightarrow> (case poll_io fuel (\<lambda>io. sys_read io (rb_remaining buf)) inner cx EPOLLIN del_ok add_ok of
       None \<Rightarrow> None
     | Some (Inl e) \<Rightarrow> Some (Inl e)
     | Some (Inr (inner, Ready (Inr bytes))) \<Rightarrow> (case fill_unfilled buf bytes of
         Inl e \<Rightarrow> Some (Inl e)
       | Inr buf \<Rightarrow> Some (Inr (inner, buf, Ready (Inr ()))))
     | Some (Inr (inner, Ready (Inl e))) \<Rightarrow> Some (Inr (inner, buf, Ready (Inl e)))
     | Some (Inr (inner, Pending)) \<Rightarrow> Some (Inr (inner, buf, Pending))))"

section \<open>Waiting\<close>

definition fd_for :: "interest \<Rightarrow> 'io async_fd \<Rightarrow> bool" where
  "fd_for m inner \<longleftrightarrow> io_registered (afd_state inner) \<and> io_interest (afd_state inner) = m \<and>
     io_events (afd_state inner) = desired_events (afd_state inner) \<and> afd_io inner \<noteq> None"

text \<open>A task that waits is in the list of its direction, the direction is not ready, and the descriptor is monitored for it.\<close>

definition waits_for :: "scheduled_io \<Rightarrow> waker \<Rightarrow> interest \<Rightarrow> bool" where
  "waits_for st cx d \<longleftrightarrow> io_ready st AND (d OR ERROR_EVENTS) = 0 \<and> io_events st AND d = d \<and>
     (if d = EPOLLIN then cx \<in> set (io_readers st) else cx \<in> set (io_writers st))"

lemma fd_for_io: "fd_for m inner \<Longrightarrow> fd_for m (inner\<lparr>afd_io := Some io\<rparr>)"
  by (simp add: fd_for_def)

lemma wait_ready:
  assumes "fd_for m inner" "d \<in> {EPOLLIN, EPOLLOUT}" "d AND m = d" "io_ready (afd_state inner) AND (d OR ERROR_EVENTS) = 0"
  shows "\<exists>inner'. poll_ready_interest inner cx d = (inner', Pending) \<and> fd_for m inner' \<and> afd_io inner' = afd_io inner \<and> waits_for (afd_state inner') cx d"
proof -
  have "desired_events (afd_state inner) AND d = d"
    using assms by (intro desired_covers) (simp_all add: fd_for_def)
  moreover have "EPOLLIN \<noteq> EPOLLOUT" by (simp add: epoll_defs)
  moreover have "interest_is_readable EPOLLIN" "\<not> interest_is_writable EPOLLIN" "\<not> interest_is_readable EPOLLOUT" "interest_is_writable EPOLLOUT"
    "\<not> interest_is_priority EPOLLOUT" "\<not> interest_is_error EPOLLOUT" by (simp_all add: interest_tests epoll_defs)
  ultimately show ?thesis using assms
    by (auto simp: poll_ready_interest_def io_poll_ready_def Let_def fd_for_def waits_for_def io_ready_def desired_events_def)
qed

lemma clear_then_wait:
  assumes "fd_for m inner" "io_ready (afd_state inner) AND (d OR ERROR_EVENTS) \<noteq> 0"
  shows "\<exists>g inner' g' ops ws. poll_ready_interest inner cx d = (inner, Ready (Inr g)) \<and> guard_clear_ready inner g True True = (inner', g', ops, ws) \<and>
    fd_for m inner' \<and> afd_io inner' = afd_io inner \<and> io_ready (afd_state inner') AND (d OR ERROR_EVENTS) = 0"
proof -
  define st r g where "st = afd_state inner" and "r = io_ready st AND (d OR ERROR_EVENTS)" and "g = io_generation st"
  have p: "io_poll_ready st cx d = (st, Ready (Inr (r, g)))" using assms(2) by (simp add: io_poll_ready_def st_def r_def g_def)
  have reg: "io_registered st" using assms(1) by (simp add: fd_for_def st_def)
  from clear_observed [OF p reg] obtain st' ops where
    st': "io_clear_ready st r g True True = (st', ops, [])" "io_registered st'" "io_ready st' AND (d OR ERROR_EVENTS) = 0" by blast
  obtain ops' failed where "finish_update (st\<lparr>io_readiness := pack_readiness g (io_ready st AND NOT r)\<rparr>) True True = (st', ops', failed)"
    using st'(1) reg
    by (auto simp: io_clear_ready_def clear_store_def g_def [symmetric] finish_update_def update_interest_def Let_def split: if_splits prod.splits)
  note same = finish_update_same(4,7) [OF this]
  have "poll_ready_interest inner cx d = (inner, Ready (Inr \<lparr>rg_ready = r, rg_generation = g, rg_cleared = False\<rparr>))"
    using p by (simp add: poll_ready_interest_def st_def)
  moreover have "guard_clear_ready inner \<lparr>rg_ready = r, rg_generation = g, rg_cleared = False\<rparr> True True =
      (inner\<lparr>afd_state := st'\<rparr>, \<lparr>rg_ready = r, rg_generation = g, rg_cleared = True\<rparr>, ops, [])"
    using st'(1) by (simp add: guard_clear_ready_def st_def)
  moreover have "fd_for m (inner\<lparr>afd_state := st'\<rparr>)" using assms(1) same st'(2) by (simp add: fd_for_def st_def)
  ultimately show ?thesis using st'(3) by auto
qed

text \<open>
  The rule for the loop: with a working \<open>epoll_ctl\<close> it ends within two rounds, either with a result of the operation that is not
  \<open>WouldBlock\<close>, or waiting. \<open>P\<close> holds of the socket as long as the operation would block.
\<close>

lemma poll_io_rule:
  assumes fd: "fd_for m inner" and d: "d = (if interest_is_readable i then EPOLLIN else EPOLLOUT)" "d AND m = d" and P: "P (the (afd_io inner))"
    and blocks: "\<And>io io'. P io \<Longrightarrow> operation io = (io', Inl WouldBlock) \<Longrightarrow> P io'"
    and works: "\<And>io io' r. P io \<Longrightarrow> operation io = (io', r) \<Longrightarrow> r \<noteq> Inl WouldBlock \<Longrightarrow> Q io' r"
  shows "\<exists>inner' res. poll_io (Suc (Suc fuel)) operation inner cx i True True = Some (Inr (inner', res)) \<and> fd_for m inner' \<and>
    (res = Pending \<and> P (the (afd_io inner')) \<and> waits_for (afd_state inner') cx d \<or> (\<exists>r. res = Ready r \<and> Q (the (afd_io inner')) r))"
proof -
  have dd: "d \<in> {EPOLLIN, EPOLLOUT}" using d(1) by simp
  obtain io where io: "afd_io inner = Some io" using fd by (auto simp: fd_for_def)
  have stop: "\<exists>inner' res. poll_io (Suc n) operation e cx i True True = Some (Inr (inner', res)) \<and> fd_for m inner' \<and>
    (res = Pending \<and> P (the (afd_io inner')) \<and> waits_for (afd_state inner') cx d \<or> (\<exists>r. res = Ready r \<and> Q (the (afd_io inner')) r))"
    if e: "fd_for m e" "afd_io e = Some io0" "P io0" "snd (operation io0) \<noteq> Inl WouldBlock \<or> io_ready (afd_state e) AND (d OR ERROR_EVENTS) = 0" for e io0 n
  proof (cases "snd (operation io0) = Inl WouldBlock")
    case True
    then obtain io1 where o: "operation io0 = (io1, Inl WouldBlock)" by (cases "operation io0") auto
    from wait_ready [OF fd_for_io [OF e(1), of io1] dd d(2), of cx] e(4) True obtain inner' where
      "poll_ready_interest (e\<lparr>afd_io := Some io1\<rparr>) cx d = (inner', Pending)" "fd_for m inner'" "afd_io inner' = Some io1" "waits_for (afd_state inner') cx d"
      by auto
    then show ?thesis using e(2) o blocks [OF e(3) o] by (simp add: async_fd_get_ref_def d(1) [symmetric])
  next
    case False
    then obtain io1 r where o: "operation io0 = (io1, r)" "r \<noteq> Inl WouldBlock" by (cases "operation io0") auto
    then have "poll_io (Suc n) operation e cx i True True = Some (Inr (e\<lparr>afd_io := Some io1\<rparr>, Ready r))"
      using e(2) by (auto simp: async_fd_get_ref_def split: sum.split io_error.split)
    then show ?thesis using works [OF e(3) o] fd_for_io [OF e(1)] by simp
  qed
  show ?thesis
  proof (cases "snd (operation io) \<noteq> Inl WouldBlock \<or> io_ready (afd_state inner) AND (d OR ERROR_EVENTS) = 0")
    case True
    then show ?thesis using stop [OF fd io] P io by simp
  next
    case False
    then obtain io1 where o: "operation io = (io1, Inl WouldBlock)" by (cases "operation io") auto
    from clear_then_wait [OF fd_for_io [OF fd, of io1], of d cx] False obtain g e g' ops ws where
      "poll_ready_interest (inner\<lparr>afd_io := Some io1\<rparr>) cx d = (inner\<lparr>afd_io := Some io1\<rparr>, Ready (Inr g))"
      "guard_clear_ready (inner\<lparr>afd_io := Some io1\<rparr>) g True True = (e, g', ops, ws)"
      and e: "fd_for m e" "afd_io e = Some io1" "io_ready (afd_state e) AND (d OR ERROR_EVENTS) = 0" by auto
    then have "poll_io (Suc (Suc fuel)) operation inner cx i True True = poll_io (Suc fuel) operation e cx i True True"
      using io o by (subst poll_io.simps) (simp add: async_fd_get_ref_def d(1) [symmetric])
    then show ?thesis using stop [OF e(1,2), of fuel] blocks [OF _ o] P io e(3) by simp
  qed
qed

declare poll_io.simps [simp del]

section \<open>Streams are readers and writers\<close>

text \<open>Streams are registered for both directions.\<close>

abbreviation fd_ok :: "'io async_fd \<Rightarrow> bool" where
  "fd_ok \<equiv> fd_for (EPOLLIN OR EPOLLOUT)"

lemma direction_covered: "d \<in> {EPOLLIN, EPOLLOUT} \<Longrightarrow> d AND (EPOLLIN OR EPOLLOUT) = d"
  by (auto simp: epoll_defs)

text \<open>What the calls on a connected socket promise: bytes arrive and leave in order, a read of nothing is the end.\<close>

definition socket_ok :: "'io sys_read \<Rightarrow> 'io sys_write \<Rightarrow> ('io \<Rightarrow> byte list) \<Rightarrow> ('io \<Rightarrow> byte list) \<Rightarrow> bool" where
  "socket_ok sys_read sys_write incoming outgoing \<longleftrightarrow>
     (\<forall>io n io' r. sys_read io n = (io', r) \<longrightarrow> (case r of
        Inl _ \<Rightarrow> incoming io' = incoming io
      | Inr bytes \<Rightarrow> length bytes \<le> n \<and> incoming io = bytes @ incoming io' \<and> (bytes = [] \<and> 0 < n \<longrightarrow> incoming io = []))) \<and>
     (\<forall>io buf io' r. sys_write io buf = (io', r) \<longrightarrow> (case r of
        Inl _ \<Rightarrow> outgoing io' = outgoing io
      | Inr n \<Rightarrow> n \<le> length buf \<and> outgoing io' = outgoing io @ take n buf))"

lemma socket_readD:
  assumes "socket_ok sys_read sys_write incoming outgoing" "sys_read io n = (io', r)"
  shows "case r of Inl _ \<Rightarrow> incoming io' = incoming io
    | Inr bytes \<Rightarrow> length bytes \<le> n \<and> incoming io = bytes @ incoming io' \<and> (bytes = [] \<and> 0 < n \<longrightarrow> incoming io = [])"
  using assms unfolding socket_ok_def by blast

lemma socket_writeD:
  assumes "socket_ok sys_read sys_write incoming outgoing" "sys_write io buf = (io', r)"
  shows "case r of Inl _ \<Rightarrow> outgoing io' = outgoing io | Inr n \<Rightarrow> n \<le> length buf \<and> outgoing io' = outgoing io @ take n buf"
  using assms unfolding socket_ok_def by blast

lemma fill_unfilled_ok:
  assumes "rb_ok b" "length bytes \<le> rb_remaining b" "rb_initialized b = rb_capacity b"
  shows "\<exists>b'. fill_unfilled b bytes = Inr b' \<and> rb_ok b' \<and> rb_capacity b' = rb_capacity b \<and> rb_initialized b' = rb_initialized b \<and>
    rb_filled_bytes b' = rb_filled_bytes b @ bytes"
proof -
  let ?buf = "overwrite (rb_buf b) (rb_filled b) (map Some bytes)"
  have le: "rb_filled b + length bytes \<le> length (rb_buf b)" using assms by (auto simp: rb_ok_def rb_remaining_def)
  have init: "?buf ! i \<noteq> None" if "i < length (rb_buf b)" for i
    using that le assms(1,3) by (auto simp: nth_overwrite rb_ok_def rb_capacity_def)
  have filled: "take (rb_filled b + length bytes) ?buf = take (rb_filled b) (rb_buf b) @ map Some bytes"
    using take_overwrite [of "rb_filled b" "map Some bytes" "rb_buf b"] le by simp
  have room: "rb_filled b + length bytes \<le> usize_max" "rb_filled b + length bytes \<le> rb_initialized b"
    using le assms(1,3) by (auto simp: rb_ok_def rb_capacity_def)
  have len: "length ?buf = length (rb_buf b)" using le by simp
  show ?thesis
    using assms(1) room init len filled
    by (auto simp: fill_unfilled_def advance_def usize_checked_add_def set_filled_def rb_ok_def rb_capacity_def rb_filled_bytes_def o_def)
qed

lemma readable_tests: "interest_is_readable EPOLLIN" "\<not> interest_is_readable EPOLLOUT"
  by (simp_all add: interest_tests epoll_defs)

lemma tcp_read_ok:
  assumes "socket_ok sys_read sys_write incoming outgoing" "fd_for m inner" "rb_ok b" "0 < rb_remaining b" "EPOLLIN AND m = EPOLLIN"
  shows "\<exists>inner' b' res. tcp_poll_read (Suc (Suc fuel)) sys_read inner cx b True True = Some (Inr (inner', b', res)) \<and> fd_for m inner' \<and>
    read_result (incoming (the (afd_io inner))) b b' res (incoming (the (afd_io inner'))) \<and> (res = Pending \<longrightarrow> waits_for (afd_state inner') cx EPOLLIN)"
proof -
  obtain b1 where b1: "initialize_unfilled b = Inr b1" "rb_ok b1" "rb_capacity b1 = rb_capacity b" "rb_filled b1 = rb_filled b"
    "rb_filled_bytes b1 = rb_filled_bytes b" "rb_initialized b1 = max (rb_initialized b) (rb_filled b + rb_remaining b)"
    using initialize_unfilled_to_ok [OF assms(3) order_refl] unfolding initialize_unfilled_def by blast
  have cap: "rb_initialized b1 = rb_capacity b1" "rb_remaining b1 = rb_remaining b" "rb_initialized b \<le> rb_initialized b1"
    using b1 assms(3) by (auto simp: rb_ok_def rb_remaining_capacity rb_capacity_def)
  define c where "c = incoming (the (afd_io inner))"
  define Q where "Q = (\<lambda>io' (r :: byte list io_result). case r of Inl _ \<Rightarrow> incoming io' = c
    | Inr bytes \<Rightarrow> length bytes \<le> rb_remaining b \<and> c = bytes @ incoming io' \<and> (bytes = [] \<longrightarrow> c = []))"
  have "\<exists>inner' res. poll_io (Suc (Suc fuel)) (\<lambda>io. sys_read io (rb_remaining b)) inner cx EPOLLIN True True = Some (Inr (inner', res)) \<and> fd_for m inner' \<and>
    (res = Pending \<and> incoming (the (afd_io inner')) = c \<and> waits_for (afd_state inner') cx EPOLLIN \<or> (\<exists>r. res = Ready r \<and> Q (the (afd_io inner')) r))"
    using assms(4,5) by (intro poll_io_rule [OF assms(2)])
      (auto dest!: socket_readD [OF assms(1)] simp: readable_tests c_def [symmetric] Q_def split: sum.splits)
  then obtain inner' res where r: "poll_io (Suc (Suc fuel)) (\<lambda>io. sys_read io (rb_remaining b)) inner cx EPOLLIN True True = Some (Inr (inner', res))"
    "fd_for m inner'" and cases: "res = Pending \<and> incoming (the (afd_io inner')) = c \<and> waits_for (afd_state inner') cx EPOLLIN \<or>
      (\<exists>r. res = Ready r \<and> Q (the (afd_io inner')) r)" by blast
  have poll: "tcp_poll_read (Suc (Suc fuel)) sys_read inner cx b True True = (case res of
      Pending \<Rightarrow> Some (Inr (inner', b1, Pending))
    | Ready (Inl e) \<Rightarrow> Some (Inr (inner', b1, Ready (Inl e)))
    | Ready (Inr bytes) \<Rightarrow> (case fill_unfilled b1 bytes of Inl e \<Rightarrow> Some (Inl e) | Inr b2 \<Rightarrow> Some (Inr (inner', b2, Ready (Inr ())))))"
    using b1(1) cap(2) r(1) by (simp add: tcp_poll_read_def poll_read_slice_def split: poll.split sum.split)
  show ?thesis
  proof (cases "\<exists>bytes. res = Ready (Inr bytes)")
    case True
    then obtain bytes where bytes: "res = Ready (Inr bytes)" by blast
    with cases have q: "length bytes \<le> rb_remaining b" "c = bytes @ incoming (the (afd_io inner'))" "bytes = [] \<longrightarrow> c = []" by (auto simp: Q_def)
    from fill_unfilled_ok [OF b1(2) _ cap(1), of bytes] q(1) cap(2) obtain b2 where b2: "fill_unfilled b1 bytes = Inr b2" "rb_ok b2"
      "rb_capacity b2 = rb_capacity b" "rb_initialized b2 = rb_initialized b1" "rb_filled_bytes b2 = rb_filled_bytes b @ bytes"
      using b1(3,5) by auto
    have "reads_some c b b2 (incoming (the (afd_io inner')))" unfolding reads_some_def
      using q b2(5) by (intro exI [of _ "length bytes"]) auto
    then show ?thesis using poll bytes b2 r(2) cap(3) by (simp add: read_result_def c_def)
  next
    case False
    then have "tcp_poll_read (Suc (Suc fuel)) sys_read inner cx b True True = Some (Inr (inner', b1, map_poll (map_sum (\<lambda>e. e) (\<lambda>_. ())) res))"
      "map_poll (map_sum (\<lambda>e. e) (\<lambda>_. ())) res \<noteq> Ready (Inr ())" "incoming (the (afd_io inner')) = c"
      using poll cases by (cases res; auto simp: Q_def split: sum.splits)+
    then show ?thesis using cases r(2) b1 cap(3) by (auto simp: read_result_def c_def)
  qed
qed

lemma tcp_write_ok:
  assumes "socket_ok sys_read sys_write incoming outgoing" "fd_for m inner" "EPOLLOUT AND m = EPOLLOUT"
  shows "\<exists>inner' res. tcp_poll_write (Suc (Suc fuel)) sys_write inner cx buf True True = Some (Inr (inner', res)) \<and> fd_for m inner' \<and>
    write_result (outgoing (the (afd_io inner))) buf res (outgoing (the (afd_io inner'))) \<and> (res = Pending \<longrightarrow> waits_for (afd_state inner') cx EPOLLOUT)"
proof -
  define c where "c = outgoing (the (afd_io inner))"
  have "\<exists>inner' res. poll_io (Suc (Suc fuel)) (\<lambda>io. sys_write io buf) inner cx EPOLLOUT True True = Some (Inr (inner', res)) \<and> fd_for m inner' \<and>
    (res = Pending \<and> outgoing (the (afd_io inner')) = c \<and> waits_for (afd_state inner') cx EPOLLOUT \<or>
     (\<exists>r. res = Ready r \<and> write_result c buf (Ready r) (outgoing (the (afd_io inner')))))"
    using assms(3) by (intro poll_io_rule [OF assms(2)])
      (auto dest!: socket_writeD [OF assms(1)] simp: readable_tests c_def [symmetric] write_result_def split: sum.splits)
  then show ?thesis by (auto simp: tcp_poll_write_def poll_write_slice_def c_def write_result_def)
qed

text \<open>Owned halves, Unix streams and pipes run the same code, and pipes satisfy the contract with the one direction they are registered for.\<close>

lemma stream_reads_agree:
  "poll_tcp_read fuel sys_read inner cx b d a = tcp_poll_read fuel sys_read inner cx b d a"
  "poll_tcp_write fuel sys_write inner cx buf d a = tcp_poll_write fuel sys_write inner cx buf d a"
  "unix_poll_read fuel sys_read inner cx b d a = tcp_poll_read fuel sys_read inner cx b d a"
  "fifo_poll_read fuel sys_read inner cx b d a = tcp_poll_read fuel sys_read inner cx b d a"
  "fifo_poll_write fuel sys_write inner cx buf d a = tcp_poll_write fuel sys_write inner cx buf d a"
  "unix_poll_write_slice fuel sys_write inner cx buf d a = tcp_poll_write fuel sys_write inner cx buf d a"
  unfolding poll_tcp_read_def poll_tcp_write_def unix_poll_read_def tcp_poll_read_def fifo_poll_read_def unix_poll_read_slice_def poll_read_slice_def poll_stream_io_def
    fifo_poll_write_def tcp_poll_write_def poll_write_slice_def unix_poll_write_slice_def by (rule refl)+

lemma fifo_read_ok:
  assumes "socket_ok sys_read sys_write incoming outgoing" "fd_for EPOLLIN inner" "rb_ok b" "0 < rb_remaining b"
  shows "\<exists>inner' b' res. fifo_poll_read (Suc (Suc fuel)) sys_read inner cx b True True = Some (Inr (inner', b', res)) \<and> fd_for EPOLLIN inner' \<and>
    read_result (incoming (the (afd_io inner))) b b' res (incoming (the (afd_io inner'))) \<and> (res = Pending \<longrightarrow> waits_for (afd_state inner') cx EPOLLIN)"
  unfolding stream_reads_agree by (rule tcp_read_ok [OF assms]) simp

text \<open>What shutting down promises: nothing that was accepted is lost, and the peer sees the end.\<close>

definition shutdown_ok :: "('io \<Rightarrow> 'io \<times> unit io_result) \<Rightarrow> ('io \<Rightarrow> byte list) \<Rightarrow> ('io \<Rightarrow> byte list) \<Rightarrow> ('io \<Rightarrow> bool) \<Rightarrow> bool" where
  "shutdown_ok sys_shutdown incoming outgoing ended \<longleftrightarrow> (\<forall>io io' r. sys_shutdown io = (io', r) \<longrightarrow>
     incoming io' = incoming io \<and> outgoing io' = outgoing io \<and> (r = Inr () \<longrightarrow> ended io'))"

lemma tcp_shutdown_ok:
  assumes "shutdown_ok sys_shutdown incoming outgoing ended" "fd_for m inner"
  shows "\<exists>inner' r. tcp_poll_shutdown sys_shutdown inner = Inr (inner', Ready r) \<and> fd_for m inner' \<and>
    incoming (the (afd_io inner')) = incoming (the (afd_io inner)) \<and> outgoing (the (afd_io inner')) = outgoing (the (afd_io inner)) \<and>
    (r = Inr () \<longrightarrow> ended (the (afd_io inner')))"
proof -
  obtain io where io: "afd_io inner = Some io" using assms(2) by (auto simp: fd_for_def)
  obtain io' r where r: "sys_shutdown io = (io', r)" by (cases "sys_shutdown io")
  then show ?thesis using assms(1) io fd_for_io [OF assms(2), of io']
    by (auto simp: tcp_poll_shutdown_def async_fd_get_ref_def shutdown_ok_def)
qed

text \<open>The operations of a stream as the traits of \<open>io.rs\<close> have them, and what has left it.\<close>

definition stream_write :: "'io sys_write \<Rightarrow> 'io async_fd poll_write" where
  "stream_write sys_write inner cx buf = the (tcp_poll_write 2 sys_write inner cx buf True True)"

definition stream_flush :: "'io async_fd poll_flush" where
  "stream_flush inner cx = Inr (tcp_poll_flush inner)"

definition stream_shutdown :: "('io \<Rightarrow> 'io \<times> unit io_result) \<Rightarrow> 'io async_fd poll_flush" where
  "stream_shutdown sys_shutdown inner cx = tcp_poll_shutdown sys_shutdown inner"

definition stream_out :: "('io \<Rightarrow> byte list) \<Rightarrow> 'io async_fd \<Rightarrow> byte list" where
  "stream_out outgoing inner = outgoing (the (afd_io inner))"

text \<open>So whatever is proved of readers and writers holds of streams.\<close>

locale connected_socket =
  fixes sys_read :: "'io sys_read" and sys_write :: "'io sys_write" and incoming :: "'io \<Rightarrow> byte list" and outgoing :: "'io \<Rightarrow> byte list"
    and sys_shutdown :: "'io \<Rightarrow> 'io \<times> unit io_result" and ended :: "'io \<Rightarrow> bool"
  assumes socket: "socket_ok sys_read sys_write incoming outgoing" and shutdown: "shutdown_ok sys_shutdown incoming outgoing ended"

sublocale connected_socket \<subseteq> async_reader "\<lambda>inner cx b. the (tcp_poll_read 2 sys_read inner cx b True True)"
  "\<lambda>inner. incoming (the (afd_io inner))" fd_ok
proof
  fix r :: "'io async_fd" and b cx
  assume "fd_ok r" "rb_ok b" "0 < rb_remaining b"
  from tcp_read_ok [OF socket this direction_covered, of 0 cx]
  show "\<exists>r' b' res. the (tcp_poll_read 2 sys_read r cx b True True) = Inr (r', b', res) \<and> fd_ok r' \<and>
      read_result (incoming (the (afd_io r))) b b' res (incoming (the (afd_io r')))" unfolding numeral_2_eq_2 by auto
qed

sublocale connected_socket \<subseteq> async_writer "stream_write sys_write" "stream_out outgoing" fd_ok
proof
  fix w :: "'io async_fd" and buf cx
  assume "fd_ok w"
  from tcp_write_ok [OF socket this direction_covered, of 0 cx buf]
  show "\<exists>w' res. stream_write sys_write w cx buf = Inr (w', res) \<and> fd_ok w' \<and>
      write_result (stream_out outgoing w) buf res (stream_out outgoing w')" unfolding stream_write_def stream_out_def numeral_2_eq_2 by auto
qed

sublocale connected_socket \<subseteq> stream_flush: flushing_writer "stream_write sys_write" "stream_out outgoing" fd_ok stream_flush
  by unfold_locales (simp add: stream_flush_def tcp_poll_flush_def)

sublocale connected_socket \<subseteq> stream_shutdown: flushing_writer "stream_write sys_write" "stream_out outgoing" fd_ok "stream_shutdown sys_shutdown"
  using tcp_shutdown_ok [OF shutdown] by unfold_locales (fastforce simp: stream_shutdown_def stream_out_def)

context connected_socket
begin

lemma buffered_flush:
  assumes "bw_inv fd_ok bw"
  shows "\<exists>bw' res. buf_writer_poll_flush (stream_write sys_write) stream_flush bw cx = Inr (bw', res) \<and> bw_inv fd_ok bw' \<and>
      bw_accepted (stream_out outgoing) bw' = bw_accepted (stream_out outgoing) bw \<and>
      (res = Ready (Inr ()) \<longrightarrow> stream_out outgoing (bw_inner bw') = bw_accepted (stream_out outgoing) bw)"
  using stream_flush.buf_writer_flush_ok [OF assms, of cx] by blast

lemma buffered_shutdown:
  assumes "bw_inv fd_ok bw"
  shows "\<exists>bw' res. buf_writer_poll_shutdown (stream_write sys_write) (stream_shutdown sys_shutdown) bw cx = Inr (bw', res) \<and> bw_inv fd_ok bw' \<and>
      bw_accepted (stream_out outgoing) bw' = bw_accepted (stream_out outgoing) bw \<and>
      (res = Ready (Inr ()) \<longrightarrow> ended (the (afd_io (bw_inner bw'))) \<and>
        (\<exists>w. stream_out outgoing w = bw_accepted (stream_out outgoing) bw \<and> tcp_poll_shutdown sys_shutdown w = Inr (bw_inner bw', Ready (Inr ()))))"
proof -
  have "ended (the (afd_io w'))" if "tcp_poll_shutdown sys_shutdown w = Inr (w', Ready (Inr ()))" for w w'
    using that shutdown by (auto simp: tcp_poll_shutdown_def shutdown_ok_def split: sum.splits prod.splits)
  with stream_shutdown.buf_writer_flush_ok [OF assms, of cx] show ?thesis unfolding buf_writer_shutdown_flush stream_shutdown_def by blast
qed

end

text \<open>A kernel socket with a window of three bytes, which blocks every other time.\<close>

record demo_socket =
  ds_in :: "byte list"
  ds_out :: "byte list"
  ds_block :: bool
  ds_ended :: bool

definition demo_read :: "demo_socket sys_read" where
  "demo_read io n = (if ds_block io then (io\<lparr>ds_block := False\<rparr>, Inl WouldBlock)
     else (io\<lparr>ds_in := drop (min 3 n) (ds_in io), ds_block := True\<rparr>, Inr (take (min 3 n) (ds_in io))))"

definition demo_write :: "demo_socket sys_write" where
  "demo_write io buf = (if ds_block io then (io\<lparr>ds_block := False\<rparr>, Inl WouldBlock)
     else (io\<lparr>ds_out := ds_out io @ take 3 buf, ds_block := True\<rparr>, Inr (min (length buf) 3)))"

definition demo_shutdown :: "demo_socket \<Rightarrow> demo_socket \<times> unit io_result" where
  "demo_shutdown io = (io\<lparr>ds_ended := True\<rparr>, Inr ())"

lemma demo_socket_ok: "socket_ok demo_read demo_write ds_in ds_out"
  by (auto simp: socket_ok_def demo_read_def demo_write_def min_def split: if_splits)

lemma demo_shutdown_ok: "shutdown_ok demo_shutdown ds_in ds_out ds_ended"
  by (auto simp: shutdown_ok_def demo_shutdown_def)

interpretation demo: connected_socket demo_read demo_write ds_in ds_out demo_shutdown ds_ended
  using demo_socket_ok demo_shutdown_ok by unfold_locales

text \<open>C38: a stream over any connected socket is a faithful reader and writer, as long as the descriptor can be registered again with the event
  loop whenever its readiness is cleared. A poll ends within two rounds and does not panic; a read into a buffer with room hands
  out the next bytes that arrived and something unless the peer is done, a write takes a prefix, nothing is lost or reordered when the
  result is pending or an error, and a task that is told to wait is registered for its direction, which is not ready and is monitored. Shutting the stream
  down loses nothing of what was taken. For a \<open>BufWriter\<close> over the stream, flushing and shutting down keep everything it accepted, and when they succeed,
  all of it has gone out, in the case of the shutdown before the peer sees the end.\<close>

theorem stream_contract:
  assumes "socket_ok sys_read sys_write incoming outgoing" "shutdown_ok sys_shutdown incoming outgoing ended"
    and "fd_ok inner" "rb_ok b" "0 < rb_remaining b" "bw_inv fd_ok bw"
  shows "(\<exists>inner' b' res. tcp_poll_read (Suc (Suc fuel)) sys_read inner cx b True True = Some (Inr (inner', b', res)) \<and> fd_ok inner' \<and>
      read_result (incoming (the (afd_io inner))) b b' res (incoming (the (afd_io inner'))) \<and>
      (res = Pending \<longrightarrow> waits_for (afd_state inner') cx EPOLLIN)) \<and>
    (\<exists>inner' res. tcp_poll_write (Suc (Suc fuel)) sys_write inner cx buf True True = Some (Inr (inner', res)) \<and> fd_ok inner' \<and>
      write_result (outgoing (the (afd_io inner))) buf res (outgoing (the (afd_io inner'))) \<and>
      (res = Pending \<longrightarrow> waits_for (afd_state inner') cx EPOLLOUT)) \<and>
    (\<exists>inner' r. tcp_poll_shutdown sys_shutdown inner = Inr (inner', Ready r) \<and> fd_ok inner' \<and> incoming (the (afd_io inner')) = incoming (the (afd_io inner)) \<and>
      outgoing (the (afd_io inner')) = outgoing (the (afd_io inner))) \<and>
    (\<exists>bw' res. buf_writer_poll_flush (stream_write sys_write) stream_flush bw cx = Inr (bw', res) \<and> bw_inv fd_ok bw' \<and>
      bw_accepted (stream_out outgoing) bw' = bw_accepted (stream_out outgoing) bw \<and>
      (res = Ready (Inr ()) \<longrightarrow> stream_out outgoing (bw_inner bw') = bw_accepted (stream_out outgoing) bw)) \<and>
    (\<exists>bw' res. buf_writer_poll_shutdown (stream_write sys_write) (stream_shutdown sys_shutdown) bw cx = Inr (bw', res) \<and> bw_inv fd_ok bw' \<and>
      bw_accepted (stream_out outgoing) bw' = bw_accepted (stream_out outgoing) bw \<and>
      (res = Ready (Inr ()) \<longrightarrow> ended (the (afd_io (bw_inner bw'))) \<and>
        (\<exists>w. stream_out outgoing w = bw_accepted (stream_out outgoing) bw \<and> tcp_poll_shutdown sys_shutdown w = Inr (bw_inner bw', Ready (Inr ())))))"
proof (intro conjI)
  have sock: "connected_socket sys_read sys_write incoming outgoing sys_shutdown ended" using assms(1,2) by (rule connected_socket.intro)
  show "\<exists>inner' r. tcp_poll_shutdown sys_shutdown inner = Inr (inner', Ready r) \<and> fd_ok inner' \<and> incoming (the (afd_io inner')) = incoming (the (afd_io inner)) \<and>
      outgoing (the (afd_io inner')) = outgoing (the (afd_io inner))" using tcp_shutdown_ok [OF assms(2,3)] by blast
  show "\<exists>bw' res. buf_writer_poll_flush (stream_write sys_write) stream_flush bw cx = Inr (bw', res) \<and> bw_inv fd_ok bw' \<and>
      bw_accepted (stream_out outgoing) bw' = bw_accepted (stream_out outgoing) bw \<and>
      (res = Ready (Inr ()) \<longrightarrow> stream_out outgoing (bw_inner bw') = bw_accepted (stream_out outgoing) bw)"
    using connected_socket.buffered_flush [OF sock assms(6), of cx] by blast
  show "\<exists>bw' res. buf_writer_poll_shutdown (stream_write sys_write) (stream_shutdown sys_shutdown) bw cx = Inr (bw', res) \<and> bw_inv fd_ok bw' \<and>
      bw_accepted (stream_out outgoing) bw' = bw_accepted (stream_out outgoing) bw \<and>
      (res = Ready (Inr ()) \<longrightarrow> ended (the (afd_io (bw_inner bw'))) \<and>
        (\<exists>w. stream_out outgoing w = bw_accepted (stream_out outgoing) bw \<and> tcp_poll_shutdown sys_shutdown w = Inr (bw_inner bw', Ready (Inr ()))))"
    by (rule connected_socket.buffered_shutdown [OF sock assms(6)])
qed (use tcp_read_ok [OF assms(1,3-5) direction_covered] tcp_write_ok [OF assms(1,3) direction_covered] in blast)+

definition demo_fd :: "demo_socket async_fd" where
  "demo_fd = \<lparr>afd_io = Some \<lparr>ds_in = [1, 2, 3, 4, 5], ds_out = [], ds_block = True, ds_ended = False\<rparr>,
     afd_state = (io_new 3 (EPOLLIN OR EPOLLOUT) 0)\<lparr>io_events := EPOLLIN OR EPOLLOUT\<rparr>\<rparr>"

definition demo_writer :: "demo_socket async_fd buf_writer" where
  "demo_writer = \<lparr>bw_inner = demo_fd, bw_buf = [4, 5, 6, 7], bw_written = 1, bw_capacity = 8, bw_seek = None\<rparr>"

lemma demo_fd_ok: "fd_ok demo_fd"
  by (simp add: fd_for_def demo_fd_def io_new_def desired_events_def io_ready_def unpack_readiness_def)

theorem stream_contract_witness:
  "socket_ok demo_read demo_write ds_in ds_out \<and> shutdown_ok demo_shutdown ds_in ds_out ds_ended \<and> fd_ok demo_fd \<and> bw_inv fd_ok demo_writer \<and>
   (\<exists>inner' res. tcp_poll_write 2 demo_write demo_fd 7 [9, 8, 7, 6] True True = Some (Inr (inner', res)) \<and> fd_ok inner' \<and>
      write_result [] [9, 8, 7, 6] res (ds_out (the (afd_io inner')))) \<and>
   (\<exists>bw' res. buf_writer_poll_shutdown (stream_write demo_write) (stream_shutdown demo_shutdown) demo_writer 7 = Inr (bw', res) \<and>
      bw_accepted (stream_out ds_out) bw' = [5, 6, 7])"
proof -
  have rb: "rb_ok (rb_new [0, 0])" "0 < rb_remaining (rb_new [0, 0])" by (simp_all add: rb_new_ok usize_max_def)
  have bw: "bw_inv fd_ok demo_writer" "bw_accepted (stream_out ds_out) demo_writer = [5, 6, 7]"
    using demo_fd_ok by (simp_all add: bw_inv_def demo_writer_def usize_max_def bw_accepted_def stream_out_def demo_fd_def)
  have out: "ds_out (the (afd_io demo_fd)) = []" by (simp add: demo_fd_def)
  from stream_contract [OF demo_socket_ok demo_shutdown_ok demo_fd_ok rb bw(1), of 0 7 "[9, 8, 7, 6]", unfolded out bw(2)]
    demo_socket_ok demo_shutdown_ok demo_fd_ok bw(1) show ?thesis unfolding numeral_2_eq_2 by blast
qed

section \<open>Halves and connections\<close>

text \<open>Splitting and reuniting is the identity and shuts nothing down; a write half that is dropped shuts down exactly its own stream.\<close>

lemma reunite_split: "into_split t = (r, w) \<Longrightarrow> reunite r w = ([], Inr t)"
  by (cases t) (auto simp: into_split_def reunite_def write_half_drop_def)

lemma reunite_stranger: "into_split t = (r, w) \<Longrightarrow> into_split t' = (r', w') \<Longrightarrow> ts_inner t \<noteq> ts_inner t' \<Longrightarrow> reunite r w' = ([], Inl (r, w'))"
  by (auto simp: into_split_def reunite_def)

lemma write_half_drop_once: "into_split t = (r, w) \<Longrightarrow> write_half_drop w = [ts_inner t] \<and> write_half_forget w = []"
  by (auto simp: into_split_def write_half_drop_def write_half_forget_def)

text \<open>The addresses are tried in order up to the first that works; if none does, the error is that of the last.\<close>

lemma first_of_success:
  assumes "\<forall>x \<in> set before. \<exists>e. attempt x = Inl e" "attempt a = Inr st"
  shows "first_of attempt from_std (before @ a # after) last_error = from_std st"
  using assms by (induction before arbitrary: last_error) auto

lemma first_of_failure:
  assumes "\<forall>x \<in> set addresses. \<exists>e. attempt x = Inl e"
  shows "first_of attempt from_std addresses last_error =
    Inl (if addresses = [] then case last_error of Some e \<Rightarrow> e | None \<Rightarrow> no_addresses else projl (attempt (last addresses)))"
  using assms by (induction addresses arbitrary: last_error) auto

text \<open>Only the version of \<open>net.rs\<close> is defined on memory that has not been written.\<close>

lemma try_read_buf_defined: "\<exists>res. try_read_buf filled chunk operation = Inr res"
  by (auto simp: try_read_buf_def as_bytes_def)

lemma unix_try_read_buf_undefined: "None \<in> set chunk \<Longrightarrow> unix_try_read_buf filled chunk operation = Inl ''uninitialised memory''"
  by (simp add: unix_try_read_buf_def as_bytes_def)

section \<open>Attempts that do not clear the readiness\<close>

text \<open>
  \<open>try_read\<close> of a stream reads without clearing the readiness, unlike that of a pipe. When everything has been read, waiting until the stream
  is readable goes on returning at once, and each attempt after it goes on blocking.
\<close>

lemma try_read_keeps_readiness:
  assumes "tcp_try_read sys_read inner len = Inr (inner', Inl WouldBlock)" "tcp_readable_poll inner cx = (inner, Ready (Inr ()))"
  shows "tcp_readable_poll inner' cx = (inner', Ready (Inr ()))"
proof -
  have "afd_state inner' = afd_state inner" using assms(1) by (auto simp: tcp_try_read_def split: sum.splits prod.splits)
  moreover have "io_ready (afd_state inner) AND (EPOLLIN OR ERROR_EVENTS) \<noteq> 0" using assms(2)
    by (auto simp: tcp_readable_poll_def poll_ready_interest_def io_poll_ready_def Let_def split: if_splits)
  ultimately show ?thesis by (cases inner') (simp add: tcp_readable_poll_def poll_ready_interest_def io_poll_ready_def Let_def)
qed

lemma pipe_try_read_clears:
  assumes "pipe_try_read sys_read inner len True True = Inr (inner', Inl WouldBlock, ws)" "io_registered (afd_state inner)"
  shows "io_ready (afd_state inner') AND (EPOLLIN OR ERROR_EVENTS) = 0"
proof (cases "io_ready (afd_state inner) AND (EPOLLIN OR ERROR_EVENTS) = 0")
  case True
  then show ?thesis using assms(1) by (auto simp: pipe_try_read_def async_fd_try_io_def Let_def)
next
  case False
  then have "io_poll_ready (afd_state inner) 0 EPOLLIN =
      (afd_state inner, Ready (Inr (io_ready (afd_state inner) AND (EPOLLIN OR ERROR_EVENTS), io_generation (afd_state inner))))"
    by (simp add: io_poll_ready_def)
  from clear_observed [OF this assms(2)] False show ?thesis using assms(1)
    by (auto simp: pipe_try_read_def async_fd_try_io_def Let_def split: sum.splits prod.splits io_error.splits)
qed

section \<open>When the descriptor can no longer be monitored\<close>

text \<open>
  A failure of \<open>epoll_ctl\<close> becomes an error readiness. The loop clears it like any other readiness, which fails again: while the call
  fails and the operation would block, a poll does not end.
\<close>

lemma poll_io_spins:
  assumes "\<And>io. operation io = (io, Inl WouldBlock)" "afd_io inner \<noteq> None" "io_registered (afd_state inner)"
    "io_interest (afd_state inner) = (EPOLLIN OR EPOLLOUT)" "io_events (afd_state inner) = 0"
    "io_ready (afd_state inner) AND (EPOLLIN OR ERROR_EVENTS) \<noteq> 0"
  shows "poll_io fuel operation inner cx EPOLLIN del_ok False = None"
  using assms(2-6)
proof (induction fuel arbitrary: inner)
  case (Suc fuel)
  define st r where "st = afd_state inner" and "r = io_ready st AND (EPOLLIN OR ERROR_EVENTS)"
  obtain io where io: "afd_io inner = Some io" using Suc.prems(1) by blast
  define st1 where "st1 = st\<lparr>io_readiness := pack_readiness (io_generation st) (io_ready st AND NOT r)\<rparr>"
  have "(x AND NOT (x AND m)) AND m = 0" for x m :: u32 by (rule bit_eqI) (auto simp: bit_simps)
  note mask_off = this
  have "io_ready st1 = io_ready st AND NOT r" by (simp add: st1_def io_ready_def)
  then have z: "io_ready st1 AND (EPOLLIN OR ERROR_EVENTS) = 0" unfolding r_def by (simp only: mask_off)
  have "desired_events st1 AND EPOLLIN = EPOLLIN"
    using z Suc.prems(3) direction_covered [of EPOLLIN] by (intro desired_covers) (simp_all add: st1_def st_def)
  then have "desired_events st1 \<noteq> 0" by (auto simp: epoll_defs)
  moreover have e0: "io_events st1 = 0" and fields: "io_fd st1 = io_fd st" "io_token st1 = io_token st"
    using Suc.prems(4) by (simp_all add: st1_def st_def)
  moreover have "record_error (st1\<lparr>io_events := 0\<rparr>) = record_error st1" by (rule arg_cong [of _ _ record_error]) (use e0 in \<open>cases st1, simp\<close>)
  ultimately have up: "finish_update st1 del_ok False = (record_error st1, [EpollAdd (io_fd st) (desired_events st1 OR ERROR_EVENTS) (io_token st)], True)"
    by (simp add: finish_update_def update_interest_def Let_def)
  obtain st2 ws where st2: "wake_ready (record_error st1) = (st2, ws)" by fastforce
  have keep: "io_registered st2" "io_interest st2 = io_interest st" "io_events st2 = 0" "io_ready st2 = io_ready st1 OR EPOLLERR"
    using st2 Suc.prems(2,4) by (auto simp: wake_ready_def wake_ready_take_def Let_def record_error_def st1_def st_def io_ready_def)
  have "io_ready st2 AND (EPOLLIN OR ERROR_EVENTS) \<noteq> 0" using or_err [of "io_ready st1"] keep(4) by (simp add: and_or_zero)
  with keep Suc.prems(3) have "poll_io fuel operation (inner\<lparr>afd_io := Some io, afd_state := st2\<rparr>) cx EPOLLIN del_ok False = None"
    using io by (intro Suc.IH) (simp_all add: st_def)
  moreover have "io_clear_ready st r (io_generation st) del_ok False = (st2, [EpollAdd (io_fd st) (desired_events st1 OR ERROR_EVENTS) (io_token st)], ws)"
    using up st2 Suc.prems(2) by (simp add: io_clear_ready_def clear_store_def st_def st1_def)
  moreover have "interest_is_readable EPOLLIN" by (simp add: interest_tests epoll_defs)
  ultimately show ?case using Suc.prems(5) io assms(1) [of io]
    by (simp add: poll_io.simps async_fd_get_ref_def poll_ready_interest_def io_poll_ready_def guard_clear_ready_def st_def [symmetric] r_def [symmetric])
qed (simp add: poll_io.simps)

end
