(* ===== verification/Tcp_Socket.thy ===== *)
theory Tcp_Socket
  imports Net_Stream
begin

text \<open>
  The addresses and options that are handed to the operating system (\<open>net_tcp_socket.rs\<close>, and the options and the address structures of
  \<open>net.rs\<close>). A setter is the value it passes to \<open>setsockopt\<close>, a getter is a function of what \<open>getsockopt\<close> returns. The host is
  little-endian, as every OpenHarmony target is, so a number in network byte order has its bytes swapped.
\<close>

section \<open>Addresses\<close>

text \<open>The address and the port; the octets are those of the address in order, four or sixteen.\<close>

datatype socket_addr_ip =
  SocketV4 (octets: "byte list") (port: "16 word")
| SocketV6 (octets: "byte list") (port: "16 word") (flowinfo: u32) (scope_id: u32)

definition socket_addr_ok :: "socket_addr_ip \<Rightarrow> bool" where
  "socket_addr_ok a \<longleftrightarrow> length (octets a) = (case a of SocketV4 _ _ \<Rightarrow> 4 | SocketV6 _ _ _ _ \<Rightarrow> 16)"

definition to_be :: "nat \<Rightarrow> 'a::len word \<Rightarrow> 'a word" where
  "to_be nbytes x = from_be_bytes (to_le_bytes nbytes x)"

definition AF_INET :: "16 word" where "AF_INET = 2"
definition AF_INET6 :: "16 word" where "AF_INET6 = 10"

text \<open>\<open>sockaddr_storage\<close>: the family says which of the structures the rest is read as.\<close>

record sockaddr_storage =
  ss_family :: "16 word"
  ss_port :: "16 word"
  ss_addr :: u32
  ss_flowinfo :: u32
  ss_addr6 :: "byte list"
  ss_scope_id :: u32

definition zeroed :: sockaddr_storage where
  "zeroed = \<lparr>ss_family = 0, ss_port = 0, ss_addr = 0, ss_flowinfo = 0, ss_addr6 = replicate 16 0, ss_scope_id = 0\<rparr>"

definition socket_address :: "socket_addr_ip \<Rightarrow> sockaddr_storage \<times> nat" where
  "socket_address address = (case address of
     SocketV4 ip p \<Rightarrow> (zeroed\<lparr>ss_family := AF_INET, ss_port := to_be 2 p, ss_addr := from_le_bytes ip\<rparr>, 16)
   | SocketV6 ip p flow scope \<Rightarrow>
       (zeroed\<lparr>ss_family := AF_INET6, ss_port := to_be 2 p, ss_flowinfo := flow, ss_addr6 := ip, ss_scope_id := scope\<rparr>, 28))"

definition decode_address :: "sockaddr_storage \<Rightarrow> socket_addr_ip io_result" where
  "decode_address s =
     (if ss_family s = AF_INET then Inr (SocketV4 (to_le_bytes 4 (ss_addr s)) (to_be 2 (ss_port s)))
      else if ss_family s = AF_INET6 then Inr (SocketV6 (ss_addr6 s) (to_be 2 (ss_port s)) (ss_flowinfo s) (ss_scope_id s))
      else Inl (InvalidData))"

text \<open>The structures that \<open>connect_addr\<close> of \<open>net.rs\<close> builds for the same purpose.\<close>

definition connect_addr_raw :: "socket_addr_ip \<Rightarrow> sockaddr_storage \<times> nat" where
  "connect_addr_raw address = (case address of
     SocketV4 ip p \<Rightarrow> (zeroed\<lparr>ss_family := AF_INET, ss_port := to_be 2 p, ss_addr := from_le_bytes ip\<rparr>, 16)
   | SocketV6 ip p flow scope \<Rightarrow>
       (zeroed\<lparr>ss_family := AF_INET6, ss_port := to_be 2 p, ss_flowinfo := to_be 4 flow, ss_addr6 := ip, ss_scope_id := scope\<rparr>, 28))"

definition local_addr :: "sockaddr_storage io_result \<Rightarrow> socket_addr_ip io_result" where
  "local_addr name = (case name of Inl e \<Rightarrow> Inl e | Inr s \<Rightarrow> decode_address s)"

section \<open>Options\<close>

definition last_os_error :: io_error where
  "last_os_error = OtherError ''last os error''"

definition set_bool :: "bool \<Rightarrow> bool \<Rightarrow> int io_result" where
  "set_bool v os_ok = (if os_ok then Inr (if v then 1 else 0) else Inl last_os_error)"

definition set_int :: "nat \<Rightarrow> bool \<Rightarrow> int io_result" where
  "set_int v os_ok = (if 2 ^ 31 \<le> v then Inl (InvalidInput ''socket value is too large'') else if os_ok then Inr (int v) else Inl last_os_error)"

definition get_int :: "int option \<Rightarrow> int io_result" where
  "get_int v = (case v of Some v \<Rightarrow> Inr v | None \<Rightarrow> Inl last_os_error)"

definition get_flag :: "int option \<Rightarrow> bool io_result" where
  "get_flag v = map_sum (\<lambda>e. e) (\<lambda>v. v \<noteq> 0) (get_int v)"

text \<open>\<open>send_buffer_size\<close> and \<open>recv_buffer_size\<close> cast, \<open>tclass_v6\<close> and \<open>tos_v4\<close> check.\<close>

definition buffer_size :: "int option \<Rightarrow> u32 io_result" where
  "buffer_size v = map_sum (\<lambda>e. e) of_int (get_int v)"

definition tos_v4 :: "int option \<Rightarrow> nat io_result" where
  "tos_v4 v = (case get_int v of Inl e \<Rightarrow> Inl e
     | Inr v \<Rightarrow> if v < 0 then Inl (OtherError ''out of range integral type conversion attempted'') else Inr (nat v))"

record linger =
  l_onoff :: int
  l_linger :: int

text \<open>A duration is its whole seconds.\<close>

definition set_linger :: "nat option \<Rightarrow> bool \<Rightarrow> linger io_result" where
  "set_linger duration os_ok =
     (let linger = \<lparr>l_onoff = (if duration \<noteq> None then 1 else 0), l_linger = (case duration of None \<Rightarrow> 0 | Some secs \<Rightarrow> int (min secs (2 ^ 31 - 1)))\<rparr>
      in if os_ok then Inr linger else Inl last_os_error)"

definition set_zero_linger :: "bool \<Rightarrow> linger io_result" where
  "set_zero_linger os_ok = set_linger (Some 0) os_ok"

definition get_linger :: "linger option \<Rightarrow> nat option io_result" where
  "get_linger raw = (case raw of
     None \<Rightarrow> Inl last_os_error
   | Some l \<Rightarrow> Inr (if l_onoff l \<noteq> 0 then Some (nat (max 0 (l_linger l))) else None))"

definition take_error :: "int option \<Rightarrow> int option io_result" where
  "take_error v = (case get_int v of Inl e \<Rightarrow> Inl e | Inr error \<Rightarrow> Inr (if error \<noteq> 0 then Some error else None))"

definition tcp_socket_listen :: "nat \<Rightarrow> bool \<Rightarrow> (nat \<Rightarrow> 't io_result) \<Rightarrow> 't io_result" where
  "tcp_socket_listen backlog os_ok from_std = (if os_ok then from_std (min backlog (2 ^ 31 - 1)) else Inl last_os_error)"

text \<open>\<open>TcpSocket::connect\<close> up to the wait; after it, the pending error of the socket decides.\<close>

definition tcp_socket_connect_start :: "(io_error \<times> int) option \<Rightarrow> 's \<Rightarrow> ('s \<Rightarrow> 't io_result) \<Rightarrow> 't connecting io_result" where
  "tcp_socket_connect_start connect stream from_std = (case connect of
     None \<Rightarrow> (case from_std stream of Inl e \<Rightarrow> Inl e | Inr t \<Rightarrow> Inr (Connected t))
   | Some (error, errno) \<Rightarrow>
       if \<not> (errno = EINPROGRESS \<or> errno = EALREADY) \<and> error \<noteq> WouldBlock then Inl error
       else (case from_std stream of Inl e \<Rightarrow> Inl e | Inr t \<Rightarrow> Inr (InProgress t)))"

section \<open>What was set is what is got\<close>

lemma to_from_le_bytes:
  assumes "LENGTH('a) = 8 * length bs"
  shows "to_le_bytes (length bs) (from_le_bytes bs :: 'a::len word) = bs"
proof (rule nth_equalityI)
  fix i assume "i < length (to_le_bytes (length bs) (from_le_bytes bs :: 'a word))"
  then have i: "i < length bs" by (simp add: to_le_bytes_def)
  have "bit (to_le_bytes (length bs) (from_le_bytes bs :: 'a word) ! i) k = bit (bs ! i) k" if "k < 8" for k
  proof -
    have "8 * i + k < 8 * length bs" using i that by linarith
    with i that assms show ?thesis by (simp add: to_le_bytes_def bit_ucast_iff bit_drop_bit_eq bit_from_le_bytes)
  qed
  then show "to_le_bytes (length bs) (from_le_bytes bs :: 'a word) ! i = bs ! i" by (intro bit_word_eqI) simp
qed (simp add: to_le_bytes_def)

lemma to_be_to_be:
  assumes "LENGTH('a) = 8 * nbytes"
  shows "to_be nbytes (to_be nbytes x) = (x :: 'a::len word)"
proof -
  have "length (rev (to_le_bytes nbytes x)) = nbytes" by (simp add: to_le_bytes_def)
  with to_from_le_bytes [of "rev (to_le_bytes nbytes x)", where 'a = 'a] assms
  have "to_le_bytes nbytes (from_le_bytes (rev (to_le_bytes nbytes x)) :: 'a word) = rev (to_le_bytes nbytes x)" by simp
  then show ?thesis using from_to_le_bytes [OF assms, of x] by (simp add: to_be_def from_be_bytes_def)
qed

text \<open>An address survives the way through the structure of the operating system.\<close>

lemma socket_address_roundtrip:
  assumes "socket_addr_ok a"
  shows "decode_address (fst (socket_address a)) = Inr a"
  using assms to_from_le_bytes [of "octets a", where 'a = 32]
  by (cases a) (simp_all add: socket_address_def decode_address_def socket_addr_ok_def AF_INET_def AF_INET6_def to_be_to_be)

text \<open>\<open>connect_addr\<close> agrees, but for the flow information, of which it swaps the bytes.\<close>

lemma connect_addr_raw_v4: "connect_addr_raw (SocketV4 ip p) = socket_address (SocketV4 ip p)"
  by (simp add: connect_addr_raw_def socket_address_def)

lemma connect_addr_raw_v6:
  "decode_address (fst (connect_addr_raw (SocketV6 ip p flow scope))) = Inr (SocketV6 ip p (to_be 4 flow) scope)"
  by (simp add: connect_addr_raw_def decode_address_def AF_INET_def AF_INET6_def to_be_to_be)

lemma connect_addr_swaps_flowinfo: "decode_address (fst (connect_addr_raw (SocketV6 ip p 1 scope))) = Inr (SocketV6 ip p 0x1000000 scope)"
proof -
  have "to_be 4 (1 :: 32 word) = 0x1000000" by code_simp
  then show ?thesis by (simp add: connect_addr_raw_v6)
qed

lemma linger_roundtrip: "set_linger duration True = Inr l \<Longrightarrow> get_linger (Some l) = Inr (map_option (\<lambda>secs. min secs (2 ^ 31 - 1)) duration)"
  by (cases duration) (auto simp: set_linger_def get_linger_def)

lemma flag_roundtrip: "set_bool v True = Inr x \<Longrightarrow> get_flag (Some x) = Inr v"
  by (cases v) (auto simp: set_bool_def get_flag_def get_int_def)

lemma tos_roundtrip: "set_int v True = Inr x \<Longrightarrow> tos_v4 (Some x) = Inr v"
  by (auto simp: set_int_def tos_v4_def get_int_def split: if_splits)

lemma device_roundtrip:
  assumes "bind_socket_device interface True = Inr name"
  shows "socket_device (Inr name) = Inr (if interface = Some [] then None else interface)"
  using assms by (cases interface) (auto simp: bind_socket_device_def socket_device_def Let_def split: if_splits)

end
