(* ===== verification/Child_Process.thy ===== *)
theory Child_Process
  imports Net_Stream
begin

text \<open>
  Child processes (\<open>process.rs\<close>). The operating system answers \<open>try_wait\<close>; its answers in turn are a list, and a loop that uses them up is still
  waiting. The pipes of the child are descriptors as in \<open>Net_Stream\<close>. The setters of \<open>Command\<close> that only forward to the standard library
  are not modelled.
\<close>

section \<open>Commands\<close>

datatype stdio = Inherited | Piped | NullDevice

record command =
  cmd_stdin :: stdio
  cmd_stdout :: stdio
  cmd_stderr :: stdio
  cmd_kill_on_drop :: bool

definition command_new :: command where
  "command_new = \<lparr>cmd_stdin = Inherited, cmd_stdout = Inherited, cmd_stderr = Inherited, cmd_kill_on_drop = False\<rparr>"

definition set_kill_on_drop :: "command \<Rightarrow> bool \<Rightarrow> command" where
  "set_kill_on_drop c b = c\<lparr>cmd_kill_on_drop := b\<rparr>"

definition output_command :: "command \<Rightarrow> command" where
  "output_command c = c\<lparr>cmd_stdout := Piped, cmd_stderr := Piped\<rparr>"

section \<open>Children\<close>

text \<open>Which of the pipes the child still has, as values of type \<open>'p\<close>.\<close>

record 'p child =
  cd_stdin :: "'p option"
  cd_stdout :: "'p option"
  cd_stderr :: "'p option"
  cd_kill_on_drop :: bool

fun transpose_option :: "('s \<Rightarrow> 'p io_result) \<Rightarrow> 's option \<Rightarrow> 'p option io_result" where
  "transpose_option from_std None = Inr None"
| "transpose_option from_std (Some s) = (case from_std s of Inl e \<Rightarrow> Inl e | Inr p \<Rightarrow> Inr (Some p))"

definition child_from_std :: "('s \<Rightarrow> 'p io_result) \<Rightarrow> 's option \<Rightarrow> 's option \<Rightarrow> 's option \<Rightarrow> bool \<Rightarrow> 'p child io_result" where
  "child_from_std from_std stdin stdout stderr kill_on_drop =
     (case transpose_option from_std stdin of Inl e \<Rightarrow> Inl e | Inr stdin \<Rightarrow>
       (case transpose_option from_std stdout of Inl e \<Rightarrow> Inl e | Inr stdout \<Rightarrow>
         (case transpose_option from_std stderr of Inl e \<Rightarrow> Inl e | Inr stderr \<Rightarrow>
            Inr \<lparr>cd_stdin = stdin, cd_stdout = stdout, cd_stderr = stderr, cd_kill_on_drop = kill_on_drop\<rparr>)))"

text \<open>The loop of \<open>wait\<close>; between two answers the task sleeps.\<close>

fun wait_loop :: "'x option io_result list \<Rightarrow> 'x io_result option" where
  "wait_loop [] = None"
| "wait_loop (Inl e # answers) = Some (Inl e)"
| "wait_loop (Inr (Some status) # answers) = Some (Inr status)"
| "wait_loop (Inr None # answers) = wait_loop answers"

definition child_wait :: "'p child \<Rightarrow> 'x option io_result list \<Rightarrow> 'p child \<times> 'x io_result option" where
  "child_wait c answers = (c\<lparr>cd_stdin := None\<rparr>, wait_loop answers)"

definition child_kill :: "'p child \<Rightarrow> unit io_result \<Rightarrow> 'x option io_result list \<Rightarrow> 'p child \<times> unit io_result option" where
  "child_kill c killed answers = (case killed of
     Inl e \<Rightarrow> (c, Some (Inl e))
   | Inr _ \<Rightarrow> (let (c, r) = child_wait c answers in (c, map_option (map_sum (\<lambda>e. e) (\<lambda>_. ())) r)))"

record 'x process_output =
  po_status :: 'x
  po_stdout :: "byte list"
  po_stderr :: "byte list"

text \<open>\<open>wait_with_output\<close>: the three futures are joined, and then the first error in this order is returned.\<close>

definition wait_with_output_result :: "'x io_result \<Rightarrow> byte list io_result \<Rightarrow> byte list io_result \<Rightarrow> 'x process_output io_result" where
  "wait_with_output_result status stdout stderr =
     (case status of Inl e \<Rightarrow> Inl e | Inr status \<Rightarrow>
       (case stdout of Inl e \<Rightarrow> Inl e | Inr stdout \<Rightarrow>
         (case stderr of Inl e \<Rightarrow> Inl e | Inr stderr \<Rightarrow> Inr \<lparr>po_status = status, po_stdout = stdout, po_stderr = stderr\<rparr>)))"

definition read_pipe_to_end :: "'p option \<Rightarrow> ('p \<Rightarrow> byte list io_result) \<Rightarrow> byte list io_result" where
  "read_pipe_to_end pipe read_to_end = (case pipe of None \<Rightarrow> Inr [] | Some p \<Rightarrow> read_to_end p)"

text \<open>Dropping a child: whether it is killed, and whether a task is spawned that reaps it.\<close>

definition child_drop :: "'p child \<Rightarrow> 'x option io_result \<Rightarrow> bool \<times> bool" where
  "child_drop c answer = (cd_kill_on_drop c, answer = Inr None)"

fun reap_loop :: "'x option io_result list \<Rightarrow> bool" where
  "reap_loop [] = False"
| "reap_loop (answer # answers) = (if answer = Inr None then reap_loop answers else True)"

section \<open>Pipes of a child\<close>

definition poll_pipe_read ::
  "nat \<Rightarrow> 'io sys_read \<Rightarrow> 'io async_fd \<Rightarrow> waker \<Rightarrow> read_buf \<Rightarrow> bool \<Rightarrow> bool \<Rightarrow> ('io async_fd \<times> read_buf \<times> unit io_result poll) panicky option" where
  "poll_pipe_read fuel sys_read pipe cx buf del_ok add_ok = (case initialize_unfilled buf of
     Inl e \<Rightarrow> Some (Inl e)
   | Inr buf \<Rightarrow> (case poll_io fuel (\<lambda>io. sys_read io (rb_remaining buf)) pipe cx EPOLLIN del_ok add_ok of
       None \<Rightarrow> None
     | Some (Inl e) \<Rightarrow> Some (Inl e)
     | Some (Inr (inner, Ready (Inr bytes))) \<Rightarrow> (case fill_unfilled buf bytes of
         Inl e \<Rightarrow> Some (Inl e)
       | Inr buf \<Rightarrow> Some (Inr (inner, buf, Ready (Inr ()))))
     | Some (Inr (inner, Ready (Inl e))) \<Rightarrow> Some (Inr (inner, buf, Ready (Inl e)))
     | Some (Inr (inner, Pending)) \<Rightarrow> Some (Inr (inner, buf, Pending))))"

definition child_stdin_poll_write :: "nat \<Rightarrow> 'io sys_write \<Rightarrow> 'io async_fd \<Rightarrow> waker \<Rightarrow> byte list \<Rightarrow> bool \<Rightarrow> bool \<Rightarrow> ('io, nat) net_poll" where
  "child_stdin_poll_write fuel sys_write inner cx buf del_ok add_ok = poll_io fuel (\<lambda>io. sys_write io buf) inner cx EPOLLOUT del_ok add_ok"

definition child_stdin_poll_write_vectored ::
  "nat \<Rightarrow> ('io \<Rightarrow> byte list list \<Rightarrow> 'io \<times> nat io_result) \<Rightarrow> 'io async_fd \<Rightarrow> waker \<Rightarrow> byte list list \<Rightarrow> bool \<Rightarrow> bool \<Rightarrow> ('io, nat) net_poll" where
  "child_stdin_poll_write_vectored fuel sys_writev inner cx bufs del_ok add_ok = poll_io fuel (\<lambda>io. sys_writev io bufs) inner cx EPOLLOUT del_ok add_ok"

section \<open>What they do\<close>

text \<open>\<open>wait\<close> returns the first answer that is not that the child is still running, and has closed the input of the child before.\<close>

lemma wait_loop_first: "wait_loop (replicate n (Inr None) @ Inr (Some status) # answers) = Some (Inr status)"
  by (induction n) simp_all

lemma wait_loop_waits: "wait_loop answers = None \<longleftrightarrow> (\<forall>a \<in> set answers. a = Inr None)"
  by (induction answers rule: wait_loop.induct) auto

lemma child_wait_closes_stdin: "cd_stdin (fst (child_wait c answers)) = None"
  by (simp add: child_wait_def)

text \<open>A dropped child is reaped: at once, or by the task, which goes on exactly as long as the child runs.\<close>

lemma dropped_child_reaped: "snd (child_drop c answer) \<or> reap_loop [answer]" "reap_loop answers \<longleftrightarrow> (\<exists>a \<in> set answers. a \<noteq> Inr None)"
proof -
  show "snd (child_drop c answer) \<or> reap_loop [answer]" by (simp add: child_drop_def)
  show "reap_loop answers \<longleftrightarrow> (\<exists>a \<in> set answers. a \<noteq> Inr None)" by (induction answers) auto
qed

text \<open>The pipes of a child satisfy the contract of streams.\<close>

lemma child_pipe_read_ok:
  assumes "socket_ok sys_read sys_write incoming outgoing" "fd_for EPOLLIN inner" "rb_ok b" "0 < rb_remaining b"
  shows "\<exists>inner' b' res. poll_pipe_read (Suc (Suc fuel)) sys_read inner cx b True True = Some (Inr (inner', b', res)) \<and> fd_for EPOLLIN inner' \<and>
    read_result (incoming (the (afd_io inner))) b b' res (incoming (the (afd_io inner'))) \<and> (res = Pending \<longrightarrow> waits_for (afd_state inner') cx EPOLLIN)"
proof -
  have "poll_pipe_read (Suc (Suc fuel)) sys_read inner cx b True True = fifo_poll_read (Suc (Suc fuel)) sys_read inner cx b True True"
    by (simp only: poll_pipe_read_def fifo_poll_read_def)
  with fifo_read_ok [OF assms, of fuel cx] show ?thesis by simp
qed

end
