(* ===== verification/Local_Set.thy ===== *)
theory Local_Set
  imports Task_Runtime
begin

text \<open>
  Tasks that stay on one thread (\<open>task/local_set.rs\<close>) and the values that follow a task (\<open>task/task_local.rs\<close>).

  A local set is polled by a driver, the set itself or \<open>run_until\<close>, which polls each queued task once per poll. The tasks run on one thread,
  but their wakers and abort handles are called from any thread, so the steps of the system are the accesses to the shared cells.
\<close>

section \<open>The wakers of local tasks\<close>

record local_state =
  ls_run_waker :: "waker option"
  ls_notified :: bool

definition task_wake_store :: "local_state \<Rightarrow> local_state" where
  "task_wake_store s = s\<lparr>ls_notified := True\<rparr>"

definition task_wake_take :: "local_state \<Rightarrow> local_state \<times> waker list" where
  "task_wake_take s = (s\<lparr>ls_run_waker := None\<rparr>, olist (ls_run_waker s))"

definition local_task_wake :: "local_state \<Rightarrow> local_state \<times> waker list" where
  "local_task_wake s = task_wake_take (task_wake_store s)"

section \<open>A task and its handle\<close>

text \<open>\<open>LocalJoin\<close>: whether it still has the future and the sender, and the state and the channel that it shares with the handle.\<close>

record ('p, 'a) local_join =
  lj_future :: bool
  lj_sender :: bool
  lj_state :: cancellation_state
  lj_chan :: "('p, 'a) join_result os_inner"

definition local_join_channel :: "task_globals \<Rightarrow> task_globals \<times> cancellation_state \<times> ('p, 'a) join_result os_inner" where
  "local_join_channel g = (let (g, state) = cs_new g in (g, state, os_shared_new))"

definition local_join_new :: "task_globals \<Rightarrow> task_globals \<times> ('p, 'a) local_join" where
  "local_join_new g = (let (g, state, ch) = local_join_channel g in
     (g, \<lparr>lj_future = True, lj_sender = True, lj_state = state, lj_chan = ch\<rparr>))"

definition lj_register :: "('p, 'a) local_join \<Rightarrow> waker \<Rightarrow> ('p, 'a) local_join" where
  "lj_register t cx = t\<lparr>lj_state := cs_register (lj_state t) cx\<rparr>"

text \<open>The future is dropped, the state is finished, and then the result is sent, if the sender is still there.\<close>

definition lj_end :: "task_globals \<Rightarrow> ('p, 'a) local_join \<Rightarrow> ('p, 'a) join_result \<Rightarrow> task_globals \<times> ('p, 'a) local_join \<times> waker list" where
  "lj_end g t r =
     (let t = t\<lparr>lj_future := False\<rparr>;
          (g, state) = cs_finish g (lj_state t);
          t = t\<lparr>lj_state := state\<rparr>
      in if lj_sender t then
           (let (ch, _, ws, _) = os_send (lj_chan t) True r in (g, t\<lparr>lj_sender := False, lj_chan := ch\<rparr>, ws))
         else (g, t, []))"

text \<open>The part after the check: \<open>expect_panic\<close> is the payload when the future is gone, which \<open>catch_unwind\<close> catches as well.\<close>

definition lj_poll_future ::
  "'p \<Rightarrow> task_globals \<Rightarrow> ('p, 'a) local_join \<Rightarrow> ('p, 'a) outcome \<Rightarrow> task_globals \<times> ('p, 'a) local_join \<times> unit poll \<times> waker list" where
  "lj_poll_future expect_panic g t out =
     (case (if lj_future t then out else Panics expect_panic) of
        Completes v \<Rightarrow> (let (g, t, ws) = lj_end g t (Inr v) in (g, t, Ready (), ws))
      | Suspends \<Rightarrow> (g, t, Pending, [])
      | Panics p \<Rightarrow> (let (g, t, ws) = lj_end g t (Inl (join_panic (cs_id (lj_state t)) p)) in (g, t, Ready (), ws)))"

definition lj_cancel :: "task_globals \<Rightarrow> ('p, 'a) local_join \<Rightarrow> task_globals \<times> ('p, 'a) local_join \<times> waker list" where
  "lj_cancel g t = lj_end g t (Inl (join_cancelled (cs_id (lj_state t))))"

definition local_join_poll ::
  "'p \<Rightarrow> task_globals \<Rightarrow> ('p, 'a) local_join \<Rightarrow> waker \<Rightarrow> ('p, 'a) outcome \<Rightarrow> task_globals \<times> ('p, 'a) local_join \<times> unit poll \<times> waker list" where
  "local_join_poll expect_panic g t cx out =
     (let t = lj_register t cx in
      if cs_cancelled (lj_state t) then (let (g, t, ws) = lj_cancel g t in (g, t, Ready (), ws))
      else lj_poll_future expect_panic g t out)"

definition local_join_drop :: "task_globals \<Rightarrow> ('p, 'a) local_join \<Rightarrow> task_globals \<times> ('p, 'a) local_join \<times> waker list" where
  "local_join_drop g t = lj_cancel g t"

section \<open>The set\<close>

record 't local_set =
  lset_tasks :: "'t list"
  lset_state :: local_state

definition lset_new :: "'t local_set" where
  "lset_new = \<lparr>lset_tasks = [], lset_state = \<lparr>ls_run_waker = None, ls_notified = False\<rparr>\<rparr>"

definition spawn_push :: "'t local_set \<Rightarrow> 't \<Rightarrow> 't local_set" where
  "spawn_push l t = l\<lparr>lset_tasks := lset_tasks l @ [t], lset_state := (lset_state l)\<lparr>ls_notified := True\<rparr>\<rparr>"

definition spawn_named :: "'t local_set \<Rightarrow> 't \<Rightarrow> 't local_set \<times> waker list" where
  "spawn_named l t = (let l = spawn_push l t; (state, ws) = task_wake_take (lset_state l) in (l\<lparr>lset_state := state\<rparr>, ws))"

definition lset_len :: "'t local_set \<Rightarrow> nat" where
  "lset_len l = length (lset_tasks l)"

definition lset_is_empty :: "'t local_set \<Rightarrow> bool" where
  "lset_is_empty l \<longleftrightarrow> lset_tasks l = []"

definition tasks_take :: "'t local_set \<Rightarrow> 't local_set \<times> 't list" where
  "tasks_take l = (l\<lparr>lset_tasks := []\<rparr>, lset_tasks l)"

definition requeue :: "'t list \<Rightarrow> 't \<Rightarrow> unit poll \<Rightarrow> 't list" where
  "requeue tasks t res = (case res of Pending \<Rightarrow> tasks @ [t] | Ready _ \<Rightarrow> tasks)"

text \<open>
  What follows the loop: the tasks are put behind those spawned meanwhile, then the flag is swapped and a wake-up during the pass
  is passed on, and then the queue is looked at.
\<close>

definition pass_append :: "'t local_set \<Rightarrow> 't list \<Rightarrow> 't local_set" where
  "pass_append l tasks = l\<lparr>lset_tasks := lset_tasks l @ tasks\<rparr>"

definition pass_notify :: "'t local_set \<Rightarrow> waker \<Rightarrow> 't local_set \<times> waker list" where
  "pass_notify l cx =
     (l\<lparr>lset_state := (lset_state l)\<lparr>ls_notified := False\<rparr>\<rparr>, if ls_notified (lset_state l) then [cx] else [])"

definition pass_end :: "'t local_set \<Rightarrow> 't list \<Rightarrow> waker \<Rightarrow> 't local_set \<times> bool \<times> waker list" where
  "pass_end l tasks cx =
     (let l = pass_append l tasks; (l, ws) = pass_notify l cx in (l, lset_is_empty l, ws))"

text \<open>A poll of a task can change the set: it may spawn and wake.\<close>

fun poll_tasks_loop :: "('t local_set \<Rightarrow> 't \<Rightarrow> 't local_set \<times> 't \<times> unit poll) \<Rightarrow> nat \<Rightarrow> 't local_set \<Rightarrow> 't list \<Rightarrow> 't local_set \<times> 't list" where
  "poll_tasks_loop poll 0 l tasks = (l, tasks)"
| "poll_tasks_loop poll (Suc n) l [] = (l, [])"
| "poll_tasks_loop poll (Suc n) l (t # tasks) = (case poll l t of (l, t, res) \<Rightarrow> poll_tasks_loop poll n l (requeue tasks t res))"

definition poll_tasks :: "('t local_set \<Rightarrow> 't \<Rightarrow> 't local_set \<times> 't \<times> unit poll) \<Rightarrow> 't local_set \<Rightarrow> waker \<Rightarrow> 't local_set \<times> bool \<times> waker list" where
  "poll_tasks poll l cx =
     (let (l, tasks) = tasks_take l; (l, tasks) = poll_tasks_loop poll (length tasks) l tasks in pass_end l tasks cx)"

section \<open>Drivers\<close>

definition set_run_waker :: "'t local_set \<Rightarrow> waker option \<Rightarrow> 't local_set" where
  "set_run_waker l w = l\<lparr>lset_state := (lset_state l)\<lparr>ls_run_waker := w\<rparr>\<rparr>"

definition local_set_poll :: "('t local_set \<Rightarrow> 't \<Rightarrow> 't local_set \<times> 't \<times> unit poll) \<Rightarrow> 't local_set \<Rightarrow> waker \<Rightarrow> 't local_set \<times> unit poll \<times> waker list" where
  "local_set_poll poll l cx =
     (let l = set_run_waker l (Some cx); (l, done_all, ws) = poll_tasks poll l cx
      in if done_all then (set_run_waker l None, Ready (), ws) else (l, Pending, ws))"

definition run_until_poll ::
  "('t local_set \<Rightarrow> 't \<Rightarrow> 't local_set \<times> 't \<times> unit poll) \<Rightarrow> ('t local_set \<Rightarrow> 'f \<Rightarrow> 't local_set \<times> 'f \<times> 'a poll) \<Rightarrow>
   't local_set \<Rightarrow> 'f \<Rightarrow> waker \<Rightarrow> 't local_set \<times> 'f \<times> 'a poll \<times> waker list" where
  "run_until_poll poll poll_future l future cx =
     (let l = set_run_waker l (Some cx) in
      case poll_future l future of
        (l, future, Ready v) \<Rightarrow> (set_run_waker l None, future, Ready v, [])
      | (l, future, Pending) \<Rightarrow> (let (l, _, ws) = poll_tasks poll l cx in (l, future, Pending, ws)))"

text \<open>The set in which \<open>spawn_local\<close> spawns is the innermost one entered on the thread.\<close>

definition local_enter :: "'l option \<Rightarrow> 'l \<Rightarrow> 'l option \<times> 'l option" where
  "local_enter current local = (Some local, current)"

definition local_leave :: "'l option \<Rightarrow> 'l option \<Rightarrow> 'l option" where
  "local_leave current previous = previous"

definition spawn_local_named :: "('l \<Rightarrow> 't local_set) \<Rightarrow> 'l option \<Rightarrow> 't \<Rightarrow> ('l \<times> 't local_set \<times> waker list) panicky" where
  "spawn_local_named sets current t = (case current of
     None \<Rightarrow> Inl ''spawn_local called outside a LocalSet''
   | Some local \<Rightarrow> Inr (local, spawn_named (sets local) t))"

section \<open>Task-local values\<close>

text \<open>\<open>borrowed\<close> counts the calls of \<open>try_with\<close> that are running: they hold the cell of the stack borrowed.\<close>

record 'v local_key =
  lk_stack :: "'v list"
  lk_borrowed :: nat

datatype access_error = AccessError

type_synonym ('v, 'r) key_fun = "'v local_key \<Rightarrow> ('v local_key \<times> 'r) panicky"

definition key_enter :: "'v local_key \<Rightarrow> 'v \<Rightarrow> 'v local_key panicky" where
  "key_enter k v = (if 0 < lk_borrowed k then Inl ''already borrowed'' else Inr (k\<lparr>lk_stack := v # lk_stack k\<rparr>))"

definition key_leave :: "'v local_key \<Rightarrow> 'v local_key panicky" where
  "key_leave k =
     (if 0 < lk_borrowed k then Inl ''already borrowed''
      else (case lk_stack k of [] \<Rightarrow> Inl ''task-local scope stack corrupted'' | _ # stack \<Rightarrow> Inr (k\<lparr>lk_stack := stack\<rparr>)))"

definition sync_scope :: "'v \<Rightarrow> ('v, 'r) key_fun \<Rightarrow> ('v, 'r) key_fun" where
  "sync_scope v body k = (case key_enter k v of
     Inl e \<Rightarrow> Inl e
   | Inr k \<Rightarrow> (case body k of
       Inl e \<Rightarrow> Inl e
     | Inr (k, r) \<Rightarrow> (case key_leave k of Inl e \<Rightarrow> Inl e | Inr k \<Rightarrow> Inr (k, r))))"

definition try_with :: "('v \<Rightarrow> ('v, 'r) key_fun) \<Rightarrow> ('v, access_error + 'r) key_fun" where
  "try_with body k = (case lk_stack k of
     [] \<Rightarrow> Inr (k, Inl AccessError)
   | v # _ \<Rightarrow> (case body v (k\<lparr>lk_borrowed := lk_borrowed k + 1\<rparr>) of
       Inl e \<Rightarrow> Inl e
     | Inr (k, r) \<Rightarrow> Inr (k\<lparr>lk_borrowed := lk_borrowed k - 1\<rparr>, Inr r)))"

definition key_with :: "('v \<Rightarrow> ('v, 'r) key_fun) \<Rightarrow> ('v, 'r) key_fun" where
  "key_with body k = (case try_with body k of
     Inl e \<Rightarrow> Inl e
   | Inr (k, Inl _) \<Rightarrow> Inl ''task-local value accessed outside its scope''
   | Inr (k, Inr r) \<Rightarrow> Inr (k, r))"

definition key_get :: "('v, 'v) key_fun" where
  "key_get = key_with (\<lambda>v k. Inr (k, v))"

text \<open>A poll of \<open>TaskLocalFuture\<close> polls its future in the scope of the value.\<close>

definition task_local_poll :: "'v \<Rightarrow> ('v, 'f \<times> 'a poll) key_fun \<Rightarrow> ('v, 'f \<times> 'a poll) key_fun" where
  "task_local_poll v poll = sync_scope v poll"

section \<open>The system\<close>

text \<open>
  A task with what others do to it: the calls of \<open>abort\<close> that have stored the flag and not yet taken the waker, the last outcome of its
  future, the result that was sent, the handle, what it returned and who waits for it.
\<close>

record ('p, 'a) ls_cell =
  lc_join :: "('p, 'a) local_join"
  lc_aborting :: nat
  lc_last :: "('p, 'a) outcome option"
  lc_result :: "('p, 'a) join_result option"
  lc_rx :: bool
  lc_joined :: "('p, 'a) join_result option"
  lc_joiner :: "waker option"

text \<open>Where the driver is: its poll has entered the set, is in a pass with \<open>n\<close> iterations left, or runs a task (before and after the check).\<close>

datatype ls_phase =
  Idle | Entered waker | InPass waker nat | Started waker nat nat | Running waker nat nat | Appended waker | Notified waker | Dropping

text \<open>
  Tasks are numbered, and the number is the name of the waker of the task. \<open>lx_owed\<close> are those that were woken, or spawned, since their last poll began; \<open>lx_waking\<close> counts the calls
  of wakers between their two accesses; \<open>lx_driver\<close> is the waker of the last driver, unless it has completed, and
  \<open>lx_called\<close> tells whether it was called since the poll of the driver began.
\<close>

record ('p, 'a) ls_sys =
  lx_set :: "nat local_set"
  lx_pass :: "nat list"
  lx_phase :: ls_phase
  lx_cells :: "nat \<Rightarrow> ('p, 'a) ls_cell"
  lx_next :: nat
  lx_globals :: task_globals
  lx_owed :: "nat set"
  lx_waking :: nat
  lx_driver :: "waker option"
  lx_called :: bool

definition cell_new :: "('p, 'a) local_join \<Rightarrow> ('p, 'a) ls_cell" where
  "cell_new t = \<lparr>lc_join = t, lc_aborting = 0, lc_last = None, lc_result = None, lc_rx = True, lc_joined = None, lc_joiner = None\<rparr>"

definition cell_end :: "('p, 'a) ls_cell \<Rightarrow> ('p, 'a) local_join \<Rightarrow> ('p, 'a) join_result \<Rightarrow> waker list \<Rightarrow> ('p, 'a) ls_cell" where
  "cell_end c t r ws = c\<lparr>lc_join := t, lc_result := Some r,
     lc_joiner := (case lc_joiner c of None \<Rightarrow> None | Some w \<Rightarrow> if w \<in> set ws then None else Some w)\<rparr>"

definition outcome_result :: "u64 \<Rightarrow> ('p, 'a) outcome \<Rightarrow> ('p, 'a) join_result option" where
  "outcome_result i out = (case out of Completes v \<Rightarrow> Some (Inr v) | Suspends \<Rightarrow> None | Panics p \<Rightarrow> Some (Inl (join_panic i p)))"

definition running :: "ls_phase \<Rightarrow> nat list" where
  "running ph = (case ph of Started w n i \<Rightarrow> [i] | Running w n i \<Rightarrow> [i] | _ \<Rightarrow> [])"

definition live :: "('p, 'a) ls_sys \<Rightarrow> nat list" where
  "live s = lset_tasks (lx_set s) @ lx_pass s @ running (lx_phase s)"

inductive ls_step :: "('p, 'a) ls_sys \<Rightarrow> ('p, 'a) ls_sys \<Rightarrow> bool" where
  spawn: "lx_phase s \<noteq> Dropping \<Longrightarrow> local_join_new (lx_globals s) = (g, t) \<Longrightarrow>
    ls_step s (s\<lparr>lx_globals := g, lx_set := spawn_push (lx_set s) (lx_next s), lx_cells := (lx_cells s)(lx_next s := cell_new t),
      lx_next := lx_next s + 1, lx_owed := insert (lx_next s) (lx_owed s), lx_waking := lx_waking s + 1\<rparr>)"
| wake_stores: "i < lx_next s \<Longrightarrow>
    ls_step s (s\<lparr>lx_set := (lx_set s)\<lparr>lset_state := task_wake_store (lset_state (lx_set s))\<rparr>,
      lx_owed := (if i \<in> set (live s) then insert i (lx_owed s) else lx_owed s), lx_waking := lx_waking s + 1\<rparr>)"
| wake_takes: "0 < lx_waking s \<Longrightarrow> task_wake_take (lset_state (lx_set s)) = (st, ws) \<Longrightarrow>
    ls_step s (s\<lparr>lx_set := (lx_set s)\<lparr>lset_state := st\<rparr>, lx_waking := lx_waking s - 1,
      lx_called := (lx_called s \<or> (case lx_driver s of None \<Rightarrow> False | Some w \<Rightarrow> w \<in> set ws))\<rparr>)"
| abort_stores: "i < lx_next s \<Longrightarrow> c = lx_cells s i \<Longrightarrow>
    ls_step s (s\<lparr>lx_cells := (lx_cells s)(i := c\<lparr>lc_join := (lc_join c)\<lparr>lj_state := abort_store (lj_state (lc_join c))\<rparr>, lc_aborting := Suc (lc_aborting c)\<rparr>)\<rparr>)"
| abort_takes: "i < lx_next s \<Longrightarrow> c = lx_cells s i \<Longrightarrow> 0 < lc_aborting c \<Longrightarrow> abort_take (lj_state (lc_join c)) = (cs, wakers) \<Longrightarrow>
    ls_step s (s\<lparr>lx_cells := (lx_cells s)(i := c\<lparr>lc_join := (lc_join c)\<lparr>lj_state := cs\<rparr>, lc_aborting := lc_aborting c - 1\<rparr>),
      lx_set := (if wakers = [] then lx_set s else (lx_set s)\<lparr>lset_state := task_wake_store (lset_state (lx_set s))\<rparr>),
      lx_owed := (if wakers \<noteq> [] \<and> i \<in> set (live s) then insert i (lx_owed s) else lx_owed s),
      lx_waking := lx_waking s + length wakers\<rparr>)"
| enter: "lx_phase s = Idle \<Longrightarrow>
    ls_step s (s\<lparr>lx_set := set_run_waker (lx_set s) (Some w), lx_phase := Entered w, lx_driver := Some w, lx_called := False\<rparr>)"
| future_ready: "lx_phase s = Entered w \<Longrightarrow>
    ls_step s (s\<lparr>lx_set := set_run_waker (lx_set s) None, lx_phase := Idle, lx_driver := None\<rparr>)"
| pass: "lx_phase s = Entered w \<Longrightarrow> tasks_take (lx_set s) = (l, tasks) \<Longrightarrow>
    ls_step s (s\<lparr>lx_set := l, lx_pass := tasks, lx_phase := InPass w (length tasks)\<rparr>)"
| starts: "lx_phase s = InPass w (Suc n) \<Longrightarrow> lx_pass s = i # tasks \<Longrightarrow> c = lx_cells s i \<Longrightarrow>
    ls_step s (s\<lparr>lx_pass := tasks, lx_phase := Started w n i, lx_cells := (lx_cells s)(i := c\<lparr>lc_join := lj_register (lc_join c) i\<rparr>),
      lx_owed := lx_owed s - {i}\<rparr>)"
| cancelled: "lx_phase s = Started w n i \<Longrightarrow> c = lx_cells s i \<Longrightarrow> cs_cancelled (lj_state (lc_join c)) \<Longrightarrow>
    lj_cancel (lx_globals s) (lc_join c) = (g, t, ws) \<Longrightarrow>
    ls_step s (s\<lparr>lx_globals := g, lx_phase := InPass w n, lx_owed := lx_owed s - {i},
      lx_cells := (lx_cells s)(i := cell_end c t (Inl (join_cancelled (cs_id (lj_state (lc_join c))))) ws)\<rparr>)"
| checked: "lx_phase s = Started w n i \<Longrightarrow> \<not> cs_cancelled (lj_state (lc_join (lx_cells s i))) \<Longrightarrow> ls_step s (s\<lparr>lx_phase := Running w n i\<rparr>)"
| polled: "lx_phase s = Running w n i \<Longrightarrow> c = lx_cells s i \<Longrightarrow>
    lj_poll_future expect_panic (lx_globals s) (lc_join c) out = (g, t, res, ws) \<Longrightarrow>
    ls_step s (s\<lparr>lx_globals := g, lx_phase := InPass w n, lx_pass := requeue (lx_pass s) i res,
      lx_owed := (if res = Pending then lx_owed s else lx_owed s - {i}),
      lx_cells := (lx_cells s)(i := (case outcome_result (cs_id (lj_state (lc_join c))) out of
        None \<Rightarrow> c\<lparr>lc_join := t, lc_last := Some out\<rparr> | Some r \<Rightarrow> cell_end (c\<lparr>lc_last := Some out\<rparr>) t r ws))\<rparr>)"
| appends: "lx_phase s = InPass w 0 \<Longrightarrow>
    ls_step s (s\<lparr>lx_set := pass_append (lx_set s) (lx_pass s), lx_pass := [], lx_phase := Appended w\<rparr>)"
| notifies: "lx_phase s = Appended w \<Longrightarrow> pass_notify (lx_set s) w = (l, ws) \<Longrightarrow>
    ls_step s (s\<lparr>lx_set := l, lx_phase := Notified w, lx_called := (lx_called s \<or> w \<in> set ws)\<rparr>)"
| suspends: "lx_phase s = Notified w \<Longrightarrow> ls_step s (s\<lparr>lx_phase := Idle\<rparr>)"
| completes: "lx_phase s = Notified w \<Longrightarrow> lset_is_empty (lx_set s) \<Longrightarrow>
    ls_step s (s\<lparr>lx_set := set_run_waker (lx_set s) None, lx_phase := Idle, lx_driver := None\<rparr>)"
| joins: "i < lx_next s \<Longrightarrow> c = lx_cells s i \<Longrightarrow> lc_rx c \<Longrightarrow>
    join_handle_poll (lj_chan (lc_join c)) True (cs_id (lj_state (lc_join c))) w = (ch, rx, res) \<Longrightarrow>
    ls_step s (s\<lparr>lx_cells := (lx_cells s)(i := c\<lparr>lc_join := (lc_join c)\<lparr>lj_chan := ch\<rparr>, lc_rx := rx,
      lc_joined := (case res of Ready r \<Rightarrow> Some r | Pending \<Rightarrow> None), lc_joiner := (case res of Ready _ \<Rightarrow> None | Pending \<Rightarrow> Some w)\<rparr>)\<rparr>)"
| detaches: "i < lx_next s \<Longrightarrow> c = lx_cells s i \<Longrightarrow> lc_rx c \<Longrightarrow> os_receiver_drop (lj_chan (lc_join c)) True = (ch, ws, b) \<Longrightarrow>
    ls_step s (s\<lparr>lx_cells := (lx_cells s)(i := c\<lparr>lc_join := (lc_join c)\<lparr>lj_chan := ch\<rparr>, lc_rx := False, lc_joiner := None\<rparr>)\<rparr>)"
| drops: "lx_phase s = Idle \<or> lx_phase s = Dropping \<Longrightarrow> lset_tasks (lx_set s) = i # tasks \<Longrightarrow> c = lx_cells s i \<Longrightarrow>
    local_join_drop (lx_globals s) (lc_join c) = (g, t, ws) \<Longrightarrow>
    ls_step s (s\<lparr>lx_globals := g, lx_phase := Dropping, lx_set := (lx_set s)\<lparr>lset_tasks := tasks\<rparr>, lx_owed := lx_owed s - {i},
      lx_cells := (lx_cells s)(i := cell_end c t (Inl (join_cancelled (cs_id (lj_state (lc_join c))))) ws)\<rparr>)"

definition ls_start :: "task_globals \<Rightarrow> ('p, 'a) ls_cell \<Rightarrow> ('p, 'a) ls_sys" where
  "ls_start g c = \<lparr>lx_set = lset_new, lx_pass = [], lx_phase = Idle, lx_cells = (\<lambda>_. c), lx_next = 0, lx_globals = g, lx_owed = {},
     lx_waking = 0, lx_driver = None, lx_called = False\<rparr>"

inductive ls_reach :: "task_globals \<Rightarrow> ('p, 'a) ls_sys \<Rightarrow> bool" where
  start: "ls_reach g (ls_start g c)"
| step: "ls_reach g s \<Longrightarrow> ls_step s s' \<Longrightarrow> ls_reach g s'"

section \<open>One task\<close>

definition cell_live :: "('p, 'a) ls_cell \<Rightarrow> bool" where
  "cell_live c \<longleftrightarrow> lj_future (lc_join c) \<and> lj_sender (lc_join c) \<and> \<not> cs_finished (lj_state (lc_join c)) \<and>
     os_sender_alive (lj_chan (lc_join c)) \<and> os_value (lj_chan (lc_join c)) = None \<and> lc_result c = None \<and> lc_joined c = None \<and>
     (lc_rx c \<longrightarrow> os_receiver_alive (lj_chan (lc_join c))) \<and>
     (\<forall>w. lc_joiner c = Some w \<longrightarrow> lc_rx c \<and> os_recv_waker (lj_chan (lc_join c)) = Some w) \<and>
     (0 < lc_aborting c \<longrightarrow> cs_cancelled (lj_state (lc_join c)))"

text \<open>What a result says of the task: \<open>dropped\<close> is whether the set is being dropped.\<close>

definition cell_result_ok :: "bool \<Rightarrow> ('p, 'a) ls_cell \<Rightarrow> ('p, 'a) join_result \<Rightarrow> bool" where
  "cell_result_ok dropped c r \<longleftrightarrow> (case r of
     Inr v \<Rightarrow> lc_last c = Some (Completes v)
   | Inl e \<Rightarrow> je_id e = cs_id (lj_state (lc_join c)) \<and> (case je_kind e of
       JoinCancelled \<Rightarrow> cs_cancelled (lj_state (lc_join c)) \<or> dropped
     | JoinPanic p \<Rightarrow> lc_last c = Some (Panics p)
     | JoinOther _ \<Rightarrow> False))"

definition cell_done :: "bool \<Rightarrow> ('p, 'a) ls_cell \<Rightarrow> bool" where
  "cell_done dropped c \<longleftrightarrow> \<not> lj_future (lc_join c) \<and> \<not> lj_sender (lc_join c) \<and> cs_finished (lj_state (lc_join c)) \<and> lc_joiner c = None \<and>
     (\<exists>r. lc_result c = Some r \<and> cell_result_ok dropped c r \<and>
       (lc_rx c \<longrightarrow> lc_joined c = None \<and> os_value (lj_chan (lc_join c)) = Some r) \<and> (\<forall>r'. lc_joined c = Some r' \<longrightarrow> r' = r))"

lemma cell_new_live: "local_join_new g = (g', t) \<Longrightarrow> cell_live (cell_new t) \<and> num_alive_tasks g' = num_alive_tasks g + 1"
  by (auto simp: local_join_new_def local_join_channel_def cs_new_def id_next_def cell_new_def cell_live_def os_shared_new_def num_alive_tasks_def)

lemma cell_end_done:
  assumes "cell_live c" "lj_end g (lc_join c) r = (g', t, ws)" "cell_result_ok d c r"
  shows "cell_done d (cell_end c t r ws)" "num_alive_tasks g' = num_alive_tasks g - 1"
proof -
  obtain ch b' r' ws' where send: "os_send (lj_chan (lc_join c)) True r = (ch, r', ws', b')" by (metis prod_cases4)
  with assms(1,2) have eq: "t = (lc_join c)\<lparr>lj_future := False, lj_state := (lj_state (lc_join c))\<lparr>cs_finished := True, cs_waker := None\<rparr>,
      lj_sender := False, lj_chan := ch\<rparr>" "ws = ws'" "g' = g\<lparr>tg_active := tg_active g - 1\<rparr>"
    by (auto simp: lj_end_def cell_live_def cs_finish_eq Let_def)
  show "num_alive_tasks g' = num_alive_tasks g - 1" by (simp add: eq(3) num_alive_tasks_def)
  have "lc_rx c \<Longrightarrow> os_value ch = Some r" using send assms(1) by (auto simp: os_send_def cell_live_def)
  moreover have "case lc_joiner c of None \<Rightarrow> True | Some w \<Rightarrow> w \<in> set ws'" using send assms(1)
    by (auto simp: os_send_def cell_live_def split: option.split)
  ultimately show "cell_done d (cell_end c t r ws)" using assms(1,3) unfolding eq
    by (auto simp: cell_done_def cell_end_def cell_live_def cell_result_ok_def split: option.splits sum.splits join_error_kind.splits)
qed

lemma cell_result_mono:
  "cell_result_ok d c r \<Longrightarrow> lc_last c' = lc_last c \<Longrightarrow> cs_id (lj_state (lc_join c')) = cs_id (lj_state (lc_join c)) \<Longrightarrow>
   (cs_cancelled (lj_state (lc_join c)) \<Longrightarrow> cs_cancelled (lj_state (lc_join c'))) \<Longrightarrow> (d \<Longrightarrow> d') \<Longrightarrow> cell_result_ok d' c' r"
  by (cases r) (auto simp: cell_result_ok_def split: join_error_kind.splits)

lemma cell_done_mono:
  assumes "cell_done d c" "lc_last c' = lc_last c" "cs_id (lj_state (lc_join c')) = cs_id (lj_state (lc_join c))"
    "cs_cancelled (lj_state (lc_join c)) \<Longrightarrow> cs_cancelled (lj_state (lc_join c'))" "d \<Longrightarrow> d'"
    "lj_future (lc_join c') = lj_future (lc_join c)" "lj_sender (lc_join c') = lj_sender (lc_join c)"
    "cs_finished (lj_state (lc_join c')) = cs_finished (lj_state (lc_join c))" "lc_joiner c' = None" "lc_result c' = lc_result c"
    "lc_rx c' \<Longrightarrow> lc_rx c \<and> os_value (lj_chan (lc_join c')) = os_value (lj_chan (lc_join c)) \<and> lc_joined c' = lc_joined c"
    "\<And>r. lc_joined c' = Some r \<Longrightarrow> lc_joined c = Some r \<or> lc_result c = Some r"
  shows "cell_done d' c'"
proof -
  from assms(1) obtain r where r: "lc_result c = Some r" "cell_result_ok d c r"
    "lc_rx c \<longrightarrow> lc_joined c = None \<and> os_value (lj_chan (lc_join c)) = Some r" "\<forall>r'. lc_joined c = Some r' \<longrightarrow> r' = r"
    unfolding cell_done_def by blast
  have "cell_result_ok d' c' r" by (rule cell_result_mono [OF r(2) assms(2-5)])
  moreover have "lc_rx c' \<longrightarrow> lc_joined c' = None \<and> os_value (lj_chan (lc_join c')) = Some r" using assms(11) r(3) by simp
  moreover have "\<forall>r'. lc_joined c' = Some r' \<longrightarrow> r' = r" using assms(12) r(1,4) by fastforce
  ultimately show ?thesis using assms(1,6-10) r(1) unfolding cell_done_def by simp
qed

text \<open>What the handles do to a task.\<close>

lemma cell_abort_store:
  fixes c :: "('p, 'a) ls_cell"
  defines "c' \<equiv> c\<lparr>lc_join := (lc_join c)\<lparr>lj_state := abort_store (lj_state (lc_join c))\<rparr>, lc_aborting := Suc (lc_aborting c)\<rparr>"
  shows "cell_live c \<Longrightarrow> cell_live c'" "cell_done d c \<Longrightarrow> cell_done d c'"
proof -
  show "cell_live c \<Longrightarrow> cell_live c'" by (simp add: c'_def cell_live_def abort_store_def)
  show "cell_done d c'" if "cell_done d c" using that
    by (rule cell_done_mono) (use that in \<open>simp_all add: c'_def abort_store_def cell_done_def\<close>)
qed

lemma cell_abort_take:
  fixes c :: "('p, 'a) ls_cell"
  assumes "abort_take (lj_state (lc_join c)) = (cs, ws)"
  defines "c' \<equiv> c\<lparr>lc_join := (lc_join c)\<lparr>lj_state := cs\<rparr>, lc_aborting := lc_aborting c - 1\<rparr>"
  shows "cell_live c \<Longrightarrow> cell_live c'" "cell_done d c \<Longrightarrow> cell_done d c'"
proof -
  have cs: "cs = (lj_state (lc_join c))\<lparr>cs_waker := None\<rparr>" using assms(1) by (simp add: abort_take_def)
  show "cell_live c \<Longrightarrow> cell_live c'" by (simp add: c'_def cell_live_def cs)
  show "cell_done d c'" if "cell_done d c" using that
    by (rule cell_done_mono) (use that in \<open>simp_all add: c'_def cs cell_done_def\<close>)
qed

lemma cell_joins:
  fixes c :: "('p, 'a) ls_cell"
  assumes "join_handle_poll (lj_chan (lc_join c)) True i w = (ch, rx, res)" "lc_rx c"
  defines "c' \<equiv> c\<lparr>lc_join := (lc_join c)\<lparr>lj_chan := ch\<rparr>, lc_rx := rx,
      lc_joined := (case res of Ready r \<Rightarrow> Some r | Pending \<Rightarrow> None), lc_joiner := (case res of Ready _ \<Rightarrow> None | Pending \<Rightarrow> Some w)\<rparr>"
  shows "cell_live c \<Longrightarrow> cell_live c'" "cell_done d c \<Longrightarrow> cell_done d c'"
proof -
  assume live: "cell_live c"
  then have "join_handle_poll (lj_chan (lc_join c)) True i w = ((lj_chan (lc_join c))\<lparr>os_recv_waker := Some w\<rparr>, True, Pending)"
    using assms(2) by (simp add: cell_live_def join_handle_poll_def os_recv_poll_def)
  with assms(1) have "ch = (lj_chan (lc_join c))\<lparr>os_recv_waker := Some w\<rparr>" "rx" "res = Pending" by simp_all
  with live assms(2) show "cell_live c'" by (simp add: c'_def cell_live_def)
next
  assume fin: "cell_done d c"
  then obtain r where r: "lc_result c = Some r" "os_value (lj_chan (lc_join c)) = Some r" using assms(2) by (auto simp: cell_done_def)
  then have "join_handle_poll (lj_chan (lc_join c)) True i w = ((lj_chan (lc_join c))\<lparr>os_value := None\<rparr>, False, Ready r)"
    by (simp add: join_handle_poll_def os_recv_poll_def)
  with assms(1) have "ch = (lj_chan (lc_join c))\<lparr>os_value := None\<rparr>" "\<not> rx" "res = Ready r" by simp_all
  with r fin show "cell_done d c'" by (intro cell_done_mono [OF fin]) (simp_all add: c'_def)
qed

lemma cell_detaches:
  fixes c :: "('p, 'a) ls_cell"
  assumes "os_receiver_drop (lj_chan (lc_join c)) True = (ch, ws, b)"
  defines "c' \<equiv> c\<lparr>lc_join := (lc_join c)\<lparr>lj_chan := ch\<rparr>, lc_rx := False, lc_joiner := None\<rparr>"
  shows "cell_live c \<Longrightarrow> cell_live c'" "cell_done d c \<Longrightarrow> cell_done d c'"
proof -
  have "os_value ch = os_value (lj_chan (lc_join c))" "os_sender_alive ch = os_sender_alive (lj_chan (lc_join c))"
    using assms(1) by (auto simp: os_receiver_drop_def)
  then show "cell_live c \<Longrightarrow> cell_live c'" by (simp add: c'_def cell_live_def)
  show "cell_done d c'" if "cell_done d c" using that by (rule cell_done_mono) (simp_all add: c'_def)
qed

lemma cell_registers: "cell_live c \<Longrightarrow> cell_live (c\<lparr>lc_join := lj_register (lc_join c) w\<rparr>)"
  by (simp add: cell_live_def lj_register_def cs_register_def)

lemma cell_done_dropped:
  assumes "cell_done d c"
  shows "cell_done True c"
  using assms by (rule cell_done_mono) (use assms in \<open>simp_all add: cell_done_def\<close>)

lemma cell_polled:
  assumes "cell_live c" "lj_poll_future e g (lc_join c) out = (g', t, res, ws)"
  defines "c' \<equiv> (case outcome_result (cs_id (lj_state (lc_join c))) out of
        None \<Rightarrow> c\<lparr>lc_join := t, lc_last := Some out\<rparr> | Some r \<Rightarrow> cell_end (c\<lparr>lc_last := Some out\<rparr>) t r ws)"
  shows "res = Pending \<and> t = lc_join c \<and> g' = g \<and> cell_live c' \<or> res = Ready () \<and> cell_done d c' \<and> num_alive_tasks g' = num_alive_tasks g - 1"
proof -
  have fut: "lj_future (lc_join c)" and live: "cell_live (c\<lparr>lc_last := Some out\<rparr>)" using assms(1) by (simp_all add: cell_live_def)
  show ?thesis
  proof (cases "outcome_result (cs_id (lj_state (lc_join c))) out")
    case None
    then have "out = Suspends" by (cases out) (simp_all add: outcome_result_def)
    then show ?thesis using assms(1,2) fut by (simp add: c'_def outcome_result_def lj_poll_future_def cell_live_def)
  next
    case (Some r)
    then have "lj_end g (lc_join (c\<lparr>lc_last := Some out\<rparr>)) r = (g', t, ws)" "res = Ready ()"
      using assms(2) fut by (cases out; simp add: outcome_result_def lj_poll_future_def split: prod.splits)+
    moreover have "cell_result_ok d (c\<lparr>lc_last := Some out\<rparr>) r"
      using Some by (cases out) (auto simp: outcome_result_def cell_result_ok_def join_panic_def)
    ultimately show ?thesis using cell_end_done [OF live] Some by (simp add: c'_def)
  qed
qed

lemma cell_cancelled:
  assumes "cell_live c" "lj_cancel g (lc_join c) = (g', t, ws)" "cs_cancelled (lj_state (lc_join c)) \<or> d"
  shows "cell_done d (cell_end c t (Inl (join_cancelled (cs_id (lj_state (lc_join c))))) ws)" "num_alive_tasks g' = num_alive_tasks g - 1"
proof -
  have "cell_result_ok d c (Inl (join_cancelled (cs_id (lj_state (lc_join c)))))" using assms(3) by (simp add: cell_result_ok_def join_cancelled_def)
  from cell_end_done [OF assms(1) _ this] assms(2)
  show "cell_done d (cell_end c t (Inl (join_cancelled (cs_id (lj_state (lc_join c))))) ws)" "num_alive_tasks g' = num_alive_tasks g - 1"
    unfolding lj_cancel_def by blast+
qed

section \<open>Every task is polled, and its result sent\<close>

text \<open>The queues hold the tasks that have not ended, each once.\<close>

definition pass_ok :: "ls_phase \<Rightarrow> nat list \<Rightarrow> bool" where
  "pass_ok ph tasks \<longleftrightarrow> (case ph of
     InPass w n \<Rightarrow> n \<le> length tasks
   | Started w n i \<Rightarrow> n \<le> length tasks
   | Running w n i \<Rightarrow> n \<le> length tasks
   | _ \<Rightarrow> tasks = [])"

definition queue_inv :: "('p, 'a) ls_sys \<Rightarrow> bool" where
  "queue_inv s \<longleftrightarrow> distinct (live s) \<and> set (live s) \<subseteq> {..<lx_next s} \<and> lx_owed s \<subseteq> set (live s) \<and> pass_ok (lx_phase s) (lx_pass s)"

definition cells_inv :: "('p, 'a) ls_sys \<Rightarrow> bool" where
  "cells_inv s \<longleftrightarrow> (\<forall>i < lx_next s. i \<in> set (live s) \<longrightarrow> cell_live (lx_cells s i)) \<and>
     (\<forall>i < lx_next s. i \<notin> set (live s) \<longrightarrow> cell_done (lx_phase s = Dropping) (lx_cells s i))"

definition alive_inv :: "task_globals \<Rightarrow> ('p, 'a) ls_sys \<Rightarrow> bool" where
  "alive_inv g s \<longleftrightarrow> num_alive_tasks (lx_globals s) = num_alive_tasks g + of_nat (length (live s))"

lemmas ls_op_defs = spawn_push_def task_wake_store_def task_wake_take_def set_run_waker_def tasks_take_def pass_append_def pass_notify_def requeue_def

lemma queue_inv_step: "ls_step s s' \<Longrightarrow> queue_inv s \<Longrightarrow> queue_inv s'"
proof (induction rule: ls_step.induct)
  case (spawn s g t)
  then show ?case by (cases "lx_phase s") (auto simp: queue_inv_def live_def pass_ok_def running_def spawn_push_def)
next
  case (wake_stores i s)
  then show ?case by (auto simp: queue_inv_def live_def)
next
  case (wake_takes s st ws)
  then show ?case by (simp add: queue_inv_def live_def)
next
  case (abort_takes i s c cs wakers)
  then show ?case by (auto simp: queue_inv_def live_def)
next
  case (pass s w l tasks)
  then show ?case by (auto simp: queue_inv_def live_def pass_ok_def running_def tasks_take_def)
next
  case (starts s w n i tasks c)
  then show ?case by (auto simp: queue_inv_def live_def pass_ok_def running_def)
next
  case (cancelled s w n i c g t ws)
  then show ?case by (auto simp: queue_inv_def live_def pass_ok_def running_def)
next
  case (polled s w n i c e out g t res ws)
  then show ?case by (cases res) (auto simp: queue_inv_def live_def pass_ok_def running_def requeue_def)
next
  case (appends s w)
  then show ?case by (auto simp: queue_inv_def live_def pass_ok_def running_def pass_append_def)
next
  case (notifies s w l ws)
  then show ?case by (auto simp: queue_inv_def live_def pass_ok_def running_def pass_notify_def)
next
  case (drops s i tasks c g t ws)
  then show ?case by (auto simp: queue_inv_def live_def pass_ok_def running_def)
qed (auto simp: queue_inv_def live_def running_def pass_ok_def set_run_waker_def)

text \<open>A step changes one cell at most, and what is in the queues at one place.\<close>

lemma cells_inv_update:
  assumes "cells_inv s" "lx_next s' = lx_next s" "lx_cells s' = (lx_cells s)(i := c)" "set (live s') - {i} = set (live s) - {i}"
    "lx_phase s = Dropping \<Longrightarrow> lx_phase s' = Dropping" "i \<in> set (live s') \<Longrightarrow> cell_live c" "i \<notin> set (live s') \<Longrightarrow> cell_done (lx_phase s' = Dropping) c"
  shows "cells_inv s'"
proof -
  have drop: "cell_done (lx_phase s' = Dropping) (lx_cells s j)" if "cell_done (lx_phase s = Dropping) (lx_cells s j)" for j
    using that assms(5) cell_done_dropped by (cases "lx_phase s = Dropping"; cases "lx_phase s' = Dropping") auto
  have mem: "j \<in> set (live s') \<longleftrightarrow> j \<in> set (live s)" if "j \<noteq> i" for j using that assms(4) by blast
  have "cell_live (lx_cells s' j)" if "j < lx_next s'" "j \<in> set (live s')" for j
    using that assms(1-3,6) mem unfolding cells_inv_def by (cases "j = i") auto
  moreover have "cell_done (lx_phase s' = Dropping) (lx_cells s' j)" if "j < lx_next s'" "j \<notin> set (live s')" for j
    using that assms(1-3,7) mem drop unfolding cells_inv_def by (cases "j = i") auto
  ultimately show ?thesis unfolding cells_inv_def by blast
qed

lemma cells_inv_same:
  assumes "cells_inv s" "lx_next s' = lx_next s" "lx_cells s' = lx_cells s" "set (live s') = set (live s)" "lx_phase s = Dropping \<longleftrightarrow> lx_phase s' = Dropping"
  shows "cells_inv s'"
  using assms(1) unfolding cells_inv_def assms(2-5) .

lemma cells_inv_step: "ls_step s s' \<Longrightarrow> queue_inv s \<Longrightarrow> cells_inv s \<Longrightarrow> cells_inv s'"
proof (induction rule: ls_step.induct)
  case (spawn s g t)
  then have "lx_next s \<notin> set (live s)" by (auto simp: queue_inv_def)
  with spawn cell_new_live [OF spawn(2)] show ?case by (auto simp: cells_inv_def live_def spawn_push_def less_Suc_eq)
next
  case (wake_stores i s)
  then show ?case by (intro cells_inv_same [OF wake_stores(3)]) (simp_all add: live_def)
next
  case (wake_takes s st ws)
  then show ?case by (intro cells_inv_same [OF wake_takes(4)]) (simp_all add: live_def)
next
  case (abort_stores i s c)
  then have "i \<in> set (live s) \<Longrightarrow> cell_live c" "i \<notin> set (live s) \<Longrightarrow> cell_done (lx_phase s = Dropping) c" by (simp_all add: cells_inv_def)
  then show ?case by (intro cells_inv_update [OF abort_stores(4)]) (auto simp: live_def intro: cell_abort_store)
next
  case (abort_takes i s c cs wakers)
  then have "i \<in> set (live s) \<Longrightarrow> cell_live c" "i \<notin> set (live s) \<Longrightarrow> cell_done (lx_phase s = Dropping) c" by (simp_all add: cells_inv_def)
  then show ?case by (intro cells_inv_update [OF abort_takes(6)]) (auto simp: live_def intro: cell_abort_take [OF abort_takes(4), simplified] split: if_splits)
next
  case (enter s w)
  then show ?case by (intro cells_inv_same [OF enter(3)]) (simp_all add: live_def running_def set_run_waker_def)
next
  case (future_ready s w)
  then show ?case by (intro cells_inv_same [OF future_ready(3)]) (simp_all add: live_def running_def set_run_waker_def)
next
  case (pass s w l tasks)
  then show ?case by (intro cells_inv_same [OF pass(4)]) (auto simp: live_def running_def tasks_take_def queue_inv_def pass_ok_def)
next
  case (starts s w n i tasks c)
  then have "cell_live c" by (auto simp: cells_inv_def queue_inv_def live_def)
  with starts show ?case by (intro cells_inv_update [OF starts(5), where i = i and c = "c\<lparr>lc_join := lj_register (lc_join c) i\<rparr>"]) (auto simp: live_def running_def cell_registers)
next
  case (cancelled s w n i c g t ws)
  then have "cell_live c" "i \<notin> set (lset_tasks (lx_set s)) \<union> set (lx_pass s)" by (auto simp: cells_inv_def queue_inv_def live_def running_def)
  with cancelled cell_cancelled(1) [OF this(1) cancelled(4), of False] show ?case
    by (intro cells_inv_update [OF cancelled(6), where i = i and c = "cell_end c t (Inl (join_cancelled (cs_id (lj_state (lc_join c))))) ws"])
      (auto simp: live_def running_def)
next
  case (checked s w n i)
  then show ?case by (intro cells_inv_same [OF checked(4)]) (simp_all add: live_def running_def)
next
  case (polled s w n i c e out g t res ws)
  then have "cell_live c" "i \<notin> set (lset_tasks (lx_set s)) \<union> set (lx_pass s)"
    by (auto simp: cells_inv_def queue_inv_def live_def running_def)
  with polled cell_polled [OF this(1) polled(3), of False] show ?case
    by (intro cells_inv_update [OF polled(5), where i = i and c = "case outcome_result (cs_id (lj_state (lc_join c))) out of
        None \<Rightarrow> c\<lparr>lc_join := t, lc_last := Some out\<rparr> | Some r \<Rightarrow> cell_end (c\<lparr>lc_last := Some out\<rparr>) t r ws"]) (auto simp: live_def running_def requeue_def)
next
  case (appends s w)
  then show ?case by (intro cells_inv_same [OF appends(3)]) (auto simp: live_def running_def pass_append_def)
next
  case (notifies s w l ws)
  then show ?case by (intro cells_inv_same [OF notifies(4)]) (auto simp: live_def running_def pass_notify_def)
next
  case (suspends s w)
  then show ?case by (intro cells_inv_same [OF suspends(3)]) (auto simp: live_def running_def)
next
  case (completes s w)
  then show ?case by (intro cells_inv_same [OF completes(4)]) (auto simp: live_def running_def set_run_waker_def)
next
  case (joins i s c w ch rx res)
  then have "i \<in> set (live s) \<Longrightarrow> cell_live c" "i \<notin> set (live s) \<Longrightarrow> cell_done (lx_phase s = Dropping) c" by (simp_all add: cells_inv_def)
  then show ?case by (intro cells_inv_update [OF joins(6)]) (auto simp: live_def intro: cell_joins [OF joins(4,3)])
next
  case (detaches i s c ch ws b)
  then have "i \<in> set (live s) \<Longrightarrow> cell_live c" "i \<notin> set (live s) \<Longrightarrow> cell_done (lx_phase s = Dropping) c" by (simp_all add: cells_inv_def)
  then show ?case by (intro cells_inv_update [OF detaches(6)]) (auto simp: live_def intro: cell_detaches [OF detaches(4)])
next
  case (drops s i tasks c g t ws)
  then have "cell_live c" "i \<notin> set tasks \<union> set (lx_pass s)" by (auto simp: cells_inv_def queue_inv_def live_def)
  with drops cell_cancelled(1) [OF this(1) drops(4) [unfolded local_join_drop_def], of True] show ?case
    by (intro cells_inv_update [OF drops(6), where i = i and c = "cell_end c t (Inl (join_cancelled (cs_id (lj_state (lc_join c))))) ws"])
      (auto simp: live_def running_def)
qed

lemma alive_inv_step: "ls_step s s' \<Longrightarrow> queue_inv s \<Longrightarrow> cells_inv s \<Longrightarrow> alive_inv g0 s \<Longrightarrow> alive_inv g0 s'"
proof (induction rule: ls_step.induct)
  case (spawn s g t)
  then show ?case using cell_new_live [OF spawn(2)] by (simp add: alive_inv_def live_def spawn_push_def)
next
  case (cancelled s w n i c g t ws)
  then have "cell_live c" by (auto simp: cells_inv_def queue_inv_def live_def running_def)
  from cell_cancelled(2) [OF this cancelled(4), of False] cancelled show ?case by (simp add: alive_inv_def live_def running_def)
next
  case (polled s w n i c e out g t res ws)
  then have "cell_live c" by (auto simp: cells_inv_def queue_inv_def live_def running_def)
  from cell_polled [OF this polled(3), of False] polled show ?case by (auto simp: alive_inv_def live_def running_def requeue_def)
next
  case (drops s i tasks c g t ws)
  then have "cell_live c" by (auto simp: cells_inv_def queue_inv_def live_def)
  from cell_cancelled(2) [OF this drops(4) [unfolded local_join_drop_def], of True] drops show ?case
    by (auto simp: alive_inv_def live_def running_def)
next
  case (pass s w l tasks)
  then show ?case by (auto simp: alive_inv_def live_def running_def tasks_take_def queue_inv_def pass_ok_def)
next
  case (appends s w)
  then show ?case by (auto simp: alive_inv_def live_def running_def pass_append_def)
next
  case (notifies s w l ws)
  then show ?case by (auto simp: alive_inv_def live_def running_def pass_notify_def)
qed (simp_all add: alive_inv_def live_def running_def set_run_waker_def)

section \<open>No wake-up is lost\<close>

definition driver_of :: "ls_phase \<Rightarrow> waker option" where
  "driver_of ph = (case ph of Entered w \<Rightarrow> Some w | InPass w n \<Rightarrow> Some w | Started w n i \<Rightarrow> Some w | Running w n i \<Rightarrow> Some w
     | Appended w \<Rightarrow> Some w | Notified w \<Rightarrow> Some w | _ \<Rightarrow> None)"

text \<open>The tasks that the pass has still to poll.\<close>

definition due :: "ls_phase \<Rightarrow> nat list \<Rightarrow> nat set option" where
  "due ph tasks = (case ph of
     InPass w n \<Rightarrow> Some (set (take n tasks))
   | Started w n i \<Rightarrow> Some (set (take n tasks))
   | Running w n i \<Rightarrow> Some (set (take n tasks))
   | Appended w \<Rightarrow> Some {}
   | _ \<Rightarrow> None)"

definition wake_inv :: "('p, 'a) ls_sys \<Rightarrow> bool" where
  "wake_inv s \<longleftrightarrow>
     (\<forall>w. driver_of (lx_phase s) = Some w \<longrightarrow> lx_driver s = Some w) \<and>
     (\<forall>w. lx_driver s = Some w \<and> \<not> lx_called s \<longrightarrow> ls_run_waker (lset_state (lx_set s)) = Some w) \<and>
     ((lx_phase s = Idle \<or> (\<exists>w. lx_phase s = Notified w)) \<and> lx_driver s \<noteq> None \<and> \<not> lx_called s \<and> lx_waking s = 0 \<longrightarrow> lx_owed s = {}) \<and>
     (\<forall>d. due (lx_phase s) (lx_pass s) = Some d \<longrightarrow> lx_owed s \<subseteq> d \<or> ls_notified (lset_state (lx_set s)))"

lemma wake_inv_step: "ls_step s s' \<Longrightarrow> queue_inv s \<Longrightarrow> wake_inv s \<Longrightarrow> wake_inv s'"
proof (induction rule: ls_step.induct)
  case (spawn s g t)
  then show ?case by (simp add: wake_inv_def spawn_push_def)
next
  case (wake_stores i s)
  then show ?case by (simp add: wake_inv_def task_wake_store_def)
next
  case (wake_takes s st ws)
  then show ?case by (auto simp: wake_inv_def task_wake_take_def)
next
  case (abort_takes i s c cs wakers)
  then show ?case by (cases "wakers = []") (auto simp: wake_inv_def task_wake_store_def)
next
  case (enter s w)
  then show ?case by (simp add: wake_inv_def set_run_waker_def driver_of_def due_def)
next
  case (future_ready s w)
  then show ?case by (simp add: wake_inv_def set_run_waker_def driver_of_def due_def)
next
  case (pass s w l tasks)
  then show ?case by (auto simp: wake_inv_def driver_of_def due_def tasks_take_def queue_inv_def live_def running_def pass_ok_def)
next
  case (starts s w n i tasks c)
  then show ?case by (auto simp: wake_inv_def driver_of_def due_def)
next
  case (cancelled s w n i c g t ws)
  then show ?case by (auto simp: wake_inv_def driver_of_def due_def)
next
  case (checked s w n i)
  then show ?case by (simp add: wake_inv_def driver_of_def due_def)
next
  case (polled s w n i c e out g t res ws)
  then have "set (take n (requeue (lx_pass s) i res)) = set (take n (lx_pass s))" by (cases res) (simp_all add: requeue_def queue_inv_def pass_ok_def)
  with polled show ?case by (auto simp: wake_inv_def driver_of_def due_def)
next
  case (appends s w)
  then show ?case by (auto simp: wake_inv_def driver_of_def due_def pass_append_def)
next
  case (notifies s w l ws)
  then show ?case by (auto simp: wake_inv_def driver_of_def due_def pass_notify_def split: if_splits)
next
  case (suspends s w)
  then show ?case by (auto simp: wake_inv_def driver_of_def due_def)
next
  case (completes s w)
  then show ?case by (auto simp: wake_inv_def driver_of_def due_def)
next
  case (drops s i tasks c g t ws)
  then show ?case by (auto simp: wake_inv_def driver_of_def due_def)
qed (simp_all add: wake_inv_def)

text \<open>An abort reaches its task: as long as the task has not been woken by it, the call is still under way and will find a waker.\<close>

definition cell_listens :: "ls_phase \<Rightarrow> nat set \<Rightarrow> nat \<Rightarrow> ('p, 'a) ls_cell \<Rightarrow> bool" where
  "cell_listens ph owed i c \<longleftrightarrow>
     (if \<exists>w n. ph = Started w n i then cs_waker (lj_state (lc_join c)) \<noteq> None \<or> cs_cancelled (lj_state (lc_join c))
      else i \<in> owed \<or> cs_waker (lj_state (lc_join c)) \<noteq> None \<and> (cs_cancelled (lj_state (lc_join c)) \<longrightarrow> 0 < lc_aborting c))"

definition abort_inv :: "('p, 'a) ls_sys \<Rightarrow> bool" where
  "abort_inv s \<longleftrightarrow> (\<forall>i \<in> set (live s). cell_listens (lx_phase s) (lx_owed s) i (lx_cells s i))"

definition started :: "ls_phase \<Rightarrow> nat option" where
  "started ph = (case ph of Started w n i \<Rightarrow> Some i | _ \<Rightarrow> None)"

lemma abort_inv_update:
  assumes "abort_inv s" "i \<in> set (live s') \<Longrightarrow> cell_listens (lx_phase s') (lx_owed s') i (lx_cells s' i)"
    "\<And>j. j \<noteq> i \<Longrightarrow> lx_cells s' j = lx_cells s j" "set (live s') - {i} \<subseteq> set (live s)" "lx_owed s - {i} \<subseteq> lx_owed s'"
    "\<And>j. j \<noteq> i \<Longrightarrow> started (lx_phase s') = Some j \<longleftrightarrow> started (lx_phase s) = Some j"
  shows "abort_inv s'"
  unfolding abort_inv_def
proof
  fix j assume j: "j \<in> set (live s')"
  have st: "(\<exists>w n. ph = Started w n k) \<longleftrightarrow> started ph = Some k" for ph k by (cases ph) (auto simp: started_def)
  show "cell_listens (lx_phase s') (lx_owed s') j (lx_cells s' j)"
  proof (cases "j = i")
    case False
    then have "cell_listens (lx_phase s) (lx_owed s) j (lx_cells s j)" using assms(1,4) j unfolding abort_inv_def by blast
    then show ?thesis using False assms(3,5,6) unfolding cell_listens_def st by (auto split: if_splits)
  qed (use assms(2) j in simp)
qed

lemma abort_inv_same:
  assumes "abort_inv s" "lx_cells s' = lx_cells s" "set (live s') \<subseteq> set (live s)" "lx_owed s \<subseteq> lx_owed s'" "started (lx_phase s') = started (lx_phase s)"
  shows "abort_inv s'"
proof -
  obtain i where "i \<notin> set (live s')" using ex_new_if_finite [OF infinite_UNIV_nat finite_set] by blast
  then show ?thesis by (intro abort_inv_update [OF assms(1), where i = i]) (use assms in auto)
qed

lemma abort_inv_step: "ls_step s s' \<Longrightarrow> queue_inv s \<Longrightarrow> cells_inv s \<Longrightarrow> abort_inv s \<Longrightarrow> abort_inv s'"
proof (induction rule: ls_step.induct)
  case (spawn s g t)
  then have "started (lx_phase s) \<noteq> Some (lx_next s)" by (cases "lx_phase s") (auto simp: started_def queue_inv_def live_def running_def)
  with spawn show ?case
    by (intro abort_inv_update [OF spawn(5), where i = "lx_next s"]) (auto simp: live_def spawn_push_def cell_listens_def started_def)
next
  case (wake_stores i s)
  then show ?case by (intro abort_inv_same [OF wake_stores(4)]) (auto simp: live_def)
next
  case (wake_takes s st ws)
  then show ?case by (intro abort_inv_same [OF wake_takes(5)]) (auto simp: live_def)
next
  case (abort_stores i s c)
  then have "i \<in> set (live s) \<Longrightarrow> cell_listens (lx_phase s) (lx_owed s) i c" by (simp add: abort_inv_def)
  then show ?case by (intro abort_inv_update [OF abort_stores(5), where i = i]) (auto simp: live_def abort_store_def cell_listens_def)
next
  case (abort_takes i s c cs wakers)
  have "i \<in> set (live s) \<Longrightarrow> cs_cancelled (lj_state (lc_join c))" using abort_takes by (auto simp: cells_inv_def cell_live_def)
  moreover have "i \<in> set (live s) \<Longrightarrow> cell_listens (lx_phase s) (lx_owed s) i c" using abort_takes by (simp add: abort_inv_def)
  moreover have "cs = (lj_state (lc_join c))\<lparr>cs_waker := None\<rparr>" "wakers = [] \<longleftrightarrow> cs_waker (lj_state (lc_join c)) = None"
    using abort_takes(4) by (auto simp: abort_take_def split: option.splits)
  moreover have "set (live (s\<lparr>lx_cells := f, lx_set := (if wakers = [] then lx_set s else (lx_set s)\<lparr>lset_state := st\<rparr>), lx_owed := ow, lx_waking := n\<rparr>)) =
      set (live s)" for f st ow n by (simp add: live_def)
  ultimately show ?case by (intro abort_inv_update [OF abort_takes(7), where i = i]) (auto simp: cell_listens_def)
next
  case (enter s w)
  then show ?case by (intro abort_inv_same [OF enter(4)]) (auto simp: live_def running_def set_run_waker_def started_def)
next
  case (future_ready s w)
  then show ?case by (intro abort_inv_same [OF future_ready(4)]) (auto simp: live_def running_def set_run_waker_def started_def)
next
  case (pass s w l tasks)
  then show ?case by (intro abort_inv_same [OF pass(5)]) (auto simp: live_def running_def tasks_take_def started_def)
next
  case (starts s w n i tasks c)
  then show ?case by (intro abort_inv_update [OF starts(6), where i = i])
    (auto simp: live_def running_def lj_register_def cs_register_def cell_listens_def started_def split: option.splits)
next
  case (cancelled s w n i c g t ws)
  then show ?case by (intro abort_inv_update [OF cancelled(7), where i = i]) (auto simp: live_def running_def queue_inv_def started_def)
next
  case (checked s w n i)
  then have "cell_live (lx_cells s i)" "cell_listens (lx_phase s) (lx_owed s) i (lx_cells s i)"
    by (auto simp: cells_inv_def abort_inv_def queue_inv_def live_def running_def)
  with checked show ?case by (intro abort_inv_update [OF checked(5), where i = i]) (auto simp: live_def running_def started_def cell_listens_def cell_live_def)
next
  case (polled s w n i c e out g t res ws)
  then have "cell_live c" and l: "cell_listens (lx_phase s) (lx_owed s) i c" "i \<notin> set (lset_tasks (lx_set s)) \<union> set (lx_pass s)"
    by (auto simp: cells_inv_def abort_inv_def queue_inv_def live_def running_def)
  from this(1) cell_polled [OF this(1) polled(3), of False] have "res = Pending \<and> t = lc_join c \<and> out = Suspends \<or> res = Ready ()"
    using polled(3) by (cases out) (auto simp: lj_poll_future_def cell_live_def split: prod.splits)
  with polled l show ?case by (intro abort_inv_update [OF polled(6), where i = i])
    (auto simp: live_def running_def requeue_def outcome_result_def cell_listens_def started_def)
next
  case (appends s w)
  then show ?case by (intro abort_inv_same [OF appends(4)]) (auto simp: live_def running_def pass_append_def started_def)
next
  case (notifies s w l ws)
  then show ?case by (intro abort_inv_same [OF notifies(5)]) (auto simp: live_def running_def pass_notify_def started_def)
next
  case (suspends s w)
  then show ?case by (intro abort_inv_same [OF suspends(4)]) (auto simp: live_def running_def started_def)
next
  case (completes s w)
  then show ?case by (intro abort_inv_same [OF completes(5)]) (auto simp: live_def running_def set_run_waker_def started_def)
next
  case (joins i s c w ch rx res)
  then have "i \<in> set (live s) \<Longrightarrow> cell_listens (lx_phase s) (lx_owed s) i c" by (simp add: abort_inv_def)
  then show ?case by (intro abort_inv_update [OF joins(7), where i = i]) (auto simp: live_def cell_listens_def)
next
  case (detaches i s c ch ws b)
  then have "i \<in> set (live s) \<Longrightarrow> cell_listens (lx_phase s) (lx_owed s) i c" by (simp add: abort_inv_def)
  then show ?case by (intro abort_inv_update [OF detaches(7), where i = i]) (auto simp: live_def cell_listens_def)
next
  case (drops s i tasks c g t ws)
  then show ?case by (intro abort_inv_update [OF drops(7), where i = i]) (auto simp: live_def running_def queue_inv_def started_def)
qed

lemma ls_reach_inv: "ls_reach g s \<Longrightarrow> queue_inv s \<and> cells_inv s \<and> alive_inv g s \<and> wake_inv s \<and> abort_inv s"
proof (induction rule: ls_reach.induct)
  case (start g c)
  then show ?case
    by (simp add: ls_start_def lset_new_def queue_inv_def cells_inv_def alive_inv_def wake_inv_def abort_inv_def live_def running_def pass_ok_def driver_of_def due_def)
next
  case (step g s s')
  then show ?case using queue_inv_step cells_inv_step alive_inv_step wake_inv_step abort_inv_step by blast
qed

section \<open>Passes\<close>

text \<open>
  A pass polls every task that was queued when it began, once and in order; those that are not done come after the tasks spawned
  meanwhile. \<open>spawned t\<close> are the tasks that \<open>t\<close> spawns in its poll.
\<close>

lemma poll_tasks_loop_order:
  assumes "\<And>l t. poll l t = (l\<lparr>lset_tasks := lset_tasks l @ spawned t\<rparr>, t, res t)"
  shows "poll_tasks_loop poll (length ts) l (ts @ acc) =
    (l\<lparr>lset_tasks := lset_tasks l @ concat (map spawned ts)\<rparr>, acc @ filter (\<lambda>t. res t = Pending) ts)"
proof (induction ts arbitrary: l acc)
  case (Cons t ts)
  show ?case
  proof (cases "res t")
    case Pending
    then show ?thesis using Cons.IH [of _ "acc @ [t]"] by (simp add: assms requeue_def)
  next
    case (Ready u)
    then show ?thesis using Cons.IH [of _ acc] by (simp add: assms requeue_def)
  qed
qed simp

lemma poll_tasks_order:
  assumes "\<And>l t. poll l t = (l\<lparr>lset_tasks := lset_tasks l @ spawned t\<rparr>, t, res t)"
  shows "lset_tasks (fst (poll_tasks poll l cx)) = concat (map spawned (lset_tasks l)) @ filter (\<lambda>t. res t = Pending) (lset_tasks l)"
  using poll_tasks_loop_order [OF assms, of "lset_tasks l" "l\<lparr>lset_tasks := []\<rparr>" "[]"]
  by (simp add: poll_tasks_def tasks_take_def pass_end_def pass_append_def pass_notify_def Let_def)

section \<open>Two drivers\<close>

text \<open>
  A set has room for the waker of one driver, and a driver that completes removes it, whoever it belongs to. When two calls of
  \<open>run_until\<close> share a set and one completes, a task that is woken afterwards wakes nobody, and the other driver is not polled for it.
\<close>

lemma run_until_removes_waker:
  assumes "run_until_poll poll poll_future l future cx = (l', future', Ready v, ws)"
  shows "snd (local_task_wake (lset_state l')) = [] \<and> ws = []"
  using assms by (auto simp: run_until_poll_def set_run_waker_def local_task_wake_def task_wake_take_def task_wake_store_def Let_def
      split: prod.splits poll.splits)

section \<open>Scopes\<close>

text \<open>Entering and leaving are nested, so the current set, and the current value of a key, are those of before.\<close>

lemma local_enter_leave: "local_enter current local = (current', previous) \<Longrightarrow> local_leave current'' previous = current"
  by (simp add: local_enter_def local_leave_def)

lemma sync_scope_restores:
  assumes "lk_borrowed k = 0" "body (k\<lparr>lk_stack := v # lk_stack k\<rparr>) = Inr (k\<lparr>lk_stack := v # lk_stack k\<rparr>, r)"
  shows "sync_scope v body k = Inr (k, r)"
  using assms by (simp add: sync_scope_def key_enter_def key_leave_def)

lemma key_get_in_scope: "lk_borrowed k = 0 \<Longrightarrow> sync_scope v key_get k = Inr (k, v)"
  by (rule sync_scope_restores) (simp_all add: key_get_def key_with_def try_with_def)

lemma key_with_outside: "lk_stack k = [] \<Longrightarrow> key_with body k = Inl ''task-local value accessed outside its scope''"
  by (simp add: key_with_def try_with_def)

text \<open>A scope cannot be entered while the value of the key is borrowed.\<close>

lemma scope_in_with_panics: "lk_stack k = v # vs \<Longrightarrow> key_with (\<lambda>_. sync_scope w body) k = Inl ''already borrowed''"
  by (simp add: key_with_def try_with_def sync_scope_def key_enter_def)

section \<open>Properties\<close>

text \<open>C39: a local set polls its tasks whenever they need it and loses no result. Whatever the threads that wake and abort its tasks do, and
  however these calls interleave with the pass: when the driver that polled last is suspended and its waker was not called, the next wake-up of a task calls
  it, and unless a wake-up is under way, every task has been polled since it was spawned or woken, and none has been
  aborted by a call that has returned. Each task is queued once until it has ended, and then has one result: its output, its panic, or
  a cancellation if it was aborted or the set dropped; its handle returns this result and whoever waits for it has been woken.
  The tasks of the set are counted as alive until they end.\<close>

theorem local_set_drives_all:
  assumes "ls_reach g s"
  shows "(\<forall>w. lx_phase s = Idle \<and> lx_driver s = Some w \<and> \<not> lx_called s \<longrightarrow>
      snd (local_task_wake (lset_state (lx_set s))) = [w] \<and>
      (lx_waking s = 0 \<longrightarrow> lx_owed s = {} \<and>
        (\<forall>i \<in> set (lset_tasks (lx_set s)). cs_cancelled (lj_state (lc_join (lx_cells s i))) \<longrightarrow> 0 < lc_aborting (lx_cells s i)))) \<and>
    distinct (live s) \<and> (\<forall>i < lx_next s. i \<in> set (live s) \<longleftrightarrow> lc_result (lx_cells s i) = None) \<and>
    (\<forall>i r. i < lx_next s \<and> lc_result (lx_cells s i) = Some r \<longrightarrow>
      cell_result_ok (lx_phase s = Dropping) (lx_cells s i) r \<and> lc_joiner (lx_cells s i) = None \<and>
      (\<forall>r'. lc_joined (lx_cells s i) = Some r' \<longrightarrow> r' = r) \<and>
      (lc_rx (lx_cells s i) \<longrightarrow> (\<forall>w. snd (snd (join_handle_poll (lj_chan (lc_join (lx_cells s i))) True (cs_id (lj_state (lc_join (lx_cells s i)))) w)) = Ready r))) \<and>
    num_alive_tasks (lx_globals s) = num_alive_tasks g + of_nat (length (live s))"
proof (intro conjI)
  have inv: "queue_inv s" "cells_inv s" "alive_inv g s" "wake_inv s" "abort_inv s" using ls_reach_inv [OF assms] by blast+
  show "\<forall>w. lx_phase s = Idle \<and> lx_driver s = Some w \<and> \<not> lx_called s \<longrightarrow> snd (local_task_wake (lset_state (lx_set s))) = [w] \<and>
      (lx_waking s = 0 \<longrightarrow> lx_owed s = {} \<and>
        (\<forall>i \<in> set (lset_tasks (lx_set s)). cs_cancelled (lj_state (lc_join (lx_cells s i))) \<longrightarrow> 0 < lc_aborting (lx_cells s i)))"
    using inv(4,5) by (auto simp: wake_inv_def abort_inv_def cell_listens_def live_def local_task_wake_def task_wake_take_def task_wake_store_def)
  show "distinct (live s)" using inv(1) by (simp add: queue_inv_def)
  have fin: "lc_result (lx_cells s i) = None" if "i < lx_next s" "i \<in> set (live s)" for i
    using inv(2) that by (simp add: cells_inv_def cell_live_def)
  have dn: "cell_done (lx_phase s = Dropping) (lx_cells s i)" if "i < lx_next s" "i \<notin> set (live s)" for i
    using inv(2) that by (simp add: cells_inv_def)
  then show "\<forall>i < lx_next s. i \<in> set (live s) \<longleftrightarrow> lc_result (lx_cells s i) = None" using fin unfolding cell_done_def by fastforce
  show "\<forall>i r. i < lx_next s \<and> lc_result (lx_cells s i) = Some r \<longrightarrow>
      cell_result_ok (lx_phase s = Dropping) (lx_cells s i) r \<and> lc_joiner (lx_cells s i) = None \<and>
      (\<forall>r'. lc_joined (lx_cells s i) = Some r' \<longrightarrow> r' = r) \<and>
      (lc_rx (lx_cells s i) \<longrightarrow> (\<forall>w. snd (snd (join_handle_poll (lj_chan (lc_join (lx_cells s i))) True (cs_id (lj_state (lc_join (lx_cells s i)))) w)) = Ready r))"
  proof (intro allI impI)
    fix i r assume r: "i < lx_next s \<and> lc_result (lx_cells s i) = Some r"
    with fin have "i \<notin> set (live s)" by fastforce
    with dn r have "cell_done (lx_phase s = Dropping) (lx_cells s i)" by blast
    with r show "cell_result_ok (lx_phase s = Dropping) (lx_cells s i) r \<and> lc_joiner (lx_cells s i) = None \<and>
      (\<forall>r'. lc_joined (lx_cells s i) = Some r' \<longrightarrow> r' = r) \<and>
      (lc_rx (lx_cells s i) \<longrightarrow> (\<forall>w. snd (snd (join_handle_poll (lj_chan (lc_join (lx_cells s i))) True (cs_id (lj_state (lc_join (lx_cells s i)))) w)) = Ready r))"
      by (simp add: cell_done_def join_handle_poll_def os_recv_poll_def)
  qed
  show "num_alive_tasks (lx_globals s) = num_alive_tasks g + of_nat (length (live s))" using inv(3) by (simp add: alive_inv_def)
qed

section \<open>A concrete run\<close>

text \<open>A driver with waker 5 finds the set empty and is suspended; then a task is spawned, and the next pass runs it to its end.\<close>

definition ls_demo_globals :: task_globals where
  "ls_demo_globals = \<lparr>tg_next_id = 1, tg_active = 0\<rparr>"

definition ls_demo_task :: "(nat, nat) local_join" where
  "ls_demo_task = snd (local_join_new ls_demo_globals)"

definition ls_demo_parked :: "(nat, nat) ls_sys" where
  "ls_demo_parked = (ls_start ls_demo_globals (cell_new ls_demo_task))
     \<lparr>lx_set := \<lparr>lset_tasks = [], lset_state = \<lparr>ls_run_waker = Some 5, ls_notified = False\<rparr>\<rparr>, lx_driver := Some 5\<rparr>"

lemmas ls_demo_defs = ls_demo_parked_def ls_start_def lset_new_def set_run_waker_def tasks_take_def pass_append_def pass_notify_def lset_is_empty_def
  spawn_push_def task_wake_take_def

lemma ls_demo_parked_reach: "ls_reach ls_demo_globals ls_demo_parked"
proof -
  let ?s0 = "ls_start ls_demo_globals (cell_new ls_demo_task)"
  let ?s1 = "?s0\<lparr>lx_set := set_run_waker (lx_set ?s0) (Some 5), lx_phase := Entered 5, lx_driver := Some 5, lx_called := False\<rparr>"
  let ?s2 = "?s1\<lparr>lx_set := lx_set ?s1, lx_pass := [], lx_phase := InPass 5 0\<rparr>"
  have "ls_step ?s0 ?s1" by (rule ls_step.enter) (simp add: ls_start_def)
  moreover have "ls_step ?s1 ?s2" using ls_step.pass [of ?s1 5 "lx_set ?s1" "[]"] by (simp add: ls_demo_defs)
  moreover have "ls_step ?s2 (ls_demo_parked\<lparr>lx_phase := Appended 5\<rparr>)" using ls_step.appends [of ?s2 5] by (simp add: ls_demo_defs)
  moreover have "ls_step (ls_demo_parked\<lparr>lx_phase := Appended 5\<rparr>) (ls_demo_parked\<lparr>lx_phase := Notified 5\<rparr>)"
    using ls_step.notifies [of "ls_demo_parked\<lparr>lx_phase := Appended 5\<rparr>" 5 "lx_set ls_demo_parked" "[]"] by (simp add: ls_demo_defs)
  moreover have "ls_step (ls_demo_parked\<lparr>lx_phase := Notified 5\<rparr>) ls_demo_parked"
    using ls_step.suspends [of "ls_demo_parked\<lparr>lx_phase := Notified 5\<rparr>" 5] by (simp add: ls_demo_defs)
  ultimately show ?thesis by (meson ls_reach.intros)
qed

definition ls_demo_spawned :: "(nat, nat) ls_sys" where
  "ls_demo_spawned = ls_demo_parked\<lparr>lx_globals := fst (local_join_new ls_demo_globals :: task_globals \<times> (nat, nat) local_join),
     lx_set := \<lparr>lset_tasks = [0], lset_state = \<lparr>ls_run_waker = None, ls_notified = True\<rparr>\<rparr>, lx_next := 1, lx_owed := {0}, lx_called := True\<rparr>"

lemma ls_demo_spawned_reach: "ls_reach ls_demo_globals ls_demo_spawned"
proof -
  let ?t = "local_join_new ls_demo_globals :: task_globals \<times> (nat, nat) local_join"
  let ?s0 = ls_demo_parked
  let ?s1 = "?s0\<lparr>lx_globals := fst ?t, lx_set := spawn_push (lx_set ?s0) 0, lx_cells := (lx_cells ?s0)(0 := cell_new (snd ?t)), lx_next := 1,
    lx_owed := {0}, lx_waking := 1\<rparr>"
  have "ls_step ?s0 ?s1" using ls_step.spawn [of ?s0 "fst ?t" "snd ?t"] by (simp add: ls_demo_parked_def ls_start_def)
  moreover have "ls_step ?s1 ls_demo_spawned"
    using ls_step.wake_takes [of ?s1 "\<lparr>ls_run_waker = None, ls_notified = True\<rparr>" "[5]"]
    by (simp add: ls_demo_spawned_def ls_demo_defs ls_demo_task_def fun_upd_def)
  ultimately show ?thesis using ls_demo_parked_reach by (meson ls_reach.step)
qed

definition ls_demo_cell :: "(nat, nat) ls_cell" where
  "ls_demo_cell = (cell_new ls_demo_task)\<lparr>lc_join := lj_register ls_demo_task 0\<rparr>"

definition ls_demo_ended :: "task_globals \<times> (nat, nat) local_join \<times> waker list" where
  "ls_demo_ended = lj_end (lx_globals ls_demo_spawned) (lc_join ls_demo_cell) (Inr 7)"

definition ls_demo_done :: "(nat, nat) ls_sys" where
  "ls_demo_done = ls_demo_spawned\<lparr>lx_driver := Some 5, lx_called := False,
     lx_set := \<lparr>lset_tasks = [], lset_state = \<lparr>ls_run_waker = Some 5, ls_notified = True\<rparr>\<rparr>, lx_globals := fst ls_demo_ended,
     lx_phase := InPass 5 0, lx_pass := [], lx_owed := {},
     lx_cells := (\<lambda>_. cell_new ls_demo_task)(0 := cell_end (ls_demo_cell\<lparr>lc_last := Some (Completes 7)\<rparr>) (fst (snd ls_demo_ended)) (Inr 7) (snd (snd ls_demo_ended)))\<rparr>"

lemma ls_demo_done_reach: "ls_reach ls_demo_globals ls_demo_done"
proof -
  let ?s0 = ls_demo_spawned
  let ?set = "\<lparr>lset_tasks = [], lset_state = \<lparr>ls_run_waker = Some 5, ls_notified = True\<rparr>\<rparr>"
  let ?s1 = "?s0\<lparr>lx_set := set_run_waker (lx_set ?s0) (Some 5), lx_phase := Entered 5, lx_driver := Some 5, lx_called := False\<rparr>"
  let ?s2 = "?s1\<lparr>lx_set := ?set, lx_pass := [0], lx_phase := InPass 5 1\<rparr>"
  let ?s3 = "?s2\<lparr>lx_pass := [], lx_phase := Started 5 0 0, lx_cells := (\<lambda>_. cell_new ls_demo_task)(0 := ls_demo_cell), lx_owed := {}\<rparr>"
  let ?s4 = "?s3\<lparr>lx_phase := Running 5 0 0\<rparr>"
  have "ls_step ?s0 ?s1" by (rule ls_step.enter) (simp add: ls_demo_spawned_def ls_demo_defs)
  moreover have "ls_step ?s1 ?s2" using ls_step.pass [of ?s1 5 ?set "[0]"] by (simp add: ls_demo_spawned_def ls_demo_defs)
  moreover have "ls_step ?s2 ?s3" using ls_step.starts [of ?s2 5 0 0 "[]" "cell_new ls_demo_task"]
    by (simp add: ls_demo_spawned_def ls_demo_defs ls_demo_cell_def cell_new_def)
  moreover have "ls_step ?s3 ?s4" by (rule ls_step.checked)
    (simp_all add: ls_demo_cell_def ls_demo_task_def local_join_new_def local_join_channel_def cs_new_def id_next_def lj_register_def cs_register_def cell_new_def Let_def)
  moreover have "lj_poll_future 0 (lx_globals ?s4) (lc_join ls_demo_cell) (Completes 7) = (fst ls_demo_ended, fst (snd ls_demo_ended), Ready (), snd (snd ls_demo_ended))"
    by (simp add: ls_demo_ended_def lj_poll_future_def ls_demo_cell_def ls_demo_task_def local_join_new_def local_join_channel_def lj_register_def
        split: prod.splits)
  then have "ls_step ?s4 ls_demo_done" using ls_step.polled [of ?s4 5 0 0 ls_demo_cell 0 "Completes 7" "fst ls_demo_ended" "fst (snd ls_demo_ended)" "Ready ()" "snd (snd ls_demo_ended)"]
    by (simp add: ls_demo_done_def requeue_def outcome_result_def)
  ultimately show ?thesis using ls_demo_spawned_reach by (meson ls_reach.step)
qed

theorem local_set_drives_all_witness:
  "snd (local_task_wake (lset_state (lx_set ls_demo_parked))) = [5] \<and>
   snd (snd (join_handle_poll (lj_chan (lc_join (lx_cells ls_demo_done 0))) True (cs_id (lj_state (lc_join (lx_cells ls_demo_done 0)))) 9)) = Ready (Inr 7)"
proof
  have "lx_phase ls_demo_parked = Idle" "lx_driver ls_demo_parked = Some 5" "\<not> lx_called ls_demo_parked" by (simp_all add: ls_demo_parked_def ls_start_def)
  with local_set_drives_all [OF ls_demo_parked_reach] show "snd (local_task_wake (lset_state (lx_set ls_demo_parked))) = [5]" by blast
  have "(0::nat) < lx_next ls_demo_done" by (simp add: ls_demo_done_def ls_demo_spawned_def)
  moreover have "lc_result (lx_cells ls_demo_done 0) = Some (Inr 7)" by (simp add: ls_demo_done_def cell_end_def)
  moreover have "lc_rx (lx_cells ls_demo_done 0)" by (simp add: ls_demo_done_def cell_end_def ls_demo_cell_def cell_new_def)
  ultimately show "snd (snd (join_handle_poll (lj_chan (lc_join (lx_cells ls_demo_done 0))) True (cs_id (lj_state (lc_join (lx_cells ls_demo_done 0)))) 9)) = Ready (Inr 7)"
    using local_set_drives_all [OF ls_demo_done_reach] by blast
qed

end
