(* ===== verification/Combinators.thy ===== *)
theory Combinators
  imports Ffrt_Prelude
begin

text \<open>
  The code that \<open>join!\<close>, \<open>try_join!\<close> (\<open>macros.rs\<close>) and \<open>select!\<close> (\<open>ffrt-macros/src/select.rs\<close>) expand to. The futures of a macro call have
  different types, and their outputs too; here they are the members of one type, and a tuple is a list. Polling a future is a parameter,
  a function of its state.
\<close>

type_synonym ('f, 'a) poll_fun = "'f \<Rightarrow> waker \<Rightarrow> 'f \<times> 'a poll"

section \<open>Joining\<close>

record ('f, 'a) join_slot =
  sl_future :: "'f option"
  sl_done :: bool
  sl_out :: "'a option"

definition slot_new :: "'f \<Rightarrow> ('f, 'a) join_slot" where
  "slot_new f = \<lparr>sl_future = Some f, sl_done = False, sl_out = None\<rparr>"

definition poll_one :: "('f, 'a) poll_fun \<Rightarrow> waker \<Rightarrow> ('f, 'a) join_slot \<Rightarrow> ('f, 'a) join_slot panicky" where
  "poll_one poll cx s =
     (if sl_done s then Inr s
      else (case sl_future s of
        None \<Rightarrow> Inl ''join future missing''
      | Some f \<Rightarrow> (case poll f cx of
          (f, Ready output) \<Rightarrow> Inr (s\<lparr>sl_future := Some f, sl_done := True, sl_out := Some output\<rparr>)
        | (f, Pending) \<Rightarrow> Inr (s\<lparr>sl_future := Some f\<rparr>))))"

fun poll_each :: "('s \<Rightarrow> 's panicky) \<Rightarrow> 's list \<Rightarrow> 's list panicky" where
  "poll_each one [] = Inr []"
| "poll_each one (s # ss) = (case one s of
     Inl e \<Rightarrow> Inl e
   | Inr s \<Rightarrow> (case poll_each one ss of Inl e \<Rightarrow> Inl e | Inr ss \<Rightarrow> Inr (s # ss)))"

fun take_outs :: "string \<Rightarrow> ('f, 'a) join_slot list \<Rightarrow> 'a list panicky" where
  "take_outs missing [] = Inr []"
| "take_outs missing (s # ss) = (case sl_out s of
     None \<Rightarrow> Inl missing
   | Some v \<Rightarrow> (case take_outs missing ss of Inl e \<Rightarrow> Inl e | Inr vs \<Rightarrow> Inr (v # vs)))"

definition join_poll :: "('f, 'a) poll_fun \<Rightarrow> waker \<Rightarrow> ('f, 'a) join_slot list \<Rightarrow> (('f, 'a) join_slot list \<times> 'a list poll) panicky" where
  "join_poll poll cx ss = (case poll_each (poll_one poll cx) ss of
     Inl e \<Rightarrow> Inl e
   | Inr ss \<Rightarrow>
       if list_all sl_done ss then (case take_outs ''missing joined output'' ss of Inl e \<Rightarrow> Inl e | Inr vs \<Rightarrow> Inr (ss, Ready vs))
       else Inr (ss, Pending))"

text \<open>The macro has an arm for each number of futures, one to sixteen; \<open>None\<close> is a call that does not compile.\<close>

definition join_macro :: "'f list \<Rightarrow> ('f, 'a) join_slot list option" where
  "join_macro fs = (if 1 \<le> length fs \<and> length fs \<le> 16 then Some (map slot_new fs) else None)"

section \<open>Joining results\<close>

text \<open>The first error returns from the closure at once.\<close>

datatype ('s, 'e) try_flow = Continue 's | Return 'e

definition try_poll_one :: "('f, 'e + 'a) poll_fun \<Rightarrow> waker \<Rightarrow> ('f, 'a) join_slot \<Rightarrow> (('f, 'a) join_slot, 'e) try_flow panicky" where
  "try_poll_one poll cx s =
     (if sl_done s then Inr (Continue s)
      else (case sl_future s of
        None \<Rightarrow> Inl ''try_join future missing''
      | Some f \<Rightarrow> (case poll f cx of
          (f, Ready (Inr output)) \<Rightarrow> Inr (Continue (s\<lparr>sl_future := Some f, sl_done := True, sl_out := Some output\<rparr>))
        | (f, Ready (Inl error)) \<Rightarrow> Inr (Return error)
        | (f, Pending) \<Rightarrow> Inr (Continue (s\<lparr>sl_future := Some f\<rparr>)))))"

fun try_poll_each :: "('s \<Rightarrow> ('s, 'e) try_flow panicky) \<Rightarrow> 's list \<Rightarrow> ('s list, 'e) try_flow panicky" where
  "try_poll_each one [] = Inr (Continue [])"
| "try_poll_each one (s # ss) = (case one s of
     Inl e \<Rightarrow> Inl e
   | Inr (Return error) \<Rightarrow> Inr (Return error)
   | Inr (Continue s) \<Rightarrow> (case try_poll_each one ss of
       Inl e \<Rightarrow> Inl e
     | Inr (Return error) \<Rightarrow> Inr (Return error)
     | Inr (Continue ss) \<Rightarrow> Inr (Continue (s # ss))))"

text \<open>After an error the future of the macro is not polled again, so its slots do not matter.\<close>

definition try_join_poll ::
  "('f, 'e + 'a) poll_fun \<Rightarrow> waker \<Rightarrow> ('f, 'a) join_slot list \<Rightarrow> (('f, 'a) join_slot list \<times> ('e + 'a list) poll) panicky" where
  "try_join_poll poll cx ss = (case try_poll_each (try_poll_one poll cx) ss of
     Inl e \<Rightarrow> Inl e
   | Inr (Return error) \<Rightarrow> Inr ([], Ready (Inl error))
   | Inr (Continue ss) \<Rightarrow>
       if list_all sl_done ss then (case take_outs ''missing try_join output'' ss of Inl e \<Rightarrow> Inl e | Inr vs \<Rightarrow> Inr (ss, Ready (Inr vs)))
       else Inr (ss, Pending))"

definition try_join_macro :: "'f list \<Rightarrow> ('f, 'a) join_slot list option" where
  "try_join_macro fs = (if 1 \<le> length fs \<and> length fs \<le> 16 then Some (map slot_new fs) else None)"

section \<open>Selecting\<close>

text \<open>\<open>__select_start\<close>: one attempt of its loop, in which \<open>observed\<close> is what another thread has stored meanwhile.\<close>

definition xorshift :: "u64 \<Rightarrow> u64" where
  "xorshift current =
     (let x1 = xor current (push_bit 13 current); x2 = xor x1 (drop_bit 7 x1) in xor x2 (push_bit 17 x2))"

definition select_start :: "nat \<Rightarrow> u64 \<Rightarrow> u64 \<times> nat" where
  "select_start branches state =
     (if branches \<le> 1 then (state, 0) else (let x = xorshift state in (x, unat x mod branches)))"

definition select_index :: "nat \<Rightarrow> nat \<Rightarrow> nat \<Rightarrow> nat" where
  "select_index start offset branches = (start + offset) mod branches"

text \<open>The loop over the branches; \<open>matches i v\<close> tells whether the output \<open>v\<close> matches the pattern of branch \<open>i\<close>.\<close>

fun select_loop ::
  "('f, 'a) poll_fun \<Rightarrow> (nat \<Rightarrow> 'a \<Rightarrow> bool) \<Rightarrow> waker \<Rightarrow> nat list \<Rightarrow> 'f list \<Rightarrow> bool list \<Rightarrow> 'f list \<times> bool list \<times> (nat \<times> 'a) option" where
  "select_loop poll matches cx [] fs disabled = (fs, disabled, None)"
| "select_loop poll matches cx (i # is) fs disabled =
     (if disabled ! i then select_loop poll matches cx is fs disabled
      else (case poll (fs ! i) cx of
        (f, Ready v) \<Rightarrow>
          if matches i v then (fs[i := f], disabled[i := True], Some (i, v))
          else select_loop poll matches cx is (fs[i := f]) (disabled[i := True])
      | (f, Pending) \<Rightarrow> select_loop poll matches cx is (fs[i := f]) disabled))"

datatype 'a selected = Branch nat 'a | Disabled

definition select_poll ::
  "('f, 'a) poll_fun \<Rightarrow> (nat \<Rightarrow> 'a \<Rightarrow> bool) \<Rightarrow> nat \<Rightarrow> waker \<Rightarrow> 'f list \<Rightarrow> bool list \<Rightarrow> 'f list \<times> bool list \<times> 'a selected poll" where
  "select_poll poll matches start cx fs disabled =
     (case select_loop poll matches cx (map (\<lambda>offset. select_index start offset (length fs)) [0..<length fs]) fs disabled of
        (fs, disabled, Some (i, v)) \<Rightarrow> (fs, disabled, Ready (Branch i v))
      | (fs, disabled, None) \<Rightarrow> (fs, disabled, if list_all (\<lambda>d. d) disabled then Ready Disabled else Pending))"

text \<open>What follows: the handler of the branch runs, or \<open>else\<close>; without it, the call panics.\<close>

definition select_finish :: "(nat \<Rightarrow> 'a \<Rightarrow> 'r) \<Rightarrow> 'r option \<Rightarrow> 'a selected \<Rightarrow> 'r panicky" where
  "select_finish handlers otherwise result = (case result of
     Branch i v \<Rightarrow> Inr (handlers i v)
   | Disabled \<Rightarrow> (case otherwise of Some r \<Rightarrow> Inr r | None \<Rightarrow> Inl ''all select branches were disabled''))"

definition select_start_of :: "bool \<Rightarrow> nat \<Rightarrow> u64 \<Rightarrow> u64 \<times> nat" where
  "select_start_of biased branches state = (if biased then (state, 0) else select_start branches state)"

section \<open>Futures on their own\<close>

text \<open>The output of a future that is polled up to \<open>n\<close> times, and the combinators polled until they are ready.\<close>

fun first_ready :: "('f, 'a) poll_fun \<Rightarrow> waker \<Rightarrow> nat \<Rightarrow> 'f \<Rightarrow> 'a option" where
  "first_ready poll cx 0 f = None"
| "first_ready poll cx (Suc n) f = (case poll f cx of (_, Ready v) \<Rightarrow> Some v | (f, Pending) \<Rightarrow> first_ready poll cx n f)"

fun drive :: "('s \<Rightarrow> ('s \<times> 'r poll) panicky) \<Rightarrow> nat \<Rightarrow> 's \<Rightarrow> 'r option panicky" where
  "drive poll 0 s = Inr None"
| "drive poll (Suc n) s = (case poll s of Inl e \<Rightarrow> Inl e | Inr (_, Ready r) \<Rightarrow> Inr (Some r) | Inr (s, Pending) \<Rightarrow> drive poll n s)"

text \<open>A slot in a call that is running, and what it will hold after \<open>n\<close> more polls.\<close>

definition slot_ok :: "('f, 'a) join_slot \<Rightarrow> bool" where
  "slot_ok s \<longleftrightarrow> sl_future s \<noteq> None \<and> (sl_done s \<longleftrightarrow> sl_out s \<noteq> None)"

definition slot_value :: "('f, 'a) poll_fun \<Rightarrow> waker \<Rightarrow> nat \<Rightarrow> ('f, 'a) join_slot \<Rightarrow> 'a option" where
  "slot_value poll cx n s = (if sl_done s then sl_out s else first_ready poll cx n (the (sl_future s)))"

lemma poll_one_ok:
  assumes "slot_ok s"
  shows "\<exists>s'. poll_one poll cx s = Inr s' \<and> slot_ok s' \<and> (\<forall>n. slot_value poll cx n s' = slot_value poll cx (Suc n) s)"
proof (cases "sl_done s")
  case True
  then show ?thesis using assms by (simp add: poll_one_def slot_value_def)
next
  case False
  obtain f where f: "sl_future s = Some f" using assms by (auto simp: slot_ok_def)
  obtain f' res where p: "poll f cx = (f', res)" by (cases "poll f cx") auto
  show ?thesis using False assms by (cases res) (simp_all add: poll_one_def f p slot_ok_def slot_value_def)
qed

lemma poll_each_ok:
  assumes "\<forall>s \<in> set ss. slot_ok s"
  shows "\<exists>ss'. poll_each (poll_one poll cx) ss = Inr ss' \<and> (\<forall>s \<in> set ss'. slot_ok s) \<and> (\<forall>n. map (slot_value poll cx n) ss' = map (slot_value poll cx (Suc n)) ss)"
  using assms
proof (induction ss)
  case (Cons s ss)
  then obtain ss' where "poll_each (poll_one poll cx) ss = Inr ss'" "\<forall>s \<in> set ss'. slot_ok s"
    "\<forall>n. map (slot_value poll cx n) ss' = map (slot_value poll cx (Suc n)) ss" by auto
  moreover obtain s' where "poll_one poll cx s = Inr s'" "slot_ok s'" "\<forall>n. slot_value poll cx n s' = slot_value poll cx (Suc n) s"
    using poll_one_ok [of s poll cx] Cons.prems by auto
  ultimately show ?case by simp
qed simp

lemma take_outs_ok: "\<forall>s \<in> set ss. sl_out s \<noteq> None \<Longrightarrow> take_outs missing ss = Inr (map (\<lambda>s. the (sl_out s)) ss)"
  by (induction ss) auto

section \<open>Joins\<close>

lemma join_drive:
  assumes "\<forall>s \<in> set ss. slot_ok s" "\<exists>s \<in> set ss. \<not> sl_done s"
  shows "drive (join_poll poll cx) n ss = Inr (let vs = map (slot_value poll cx n) ss in if None \<in> set vs then None else Some (map the vs))"
  using assms
proof (induction n arbitrary: ss)
  case 0
  then show ?case by (force simp: slot_value_def)
next
  case (Suc n)
  obtain ss' where ss': "poll_each (poll_one poll cx) ss = Inr ss'" "\<forall>s \<in> set ss'. slot_ok s"
    "map (slot_value poll cx n) ss' = map (slot_value poll cx (Suc n)) ss" using poll_each_ok [OF Suc.prems(1)] by blast
  show ?case
  proof (cases "list_all sl_done ss'")
    case True
    then have out: "\<forall>s \<in> set ss'. sl_done s \<and> sl_out s \<noteq> None" using ss'(2) by (auto simp: list_all_iff slot_ok_def)
    then have "map (slot_value poll cx n) ss' = map sl_out ss'" by (simp add: slot_value_def)
    with ss'(3) have "map (slot_value poll cx (Suc n)) ss = map sl_out ss'" by simp
    moreover have "None \<notin> set (map sl_out ss')" using out by auto
    moreover have "take_outs ''missing joined output'' ss' = Inr (map (\<lambda>s. the (sl_out s)) ss')" using out by (simp add: take_outs_ok)
    ultimately show ?thesis using True ss'(1) unfolding Let_def by (simp add: join_poll_def o_def)
  next
    case False
    then have "\<exists>s \<in> set ss'. \<not> sl_done s" by (auto simp: list_all_iff)
    from Suc.IH [OF ss'(2) this] False ss'(1,3) show ?thesis unfolding Let_def by (simp add: join_poll_def)
  qed
qed

definition try_value :: "('f, 'e + 'a) poll_fun \<Rightarrow> waker \<Rightarrow> nat \<Rightarrow> ('f, 'a) join_slot \<Rightarrow> ('e + 'a) option" where
  "try_value poll cx n s = (if sl_done s then map_option Inr (sl_out s) else first_ready poll cx n (the (sl_future s)))"

lemma try_poll_one_ok:
  assumes "slot_ok s"
  shows "(\<exists>s'. try_poll_one poll cx s = Inr (Continue s') \<and> slot_ok s' \<and> (\<forall>n. try_value poll cx n s' = try_value poll cx (Suc n) s)) \<or>
    (\<exists>e. try_poll_one poll cx s = Inr (Return e) \<and> (\<forall>n. try_value poll cx (Suc n) s = Some (Inl e)))"
proof (cases "sl_done s")
  case True
  then show ?thesis using assms by (simp add: try_poll_one_def try_value_def)
next
  case False
  obtain f where f: "sl_future s = Some f" using assms by (auto simp: slot_ok_def)
  obtain f' res where p: "poll f cx = (f', res)" by (cases "poll f cx") auto
  show ?thesis
  proof (cases res)
    case Pending
    then show ?thesis using False assms by (simp add: try_poll_one_def f p slot_ok_def try_value_def)
  next
    case (Ready r)
    then show ?thesis using False assms by (cases r) (simp_all add: try_poll_one_def f p slot_ok_def try_value_def)
  qed
qed

lemma try_poll_each_ok:
  assumes "\<forall>s \<in> set ss. slot_ok s"
  shows "(\<exists>ss'. try_poll_each (try_poll_one poll cx) ss = Inr (Continue ss') \<and> (\<forall>s \<in> set ss'. slot_ok s) \<and>
      (\<forall>n. map (try_value poll cx n) ss' = map (try_value poll cx (Suc n)) ss)) \<or>
    (\<exists>e. try_poll_each (try_poll_one poll cx) ss = Inr (Return e) \<and> (\<forall>n. Some (Inl e) \<in> set (map (try_value poll cx (Suc n)) ss)))"
  using assms
proof (induction ss)
  case (Cons s ss)
  then have IH: "(\<exists>ss'. try_poll_each (try_poll_one poll cx) ss = Inr (Continue ss') \<and> (\<forall>s \<in> set ss'. slot_ok s) \<and>
      (\<forall>n. map (try_value poll cx n) ss' = map (try_value poll cx (Suc n)) ss)) \<or>
    (\<exists>e. try_poll_each (try_poll_one poll cx) ss = Inr (Return e) \<and> (\<forall>n. Some (Inl e) \<in> set (map (try_value poll cx (Suc n)) ss)))" by simp
  from try_poll_one_ok [of s poll cx] Cons.prems
  consider s' where "try_poll_one poll cx s = Inr (Continue s')" "slot_ok s'" "\<forall>n. try_value poll cx n s' = try_value poll cx (Suc n) s"
    | e where "try_poll_one poll cx s = Inr (Return e)" "\<forall>n. try_value poll cx (Suc n) s = Some (Inl e)" by auto
  then show ?case
  proof cases
    case 1
    from IH show ?thesis
    proof (elim disjE exE conjE)
      fix ss' assume "try_poll_each (try_poll_one poll cx) ss = Inr (Continue ss')" "\<forall>s \<in> set ss'. slot_ok s"
        "\<forall>n. map (try_value poll cx n) ss' = map (try_value poll cx (Suc n)) ss"
      with 1 show ?thesis by simp
    next
      fix e assume "try_poll_each (try_poll_one poll cx) ss = Inr (Return e)" "\<forall>n. Some (Inl e) \<in> set (map (try_value poll cx (Suc n)) ss)"
      with 1 show ?thesis by simp
    qed
  next
    case 2
    then show ?thesis by simp
  qed
qed simp

text \<open>What a driven \<open>try_join!\<close> returned, by what its futures do: \<open>vs\<close> are their outputs so far.\<close>

definition try_result_ok :: "('e + 'a) option list \<Rightarrow> ('e + 'a list) option panicky \<Rightarrow> bool" where
  "try_result_ok vs res \<longleftrightarrow> (case res of
     Inl _ \<Rightarrow> False
   | Inr None \<Rightarrow> None \<in> set vs \<and> (\<forall>e. Some (Inl e) \<notin> set vs)
   | Inr (Some (Inl e)) \<Rightarrow> Some (Inl e) \<in> set vs
   | Inr (Some (Inr outs)) \<Rightarrow> vs = map (\<lambda>v. Some (Inr v)) outs)"

lemma try_join_drive:
  assumes "\<forall>s \<in> set ss. slot_ok s" "\<exists>s \<in> set ss. \<not> sl_done s"
  shows "try_result_ok (map (try_value poll cx n) ss) (drive (try_join_poll poll cx) n ss)"
  using assms
proof (induction n arbitrary: ss)
  case 0
  have z: "try_value poll cx 0 s = (if sl_done s then map_option Inr (sl_out s) else None)" for s by (simp add: try_value_def)
  from 0 obtain s where "s \<in> set ss" "\<not> sl_done s" by blast
  then have "None \<in> set (map (try_value poll cx 0) ss)" unfolding set_map by (intro image_eqI) (simp_all add: z)
  moreover have "Some (Inl e) \<notin> set (map (try_value poll cx 0) ss)" for e by (auto simp: z map_option_case split: if_splits option.splits)
  ultimately show ?case unfolding try_result_ok_def by simp
next
  case (Suc n)
  from try_poll_each_ok [OF Suc.prems(1), of poll cx] show ?case
  proof (elim disjE exE conjE)
    fix e assume "try_poll_each (try_poll_one poll cx) ss = Inr (Return e)" "\<forall>n. Some (Inl e) \<in> set (map (try_value poll cx (Suc n)) ss)"
    then show ?thesis unfolding try_result_ok_def by (simp add: try_join_poll_def)
  next
    fix ss' assume ss': "try_poll_each (try_poll_one poll cx) ss = Inr (Continue ss')" "\<forall>s \<in> set ss'. slot_ok s"
      "\<forall>n. map (try_value poll cx n) ss' = map (try_value poll cx (Suc n)) ss"
    show ?thesis
    proof (cases "list_all sl_done ss'")
      case True
      then have out: "\<forall>s \<in> set ss'. sl_done s \<and> sl_out s \<noteq> None" using ss'(2) by (auto simp: list_all_iff slot_ok_def)
      then have "map (try_value poll cx n) ss' = map (\<lambda>v. Some (Inr v)) (map (\<lambda>s. the (sl_out s)) ss')" by (auto simp: try_value_def)
      moreover have "take_outs ''missing try_join output'' ss' = Inr (map (\<lambda>s. the (sl_out s)) ss')" using out by (simp add: take_outs_ok)
      ultimately show ?thesis using True ss'(1) spec [OF ss'(3), of n] unfolding try_result_ok_def by (simp add: try_join_poll_def)
    next
      case False
      then have "\<exists>s \<in> set ss'. \<not> sl_done s" by (auto simp: list_all_iff)
      from Suc.IH [OF ss'(2) this] False ss'(1) spec [OF ss'(3), of n] show ?thesis by (simp add: try_join_poll_def)
    qed
  qed
qed

section \<open>Selections\<close>

text \<open>Whether a branch decides the selection, and whether it is done with.\<close>

definition hits :: "('f, 'a) poll_fun \<Rightarrow> (nat \<Rightarrow> 'a \<Rightarrow> bool) \<Rightarrow> waker \<Rightarrow> 'f list \<Rightarrow> bool list \<Rightarrow> nat \<Rightarrow> bool" where
  "hits poll matches cx fs disabled i \<longleftrightarrow> \<not> disabled ! i \<and> (case snd (poll (fs ! i) cx) of Ready v \<Rightarrow> matches i v | Pending \<Rightarrow> False)"

definition ends :: "('f, 'a) poll_fun \<Rightarrow> waker \<Rightarrow> 'f list \<Rightarrow> bool list \<Rightarrow> nat \<Rightarrow> bool" where
  "ends poll cx fs disabled i \<longleftrightarrow> disabled ! i \<or> snd (poll (fs ! i) cx) \<noteq> Pending"

lemma find_cong_on: "(\<And>i. i \<in> set is \<Longrightarrow> P i = Q i) \<Longrightarrow> find P is = find Q is"
  by (induction "is") auto

lemma select_loop_spec:
  assumes "distinct is" "\<forall>i \<in> set is. i < length fs \<and> i < length disabled"
    "select_loop poll matches cx is fs disabled = (fs', disabled', res)"
  shows "length fs' = length fs \<and> length disabled' = length disabled \<and>
    (case find (hits poll matches cx fs disabled) is of
       Some i \<Rightarrow> \<exists>v. res = Some (i, v) \<and> snd (poll (fs ! i) cx) = Ready v
     | None \<Rightarrow> res = None \<and> (\<forall>i \<in> set is. disabled' ! i = ends poll cx fs disabled i \<and>
         fs' ! i = (if disabled ! i then fs ! i else fst (poll (fs ! i) cx)))) \<and>
    (\<forall>i. i \<notin> set is \<longrightarrow> disabled' ! i = disabled ! i \<and> fs' ! i = fs ! i)"
  using assms
proof (induction "is" arbitrary: fs disabled)
  case (Cons i "is")
  obtain f r where p: "poll (fs ! i) cx = (f, r)" by (cases "poll (fs ! i) cx") auto
  let ?go = "\<lambda>fs1 d1. select_loop poll matches cx is fs1 d1 = (fs', disabled', res)"
  have step: ?case if "?go fs1 d1" "length fs1 = length fs" "length d1 = length disabled" "\<not> hits poll matches cx fs disabled i"
    "d1 ! i = ends poll cx fs disabled i" "fs1 ! i = (if disabled ! i then fs ! i else f)"
    "\<forall>j. j \<noteq> i \<longrightarrow> fs1 ! j = fs ! j \<and> d1 ! j = disabled ! j" for fs1 d1
  proof -
    have nth: "fs1 ! j = fs ! j" "d1 ! j = disabled ! j" if "j \<in> set is" for j using that Cons.prems(1) \<open>\<forall>j. j \<noteq> i \<longrightarrow> _\<close> by auto
    then have eq: "hits poll matches cx fs1 d1 j = hits poll matches cx fs disabled j" "ends poll cx fs1 d1 j = ends poll cx fs disabled j"
      if "j \<in> set is" for j using that by (simp_all add: hits_def ends_def)
    then have fnd: "find (hits poll matches cx fs1 d1) is = find (hits poll matches cx fs disabled) is" by (intro find_cong_on) simp
    have IH: "length fs' = length fs1 \<and> length disabled' = length d1 \<and>
      (case find (hits poll matches cx fs1 d1) is of
         Some i \<Rightarrow> \<exists>v. res = Some (i, v) \<and> snd (poll (fs1 ! i) cx) = Ready v
       | None \<Rightarrow> res = None \<and> (\<forall>i \<in> set is. disabled' ! i = ends poll cx fs1 d1 i \<and>
           fs' ! i = (if d1 ! i then fs1 ! i else fst (poll (fs1 ! i) cx)))) \<and>
      (\<forall>i. i \<notin> set is \<longrightarrow> disabled' ! i = d1 ! i \<and> fs' ! i = fs1 ! i)"
      using Cons.prems(1,2) that by (intro Cons.IH [OF _ _ that(1)]) auto
    have i: "disabled' ! i = ends poll cx fs disabled i" "fs' ! i = (if disabled ! i then fs ! i else fst (poll (fs ! i) cx))"
      using IH Cons.prems(1) that(5,6) p by auto
    have out: "disabled' ! j = disabled ! j \<and> fs' ! j = fs ! j" if "j \<notin> set (i # is)" for j
      using IH that \<open>\<forall>j. j \<noteq> i \<longrightarrow> _\<close> by simp
    show ?thesis
    proof (cases "find (hits poll matches cx fs disabled) is")
      case None
      with IH i out nth eq fnd that(2-4) show ?thesis by simp
    next
      case (Some j)
      then have "j \<in> set is" by (auto simp: find_Some_iff)
      with Some IH out nth fnd that(2-4) show ?thesis by simp
    qed
  qed
  show ?case
  proof (cases "disabled ! i")
    case True
    then show ?thesis using Cons.prems by (intro step [of fs disabled]) (auto simp: hits_def ends_def)
  next
    case False
    show ?thesis
    proof (cases r)
      case Pending
      then show ?thesis using Cons.prems False p by (intro step [of "fs[i := f]" disabled]) (auto simp: hits_def ends_def)
    next
      case (Ready v)
      show ?thesis
      proof (cases "matches i v")
        case True
        then show ?thesis using Cons.prems False p Ready by (auto simp: hits_def)
      next
        case nomatch: False
        then show ?thesis using Cons.prems False p Ready by (intro step [of "fs[i := f]" "disabled[i := True]"]) (auto simp: hits_def ends_def)
      qed
    qed
  qed
qed simp

text \<open>The order in which the branches are tried: all of them, from \<open>start\<close> on.\<close>

lemma select_order:
  assumes "start < n"
  shows "map (\<lambda>offset. select_index start offset n) [0..<n] = rotate start [0..<n]"
  using assms by (intro nth_equalityI) (simp_all add: select_index_def nth_rotate)

lemma select_start_less: "0 < branches \<Longrightarrow> snd (select_start_of biased branches state) < branches"
  by (simp add: select_start_of_def select_start_def Let_def)

lemma slots_new:
  "map (slot_value poll cx n) (map slot_new fs) = map (first_ready poll cx n) fs"
  "map (try_value tpoll cx n) (map slot_new ts) = map (first_ready tpoll cx n) ts"
  "\<forall>s \<in> set (map slot_new fs). slot_ok s" "fs \<noteq> [] \<Longrightarrow> \<exists>s \<in> set (map slot_new fs). \<not> sl_done s"
  by (auto simp: slot_value_def try_value_def slot_new_def slot_ok_def neq_Nil_conv)

section \<open>Properties\<close>

text \<open>C40: the macros drive their futures as if each ran on its own. However often it is polled, \<open>join!\<close> is ready as soon as every future has been
  and returns their outputs in order; no future is polled after it is ready. \<open>try_join!\<close> returns the outputs when all are there, or the error
  of a future that failed, and goes on waiting only if none has failed. A poll of \<open>select!\<close>
  tries the branches in cyclic order from the start index and takes the first enabled one whose future is ready with an output that
  matches; without one, every enabled branch has been polled, those that were ready are disabled, and the call is over exactly when none is left.\<close>

theorem combinators_drive_their_futures:
  assumes "join_macro fs = Some ss" "try_join_macro ts = Some us" "start < length bs" "length disabled = length bs"
    "select_poll spoll matches start cx bs disabled = (bs', disabled', res)"
  shows "drive (join_poll poll cx) n ss = Inr (let vs = map (first_ready poll cx n) fs in if None \<in> set vs then None else Some (map the vs)) \<and>
    try_result_ok (map (first_ready tpoll cx n) ts) (drive (try_join_poll tpoll cx) n us) \<and>
    (case find (hits spoll matches cx bs disabled) (rotate start [0..<length bs]) of
       Some i \<Rightarrow> \<exists>v. res = Ready (Branch i v) \<and> snd (spoll (bs ! i) cx) = Ready v
     | None \<Rightarrow> (\<forall>i < length bs. disabled' ! i = ends spoll cx bs disabled i \<and> (\<not> disabled ! i \<longrightarrow> bs' ! i = fst (spoll (bs ! i) cx))) \<and>
         res = (if \<forall>i < length bs. ends spoll cx bs disabled i then Ready Disabled else Pending))"
proof (intro conjI)
  have ss: "ss = map slot_new fs" "fs \<noteq> []" and us: "us = map slot_new ts" "ts \<noteq> []"
    using assms(1,2) by (auto simp: join_macro_def try_join_macro_def split: if_splits)
  show "drive (join_poll poll cx) n ss = Inr (let vs = map (first_ready poll cx n) fs in if None \<in> set vs then None else Some (map the vs))"
    using join_drive [OF slots_new(3) slots_new(4) [OF ss(2)], of poll cx n] unfolding ss(1) slots_new(1) .
  show "try_result_ok (map (first_ready tpoll cx n) ts) (drive (try_join_poll tpoll cx) n us)"
    using try_join_drive [OF slots_new(3) slots_new(4) [OF us(2)], of tpoll cx n] unfolding us(1) slots_new(2) .
  define order where "order = rotate start [0..<length bs]"
  have order: "distinct order" "set order = {..<length bs}" by (auto simp: order_def)
  obtain fs1 d1 r1 where loop: "select_loop spoll matches cx order bs disabled = (fs1, d1, r1)"
    by (metis prod_cases3)
  note spec = select_loop_spec [OF order(1) _ loop]
  have spec: "length fs1 = length bs" "length d1 = length bs"
    "case find (hits spoll matches cx bs disabled) order of
       Some i \<Rightarrow> \<exists>v. r1 = Some (i, v) \<and> snd (spoll (bs ! i) cx) = Ready v
     | None \<Rightarrow> r1 = None \<and> (\<forall>i < length bs. d1 ! i = ends spoll cx bs disabled i \<and>
         fs1 ! i = (if disabled ! i then bs ! i else fst (spoll (bs ! i) cx)))"
    using spec assms(4) unfolding order(2) by (auto split: option.splits)
  have poll: "select_poll spoll matches start cx bs disabled = (case r1 of
      Some (i, v) \<Rightarrow> (fs1, d1, Ready (Branch i v)) | None \<Rightarrow> (fs1, d1, if list_all (\<lambda>d. d) d1 then Ready Disabled else Pending))"
    using loop by (simp add: select_poll_def select_order [OF assms(3)] order_def split: option.splits)
  show "case find (hits spoll matches cx bs disabled) (rotate start [0..<length bs]) of
       Some i \<Rightarrow> \<exists>v. res = Ready (Branch i v) \<and> snd (spoll (bs ! i) cx) = Ready v
     | None \<Rightarrow> (\<forall>i < length bs. disabled' ! i = ends spoll cx bs disabled i \<and> (\<not> disabled ! i \<longrightarrow> bs' ! i = fst (spoll (bs ! i) cx))) \<and>
         res = (if \<forall>i < length bs. ends spoll cx bs disabled i then Ready Disabled else Pending)"
    unfolding order_def [symmetric] using spec(2,3) poll assms(5) by (auto simp: list_all_length split: option.splits)
qed

text \<open>Futures that are ready at the poll with the number they hold.\<close>

definition countdown :: "(nat, nat) poll_fun" where
  "countdown f cx = (if f = 0 then (0, Ready 7) else (f - 1, Pending))"

definition countdown_ok :: "(nat, nat + nat) poll_fun" where
  "countdown_ok f cx = (if f = 0 then (0, Ready (Inr 7)) else (f - 1, Pending))"

theorem combinators_drive_their_futures_witness:
  "drive (join_poll countdown 0) 3 [slot_new 2, slot_new 0] = Inr (Some [7, 7]) \<and>
   (\<exists>v. snd (snd (select_poll countdown (\<lambda>_ _. True) 1 0 [0, 1, 0] [False, False, False])) = Ready (Branch 2 v))"
proof -
  obtain bs' disabled' res where sel: "select_poll countdown (\<lambda>_ _. True) 1 0 [0, 1, 0] [False, False, False] = (bs', disabled', res)"
    by (metis prod_cases3)
  have macro: "join_macro [2, 0::nat] = Some [slot_new 2, slot_new 0]" "try_join_macro [0::nat] = Some [slot_new 0]"
    by (simp_all add: join_macro_def try_join_macro_def)
  have len: "1 < length [0, 1, 0::nat]" "length [False, False, False] = length [0, 1, 0::nat]" by simp_all
  have fnd: "find (hits countdown (\<lambda>_ _. True) 0 [0, 1, 0] [False, False, False]) (rotate 1 [0..<length [0, 1, 0::nat]]) = Some 2" by code_simp
  have vs: "map (first_ready countdown 0 3) [2, 0] = [Some 7, Some 7]" by code_simp
  from combinators_drive_their_futures [OF macro len sel, of countdown 3 countdown_ok, unfolded fnd vs] sel show ?thesis by (auto simp: Let_def)
qed

end
