(* ===== verification/Ffrt_Handles.thy ===== *)
theory Ffrt_Handles
  imports Ffrt_Prelude
begin

text \<open>
  What the crate hands to FFRT and gets back: the closures of tasks and queues (\<open>task/task.rs\<close>, \<open>queue.rs\<close>), the timers of a loop
  (\<open>looper.rs\<close>), and the numbers for priorities and service classes (\<open>task/qos.rs\<close>, \<open>task/priority.rs\<close>, \<open>task/attr.rs\<close>). FFRT itself is a
  C library: what it returns is an argument, and the order of its callbacks is that of the steps.
\<close>

section \<open>Closures\<close>

text \<open>
  The storage of a task has a pointer to the closure, or null. \<open>Ran\<close> and \<open>Dropped\<close> are what happens to the closure. The functions for queues
  are the same as those for tasks.
\<close>

record 'f task_wrapper =
  tw_func :: "'f option"

datatype 'f func_event = Ran 'f | Dropped 'f

definition prepare_task :: "bool \<Rightarrow> 'f \<Rightarrow> 'f task_wrapper panicky" where
  "prepare_task allocated func = (if \<not> allocated then Inl ''failed to allocate FFRT queue task'' else Inr \<lparr>tw_func = Some func\<rparr>)"

definition task_submit :: "bool \<Rightarrow> 'f \<Rightarrow> 'f task_wrapper panicky" where
  "task_submit allocated func = (if \<not> allocated then Inl ''failed to allocate FFRT task'' else Inr \<lparr>tw_func = Some func\<rparr>)"

definition task_exec :: "'f task_wrapper \<Rightarrow> 'f task_wrapper \<times> 'f func_event list" where
  "task_exec w = (case tw_func w of None \<Rightarrow> (w, []) | Some f \<Rightarrow> (w\<lparr>tw_func := None\<rparr>, [Ran f]))"

definition task_destroy :: "'f task_wrapper \<Rightarrow> 'f func_event list" where
  "task_destroy w = (case tw_func w of None \<Rightarrow> [] | Some f \<Rightarrow> [Dropped f])"

definition queue_task_exec :: "'f task_wrapper \<Rightarrow> 'f task_wrapper \<times> 'f func_event list" where
  "queue_task_exec w = (case tw_func w of None \<Rightarrow> (w, []) | Some f \<Rightarrow> (w\<lparr>tw_func := None\<rparr>, [Ran f]))"

definition queue_task_destroy :: "'f task_wrapper \<Rightarrow> 'f func_event list" where
  "queue_task_destroy w = (case tw_func w of None \<Rightarrow> [] | Some f \<Rightarrow> [Dropped f])"

fun exec_times :: "('f task_wrapper \<Rightarrow> 'f task_wrapper \<times> 'f func_event list) \<Rightarrow> nat \<Rightarrow> 'f task_wrapper \<Rightarrow> 'f task_wrapper \<times> 'f func_event list" where
  "exec_times exec 0 w = (w, [])"
| "exec_times exec (Suc n) w = (let (w, es) = exec w; (w, es') = exec_times exec n w in (w, es @ es'))"

text \<open>Whether FFRT runs a task or cancels it, its closure is run or dropped, and that once.\<close>

lemma exec_again: "exec_times task_exec n \<lparr>tw_func = None\<rparr> = (\<lparr>tw_func = None\<rparr>, [])"
  by (induction n) (simp_all add: task_exec_def)

lemma closure_used_once:
  assumes "task_submit True f = Inr w" "exec_times task_exec n w = (w', es)"
  shows "es @ task_destroy w' = [if n = 0 then Dropped f else Ran f]"
  using assms by (cases n) (auto simp: task_submit_def task_exec_def task_destroy_def exec_again)

lemma queue_closure_used_once:
  assumes "prepare_task True f = Inr w" "exec_times queue_task_exec n w = (w', es)"
  shows "es @ queue_task_destroy w' = [if n = 0 then Dropped f else Ran f]"
proof -
  have eq: "queue_task_exec = (task_exec :: 'a task_wrapper \<Rightarrow> _)" "queue_task_destroy = (task_destroy :: 'a task_wrapper \<Rightarrow> _)"
    by (simp_all add: fun_eq_iff queue_task_exec_def task_exec_def queue_task_destroy_def task_destroy_def)
  have "task_submit True f = Inr w" using assms(1) by (simp add: prepare_task_def task_submit_def)
  then show ?thesis using assms(2) unfolding eq by (rule closure_used_once)
qed

section \<open>Numbers\<close>

datatype qos = QosInherit | QosBackground | QosUtility | QosDefault | QosUserInitiated

definition qos_code :: "qos \<Rightarrow> int" where
  "qos_code q = (case q of QosInherit \<Rightarrow> - 1 | QosBackground \<Rightarrow> 0 | QosUtility \<Rightarrow> 1 | QosDefault \<Rightarrow> 2 | QosUserInitiated \<Rightarrow> 3)"

definition qos_from :: "int \<Rightarrow> qos panicky" where
  "qos_from c =
     (if c = - 1 then Inr QosInherit else if c = 0 then Inr QosBackground else if c = 1 then Inr QosUtility
      else if c = 2 then Inr QosDefault else if c = 3 then Inr QosUserInitiated else Inl ''internal error: entered unreachable code'')"

datatype task_priority = PriorityImmediate | PriorityHigh | PriorityLow | PriorityIdle

definition priority_code :: "task_priority \<Rightarrow> int" where
  "priority_code p = (case p of PriorityImmediate \<Rightarrow> 0 | PriorityHigh \<Rightarrow> 1 | PriorityLow \<Rightarrow> 2 | PriorityIdle \<Rightarrow> 3)"

definition priority_from :: "int \<Rightarrow> task_priority panicky" where
  "priority_from c =
     (if c = 0 then Inr PriorityImmediate else if c = 1 then Inr PriorityHigh else if c = 2 then Inr PriorityLow
      else if c = 3 then Inr PriorityIdle else Inl ''internal error: entered unreachable code'')"

lemma code_roundtrip: "qos_from (qos_code q) = Inr q" "priority_from (priority_code p) = Inr p"
  by (cases q; simp add: qos_from_def qos_code_def) (cases p; simp add: priority_from_def priority_code_def)

text \<open>The attributes that FFRT keeps for a task; \<open>clone\<close> reads them all and sets them on a new object.\<close>

record task_attr =
  ta_name :: string
  ta_qos :: int
  ta_delay :: u64
  ta_priority :: int
  ta_stack_size :: u64

definition attr_set_name :: "task_attr \<Rightarrow> string \<Rightarrow> task_attr panicky" where
  "attr_set_name a name = (if CHR 0x00 \<in> set name then Inl ''task name must not contain NUL'' else Inr (a\<lparr>ta_name := name\<rparr>))"

definition attr_clone :: "task_attr \<Rightarrow> task_attr \<Rightarrow> task_attr panicky" where
  "attr_clone fresh a =
     (case attr_set_name fresh (ta_name a) of Inl e \<Rightarrow> Inl e | Inr c \<Rightarrow>
       (case qos_from (ta_qos a) of Inl e \<Rightarrow> Inl e | Inr q \<Rightarrow>
         (case priority_from (ta_priority a) of Inl e \<Rightarrow> Inl e | Inr p \<Rightarrow>
            Inr (c\<lparr>ta_qos := qos_code q, ta_delay := ta_delay a, ta_priority := priority_code p, ta_stack_size := ta_stack_size a\<rparr>))))"

lemma attr_clone_equal:
  assumes "CHR 0x00 \<notin> set (ta_name a)" "ta_qos a = qos_code q" "ta_priority a = priority_code p"
  shows "attr_clone fresh (a :: task_attr) = Inr a"
  using assms by (cases a, cases fresh) (simp add: attr_clone_def attr_set_name_def code_roundtrip)

section \<open>Running a loop\<close>

definition looper_run_begin :: "bool \<Rightarrow> bool \<times> (int + unit)" where
  "looper_run_begin is_running = (if is_running then (True, Inl (- 1)) else (True, Inr ()))"

definition looper_run_end :: "int \<Rightarrow> bool \<times> (int + unit)" where
  "looper_run_end ret = (False, if ret = 0 then Inr () else Inl ret)"

section \<open>The timers of a loop\<close>

text \<open>
  \<open>TimerData\<close>, with the number of strong references to it; the memory is released when it becomes zero. One reference belongs to
  the handle, one to FFRT while \<open>registration_owned\<close>, and each running callback has one.
\<close>

record timer_data =
  td_repeat :: bool
  td_owned :: bool
  td_strong :: nat

definition release_registration :: "timer_data \<Rightarrow> timer_data" where
  "release_registration d = (if td_owned d then d\<lparr>td_owned := False, td_strong := td_strong d - 1\<rparr> else d)"

definition try_timer_start :: "int \<Rightarrow> bool \<Rightarrow> timer_data \<times> (int + unit)" where
  "try_timer_start handle repeat =
     (let d = \<lparr>td_repeat = repeat, td_owned = True, td_strong = 2\<rparr> in
      if handle < 0 then (let d = release_registration d in (d\<lparr>td_strong := td_strong d - 1\<rparr>, Inl (- 1))) else (d, Inr ()))"

definition timer_callback_begin :: "timer_data \<Rightarrow> timer_data" where
  "timer_callback_begin d = d\<lparr>td_strong := td_strong d + 1\<rparr>"

definition timer_callback_end :: "timer_data \<Rightarrow> timer_data" where
  "timer_callback_end d = (let d = (if \<not> td_repeat d then release_registration d else d) in d\<lparr>td_strong := td_strong d - 1\<rparr>)"

text \<open>\<open>LooperTimer::stop\<close>: the check, and what follows the call of FFRT. The result has whether the timer is still active.\<close>

definition timer_stop_check :: "timer_data \<Rightarrow> bool \<Rightarrow> (bool \<times> (int + unit)) option" where
  "timer_stop_check d active = (if \<not> active \<or> \<not> td_owned d then Some (False, Inr ()) else None)"

definition timer_stop_call :: "timer_data \<Rightarrow> int \<Rightarrow> timer_data \<times> bool \<times> (int + unit)" where
  "timer_stop_call d ret =
     (if ret = 0 then (release_registration d, False, Inr ())
      else if \<not> td_owned d then (d, False, Inr ())
      else (d, True, Inl ret))"

text \<open>
  A timer that was started: whether the handle exists and is active, whether a call of \<open>stop\<close> has passed its check, whether FFRT may still start a
  callback, and how many run. FFRT starts the callback of a one-shot timer once, and stopping succeeds exactly while the timer is armed.
\<close>

record looper_timer =
  lt_data :: timer_data
  lt_handle :: bool
  lt_active :: bool
  lt_stopping :: bool
  lt_armed :: bool
  lt_running :: nat

inductive lt_step :: "looper_timer \<Rightarrow> looper_timer \<Rightarrow> bool" where
  fire: "lt_armed t \<Longrightarrow> lt_step t (t\<lparr>lt_data := timer_callback_begin (lt_data t), lt_armed := td_repeat (lt_data t), lt_running := lt_running t + 1\<rparr>)"
| callback_end: "0 < lt_running t \<Longrightarrow> lt_step t (t\<lparr>lt_data := timer_callback_end (lt_data t), lt_running := lt_running t - 1\<rparr>)"
| stop_check: "lt_handle t \<Longrightarrow> \<not> lt_stopping t \<Longrightarrow>
    lt_step t (case timer_stop_check (lt_data t) (lt_active t) of Some (active, _) \<Rightarrow> t\<lparr>lt_active := active\<rparr> | None \<Rightarrow> t\<lparr>lt_stopping := True\<rparr>)"
| stop_call: "lt_stopping t \<Longrightarrow> (ret = 0 \<longleftrightarrow> lt_armed t) \<Longrightarrow> timer_stop_call (lt_data t) ret = (d, active, res) \<Longrightarrow>
    lt_step t (t\<lparr>lt_data := d, lt_active := active, lt_stopping := False, lt_armed := False\<rparr>)"
| drop: "lt_handle t \<Longrightarrow> \<not> lt_stopping t \<Longrightarrow> \<not> lt_armed t \<Longrightarrow>
    lt_step t (t\<lparr>lt_data := (lt_data t)\<lparr>td_strong := td_strong (lt_data t) - 1\<rparr>, lt_handle := False\<rparr>)"

inductive lt_reach :: "looper_timer \<Rightarrow> bool" where
  start: "try_timer_start handle repeat = (d, Inr ()) \<Longrightarrow>
    lt_reach \<lparr>lt_data = d, lt_handle = True, lt_active = True, lt_stopping = False, lt_armed = True, lt_running = 0\<rparr>"
| step: "lt_reach t \<Longrightarrow> lt_step t t' \<Longrightarrow> lt_reach t'"

definition timer_inv :: "looper_timer \<Rightarrow> bool" where
  "timer_inv t \<longleftrightarrow>
     td_strong (lt_data t) = (if lt_handle t then 1 else 0) + (if td_owned (lt_data t) then 1 else 0) + lt_running t \<and>
     (lt_armed t \<longrightarrow> td_owned (lt_data t) \<and> lt_handle t) \<and> (lt_stopping t \<longrightarrow> lt_handle t) \<and>
     (td_owned (lt_data t) \<longrightarrow> lt_armed t \<or> \<not> td_repeat (lt_data t) \<and> 0 < lt_running t) \<and>
     (\<not> td_repeat (lt_data t) \<and> lt_armed t \<longrightarrow> lt_running t = 0) \<and> (\<not> td_repeat (lt_data t) \<longrightarrow> lt_running t \<le> 1)"

lemma timer_inv_step: "lt_step t t' \<Longrightarrow> timer_inv t \<Longrightarrow> timer_inv t'"
proof (induction rule: lt_step.induct)
  case (fire t)
  then show ?case by (auto simp: timer_inv_def timer_callback_begin_def)
next
  case (callback_end t)
  then show ?case by (auto simp: timer_inv_def timer_callback_end_def release_registration_def Let_def)
next
  case (stop_check t)
  then show ?case by (auto simp: timer_inv_def timer_stop_check_def split: if_splits)
next
  case (stop_call t ret d active res)
  then show ?case by (auto simp: timer_inv_def timer_stop_call_def release_registration_def split: if_splits)
next
  case (drop t)
  then show ?case by (auto simp: timer_inv_def)
qed

lemma timer_inv_reach: "lt_reach t \<Longrightarrow> timer_inv t"
proof (induction rule: lt_reach.induct)
  case (start handle repeat d)
  then have "d = \<lparr>td_repeat = repeat, td_owned = True, td_strong = 2\<rparr>" by (simp add: try_timer_start_def Let_def split: if_splits)
  then show ?case by (simp add: timer_inv_def)
next
  case (step t t')
  from timer_inv_step [OF step(2,3)] show ?case .
qed

text \<open>
  A callback that FFRT starts finds the data alive, and it stays alive while it runs; when the handle is gone and no callback
  runs, the data has been released.
\<close>

lemma looper_timer_memory:
  assumes "lt_reach t"
  shows "(lt_armed t \<or> 0 < lt_running t \<longrightarrow> 0 < td_strong (lt_data t)) \<and>
    (\<not> lt_handle t \<and> lt_running t = 0 \<longleftrightarrow> td_strong (lt_data t) = 0)"
  using timer_inv_reach [OF assms] unfolding timer_inv_def by (cases "lt_handle t"; cases "td_owned (lt_data t)") auto

lemma timer_start_failure: "handle < 0 \<Longrightarrow> td_strong (fst (try_timer_start handle repeat)) = 0"
  by (simp add: try_timer_start_def release_registration_def Let_def)

end
