(* ===== verification/Spec2Isabelle.thy ===== *)
theory Spec2Isabelle
  imports Semaphore Async_Mutex Async_RwLock Notify Barrier Once Broadcast Watch Mpsc_System Oneshot Io_Copy Io_Pipe Io_Standard Timer Reactor Join_Set Fs_File Unix_Signal Tcp_Socket Child_Process Local_Set Combinators Ffrt_Handles
begin

text \<open>
  A verification of the asynchronous runtime \<open>ffrt\<close> for OpenHarmony: a Rust library with the interface of Tokio on top of the FFRT
  scheduler. All file names below are relative to \<open>src/crates/ffrt/src\<close>.

  \<^bold>\<open>The program.\<close> A future is polled with a waker and is pending or ready. A spawned future runs on an FFRT worker
  (\<open>runtime/inner_runtime.rs\<close>), which polls it, sleeps until its waker fires and polls again, until the future is done, panics or is
  aborted, and sends the result to a \<open>JoinHandle\<close>. Tasks wait for each other through the primitives of \<open>sync/\<close> and the channels of
  \<open>signal/\<close>, for the clock through \<open>timer/\<close>, and for the operating system through the reactor (\<open>reactor.rs\<close>), whose thread calls
  back when a descriptor is ready. \<open>io.rs\<close> has the traits for byte streams with their adapters and extension futures, \<open>fs.rs\<close> puts
  files behind them.

  \<^bold>\<open>How the code is modelled.\<close> A struct is a record, an enum a datatype, a function a HOL function; what a method changes is returned.
  Code that runs under one lock, and a single atomic operation, is one step; where a method takes a lock several times or mixes atomics with a lock, its
  parts are definitions of their own (\<open>timer_fire_store\<close> and \<open>timer_fire_take\<close>, \<open>finish_swap\<close> and \<open>finish_take\<close>, \<open>duplex_drop_outgoing\<close> and \<open>duplex_drop_incoming\<close>) and
  the systems interleave them. Wakers are numbers, and operations return those they wake. A \<open>panic!\<close>, a failed \<open>expect\<close>, an index out of range and
  an overflow check are the left side of a sum, as are errors. \<open>u64\<close> and \<open>u32\<close> are words, \<open>usize\<close> is a natural
  number with its checked operations, also in the counters of handles. Every component has an inductive system of its handles, futures and tasks, with the bookkeeping that the
  statements need: who waits and has not been woken (\<open>unpark\<close> removes those whose wakers an operation returns), what the operations were asked to do
  and what they returned. Its theorems hold in all reachable states, that is for all
  interleavings.

  \<^bold>\<open>Theories.\<close>
  \<^item> \<open>Ffrt_Prelude\<close>: polls, panics, machine integers, lists of wakers, the collections of simplification rules.
  \<^item> \<open>Waiter_Queue\<close>: the contract of a lock with a queue of waiters. The locale \<open>waiter_queue\<close> has the operations of
    such a lock and the laws its code obeys, \<open>fair_waiter_queue\<close> adds that only the front is served. The transition system of futures that
    are created, polled, moved to other tasks and dropped is defined once, and order of service and absence of lost wake-ups are proved once.
  \<^item> \<open>Semaphore\<close>, \<open>Async_Mutex\<close>, \<open>Async_RwLock\<close> (\<open>sync/semaphore.rs\<close>, \<open>mutex.rs\<close>, \<open>rwlock.rs\<close>): state, futures, guards,
    and the interpretations of these locales. C1 to C7: permits are conserved, exclusion, service in order, no lost wake-up.
  \<^item> \<open>Notify\<close>, \<open>Barrier\<close>, \<open>Once\<close> (\<open>sync/notify.rs\<close>, \<open>barrier.rs\<close>, \<open>once_cell.rs\<close>, \<open>set_once.rs\<close>): C8 to C12: a notification
    reaches exactly one future, rounds of a barrier do not mix, one initialisation and its publication.
  \<^item> \<open>Broadcast\<close>, \<open>Watch\<close> (\<open>sync/broadcast.rs\<close>, \<open>watch.rs\<close>), \<open>Mpsc\<close>, \<open>Mpsc_System\<close>, \<open>Oneshot\<close> (\<open>signal/mpsc.rs\<close>, \<open>oneshot.rs\<close>): C13 to
    C21: what is delivered, in which order, how often; capacities; the end of a channel; wake-ups of both ends.
  \<^item> \<open>Io_ReadBuf\<close>, \<open>Io_Read\<close>, \<open>Io_Futures\<close>, \<open>Io_BufRead\<close>, \<open>Io_BufWrite\<close>, \<open>Io_Copy\<close>, \<open>Io_Pipe\<close>, \<open>Io_Standard\<close> (\<open>io.rs\<close>): the
    contracts \<open>async_reader\<close>, \<open>async_buf_reader\<close>, \<open>async_writer\<close>, \<open>vectored_writer\<close>, \<open>flushing_writer\<close>, \<open>io_stream\<close>
    and \<open>copying\<close> say what a reader has still to deliver and what a writer has taken. The adapters are proved to satisfy them over any reader and writer
    that does, so the results compose: C22 to C30.
  \<^item> \<open>Timer\<close> (\<open>timer/sleep.rs\<close>, \<open>timeout.rs\<close>, \<open>interval.rs\<close>): C31, C32. \<open>Reactor\<close> (\<open>reactor.rs\<close>): C33.
  \<^item> \<open>Task_Runtime\<close> (\<open>runtime/inner_runtime.rs\<close>, \<open>waker.rs\<close>, \<open>error.rs\<close>): C34. \<open>Join_Set\<close> (\<open>task/join_set.rs\<close>), over the
    channel of \<open>Mpsc\<close>: C35. \<open>Local_Set\<close> (\<open>task/local_set.rs\<close>, \<open>task/task_local.rs\<close>): C39: no task of the set that needs a poll is forgotten, and none loses its result.
  \<^item> \<open>Fs_File\<close> (\<open>fs.rs\<close>): C36. A \<open>File\<close> refines a plain file, whose bytes and position are those its user has been told; reads and
    writes may fail, a write that fails after it was accepted is owed to the next operation. Seeks that fail and the operations with owned buffers are outside C36: the lemmas
    beside it show that they do not keep the position.
  \<^item> \<open>Unix_Signal\<close> (\<open>signal/unix.rs\<close>), over the descriptors of \<open>Reactor\<close>: C37: every signal that reached the socket is counted, and listeners are told, also when a read of the socket fails.
  \<^item> \<open>Net_Stream\<close> (\<open>net.rs\<close>, \<open>net_unix.rs\<close>, \<open>net_unix_pipe.rs\<close>): streams, datagram sockets, listeners and pipes over a descriptor,
    and C38: a stream over a connected socket, whose descriptor can be registered again, is a faithful reader and writer, also under a \<open>BufWriter\<close> that is flushed or shut down. \<open>Tcp_Socket\<close> (\<open>net_tcp_socket.rs\<close> and \<open>connect_addr\<close>): addresses and options,
    and that they survive encoding and decoding. \<open>Child_Process\<close> (\<open>process.rs\<close>): commands, the standard streams of a child, waiting and killing.
  \<^item> \<open>Combinators\<close> (\<open>macros.rs\<close> and \<open>crates/ffrt-macros\<close>: what \<open>join!\<close>, \<open>try_join!\<close> and
    \<open>select!\<close> expand to): C40, where the branches of \<open>select!\<close> are tried in cyclic order. \<open>Ffrt_Handles\<close>: closures given to
    FFRT, quality of service, priorities and task attributes, and the timers of an event loop.

  \<^bold>\<open>Loops.\<close> Loops that end are functions with a measure (\<open>file_read_loop\<close>, \<open>file_poll_complete\<close>). The loops of \<open>io.rs\<close> over
  an arbitrary reader or writer have fuel; the theorems show that the length of the content bounds the rounds, so that with as much fuel they return.
  The loop \<open>poll_io\<close> of a socket has fuel because it can run for ever, which the lemma \<open>poll_io_spins\<close> shows.
  The loop of a task is a program counter of the system.

  \<^bold>\<open>Assumptions.\<close> A standard mutex excludes, a waker wakes the task it was made for, atomics are sequentially consistent. A parameter
  that stands for the outside has its documented behaviour as a named hypothesis: \<open>rd_ok\<close> for \<open>read\<close> on a file, the locales for readers and
  writers. The outcomes of system calls, of starting a timer and of spawning a task, and readings of the clock, are arguments that range over
  all values.

  \<^bold>\<open>Not modelled.\<close> Bindings to the FFRT library (\<open>crates/sys\<close>) and the wrappers that only call it (\<open>lock/\<close>, \<open>this_task.rs\<close>), since the
  library is not part of the sources; the attribute macros and the parsers of the other macros, which produce code and have no state; the extension for
  Node-API, which calls foreign code only; tracing; getters and setters that forward one call to the standard library.
\<close>

end
